(* ===== verification/Memlay_Prelude.thy ===== *)
theory Memlay_Prelude
  imports Main "HOL-Library.Word" "HOL-Library.List_Lexorder" "HOL-Library.Multiset"
begin

text \<open>
  Shared vocabulary of the development: the machine types of the Rust sources as words, Rust
  strings as UTF-8 byte strings with their \<open>chars\<close> iterator, and the generic facts on
  options, lists, finite maps and sorted lists that the component theories use.
\<close>

unbundle bit_operations_syntax

section \<open>Machine types\<close>

text \<open>
  \<open>usize\<close> is 64 bits wide: the relay is deployed on 64-bit targets. An array \<open>[u8; 32]\<close> is a
  byte list; where its length matters it is stated (\<open>length b = 32\<close>). The order of arrays
  is the lexicographic one of \<^verbatim>\<open>HOL-Library.List_Lexorder\<close>, as in Rust.
\<close>

type_synonym byte = "8 word"
type_synonym bytes = "byte list"
type_synonym u32 = "32 word"
type_synonym u64 = "64 word"
type_synonym usize = "64 word"

section \<open>Rust strings\<close>

text \<open>
  A Rust \<open>String\<close> is UTF-8; it is modelled by its bytes, an Isabelle \<open>string\<close> (whose
  characters are bytes). \<open>s.len()\<close> is then \<open>length s\<close>, and \<open>s.chars()\<close> groups the bytes
  by the length that a leading byte announces; a Rust \<open>char\<close> is represented by its UTF-8 bytes.
\<close>

definition utf8_len :: "char \<Rightarrow> nat" where
  "utf8_len c =
     (let b = of_char c :: nat in
      if b < 128 then 1 else if b < 224 then 2 else if b < 240 then 3 else 4)"

fun chars :: "string \<Rightarrow> string list" where
  "chars [] = []"
| "chars (c # cs) =
     (c # take (utf8_len c - 1) cs) # chars (drop (utf8_len c - 1) cs)"

text \<open>\<open>(chars.next(), chars.next())\<close> matched against \<open>(Some(letter), None)\<close>.\<close>

definition single_char :: "string \<Rightarrow> string option" where
  "single_char s = (case chars s of [c] \<Rightarrow> Some c | _ \<Rightarrow> None)"

lemma concat_chars: "concat (chars s) = s"
  by (induction s rule: chars.induct) auto

lemma single_char_id: "single_char s = Some c \<Longrightarrow> c = s"
  using concat_chars [of s] by (auto simp: single_char_def split: list.splits)

text \<open>\<open>str::from_utf8\<close>: the well-formed byte sequences of the Unicode standard.\<close>

definition utf8_cont :: "byte \<Rightarrow> bool" where
  "utf8_cont b \<longleftrightarrow> 0x80 \<le> b \<and> b \<le> 0xBF"

function utf8_valid :: "bytes \<Rightarrow> bool" where
  "utf8_valid bs =
     (case bs of
        [] \<Rightarrow> True
      | b # r \<Rightarrow>
          if b < 0x80 then utf8_valid r
          else if 0xC2 \<le> b \<and> b \<le> 0xDF then
            (case r of c # r' \<Rightarrow> utf8_cont c \<and> utf8_valid r' | _ \<Rightarrow> False)
          else if 0xE0 \<le> b \<and> b \<le> 0xEF then
            (case r of
               c # d # r' \<Rightarrow>
                 utf8_cont c \<and> utf8_cont d \<and> (b = 0xE0 \<longrightarrow> 0xA0 \<le> c) \<and>
                 (b = 0xED \<longrightarrow> c \<le> 0x9F) \<and> utf8_valid r'
             | _ \<Rightarrow> False)
          else if 0xF0 \<le> b \<and> b \<le> 0xF4 then
            (case r of
               c # d # e # r' \<Rightarrow>
                 utf8_cont c \<and> utf8_cont d \<and> utf8_cont e \<and> (b = 0xF0 \<longrightarrow> 0x90 \<le> c) \<and>
                 (b = 0xF4 \<longrightarrow> c \<le> 0x8F) \<and> utf8_valid r'
             | _ \<Rightarrow> False)
          else False)"
  by pat_completeness auto
termination by (relation "measure length") auto

declare utf8_valid.simps [simp del]

section \<open>Generic facts\<close>

named_theorems frame_simps \<open>which fields of a state an operation leaves alone\<close>

lemma map_filter_set: "set (List.map_filter f xs) = {y. \<exists>x \<in> set xs. f x = Some y}"
  by (induction xs) (auto split: option.splits)

lemma unat_of_nat_u64: "n < 2 ^ 64 \<Longrightarrow> unat (of_nat n :: u64) = n"
  by (simp add: unsigned_of_nat take_bit_nat_eq_self)

lemma of_nat_u64_0: "n < 2 ^ 64 \<Longrightarrow> (of_nat n :: u64) = 0 \<longleftrightarrow> n = 0"
  by (simp add: word_unat_eq_iff unat_of_nat_u64)

text \<open>
  The iteration order of a hash container is unspecified: it is an argument of the definitions
  that iterate, and all that the code may rely on is that it lists every element once.
\<close>

definition enumerates :: "('a set \<Rightarrow> 'a list) \<Rightarrow> bool" where
  "enumerates ord \<longleftrightarrow> (\<forall>S. finite S \<longrightarrow> distinct (ord S) \<and> set (ord S) = S)"

lemma enumeratesD:
  assumes "enumerates ord" "finite S"
  shows "distinct (ord S)" "set (ord S) = S"
  using assms by (auto simp: enumerates_def)

lemma enumerates_sorted_list_of_set: "enumerates (sorted_list_of_set :: 'a :: linorder set \<Rightarrow> 'a list)"
  by (simp add: enumerates_def)

text \<open>
  A map whose values name their own key, such as the primary index of the store.
\<close>

definition keyed :: "('v \<Rightarrow> 'k) \<Rightarrow> ('k \<rightharpoonup> 'v) \<Rightarrow> bool" where
  "keyed key m \<longleftrightarrow> (\<forall>k v. m k = Some v \<longrightarrow> key v = k)"

lemma keyedD: "keyed key m \<Longrightarrow> m k = Some v \<Longrightarrow> key v = k"
  by (simp add: keyed_def)

lemma keyed_ranD: "keyed key m \<Longrightarrow> v \<in> ran m \<Longrightarrow> m (key v) = Some v"
  by (auto simp: keyed_def ran_def)

lemma keyed_ran_iff: "keyed key m \<Longrightarrow> v \<in> ran m \<longleftrightarrow> m (key v) = Some v"
  by (auto simp: keyed_def ran_def)

lemma keyed_empty [simp]: "keyed key Map.empty"
  by (simp add: keyed_def)

lemma keyed_upd: "keyed key m \<Longrightarrow> keyed key (m(key v \<mapsto> v))"
  by (simp add: keyed_def)

lemma keyed_del: "keyed key m \<Longrightarrow> keyed key (m(k := None))"
  by (simp add: keyed_def)

lemma keyed_inj: "keyed key m \<Longrightarrow> inj_on key (ran m)"
  by (rule inj_onI) (simp add: keyed_ran_iff)

lemma ran_keyed_del:
  assumes "keyed key m" "m k = Some v"
  shows "ran (m(k := None)) = ran m - {v}"
proof -
  have "w \<in> ran (m(k := None)) \<longleftrightarrow> w \<in> ran m \<and> w \<noteq> v" for w
    using assms keyed_del [OF assms(1), of k]
    by (auto simp: keyed_ran_iff dest: keyedD)
  then show ?thesis by blast
qed

lemma ran_keyed_upd:
  "m (key v) = None \<Longrightarrow> ran (m(key v \<mapsto> v)) = insert v (ran m)"
  by (rule ran_map_upd)

lemma finite_ran_dom: "finite (dom m) \<Longrightarrow> finite (ran m)"
  by (rule finite_ran)

lemma keyed_ran_image: "keyed key m \<Longrightarrow> key ` ran m = dom m"
  by (force simp: keyed_def ran_def dom_def)

lemma keyed_card: "keyed key m \<Longrightarrow> card (ran m) = card (dom m)"
  using card_image [OF keyed_inj, of key m] by (simp add: keyed_ran_image)

section \<open>Loops that may panic\<close>

fun fold_opt :: "('a \<Rightarrow> 's \<Rightarrow> 's option) \<Rightarrow> 'a list \<Rightarrow> 's \<Rightarrow> 's option" where
  "fold_opt f [] s = Some s"
| "fold_opt f (x # xs) s = (case f x s of None \<Rightarrow> None | Some s' \<Rightarrow> fold_opt f xs s')"

lemma fold_opt_append:
  "fold_opt g (xs @ ys) s = Option.bind (fold_opt g xs s) (fold_opt g ys)"
  by (induction xs arbitrary: s) (auto split: option.splits)

text \<open>A loop whose body returns and keeps \<open>P\<close> returns and keeps \<open>P\<close>.\<close>

lemma fold_opt_returns:
  assumes "P s" "\<And>x s. x \<in> set xs \<Longrightarrow> P s \<Longrightarrow> \<exists>s'. f x s = Some s' \<and> P s'"
  shows "\<exists>s'. fold_opt f xs s = Some s' \<and> P s'"
  using assms
proof (induction xs arbitrary: s)
  case (Cons x xs)
  from Cons.prems(2) [of x s] Cons.prems(1) obtain s1 where "f x s = Some s1" "P s1" by auto
  then show ?case using Cons.IH [of s1] Cons.prems(2) by simp
qed simp

end
