(* ===== verification/Nostr_Event.thy ===== *)
theory Nostr_Event
  imports Memlay_Prelude
begin

text \<open>
  Nostr events (\<^verbatim>\<open>src/src/event.rs\<close>): the parsed event, its kind classes, the tags the index
  reads, the replacement key, and the two JSON constructors. The hex, JSON, SHA-256 and Schnorr
  crates are not part of the sources: they are the fields of the record \<open>ext\<close>, an argument of
  every definition that calls them; \<open>hex_ok\<close> states what the hex crate documents.
\<close>

section \<open>Data\<close>

record tag =
  tag_name :: string
  tag_values :: "string list"

record event =
  ev_id :: bytes
  ev_pubkey :: bytes
  ev_created_at :: u64
  ev_kind :: u32
  ev_tags :: "tag list"
  ev_content :: string
  ev_sig :: bytes
  ev_raw :: bytes

record raw_event =
  re_id :: string
  re_pubkey :: string
  re_created_at :: u64
  re_kind :: u32
  re_tags :: "string list list"
  re_content :: string
  re_sig :: string

datatype repl_key =
  RK_None
| Replaceable bytes u32
| Addressable bytes u32 string

datatype event_parse_error =
  JsonError | InvalidId | InvalidPubkey | InvalidSignature | IdMismatch | BadSignature

text \<open>
  The foreign functions: \<open>hex::decode\<close>, \<open>FromHex\<close> for \<open>[u8; n]\<close>, \<open>hex::encode\<close>,
  \<open>serde_json::from_slice\<close> at \<open>RawEvent\<close>, \<open>serde_json::to_vec\<close> at the id tuple,
  \<open>Sha256::digest\<close>, \<open>XOnlyPublicKey::from_byte_array\<close> (whether it accepts) and
  \<open>verify_schnorr\<close> (signature, message, key).
\<close>

record ext =
  hex_decode :: "string \<Rightarrow> bytes option"
  from_hex :: "nat \<Rightarrow> string \<Rightarrow> bytes option"
  hex_encode :: "bytes \<Rightarrow> string"
  json_event :: "bytes \<Rightarrow> raw_event option"
  json_id_tuple :: "string \<Rightarrow> u64 \<Rightarrow> u32 \<Rightarrow> string list list \<Rightarrow> string \<Rightarrow> bytes option"
  sha256 :: "bytes \<Rightarrow> bytes"
  xonly_ok :: "bytes \<Rightarrow> bool"
  verify_schnorr :: "bytes \<Rightarrow> bytes \<Rightarrow> bytes \<Rightarrow> bool"

text \<open>
  What the hex crate documents: two digits per byte, an array of the length asked for, the same
  bytes from \<open>FromHex\<close> and \<open>decode\<close>, that decoding undoes encoding, and that encoding yields
  lower-case hex digits.
\<close>

definition hex_ok :: "'x ext_scheme \<Rightarrow> bool" where
  "hex_ok X \<longleftrightarrow>
     (\<forall>s b. hex_decode X s = Some b \<longrightarrow> length s = 2 * length b) \<and>
     (\<forall>n s. from_hex X n s =
        (case hex_decode X s of Some b \<Rightarrow> if length b = n then Some b else None | None \<Rightarrow> None)) \<and>
     (\<forall>b. hex_decode X (hex_encode X b) = Some b) \<and>
     (\<forall>b. set (hex_encode X b) \<subseteq> set ''0123456789abcdef'')"

section \<open>Accessors and kind classes\<close>

definition tag_value :: "tag \<Rightarrow> string option" where
  "tag_value t = (case tag_values t of [] \<Rightarrow> None | v # _ \<Rightarrow> Some v)"

definition parse_hex_32 :: "'x ext_scheme \<Rightarrow> string \<Rightarrow> bytes option" where
  "parse_hex_32 X s = (if length s \<noteq> 64 then None else from_hex X 32 s)"

definition parse_hex_64 :: "'x ext_scheme \<Rightarrow> string \<Rightarrow> bytes option" where
  "parse_hex_64 X s = (if length s \<noteq> 128 then None else from_hex X 64 s)"

definition e_tags :: "'x ext_scheme \<Rightarrow> event \<Rightarrow> bytes list" where
  "e_tags X e =
     List.map_filter
       (\<lambda>t. if tag_name t = ''e'' then Option.bind (tag_value t) (parse_hex_32 X) else None)
       (ev_tags e)"

definition p_tags :: "'x ext_scheme \<Rightarrow> event \<Rightarrow> bytes list" where
  "p_tags X e =
     List.map_filter
       (\<lambda>t. if tag_name t = ''p'' then Option.bind (tag_value t) (parse_hex_32 X) else None)
       (ev_tags e)"

definition is_ephemeral :: "event \<Rightarrow> bool" where
  "is_ephemeral e \<longleftrightarrow> 20000 \<le> ev_kind e \<and> ev_kind e < 30000"

definition is_replaceable :: "event \<Rightarrow> bool" where
  "is_replaceable e \<longleftrightarrow>
     (10000 \<le> ev_kind e \<and> ev_kind e < 20000) \<or> (30000 \<le> ev_kind e \<and> ev_kind e < 40000)"

definition is_addressable :: "event \<Rightarrow> bool" where
  "is_addressable e \<longleftrightarrow> 30000 \<le> ev_kind e \<and> ev_kind e < 40000"

text \<open>\<open>find_map\<close>: the first tag named \<open>d\<close> that has a value.\<close>

fun find_d_tag :: "tag list \<Rightarrow> string option" where
  "find_d_tag [] = None"
| "find_d_tag (t # ts) =
     (case (if tag_name t = ''d'' then tag_value t else None) of
        Some v \<Rightarrow> Some v | None \<Rightarrow> find_d_tag ts)"

definition d_tag :: "event \<Rightarrow> string option" where
  "d_tag e = (if \<not> is_addressable e then None else find_d_tag (ev_tags e))"

definition replacement_key :: "event \<Rightarrow> repl_key" where
  "replacement_key e =
     (if is_addressable e then
        (case d_tag e of
           Some d \<Rightarrow> Addressable (ev_pubkey e) (ev_kind e) d
         | None \<Rightarrow> Replaceable (ev_pubkey e) (ev_kind e))
      else if is_replaceable e then Replaceable (ev_pubkey e) (ev_kind e)
      else RK_None)"

section \<open>Parsing\<close>

definition tags_of_raw :: "string list list \<Rightarrow> tag list" where
  "tags_of_raw arrs =
     List.map_filter
       (\<lambda>a. case a of [] \<Rightarrow> None | n # vs \<Rightarrow> Some \<lparr>tag_name = n, tag_values = vs\<rparr>) arrs"

definition from_json_unchecked :: "'x ext_scheme \<Rightarrow> bytes \<Rightarrow> event_parse_error + event" where
  "from_json_unchecked X json =
     (case json_event X json of
        None \<Rightarrow> Inl JsonError
      | Some r \<Rightarrow>
     (case parse_hex_32 X (re_id r) of
        None \<Rightarrow> Inl InvalidId
      | Some i \<Rightarrow>
     (case parse_hex_32 X (re_pubkey r) of
        None \<Rightarrow> Inl InvalidPubkey
      | Some pk \<Rightarrow>
     (case parse_hex_64 X (re_sig r) of
        None \<Rightarrow> Inl InvalidSignature
      | Some sg \<Rightarrow>
          Inr \<lparr>ev_id = i, ev_pubkey = pk, ev_created_at = re_created_at r, ev_kind = re_kind r,
               ev_tags = tags_of_raw (re_tags r), ev_content = re_content r, ev_sig = sg,
               ev_raw = json\<rparr>))))"

definition from_json :: "'x ext_scheme \<Rightarrow> bytes \<Rightarrow> event_parse_error + event" where
  "from_json X json =
     (case json_event X json of
        None \<Rightarrow> Inl JsonError
      | Some r \<Rightarrow>
     (case parse_hex_32 X (re_id r) of
        None \<Rightarrow> Inl InvalidId
      | Some i \<Rightarrow>
     (case parse_hex_32 X (re_pubkey r) of
        None \<Rightarrow> Inl InvalidPubkey
      | Some pk \<Rightarrow>
     (case parse_hex_64 X (re_sig r) of
        None \<Rightarrow> Inl InvalidSignature
      | Some sg \<Rightarrow>
     (case json_id_tuple X (re_pubkey r) (re_created_at r) (re_kind r) (re_tags r)
             (re_content r) of
        None \<Rightarrow> Inl JsonError
      | Some serialised \<Rightarrow>
          if sha256 X serialised \<noteq> i then Inl IdMismatch
          else if \<not> xonly_ok X pk then Inl InvalidPubkey
          else if \<not> verify_schnorr X sg i pk then Inl BadSignature
          else Inr \<lparr>ev_id = i, ev_pubkey = pk, ev_created_at = re_created_at r,
                    ev_kind = re_kind r, ev_tags = tags_of_raw (re_tags r),
                    ev_content = re_content r, ev_sig = sg, ev_raw = json\<rparr>)))))"

section \<open>Kind classes and replacement keys\<close>

lemmas kind_defs = is_ephemeral_def is_replaceable_def is_addressable_def

lemma addressable_replaceable: "is_addressable e \<Longrightarrow> is_replaceable e"
  by (simp add: kind_defs)

lemma ephemeral_not_replaceable: "is_ephemeral e \<Longrightarrow> \<not> is_replaceable e"
  by (auto simp: kind_defs)

lemma replacement_key_None: "replacement_key e = RK_None \<longleftrightarrow> \<not> is_replaceable e"
  using addressable_replaceable [of e]
  by (auto simp: replacement_key_def split: option.splits)

lemma replacement_key_cases:
  "is_replaceable e \<Longrightarrow>
   (replacement_key e = Replaceable (ev_pubkey e) (ev_kind e) \<or>
    (\<exists>d. d_tag e = Some d \<and> replacement_key e = Addressable (ev_pubkey e) (ev_kind e) d))"
  by (auto simp: replacement_key_def split: option.splits)

lemma parse_hex_32_length: "hex_ok X \<Longrightarrow> parse_hex_32 X s = Some b \<Longrightarrow> length b = 32"
  by (auto simp: hex_ok_def parse_hex_32_def split: if_splits option.splits)

lemma parse_hex_64_length: "hex_ok X \<Longrightarrow> parse_hex_64 X s = Some b \<Longrightarrow> length b = 64"
  by (auto simp: hex_ok_def parse_hex_64_def split: if_splits option.splits)

lemma hex_encode_length: "hex_ok X \<Longrightarrow> length (hex_encode X b) = 2 * length b"
  by (auto simp: hex_ok_def)

lemma parse_hex_32_encode: "hex_ok X \<Longrightarrow> length b = 32 \<Longrightarrow> parse_hex_32 X (hex_encode X b) = Some b"
  using hex_encode_length [of X b] by (auto simp: hex_ok_def parse_hex_32_def)

lemma e_tags_length: "hex_ok X \<Longrightarrow> t \<in> set (e_tags X e) \<Longrightarrow> length t = 32"
  by (auto simp: e_tags_def map_filter_set bind_eq_Some_conv dest: parse_hex_32_length
        split: if_splits)

lemma p_tags_length: "hex_ok X \<Longrightarrow> t \<in> set (p_tags X e) \<Longrightarrow> length t = 32"
  by (auto simp: p_tags_def map_filter_set bind_eq_Some_conv dest: parse_hex_32_length
        split: if_splits)

section \<open>What the constructors accept\<close>

lemmas parse_splits = option.splits if_splits

lemma from_json_raw: "from_json X j = Inr e \<Longrightarrow> ev_raw e = j"
  by (auto simp: from_json_def split: parse_splits)

lemma from_json_unchecked_raw: "from_json_unchecked X j = Inr e \<Longrightarrow> ev_raw e = j"
  by (auto simp: from_json_unchecked_def split: parse_splits)

lemma from_json_implies_unchecked: "from_json X j = Inr e \<Longrightarrow> from_json_unchecked X j = Inr e"
  by (auto simp: from_json_def from_json_unchecked_def split: parse_splits)

end
