(* ===== verification/Deletion.thy ===== *)
theory Deletion
  imports Nostr_Event
begin

text \<open>
  NIP-09 deletion requests (\<^verbatim>\<open>src/src/deletion.rs\<close>): coordinates, the references a kind-5 event
  carries, and their parsers, with \<open>str::splitn\<close> and \<open>u32::from_str\<close> of the standard library
  written out.
\<close>

section \<open>Data\<close>

record coordinate =
  co_kind :: u32
  co_pubkey :: bytes
  co_d_tag :: string

record del_request =
  dr_ids :: "bytes set"
  dr_coordinates :: "coordinate list"

record deletion_outcome =
  deleted_ids :: "bytes list"
  skipped_foreign :: usize
  unknown_coordinates :: usize

definition KIND_DELETION :: u32 where
  "KIND_DELETION = 5"

definition is_deletion_request :: "event \<Rightarrow> bool" where
  "is_deletion_request e \<longleftrightarrow> ev_kind e = KIND_DELETION"

section \<open>Parsers\<close>

text \<open>
  \<open>copy_from_slice\<close> would panic on a slice of another length; \<open>parse_hex_32_pub_eq\<close> shows that
  the length test before it excludes that.
\<close>

definition parse_hex_32_pub :: "'x ext_scheme \<Rightarrow> string \<Rightarrow> bytes option" where
  "parse_hex_32_pub X s = (if length s \<noteq> 64 then None else hex_decode X s)"

text \<open>\<open>s.splitn(n, c)\<close>: at most \<open>n\<close> pieces, the last one holding the rest.\<close>

fun splitn :: "nat \<Rightarrow> char \<Rightarrow> string \<Rightarrow> string list" where
  "splitn 0 c s = []"
| "splitn (Suc 0) c s = [s]"
| "splitn (Suc (Suc n)) c s =
     takeWhile (\<lambda>x. x \<noteq> c) s #
       (case dropWhile (\<lambda>x. x \<noteq> c) s of [] \<Rightarrow> [] | _ # b \<Rightarrow> splitn (Suc n) c b)"

definition digit_value :: "char \<Rightarrow> nat option" where
  "digit_value c =
     (let b = of_char c :: nat in if 48 \<le> b \<and> b \<le> 57 then Some (b - 48) else None)"

text \<open>The digits of \<open>u32::from_str\<close>: \<open>None\<close> for another character and for an overflow.\<close>

fun parse_digits :: "nat \<Rightarrow> string \<Rightarrow> nat option" where
  "parse_digits acc [] = Some acc"
| "parse_digits acc (c # cs) =
     (case digit_value c of
        None \<Rightarrow> None
      | Some d \<Rightarrow> if acc * 10 + d < 2 ^ 32 then parse_digits (acc * 10 + d) cs else None)"

text \<open>The empty string is an error, a sign alone is one too, and a leading \<open>+\<close> is accepted.\<close>

definition parse_u32 :: "string \<Rightarrow> u32 option" where
  "parse_u32 s =
     (let ds = (case s of c # cs \<Rightarrow> if c = CHR ''+'' then cs else s | [] \<Rightarrow> []) in
      if ds = [] then None else map_option of_nat (parse_digits 0 ds))"

definition parse_coordinate :: "'x ext_scheme \<Rightarrow> string \<Rightarrow> coordinate option" where
  "parse_coordinate X s =
     (case splitn 3 CHR '':'' s of
        k # parts \<Rightarrow>
          (case parse_u32 k of
             None \<Rightarrow> None
           | Some kind \<Rightarrow>
             (case parts of
                [] \<Rightarrow> None
              | pubkey_hex # parts' \<Rightarrow>
                  if length pubkey_hex \<noteq> 64 then None
                  else
                    (case hex_decode X pubkey_hex of
                       None \<Rightarrow> None
                     | Some pubkey \<Rightarrow>
                        (case parts' of
                           [] \<Rightarrow> None
                         | d # _ \<Rightarrow>
                             Some \<lparr>co_kind = kind, co_pubkey = pubkey, co_d_tag = d\<rparr>))))
      | [] \<Rightarrow> None)"

definition deletion_request_step ::
    "'x ext_scheme \<Rightarrow> tag \<Rightarrow> del_request \<Rightarrow> del_request" where
  "deletion_request_step X t req =
     (case tag_value t of
        None \<Rightarrow> req
      | Some v \<Rightarrow>
          if tag_name t = ''e'' then
            (case parse_hex_32_pub X v of
               Some i \<Rightarrow> req\<lparr>dr_ids := insert i (dr_ids req)\<rparr> | None \<Rightarrow> req)
          else if tag_name t = ''a'' then
            (case parse_coordinate X v of
               Some c \<Rightarrow> req\<lparr>dr_coordinates := dr_coordinates req @ [c]\<rparr> | None \<Rightarrow> req)
          else req)"

definition deletion_request :: "'x ext_scheme \<Rightarrow> event \<Rightarrow> del_request" where
  "deletion_request X e =
     fold (deletion_request_step X) (ev_tags e) \<lparr>dr_ids = {}, dr_coordinates = []\<rparr>"

section \<open>Hex references\<close>

text \<open>The two hex parsers of the sources agree.\<close>

lemma parse_hex_32_pub_eq: "hex_ok X \<Longrightarrow> parse_hex_32_pub X s = parse_hex_32 X s"
  by (auto simp: parse_hex_32_pub_def parse_hex_32_def hex_ok_def split: option.splits)

section \<open>Decimal numbers\<close>

fun dec_value :: "nat \<Rightarrow> nat list \<Rightarrow> nat" where
  "dec_value acc [] = acc"
| "dec_value acc (d # ds) = dec_value (acc * 10 + d) ds"

lemma dec_value_ge: "acc \<le> dec_value acc ds"
proof (induction ds arbitrary: acc)
  case (Cons d ds)
  have "acc \<le> acc * 10 + d" by simp
  with Cons.IH [of "acc * 10 + d"] show ?case by simp
qed simp

lemma parse_digits_iff:
  "acc < 2 ^ 32 \<Longrightarrow> parse_digits acc s = Some n \<longleftrightarrow>
     (\<exists>ds. map digit_value s = map Some ds \<and> n = dec_value acc ds \<and> n < 2 ^ 32)"
proof (induction s arbitrary: acc)
  case Nil
  then show ?case by auto
next
  case (Cons c cs)
  show ?case
  proof (cases "digit_value c")
    case None
    then show ?thesis by (auto simp: map_eq_Cons_conv Cons_eq_map_conv)
  next
    case (Some d)
    have step: "(\<exists>ds. map digit_value (c # cs) = map Some ds \<and> n = dec_value acc ds \<and> n < 2 ^ 32)
        \<longleftrightarrow> (\<exists>ds. map digit_value cs = map Some ds \<and> n = dec_value (acc * 10 + d) ds \<and> n < 2 ^ 32)"
      using Some by (auto simp: Cons_eq_map_conv)
    show ?thesis
    proof (cases "acc * 10 + d < 2 ^ 32")
      case True
      then show ?thesis unfolding step using Cons.IH [OF True] Some by simp
    next
      case False
      then have "\<not> dec_value (acc * 10 + d) ds < 2 ^ 32" for ds
        using dec_value_ge [of "acc * 10 + d" ds] by linarith
      then show ?thesis unfolding step using Some False by auto
    qed
  qed
qed

text \<open>The decimal notation that \<open>Display\<close> for \<open>u32\<close> produces.\<close>

fun show_digits :: "nat \<Rightarrow> nat list" where
  "show_digits n = (if n < 10 then [n] else show_digits (n div 10) @ [n mod 10])"

declare show_digits.simps [simp del]

definition show_u32 :: "u32 \<Rightarrow> string" where
  "show_u32 k = map (\<lambda>d. char_of (48 + d)) (show_digits (unat k))"

lemma show_digits_less: "d \<in> set (show_digits n) \<Longrightarrow> d < 10"
proof (induction n rule: show_digits.induct)
  case (1 n)
  then show ?case by (subst (asm) (2) show_digits.simps) (auto split: if_splits)
qed

lemma dec_value_append: "dec_value acc (ds @ es) = dec_value (dec_value acc ds) es"
  by (induction ds arbitrary: acc) simp_all

lemma dec_value_show: "dec_value 0 (show_digits n) = n"
proof (induction n rule: show_digits.induct)
  case (1 n)
  then show ?case by (subst show_digits.simps) (simp add: dec_value_append)
qed

lemma show_digits_nonempty: "show_digits n \<noteq> []"
  by (subst show_digits.simps) simp

lemma digit_value_show: "d < 10 \<Longrightarrow> digit_value (char_of (48 + d)) = Some d"
  by (simp add: digit_value_def of_char_of)

lemma show_digits_char:
  fixes d :: nat
  assumes "d < 10"
  shows "char_of (48 + d) \<noteq> CHR '':''" "char_of (48 + d) \<noteq> CHR ''+''"
proof -
  have d: "(of_char (char_of (48 + d)) :: nat) = 48 + d" using assms by (simp add: of_char_of)
  have c: "(of_char CHR '':'' :: nat) = 58" "(of_char CHR ''+'' :: nat) = 43" by simp_all
  show "char_of (48 + d) \<noteq> CHR '':''" "char_of (48 + d) \<noteq> CHR ''+''"
    using d assms by (auto simp: c simp del: of_char_of char_of_nat)
qed

lemma show_u32_chars: "c \<in> set (show_u32 k) \<Longrightarrow> c \<noteq> CHR '':'' \<and> c \<noteq> CHR ''+''"
  using show_digits_char show_digits_less by (auto simp: show_u32_def)

lemma parse_u32_show: "parse_u32 (show_u32 k) = Some k"
proof -
  have ne: "show_u32 k \<noteq> []" by (simp add: show_u32_def show_digits_nonempty)
  have "map digit_value (show_u32 k) = map Some (show_digits (unat k))"
    using show_digits_less by (simp add: show_u32_def digit_value_show)
  moreover have "unat k < 2 ^ 32" using unsigned_less [of k] by simp
  ultimately have "parse_digits 0 (show_u32 k) = Some (unat k)"
    by (auto simp: parse_digits_iff dec_value_show intro!: exI [of _ "show_digits (unat k)"])
  then show ?thesis
    using ne show_u32_chars [of _ k]
    by (auto simp: parse_u32_def Let_def split: list.splits)
qed

section \<open>Coordinates\<close>

definition show_coordinate :: "'x ext_scheme \<Rightarrow> coordinate \<Rightarrow> string" where
  "show_coordinate X c =
     show_u32 (co_kind c) @ '':'' @ hex_encode X (co_pubkey c) @ '':'' @ co_d_tag c"

lemma splitn_step:
  "c \<notin> set a \<Longrightarrow> splitn (Suc (Suc n)) c (a @ c # b) = a # splitn (Suc n) c b"
  by (induction a) auto

text \<open>A coordinate is read back whole, colons in the d-identifier included.\<close>

lemma parse_show_coordinate:
  assumes "hex_ok X" "length (co_pubkey c) = 32"
  shows "parse_coordinate X (show_coordinate X c) = Some c"
proof -
  have "CHR '':'' \<notin> set (show_u32 (co_kind c))" using show_u32_chars by blast
  moreover have "CHR '':'' \<notin> set (hex_encode X (co_pubkey c))"
    using assms(1) by (auto simp: hex_ok_def)
  ultimately have "splitn 3 CHR '':'' (show_coordinate X c) =
      [show_u32 (co_kind c), hex_encode X (co_pubkey c), co_d_tag c]"
    by (simp add: show_coordinate_def numeral_3_eq_3 splitn_step del: splitn.simps(3))
  then show ?thesis
    using assms hex_encode_length [OF assms(1), of "co_pubkey c"]
    by (simp add: parse_coordinate_def parse_u32_show hex_ok_def)
qed

lemma parse_coordinate_pubkey:
  "hex_ok X \<Longrightarrow> parse_coordinate X s = Some c \<Longrightarrow> length (co_pubkey c) = 32"
  by (fastforce simp: parse_coordinate_def hex_ok_def split: list.splits option.splits if_splits)

section \<open>The references of a request\<close>

definition a_coordinates :: "'x ext_scheme \<Rightarrow> event \<Rightarrow> coordinate list" where
  "a_coordinates X e =
     List.map_filter
       (\<lambda>t. if tag_name t = ''a'' then Option.bind (tag_value t) (parse_coordinate X) else None)
       (ev_tags e)"

lemma deletion_request_fold:
  assumes "hex_ok X"
  shows "dr_ids (fold (deletion_request_step X) ts req) =
      dr_ids req \<union> set (List.map_filter
        (\<lambda>t. if tag_name t = ''e'' then Option.bind (tag_value t) (parse_hex_32 X) else None) ts)"
    and "dr_coordinates (fold (deletion_request_step X) ts req) =
      dr_coordinates req @ List.map_filter
        (\<lambda>t. if tag_name t = ''a'' then Option.bind (tag_value t) (parse_coordinate X) else None) ts"
  by (induction ts arbitrary: req)
    (auto simp: deletion_request_step_def parse_hex_32_pub_eq [OF assms] split: option.splits)

lemma deletion_request_refs:
  assumes "hex_ok X"
  shows "dr_ids (deletion_request X e) = set (e_tags X e)"
    and "dr_coordinates (deletion_request X e) = a_coordinates X e"
  by (simp_all add: deletion_request_def deletion_request_fold [OF assms] e_tags_def
      a_coordinates_def)

end
