(* ===== verification/Sample_Inputs.thy ===== *)
theory Sample_Inputs
  imports Nostr_Event
begin

text \<open>
  Concrete inputs at which the witnesses of the development apply its theorems: the foreign
  functions with a real hex codec and a JSON reader that knows five events, and those events: a
  text note, two versions of a replaceable event, a deletion request for the note, and an
  addressable event with an empty d-tag.
\<close>

section \<open>A hex codec\<close>

definition hex_digit :: "nat \<Rightarrow> char" where
  "hex_digit n = (''0123456789abcdef'') ! n"

definition hex_value :: "char \<Rightarrow> nat option" where
  "hex_value c =
     (let b = of_char c :: nat in
      if 48 \<le> b \<and> b \<le> 57 then Some (b - 48)
      else if 97 \<le> b \<and> b \<le> 102 then Some (b - 87)
      else if 65 \<le> b \<and> b \<le> 70 then Some (b - 55)
      else None)"

definition sample_encode :: "bytes \<Rightarrow> string" where
  "sample_encode bs = concat (map (\<lambda>b. [hex_digit (unat b div 16), hex_digit (unat b mod 16)]) bs)"

fun sample_decode :: "string \<Rightarrow> bytes option" where
  "sample_decode [] = Some []"
| "sample_decode [c] = None"
| "sample_decode (c # d # cs) =
     (case (hex_value c, hex_value d, sample_decode cs) of
        (Some h, Some l, Some bs) \<Rightarrow> Some (of_nat (16 * h + l) # bs)
      | _ \<Rightarrow> None)"

lemma hex_value_digit: "n < 16 \<Longrightarrow> hex_value (hex_digit n) = Some n"
proof -
  assume "n < 16"
  then have "n \<in> set [0..<16]" by simp
  also have "[0..<16] = [0, 1, 2, 3, 4, 5, 6, 7, 8, 9, 10, 11, 12, 13, 14, 15]"
    by (simp add: upt_rec)
  finally show ?thesis by (auto simp: hex_value_def hex_digit_def)
qed

lemma hex_digit_set: "n < 16 \<Longrightarrow> hex_digit n \<in> set ''0123456789abcdef''"
  unfolding hex_digit_def by (rule nth_mem) simp

lemma sample_decode_encode: "sample_decode (sample_encode bs) = Some bs"
proof (induction bs)
  case (Cons b bs)
  have b: "unat b < 256" using unsigned_less [of b] by simp
  then have "unat b div 16 < 16" "unat b mod 16 < 16" by auto
  then have "sample_decode (sample_encode (b # bs)) =
      Some (of_nat (16 * (unat b div 16) + unat b mod 16) # bs)"
    using Cons by (simp add: sample_encode_def hex_value_digit del: mult_div_mod_eq)
  then show ?case by simp
qed (simp add: sample_encode_def)

lemma sample_decode_length: "sample_decode s = Some bs \<Longrightarrow> length s = 2 * length bs"
  by (induction s arbitrary: bs rule: sample_decode.induct) (auto split: option.splits)

lemma sample_encode_chars: "set (sample_encode bs) \<subseteq> set ''0123456789abcdef''"
proof -
  have "unat b div 16 < 16" for b :: byte
    using unsigned_less [of b, where 'a = nat] by simp
  then have "hex_digit (unat b div 16) \<in> set ''0123456789abcdef''"
    "hex_digit (unat b mod 16) \<in> set ''0123456789abcdef''" for b :: byte
    by (simp_all only: hex_digit_set mod_less_divisor zero_less_numeral)
  then show ?thesis unfolding sample_encode_def by auto
qed

section \<open>Events\<close>

definition raw_of :: "event \<Rightarrow> raw_event" where
  "raw_of e =
     \<lparr>re_id = sample_encode (ev_id e), re_pubkey = sample_encode (ev_pubkey e),
      re_created_at = ev_created_at e, re_kind = ev_kind e,
      re_tags = map (\<lambda>t. tag_name t # tag_values t) (ev_tags e), re_content = ev_content e,
      re_sig = sample_encode (ev_sig e)\<rparr>"

definition sample_note :: event where
  "sample_note =
     \<lparr>ev_id = replicate 32 1, ev_pubkey = replicate 32 7, ev_created_at = 100, ev_kind = 1,
      ev_tags = [], ev_content = ''hi'', ev_sig = replicate 64 0, ev_raw = [123, 49, 125]\<rparr>"

definition sample_old :: event where
  "sample_old =
     \<lparr>ev_id = replicate 32 2, ev_pubkey = replicate 32 7, ev_created_at = 50, ev_kind = 10002,
      ev_tags = [], ev_content = [], ev_sig = replicate 64 0, ev_raw = [123, 50, 125]\<rparr>"

definition sample_new :: event where
  "sample_new =
     \<lparr>ev_id = replicate 32 3, ev_pubkey = replicate 32 7, ev_created_at = 60, ev_kind = 10002,
      ev_tags = [], ev_content = [], ev_sig = replicate 64 0, ev_raw = [123, 51, 125]\<rparr>"

definition sample_deletion :: event where
  "sample_deletion =
     \<lparr>ev_id = replicate 32 4, ev_pubkey = replicate 32 7, ev_created_at = 200, ev_kind = 5,
      ev_tags = [\<lparr>tag_name = ''e'', tag_values = [sample_encode (replicate 32 1)]\<rparr>],
      ev_content = [], ev_sig = replicate 64 0, ev_raw = [123, 52, 125]\<rparr>"

definition sample_article :: event where
  "sample_article =
     \<lparr>ev_id = replicate 32 5, ev_pubkey = replicate 32 7, ev_created_at = 70, ev_kind = 30023,
      ev_tags = [\<lparr>tag_name = ''d'', tag_values = [[]]\<rparr>],
      ev_content = [], ev_sig = replicate 64 0, ev_raw = [123, 53, 125]\<rparr>"

lemmas sample_defs = sample_note_def sample_old_def sample_new_def sample_deletion_def
  sample_article_def

definition sample_events :: "event list" where
  "sample_events = [sample_note, sample_old, sample_new, sample_deletion, sample_article]"

definition sample_ext :: ext where
  "sample_ext =
     \<lparr>hex_decode = sample_decode,
      from_hex = (\<lambda>n s. case sample_decode s of
                    Some b \<Rightarrow> if length b = n then Some b else None | None \<Rightarrow> None),
      hex_encode = sample_encode,
      json_event = (\<lambda>j. map_of (map (\<lambda>e. (ev_raw e, raw_of e)) sample_events) j),
      json_id_tuple = (\<lambda>pk t k tags c. Some (replicate 32 (of_nat (unat t)))),
      sha256 = (\<lambda>bs. map (\<lambda>b. if b = 100 then 1 else if b = 200 then 4 else 0) bs),
      xonly_ok = (\<lambda>_. True),
      verify_schnorr = (\<lambda>s i k. True)\<rparr>"

lemma sample_hex_ok: "hex_ok sample_ext"
  using sample_decode_encode sample_decode_length sample_encode_chars
  by (simp add: hex_ok_def sample_ext_def)

lemma sample_inj: "inj_on ev_id (set sample_events)"
  by (simp add: sample_events_def sample_defs)

lemma sample_parse_hex:
  "length b = 32 \<Longrightarrow> parse_hex_32 sample_ext (sample_encode b) = Some b"
  "length b = 64 \<Longrightarrow> parse_hex_64 sample_ext (sample_encode b) = Some b"
  using sample_decode_length [OF sample_decode_encode]
  by (simp_all add: parse_hex_32_def parse_hex_64_def sample_ext_def sample_decode_encode)

lemma sample_lengths:
  assumes "e \<in> set sample_events"
  shows "length (ev_id e) = 32" "length (ev_pubkey e) = 32" "length (ev_sig e) = 64"
  using assms by (auto simp: sample_events_def sample_defs)

lemma sample_tags: "e \<in> set sample_events \<Longrightarrow>
    tags_of_raw (map (\<lambda>t. tag_name t # tag_values t) (ev_tags e)) = ev_tags e"
  by (auto simp: sample_events_def sample_defs tags_of_raw_def)

lemma sample_json: "e \<in> set sample_events \<Longrightarrow> json_event sample_ext (ev_raw e) = Some (raw_of e)"
  by (auto simp: sample_ext_def sample_events_def sample_defs)

lemma sample_parses:
  assumes "e \<in> set sample_events"
  shows "from_json_unchecked sample_ext (ev_raw e) = Inr e"
  using sample_lengths [OF assms] sample_tags [OF assms] sample_json [OF assms]
  by (simp add: from_json_unchecked_def raw_of_def sample_parse_hex)

lemma sample_member [simp]:
  "sample_note \<in> set sample_events" "sample_old \<in> set sample_events"
  "sample_new \<in> set sample_events" "sample_deletion \<in> set sample_events"
  "sample_article \<in> set sample_events"
  by (simp_all add: sample_events_def)

text \<open>The note and the deletion request carry the hash of their content as their id.\<close>

lemma sample_verifies:
  assumes "e \<in> {sample_note, sample_deletion}"
  shows "from_json sample_ext (ev_raw e) = Inr e"
proof -
  have e: "e \<in> set sample_events" using assms by auto
  have "sha256 sample_ext (replicate 32 (of_nat (unat (ev_created_at e)))) = ev_id e"
    using assms by (auto simp: sample_ext_def sample_note_def sample_deletion_def)
  then show ?thesis
    using sample_lengths [OF e] sample_tags [OF e] sample_json [OF e]
    by (simp add: from_json_def raw_of_def sample_parse_hex) (simp add: sample_ext_def)
qed

end
