(* ===== verification/Event_Properties.thy ===== *)
theory Event_Properties
  imports Deletion Sample_Inputs
begin

text \<open>
  Properties of events and deletion requests: what the verifying constructor accepts, and how the
  references of a deletion request are read.
\<close>

section \<open>Verified events\<close>

text \<open>The checks that \<open>from_json\<close> adds to the parse.\<close>

definition verified :: "'x ext_scheme \<Rightarrow> bytes \<Rightarrow> event \<Rightarrow> bool" where
  "verified X j e \<longleftrightarrow>
     (\<exists>r serialised. json_event X j = Some r \<and>
        json_id_tuple X (re_pubkey r) (re_created_at r) (re_kind r) (re_tags r) (re_content r) =
          Some serialised \<and>
        sha256 X serialised = ev_id e) \<and>
     xonly_ok X (ev_pubkey e) \<and> verify_schnorr X (ev_sig e) (ev_id e) (ev_pubkey e)"

text \<open>
  The verifying constructor accepts exactly the events the plain one parses whose id is the
  SHA-256 of the serialised fields, whose key is a valid x-only key and whose signature verifies,
  and it returns the same event.
\<close>

theorem from_json_accepts:
  "from_json X j = Inr e \<longleftrightarrow> from_json_unchecked X j = Inr e \<and> verified X j e"
proof
  assume *: "from_json X j = Inr e"
  then have "verified X j e"
    by (auto simp: from_json_def verified_def split: parse_splits)
  with * show "from_json_unchecked X j = Inr e \<and> verified X j e"
    by (simp add: from_json_implies_unchecked)
next
  assume "from_json_unchecked X j = Inr e \<and> verified X j e"
  then show "from_json X j = Inr e"
    by (auto simp: from_json_def from_json_unchecked_def verified_def split: parse_splits)
qed

section \<open>Deletion requests\<close>

text \<open>
  An \<open>a\<close>-tag coordinate is read back as written: kind, public key and the whole d-identifier,
  colons included.
\<close>

theorem coordinate_round_trip:
  assumes "hex_ok X" "length (co_pubkey c) = 32"
  shows "parse_coordinate X (show_coordinate X c) = Some c"
  by (rule parse_show_coordinate [OF assms])

theorem coordinate_round_trip_witness:
  "parse_coordinate sample_ext (show_coordinate sample_ext
     \<lparr>co_kind = 30023, co_pubkey = replicate 32 7, co_d_tag = ''a:b''\<rparr>) =
   Some \<lparr>co_kind = 30023, co_pubkey = replicate 32 7, co_d_tag = ''a:b''\<rparr>"
  by (rule coordinate_round_trip) (simp_all add: sample_hex_ok)

text \<open>
  The references of a deletion request are the ids of its well-formed \<open>e\<close> tags and the
  coordinates of its well-formed \<open>a\<close> tags, in order; malformed tags are skipped. The ids are those
  under which the index files the request's \<open>e\<close> tags.
\<close>

theorem deletion_request_references:
  assumes "hex_ok X"
  shows "dr_ids (deletion_request X e) = set (e_tags X e) \<and>
    dr_coordinates (deletion_request X e) =
      List.map_filter
        (\<lambda>t. if tag_name t = ''a'' then Option.bind (tag_value t) (parse_coordinate X) else None)
        (ev_tags e)"
  using deletion_request_refs [OF assms, of e] by (simp add: a_coordinates_def)

theorem deletion_request_references_witness:
  "dr_ids (deletion_request sample_ext sample_deletion) = {replicate 32 1}"
proof -
  have "e_tags sample_ext sample_deletion = [replicate 32 1]"
    using sample_parse_hex(1) [of "replicate 32 1"]
    by (simp add: e_tags_def sample_deletion_def tag_value_def)
  then show ?thesis
    using deletion_request_references [OF sample_hex_ok, of sample_deletion] by simp
qed

end
