(* ===== verification/Ordered_Set.thy ===== *)
theory Ordered_Set
  imports Memlay_Prelude
begin

text \<open>
  The two ordered containers of the Rust standard library that the index is built on, as lists:
  \<open>BTreeSet\<close> is the list that its iterator yields, \<open>BinaryHeap\<close> the list that popping it
  yields. Both take the element order (Rust's \<open>Ord\<close>, \<open>lt a b\<close> for \<open>a.cmp(b) == Less\<close>)
  as an argument; what they promise is proved once in the locale \<open>rust_ord\<close>, whose
  assumptions are the laws the standard library documents for \<open>Ord\<close>.
\<close>

section \<open>BTreeSet\<close>

text \<open>\<open>insert\<close> leaves the set unchanged when it already holds an element that compares equal.\<close>

fun bts_insert :: "('a \<Rightarrow> 'a \<Rightarrow> bool) \<Rightarrow> 'a \<Rightarrow> 'a list \<Rightarrow> 'a list" where
  "bts_insert lt x [] = [x]"
| "bts_insert lt x (y # ys) =
     (if lt x y then x # y # ys else if lt y x then y # bts_insert lt x ys else y # ys)"

fun bts_remove :: "('a \<Rightarrow> 'a \<Rightarrow> bool) \<Rightarrow> 'a \<Rightarrow> 'a list \<Rightarrow> 'a list" where
  "bts_remove lt x [] = []"
| "bts_remove lt x (y # ys) =
     (if lt x y then y # ys else if lt y x then y # bts_remove lt x ys else ys)"

section \<open>BinaryHeap\<close>

text \<open>A max-heap, greatest element first: \<open>peek\<close> is the head and \<open>pop\<close> removes it.\<close>

fun heap_push :: "('a \<Rightarrow> 'a \<Rightarrow> bool) \<Rightarrow> 'a \<Rightarrow> 'a list \<Rightarrow> 'a list" where
  "heap_push lt x [] = [x]"
| "heap_push lt x (y # ys) = (if lt x y then y # heap_push lt x ys else x # y # ys)"

lemma mset_heap_push [simp]: "mset (heap_push lt x h) = add_mset x (mset h)"
  by (induction h) auto

lemma set_heap_push [simp]: "set (heap_push lt x h) = insert x (set h)"
  by (induction h) auto

lemma length_heap_push [simp]: "length (heap_push lt x h) = Suc (length h)"
  by (induction h) auto

lemma set_bts_insert_subset: "set (bts_insert lt x s) \<subseteq> insert x (set s)"
  by (induction s) auto

lemma set_bts_remove_subset: "set (bts_remove lt x s) \<subseteq> set s"
  by (induction s) auto

section \<open>The laws of \<open>Ord\<close> and what they give\<close>

locale rust_ord =
  fixes lt :: "'a \<Rightarrow> 'a \<Rightarrow> bool"
  assumes asym: "lt x y \<Longrightarrow> \<not> lt y x"
    and trans: "lt x y \<Longrightarrow> lt y z \<Longrightarrow> lt x z"
    and weak: "lt x z \<Longrightarrow> lt x y \<or> lt y z"
begin

lemma irrefl: "\<not> lt x x"
  using asym by blast

lemma transp_lt: "transp lt"
  by (rule transpI) (rule trans)

lemma sorted_insert: "sorted_wrt lt s \<Longrightarrow> sorted_wrt lt (bts_insert lt x s)"
proof (induction s)
  case (Cons y ys)
  then show ?case
    using set_bts_insert_subset [of lt x ys] by (auto dest: trans)
qed simp

lemma sorted_remove: "sorted_wrt lt s \<Longrightarrow> sorted_wrt lt (bts_remove lt x s)"
  using set_bts_remove_subset [of lt x] by (induction s) fastforce+

lemma insert_idem: "bts_insert lt x (bts_insert lt x s) = bts_insert lt x s"
  by (induction s) (auto simp: irrefl)

text \<open>
  Where no other element compares equal to \<open>x\<close>, the set operations are the mathematical ones.
\<close>

lemma set_insert:
  "\<forall>y \<in> set s. \<not> lt x y \<longrightarrow> \<not> lt y x \<longrightarrow> y = x \<Longrightarrow> set (bts_insert lt x s) = insert x (set s)"
  by (induction s) auto

lemma set_remove:
  "sorted_wrt lt s \<Longrightarrow> \<forall>y \<in> set s. \<not> lt x y \<longrightarrow> \<not> lt y x \<longrightarrow> y = x \<Longrightarrow>
   set (bts_remove lt x s) = set s - {x}"
proof (induction s)
  case (Cons y ys)
  show ?case
  proof (cases "lt x y")
    case True
    with Cons.prems show ?thesis by (auto dest: trans simp: irrefl)
  next
    case False
    with Cons show ?thesis by (auto simp: irrefl)
  qed
qed simp

lemma remove_absent:
  "sorted_wrt lt s \<Longrightarrow> \<forall>y \<in> set s. lt x y \<or> lt y x \<Longrightarrow> bts_remove lt x s = s"
  by (induction s) auto

lemma remove_idem:
  assumes "sorted_wrt lt s"
  shows "bts_remove lt x (bts_remove lt x s) = bts_remove lt x s"
  using assms
proof (induction s)
  case (Cons y ys)
  show ?case
  proof (cases "lt x y \<or> lt y x")
    case True
    with Cons show ?thesis by (auto dest: asym)
  next
    case False
    have "lt x z" if "z \<in> set ys" for z
      using False Cons.prems that weak by fastforce
    then have "bts_remove lt x ys = ys"
      using Cons.prems by (intro remove_absent) auto
    with False show ?thesis by simp
  qed
qed simp

text \<open>A strictly sorted list is determined by its elements.\<close>

lemma sorted_distinct: "sorted_wrt lt s \<Longrightarrow> distinct s"
  by (induction s) (auto simp: irrefl)

lemma sorted_unique:
  "sorted_wrt lt s \<Longrightarrow> sorted_wrt lt t \<Longrightarrow> set s = set t \<Longrightarrow> s = t"
proof (induction s arbitrary: t)
  case (Cons x s)
  then obtain y t' where t: "t = y # t'" by (cases t) auto
  have "x = y"
    using Cons.prems unfolding t
    by (metis asym list.set_intros(1) set_ConsD sorted_wrt.simps(2))
  moreover have "set s = set t'"
    using Cons.prems \<open>x = y\<close> sorted_distinct [of "x # s"] sorted_distinct [of t]
    by (auto simp: t)
  ultimately show ?case using Cons t by simp
qed simp

text \<open>The heap stays sorted, greatest first.\<close>

lemma sorted_push:
  "sorted_wrt (\<lambda>a b. \<not> lt a b) h \<Longrightarrow> sorted_wrt (\<lambda>a b. \<not> lt a b) (heap_push lt x h)"
proof (induction h)
  case (Cons y ys)
  then show ?case by (auto dest: asym weak)
qed simp

end

text \<open>Reversing an order (Rust's \<open>Reverse\<close>) keeps the laws.\<close>

lemma rust_ord_reverse: "rust_ord lt \<Longrightarrow> rust_ord (\<lambda>a b. lt b a)"
  by (unfold rust_ord_def) blast

end
