(* ===== verification/Tombstone_Set.thy ===== *)
theory Tombstone_Set
  imports Memlay_Prelude
begin

text \<open>
  The bounded FIFO set of deleted event ids (\<open>Tombstones\<close> in
  \<^verbatim>\<open>src/src/store/index.rs\<close>): a hash set, the queue of its insertion order and a cached size
  that lets \<open>contains\<close> skip the lookup while nothing has been deleted.
\<close>

definition MAX_TOMBSTONES :: nat where
  "MAX_TOMBSTONES = 262144"

record tombstone_set =
  ts_count :: usize
  ts_ids :: "bytes set"
  ts_order :: "bytes list"

definition tombs_new :: tombstone_set where
  "tombs_new = \<lparr>ts_count = 0, ts_ids = {}, ts_order = []\<rparr>"

definition tombs_contains :: "tombstone_set \<Rightarrow> bytes \<Rightarrow> bool" where
  "tombs_contains t i \<longleftrightarrow> ts_count t \<noteq> 0 \<and> i \<in> ts_ids t"

text \<open>\<open>while order.len() > MAX { pop_front; ids.remove }\<close>.\<close>

fun tombs_evict :: "nat \<Rightarrow> bytes list \<Rightarrow> bytes set \<Rightarrow> bytes list \<times> bytes set" where
  "tombs_evict mx [] ids = ([], ids)"
| "tombs_evict mx (x # xs) ids =
     (if mx < length (x # xs) then tombs_evict mx xs (ids - {x}) else (x # xs, ids))"

definition tombs_insert :: "tombstone_set \<Rightarrow> bytes \<Rightarrow> tombstone_set" where
  "tombs_insert t i =
     (if i \<in> ts_ids t then t
      else
        let (order, ids) = tombs_evict MAX_TOMBSTONES (ts_order t @ [i]) (insert i (ts_ids t))
        in \<lparr>ts_count = of_nat (card ids), ts_ids = ids, ts_order = order\<rparr>)"

definition tombs_len :: "tombstone_set \<Rightarrow> usize" where
  "tombs_len t = of_nat (card (ts_ids t))"

section \<open>Invariant\<close>

text \<open>Queue and set hold the same ids, each once, within the cap, and the cached size is exact.\<close>

definition tombs_inv :: "tombstone_set \<Rightarrow> bool" where
  "tombs_inv t \<longleftrightarrow>
     distinct (ts_order t) \<and> set (ts_order t) = ts_ids t \<and>
     length (ts_order t) \<le> MAX_TOMBSTONES \<and> ts_count t = of_nat (card (ts_ids t))"

lemma MAX_TOMBSTONES_pos [simp]: "Suc 0 - MAX_TOMBSTONES = 0"
  by (simp add: MAX_TOMBSTONES_def)

lemma tombs_evict_spec:
  "distinct xs \<Longrightarrow>
   tombs_evict mx xs (set xs) = (drop (length xs - mx) xs, set (drop (length xs - mx) xs))"
proof (induction xs)
  case (Cons x xs)
  then show ?case by (simp add: insert_Diff_if Suc_diff_le not_less)
qed simp

lemma tombs_insert_order:
  assumes "tombs_inv t" "i \<notin> ts_ids t"
  shows "ts_order (tombs_insert t i) =
      drop (Suc (length (ts_order t)) - MAX_TOMBSTONES) (ts_order t @ [i])"
    and "ts_ids (tombs_insert t i) = set (ts_order (tombs_insert t i))"
    and "ts_count (tombs_insert t i) = of_nat (card (ts_ids (tombs_insert t i)))"
proof -
  let ?xs = "ts_order t @ [i]"
  let ?k = "Suc (length (ts_order t)) - MAX_TOMBSTONES"
  have "distinct ?xs" and ids: "insert i (ts_ids t) = set ?xs"
    using assms by (auto simp: tombs_inv_def)
  then have "tombs_evict MAX_TOMBSTONES ?xs (set ?xs) = (drop ?k ?xs, set (drop ?k ?xs))"
    by (simp only: tombs_evict_spec) simp
  then have "tombs_insert t i =
      \<lparr>ts_count = of_nat (card (set (drop ?k ?xs))), ts_ids = set (drop ?k ?xs),
       ts_order = drop ?k ?xs\<rparr>"
    unfolding tombs_insert_def ids using assms(2) by (simp only: if_False Let_def prod.case)
  then show "ts_order (tombs_insert t i) = drop ?k ?xs"
    and "ts_ids (tombs_insert t i) = set (ts_order (tombs_insert t i))"
    and "ts_count (tombs_insert t i) = of_nat (card (ts_ids (tombs_insert t i)))"
    by (simp_all only: tombstone_set.simps)
qed

lemma tombs_inv_new [simp]: "tombs_inv tombs_new"
  by (simp add: tombs_inv_def tombs_new_def)

lemma tombs_inv_insert:
  assumes "tombs_inv t"
  shows "tombs_inv (tombs_insert t i)"
proof (cases "i \<in> ts_ids t")
  case True
  with assms show ?thesis by (simp add: tombs_insert_def)
next
  case False
  have "distinct (ts_order t @ [i])" "length (ts_order t) \<le> MAX_TOMBSTONES"
    using assms False by (auto simp: tombs_inv_def)
  then show ?thesis
    using tombs_insert_order [OF assms False] MAX_TOMBSTONES_pos
    by (auto simp: tombs_inv_def simp del: MAX_TOMBSTONES_pos dest: in_set_dropD)
qed

lemma tombs_finite: "tombs_inv t \<Longrightarrow> finite (ts_ids t)"
  by (metis List.finite_set tombs_inv_def)

lemma tombs_card_le: "tombs_inv t \<Longrightarrow> card (ts_ids t) \<le> MAX_TOMBSTONES"
  by (metis distinct_card tombs_inv_def)

text \<open>The cached size is zero only for the empty set: the fast path of \<open>contains\<close> is exact.\<close>

lemma tombs_contains_iff:
  assumes "tombs_inv t"
  shows "tombs_contains t i \<longleftrightarrow> i \<in> ts_ids t"
proof -
  have "i \<in> ts_ids t \<Longrightarrow> ts_count t \<noteq> 0"
  proof
    assume i: "i \<in> ts_ids t" and z: "ts_count t = 0"
    have "card (ts_ids t) < 2 ^ 64"
      using tombs_card_le [OF assms] by (simp add: MAX_TOMBSTONES_def)
    moreover have "(of_nat (card (ts_ids t)) :: usize) = 0"
      using z assms by (simp add: tombs_inv_def)
    ultimately have "card (ts_ids t) = 0"
      by (simp add: of_nat_u64_0)
    with i tombs_finite [OF assms] show False by simp
  qed
  then show ?thesis by (auto simp: tombs_contains_def)
qed

lemma tombs_insert_self:
  assumes "tombs_inv t"
  shows "i \<in> ts_ids (tombs_insert t i)"
proof (cases "i \<in> ts_ids t")
  case True
  then show ?thesis by (simp add: tombs_insert_def)
next
  case False
  note ins = tombs_insert_order [OF assms False]
  have "Suc (length (ts_order t)) - MAX_TOMBSTONES \<le> length (ts_order t)"
    by (simp add: MAX_TOMBSTONES_def)
  then show ?thesis unfolding ins(2) ins(1) by simp
qed

lemma tombs_insert_subset:
  assumes "tombs_inv t"
  shows "ts_ids (tombs_insert t i) \<subseteq> insert i (ts_ids t)"
proof (cases "i \<in> ts_ids t")
  case False
  note ins = tombs_insert_order [OF assms False]
  have "set (drop n (ts_order t @ [i])) \<subseteq> insert i (ts_ids t)" for n
    using set_drop_subset [of n "ts_order t @ [i]"] assms by (auto simp: tombs_inv_def)
  then show ?thesis unfolding ins(2) ins(1) by blast
qed (auto simp: tombs_insert_def)

lemma tombs_insert_room:
  assumes "tombs_inv t" "card (ts_ids t) < MAX_TOMBSTONES"
  shows "ts_ids (tombs_insert t i) = insert i (ts_ids t)"
proof (cases "i \<in> ts_ids t")
  case False
  have "length (ts_order t) < MAX_TOMBSTONES"
    using assms by (metis distinct_card tombs_inv_def)
  then show ?thesis
    using tombs_insert_order [OF assms(1) False] assms(1) by (auto simp: tombs_inv_def)
qed (auto simp: tombs_insert_def)

section \<open>The FIFO as a window over the insertions\<close>

text \<open>
  Reference: the queue holds the last \<open>MAX_TOMBSTONES\<close> of the insertions that were new when
  they arrived.
\<close>

fun tombs_inserts :: "tombstone_set \<Rightarrow> bytes list \<Rightarrow> tombstone_set" where
  "tombs_inserts t [] = t"
| "tombs_inserts t (i # is) = tombs_inserts (tombs_insert t i) is"

lemma tombs_inv_inserts: "tombs_inv t \<Longrightarrow> tombs_inv (tombs_inserts t is)"
  by (induction "is" arbitrary: t) (simp_all add: tombs_inv_insert)

lemma tombs_inserts_fresh:
  assumes "tombs_inv t" "distinct is" "set is \<inter> ts_ids t = {}"
  shows "ts_order (tombs_inserts t is) =
     drop (length (ts_order t) + length is - MAX_TOMBSTONES) (ts_order t @ is)"
  using assms
proof (induction "is" arbitrary: t)
  case Nil
  then show ?case by (simp add: tombs_inv_def)
next
  case (Cons i "is")
  let ?t = "tombs_insert t i"
  have i: "i \<notin> ts_ids t" using Cons.prems by simp
  note ins = tombs_insert_order [OF Cons.prems(1) i]
  have "set is \<inter> ts_ids ?t = {}"
    using Cons.prems tombs_insert_subset [OF Cons.prems(1), of i] by auto
  then have "ts_order (tombs_inserts ?t is) =
      drop (length (ts_order ?t) + length is - MAX_TOMBSTONES) (ts_order ?t @ is)"
    using Cons.prems by (intro Cons.IH tombs_inv_insert) auto
  moreover have "length (ts_order t) \<le> MAX_TOMBSTONES"
    using Cons.prems(1) by (simp add: tombs_inv_def)
  ultimately show ?case
    using MAX_TOMBSTONES_pos
    by (cases "length (ts_order t) = MAX_TOMBSTONES")
      (auto simp: ins drop_Suc_Cons simp del: MAX_TOMBSTONES_pos)
qed

end
