(* ===== verification/Event_Index.thy ===== *)
theory Event_Index
  imports Deletion Ordered_Set Tombstone_Set
begin

text \<open>
  The in-memory index (\<^verbatim>\<open>src/src/store/index.rs\<close>), one operation at a time: the primary map,
  the six secondary indexes, the replaceable index, the tombstones and the two counters. A
  \<open>DashMap\<close> is a map, an \<open>RwLock<BTreeSet<EventRef>>\<close> the list its iterator yields, the atomic
  counters are 64-bit words with their wrap-around. The definitions come first, in the order of
  the file; the contract that the six secondary indexes share is the locale \<open>secondary_index\<close>.
\<close>

section \<open>Hashes\<close>

definition OLDEST_SHARDS :: nat where
  "OLDEST_SHARDS = 64"

text \<open>\<open>u128::from_be_bytes\<close> on a slice of 16 bytes.\<close>

definition be_u128 :: "bytes \<Rightarrow> 128 word" where
  "be_u128 bs = foldl (\<lambda>acc b. push_bit 8 acc OR ucast b) 0 bs"

definition tag_id_hash :: "bytes \<Rightarrow> 128 word" where
  "tag_id_hash i = be_u128 (take 16 i) XOR be_u128 (take 16 (drop 16 i))"

definition oldest_shard :: "bytes \<Rightarrow> nat" where
  "oldest_shard i =
     unat (foldl (\<lambda>hash b. hash * 31 + ucast b) (0 :: usize) (take 8 i)) mod OLDEST_SHARDS"

section \<open>Event references\<close>

record eref =
  er_created_at :: u64
  er_id :: bytes
  er_event :: event

definition eref_new :: "event \<Rightarrow> eref" where
  "eref_new e = \<lparr>er_created_at = ev_created_at e, er_id = ev_id e, er_event = e\<rparr>"

text \<open>\<open>cmp\<close> returns \<open>Less\<close>: newest first, ties by the lower id.\<close>

definition er_less :: "eref \<Rightarrow> eref \<Rightarrow> bool" where
  "er_less a b \<longleftrightarrow>
     er_created_at b < er_created_at a \<or>
     (er_created_at a = er_created_at b \<and> er_id a < er_id b)"

datatype insert_outcome = Inserted "event option" | Duplicate | Deleted | LostRace

section \<open>The secondary indexes\<close>

type_synonym 'k ref_map = "'k \<rightharpoonup> eref list"

definition idx_get :: "'k ref_map \<Rightarrow> 'k \<Rightarrow> eref list" where
  "idx_get m k = (case m k of Some s \<Rightarrow> s | None \<Rightarrow> [])"

text \<open>\<open>entry(k).or_insert_with(BTreeSet::new)\<close>, then \<open>insert\<close>.\<close>

definition idx_add :: "'k ref_map \<Rightarrow> 'k \<Rightarrow> eref \<Rightarrow> 'k ref_map" where
  "idx_add m k r = m(k \<mapsto> bts_insert er_less r (idx_get m k))"

text \<open>\<open>if let Some(set) = map.get(k) { set.remove(r) }\<close>; an emptied set stays in the map.\<close>

definition idx_del :: "'k ref_map \<Rightarrow> 'k \<Rightarrow> eref \<Rightarrow> 'k ref_map" where
  "idx_del m k r = (case m k of Some s \<Rightarrow> m(k \<mapsto> bts_remove er_less r s) | None \<Rightarrow> m)"

definition add_pubkey :: "event \<Rightarrow> (128 word) ref_map \<Rightarrow> (128 word) ref_map" where
  "add_pubkey e m = idx_add m (tag_id_hash (ev_pubkey e)) (eref_new e)"

definition del_pubkey :: "event \<Rightarrow> (128 word) ref_map \<Rightarrow> (128 word) ref_map" where
  "del_pubkey e m = idx_del m (tag_id_hash (ev_pubkey e)) (eref_new e)"

definition add_kind :: "event \<Rightarrow> u32 ref_map \<Rightarrow> u32 ref_map" where
  "add_kind e m = idx_add m (ev_kind e) (eref_new e)"

definition del_kind :: "event \<Rightarrow> u32 ref_map \<Rightarrow> u32 ref_map" where
  "del_kind e m = idx_del m (ev_kind e) (eref_new e)"

definition add_ids :: "bytes list \<Rightarrow> event \<Rightarrow> (128 word) ref_map \<Rightarrow> (128 word) ref_map" where
  "add_ids ids e m = fold (\<lambda>i m. idx_add m (tag_id_hash i) (eref_new e)) ids m"

definition del_ids :: "bytes list \<Rightarrow> event \<Rightarrow> (128 word) ref_map \<Rightarrow> (128 word) ref_map" where
  "del_ids ids e m = fold (\<lambda>i m. idx_del m (tag_id_hash i) (eref_new e)) ids m"

text \<open>The tags the generic index reads: one letter, not \<open>e\<close> or \<open>p\<close>, with a value.\<close>

definition other_tag :: "tag \<Rightarrow> (string \<times> string) option" where
  "other_tag t =
     (case single_char (tag_name t) of
        Some letter \<Rightarrow>
          if letter \<noteq> ''e'' \<and> letter \<noteq> ''p'' then
            (case tag_value t of Some v \<Rightarrow> Some (letter, v) | None \<Rightarrow> None)
          else None
      | None \<Rightarrow> None)"

type_synonym other_map = "string \<rightharpoonup> string ref_map"

definition other_get :: "other_map \<Rightarrow> string \<times> string \<Rightarrow> eref list" where
  "other_get m k = (case m (fst k) of Some inner \<Rightarrow> idx_get inner (snd k) | None \<Rightarrow> [])"

definition other_add1 :: "other_map \<Rightarrow> string \<times> string \<Rightarrow> eref \<Rightarrow> other_map" where
  "other_add1 m k r =
     m(fst k \<mapsto>
         idx_add (case m (fst k) of Some inner \<Rightarrow> inner | None \<Rightarrow> Map.empty) (snd k) r)"

definition other_del1 :: "other_map \<Rightarrow> string \<times> string \<Rightarrow> eref \<Rightarrow> other_map" where
  "other_del1 m k r =
     (case m (fst k) of Some inner \<Rightarrow> m(fst k \<mapsto> idx_del inner (snd k) r) | None \<Rightarrow> m)"

definition add_other :: "event \<Rightarrow> other_map \<Rightarrow> other_map" where
  "add_other e m =
     fold (\<lambda>k m. other_add1 m k (eref_new e)) (List.map_filter other_tag (ev_tags e)) m"

definition del_other :: "event \<Rightarrow> other_map \<Rightarrow> other_map" where
  "del_other e m =
     fold (\<lambda>k m. other_del1 m k (eref_new e)) (List.map_filter other_tag (ev_tags e)) m"

definition add_oldest :: "event \<Rightarrow> eref list list \<Rightarrow> eref list list" where
  "add_oldest e sh =
     (let k = oldest_shard (ev_id e) in sh[k := bts_insert er_less (eref_new e) (sh ! k)])"

definition del_oldest :: "event \<Rightarrow> eref list list \<Rightarrow> eref list list" where
  "del_oldest e sh =
     (let k = oldest_shard (ev_id e) in sh[k := bts_remove er_less (eref_new e) (sh ! k)])"

section \<open>The index\<close>

record event_index =
  by_id :: "bytes \<rightharpoonup> event"
  by_pubkey :: "(128 word) ref_map"
  by_kind :: "u32 ref_map"
  by_tag_e :: "(128 word) ref_map"
  by_tag_p :: "(128 word) ref_map"
  by_tag_other :: other_map
  by_oldest :: "eref list list"
  by_replaceable :: "repl_key \<rightharpoonup> bytes"
  tombstones :: tombstone_set
  memory_bytes :: usize
  event_count :: usize

definition index_new :: event_index where
  "index_new =
     \<lparr>by_id = Map.empty, by_pubkey = Map.empty, by_kind = Map.empty, by_tag_e = Map.empty,
      by_tag_p = Map.empty, by_tag_other = Map.empty, by_oldest = replicate OLDEST_SHARDS [],
      by_replaceable = Map.empty, tombstones = tombs_new, memory_bytes = 0, event_count = 0\<rparr>"

definition add_secondary :: "'x ext_scheme \<Rightarrow> event \<Rightarrow> event_index \<Rightarrow> event_index" where
  "add_secondary X e s =
     s\<lparr>by_pubkey := add_pubkey e (by_pubkey s),
       by_kind := add_kind e (by_kind s),
       by_tag_e := add_ids (e_tags X e) e (by_tag_e s),
       by_tag_p := add_ids (p_tags X e) e (by_tag_p s),
       by_tag_other := add_other e (by_tag_other s),
       by_oldest := add_oldest e (by_oldest s)\<rparr>"

definition cleanup_secondary_indexes ::
    "'x ext_scheme \<Rightarrow> event \<Rightarrow> event_index \<Rightarrow> event_index" where
  "cleanup_secondary_indexes X e s =
     s\<lparr>by_pubkey := del_pubkey e (by_pubkey s),
       by_kind := del_kind e (by_kind s),
       by_tag_e := del_ids (e_tags X e) e (by_tag_e s),
       by_tag_p := del_ids (p_tags X e) e (by_tag_p s),
       by_tag_other := del_other e (by_tag_other s),
       by_oldest := del_oldest e (by_oldest s)\<rparr>"

definition cleanup_event :: "'x ext_scheme \<Rightarrow> event \<Rightarrow> event_index \<Rightarrow> event_index" where
  "cleanup_event X e s =
     cleanup_secondary_indexes X e
       (case by_id s (ev_id e) of
          Some _ \<Rightarrow> s\<lparr>by_id := (by_id s)(ev_id e := None),
                      memory_bytes := memory_bytes s - of_nat (length (ev_raw e)),
                      event_count := event_count s - 1\<rparr>
        | None \<Rightarrow> s)"

definition is_still_winner :: "event_index \<Rightarrow> event \<Rightarrow> bool" where
  "is_still_winner s e =
     (case replacement_key e of
        RK_None \<Rightarrow> True
      | key \<Rightarrow> (case by_replaceable s key of Some i \<Rightarrow> i = ev_id e | None \<Rightarrow> False))"

definition internal_remove ::
    "'x ext_scheme \<Rightarrow> bytes \<Rightarrow> bool \<Rightarrow> event_index \<Rightarrow> event option \<times> event_index" where
  "internal_remove X i skip_replaceable s =
     (case by_id s i of
        None \<Rightarrow> (None, s)
      | Some e \<Rightarrow>
          let s1 = s\<lparr>by_id := (by_id s)(i := None),
                     memory_bytes := memory_bytes s - of_nat (length (ev_raw e)),
                     event_count := event_count s - 1\<rparr>;
              s2 = (if \<not> skip_replaceable \<and> is_replaceable e
                    then s1\<lparr>by_replaceable := (by_replaceable s1)(replacement_key e := None)\<rparr>
                    else s1)
          in (Some e, cleanup_secondary_indexes X e s2))"

text \<open>Newer wins; a tie goes to the lexicographically lower id.\<close>

definition incoming_wins :: "event \<Rightarrow> event \<Rightarrow> bool" where
  "incoming_wins e old \<longleftrightarrow>
     ev_created_at old < ev_created_at e \<or>
     (ev_created_at e = ev_created_at old \<and> ev_id e < ev_id old)"

text \<open>
  The replaceable swap at the head of \<open>insert\<close>. \<open>None\<close> is the early return of \<open>LostRace\<close>.
\<close>

definition swap_replaceable ::
    "'x ext_scheme \<Rightarrow> event \<Rightarrow> event_index \<Rightarrow> (event option \<times> event_index) option" where
  "swap_replaceable X e s =
     (if \<not> is_replaceable e then Some (None, s)
      else
        (case replacement_key e of
           RK_None \<Rightarrow> Some (None, s)
         | key \<Rightarrow>
            (case by_replaceable s key of
               Some old_id \<Rightarrow>
                 if (case by_id s old_id of Some old \<Rightarrow> incoming_wins e old | None \<Rightarrow> True)
                 then Some (internal_remove X old_id True
                              (s\<lparr>by_replaceable := (by_replaceable s)(key \<mapsto> ev_id e)\<rparr>))
                 else None
             | None \<Rightarrow>
                 Some (None, s\<lparr>by_replaceable := (by_replaceable s)(key \<mapsto> ev_id e)\<rparr>))))"

definition index_insert ::
    "'x ext_scheme \<Rightarrow> event \<Rightarrow> event_index \<Rightarrow> insert_outcome \<times> event_index" where
  "index_insert X e s =
     (if tombs_contains (tombstones s) (ev_id e) then (Deleted, s)
      else
        (case swap_replaceable X e s of
           None \<Rightarrow> (LostRace, s)
         | Some (replaced, s1) \<Rightarrow>
             let s2 = s1\<lparr>by_id := (by_id s1)(ev_id e \<mapsto> e)\<rparr> in
             if by_id s1 (ev_id e) \<noteq> None then (Duplicate, s2)
             else if is_replaceable e \<and> \<not> is_still_winner s2 e then
               (LostRace, s2\<lparr>by_id := (by_id s2)(ev_id e := None)\<rparr>)
             else
               let s3 = add_secondary X e
                          (s2\<lparr>memory_bytes := memory_bytes s2 + of_nat (length (ev_raw e)),
                              event_count := event_count s2 + 1\<rparr>) in
               if by_id s3 (ev_id e) = None then
                 (if is_replaceable e then LostRace else Duplicate,
                  cleanup_secondary_indexes X e s3)
               else if is_replaceable e \<and> \<not> is_still_winner s3 e then
                 (LostRace, cleanup_event X e s3)
               else (Inserted replaced, s3)))"

definition index_remove ::
    "'x ext_scheme \<Rightarrow> bytes \<Rightarrow> event_index \<Rightarrow> event option \<times> event_index" where
  "index_remove X i s = internal_remove X i True s"

definition delete_by_id ::
    "'x ext_scheme \<Rightarrow> bytes \<Rightarrow> event_index \<Rightarrow> event option \<times> event_index" where
  "delete_by_id X i s =
     (let (removed, s1) = internal_remove X i False s
      in (removed, s1\<lparr>tombstones := tombs_insert (tombstones s1) i\<rparr>))"

definition coordinate_key :: "coordinate \<Rightarrow> repl_key" where
  "coordinate_key c =
     (if co_d_tag c = [] then Replaceable (co_pubkey c) (co_kind c)
      else Addressable (co_pubkey c) (co_kind c) (co_d_tag c))"

definition coordinate_targets :: "event_index \<Rightarrow> coordinate \<Rightarrow> u64 \<Rightarrow> bytes list" where
  "coordinate_targets s c until =
     filter (\<lambda>i. case by_id s i of Some e \<Rightarrow> ev_created_at e \<le> until | None \<Rightarrow> False)
       (case by_replaceable s (coordinate_key c) of Some i \<Rightarrow> [i] | None \<Rightarrow> [])"

definition is_tombstoned :: "event_index \<Rightarrow> bytes \<Rightarrow> bool" where
  "is_tombstoned s i = tombs_contains (tombstones s) i"

definition index_tombstone :: "bytes \<Rightarrow> event_index \<Rightarrow> event_index" where
  "index_tombstone i s = s\<lparr>tombstones := tombs_insert (tombstones s) i\<rparr>"

definition tombstone_count :: "event_index \<Rightarrow> usize" where
  "tombstone_count s = tombs_len (tombstones s)"

section \<open>Reads\<close>

text \<open>\<open>Reverse<EventRef>\<close>, the element order of both heaps.\<close>

definition rev_less :: "eref \<Rightarrow> eref \<Rightarrow> bool" where
  "rev_less a b = er_less b a"

text \<open>
  One shard of \<open>get_oldest\<close>. The result \<open>None\<close> is the panic of \<open>heap.peek().unwrap()\<close> on an
  empty heap, and stopping early is the \<open>break\<close>.
\<close>

fun oldest_loop :: "nat \<Rightarrow> eref list \<Rightarrow> eref list \<Rightarrow> eref list option" where
  "oldest_loop n [] h = Some h"
| "oldest_loop n (r # rs) h =
     (if length h < n then oldest_loop n rs (heap_push rev_less r h)
      else
        (case h of
           [] \<Rightarrow> None
         | p # h' \<Rightarrow>
             if er_created_at r < er_created_at p
             then oldest_loop n rs (heap_push rev_less r h')
             else Some h))"

fun oldest_shards :: "nat \<Rightarrow> eref list list \<Rightarrow> eref list \<Rightarrow> eref list option" where
  "oldest_shards n [] h = Some h"
| "oldest_shards n (sh # shs) h =
     (case oldest_loop n (rev sh) h of
        None \<Rightarrow> None | Some h' \<Rightarrow> oldest_shards n shs h')"

text \<open>Popping the heap pushes its elements in heap order; the vector is then reversed.\<close>

definition get_oldest :: "event_index \<Rightarrow> nat \<Rightarrow> eref list option" where
  "get_oldest s n = map_option rev (oldest_shards n (by_oldest s) [])"

fun newest_loop :: "nat \<Rightarrow> eref list \<Rightarrow> eref list \<Rightarrow> eref list option" where
  "newest_loop n [] h = Some h"
| "newest_loop n (r # rs) h =
     (if length h < n then newest_loop n rs (heap_push rev_less r h)
      else
        (case h of
           [] \<Rightarrow> None
         | p # h' \<Rightarrow>
             if er_created_at p < er_created_at r
             then newest_loop n rs (heap_push rev_less r h')
             else Some h))"

fun newest_shards :: "nat \<Rightarrow> eref list list \<Rightarrow> eref list \<Rightarrow> eref list option" where
  "newest_shards n [] h = Some h"
| "newest_shards n (sh # shs) h =
     (case newest_loop n sh h of
        None \<Rightarrow> None | Some h' \<Rightarrow> newest_shards n shs h')"

definition get_newest :: "event_index \<Rightarrow> nat \<Rightarrow> event list option" where
  "get_newest s n =
     (if n = 0 then Some []
      else map_option (\<lambda>h. map er_event (rev h)) (newest_shards n (by_oldest s) []))"

definition index_get :: "event_index \<Rightarrow> bytes \<Rightarrow> event option" where
  "index_get s i = by_id s i"

definition index_len :: "event_index \<Rightarrow> usize" where
  "index_len s = of_nat (card (dom (by_id s)))"

text \<open>\<open>ord\<close> is the order in which the hash map happens to list its keys.\<close>

definition iter_all :: "(bytes set \<Rightarrow> bytes list) \<Rightarrow> event_index \<Rightarrow> event list" where
  "iter_all ord s = List.map_filter (by_id s) (ord (dom (by_id s)))"

definition query_by_pubkey :: "event_index \<Rightarrow> bytes \<Rightarrow> nat \<Rightarrow> event list" where
  "query_by_pubkey s pk limit =
     (case by_pubkey s (tag_id_hash pk) of
        None \<Rightarrow> [] | Some refs \<Rightarrow> map er_event (take limit refs))"

definition query_by_kind :: "event_index \<Rightarrow> u32 \<Rightarrow> nat \<Rightarrow> event list" where
  "query_by_kind s kind limit =
     (case by_kind s kind of
        None \<Rightarrow> [] | Some refs \<Rightarrow> map er_event (take limit refs))"

definition query_by_pubkey_since :: "event_index \<Rightarrow> bytes \<Rightarrow> u64 \<Rightarrow> nat \<Rightarrow> event list" where
  "query_by_pubkey_since s pk since limit =
     (case by_pubkey s (tag_id_hash pk) of
        None \<Rightarrow> []
      | Some refs \<Rightarrow>
          map er_event (take limit (takeWhile (\<lambda>r. since \<le> er_created_at r) refs)))"

definition query_by_e_tag :: "event_index \<Rightarrow> bytes \<Rightarrow> nat \<Rightarrow> event list" where
  "query_by_e_tag s i limit =
     (case by_tag_e s (tag_id_hash i) of
        None \<Rightarrow> [] | Some refs \<Rightarrow> map er_event (take limit refs))"

definition query_by_p_tag :: "event_index \<Rightarrow> bytes \<Rightarrow> nat \<Rightarrow> event list" where
  "query_by_p_tag s pk limit =
     (case by_tag_p s (tag_id_hash pk) of
        None \<Rightarrow> [] | Some refs \<Rightarrow> map er_event (take limit refs))"

definition query_by_tag :: "event_index \<Rightarrow> string \<Rightarrow> string \<Rightarrow> nat \<Rightarrow> event list" where
  "query_by_tag s letter value limit =
     (case by_tag_other s letter of
        None \<Rightarrow> []
      | Some inner \<Rightarrow>
          (case inner value of
             None \<Rightarrow> [] | Some refs \<Rightarrow> map er_event (take limit refs)))"

end
