(* ===== verification/Secondary_Index.thy ===== *)
theory Secondary_Index
  imports Event_Index
begin

text \<open>
  The contract of the six secondary indexes (by pubkey, kind, \<open>e\<close> tag, \<open>p\<close> tag, other tag, and
  the eviction shards): under each key an index holds, newest first, exactly the references of
  the stored events that have the key. The locale \<open>secondary_index\<close> states what an index
  implementation promises for one \<open>add\<close> and one \<open>del\<close>; that the contract survives insertion and
  removal of events, and what a query then returns, is proved once from it.
\<close>

section \<open>The order of event references\<close>

interpretation er: rust_ord er_less
proof unfold_locales
  show "er_less x y \<Longrightarrow> \<not> er_less y x" for x y
    by (auto simp: er_less_def)
  show "er_less x y \<Longrightarrow> er_less y z \<Longrightarrow> er_less x z" for x y z
    by (auto simp: er_less_def)
  show "er_less x z \<Longrightarrow> er_less x y \<or> er_less y z" for x y z
    by (auto simp: er_less_def not_less_iff_gr_or_eq)
qed

interpretation er_rev: rust_ord rev_less
  using rust_ord_reverse [OF er.rust_ord_axioms]
  by (simp add: rev_less_def [abs_def])

lemma eref_new_simps [simp]:
  "er_created_at (eref_new e) = ev_created_at e"
  "er_id (eref_new e) = ev_id e"
  "er_event (eref_new e) = e"
  by (simp_all add: eref_new_def)

lemma eref_new_inject [simp]: "eref_new a = eref_new b \<longleftrightarrow> a = b"
  by (metis eref_new_simps(3))

lemma er_event_eref_image [simp]: "er_event ` eref_new ` A = A"
  by (simp add: image_image)

lemma er_equiv_same_id:
  "\<not> er_less (eref_new a) (eref_new b) \<Longrightarrow> \<not> er_less (eref_new b) (eref_new a) \<Longrightarrow>
   ev_id a = ev_id b"
  by (auto simp: er_less_def not_less_iff_gr_or_eq)

section \<open>The contract\<close>

definition sec_ok ::
    "('m \<Rightarrow> 'k \<Rightarrow> eref list) \<Rightarrow> (event \<Rightarrow> 'k set) \<Rightarrow> 'm \<Rightarrow> event set \<Rightarrow> bool" where
  "sec_ok content keys m E \<longleftrightarrow>
     (\<forall>k. sorted_wrt er_less (content m k) \<and>
          set (content m k) = eref_new ` {e \<in> E. k \<in> keys e})"

text \<open>The events of a set, newest first: what a query of an index promises to read from.\<close>

definition newest_first :: "event set \<Rightarrow> event list \<Rightarrow> bool" where
  "newest_first E es \<longleftrightarrow> set es = E \<and> sorted_wrt er_less (map eref_new es)"

lemma newest_first_unique: "newest_first E es \<Longrightarrow> newest_first E fs \<Longrightarrow> es = fs"
  using er.sorted_unique [of "map eref_new es" "map eref_new fs"]
  by (simp add: newest_first_def inj_on_map_eq_map inj_on_def)

lemma newest_first_distinct: "newest_first E es \<Longrightarrow> distinct es"
  using er.sorted_distinct [of "map eref_new es"] by (simp add: newest_first_def distinct_map)

lemma newest_first_ids:
  assumes "newest_first E es" "inj_on ev_id E"
  shows "distinct (map ev_id es)"
  using assms newest_first_distinct by (auto simp: newest_first_def distinct_map)

lemma sec_ok_content:
  assumes "sec_ok content keys m E"
  shows "newest_first {e \<in> E. k \<in> keys e} (map er_event (content m k))"
proof -
  have c: "sorted_wrt er_less (content m k)" "set (content m k) = eref_new ` {e \<in> E. k \<in> keys e}"
    using assms by (auto simp: sec_ok_def)
  have "map eref_new (map er_event (content m k)) = content m k"
    using c(2) by (auto intro!: map_idI)
  with c show ?thesis by (simp add: newest_first_def image_image)
qed

locale secondary_index =
  fixes wf :: "'m \<Rightarrow> bool"
    and keys :: "event \<Rightarrow> 'k set"
    and content :: "'m \<Rightarrow> 'k \<Rightarrow> eref list"
    and new :: 'm
    and add :: "event \<Rightarrow> 'm \<Rightarrow> 'm"
    and del :: "event \<Rightarrow> 'm \<Rightarrow> 'm"
  assumes wf_new: "wf new"
    and wf_add: "wf m \<Longrightarrow> wf (add e m)"
    and wf_del: "wf m \<Longrightarrow> wf (del e m)"
    and content_new: "content new k = []"
    and content_add: "wf m \<Longrightarrow> content (add e m) k =
          (if k \<in> keys e then bts_insert er_less (eref_new e) (content m k) else content m k)"
    and content_del: "wf m \<Longrightarrow> \<forall>k. sorted_wrt er_less (content m k) \<Longrightarrow> content (del e m) k =
          (if k \<in> keys e then bts_remove er_less (eref_new e) (content m k) else content m k)"
begin

lemma ok_new: "sec_ok content keys new {}"
  by (simp add: sec_ok_def content_new)

lemma only_self:
  assumes "sec_ok content keys m E" "inj_on ev_id (insert e E)"
  shows "\<forall>r \<in> set (content m k).
           \<not> er_less (eref_new e) r \<longrightarrow> \<not> er_less r (eref_new e) \<longrightarrow> r = eref_new e"
proof (intro ballI impI)
  fix r
  assume r: "r \<in> set (content m k)"
    and "\<not> er_less (eref_new e) r" "\<not> er_less r (eref_new e)"
  moreover obtain b where b: "b \<in> E" "r = eref_new b"
    using r assms(1) by (auto simp: sec_ok_def)
  ultimately have "ev_id e = ev_id b" by (intro er_equiv_same_id) simp_all
  then have "e = b" by (rule inj_onD [OF assms(2)]) (simp_all add: b)
  then show "r = eref_new e" by (simp add: b(2))
qed

lemma ok_add:
  assumes "wf m" "sec_ok content keys m E" "inj_on ev_id (insert e E)"
  shows "sec_ok content keys (add e m) (insert e E)"
  using assms(2) er.set_insert [OF only_self [OF assms(2,3)]]
  by (auto simp: sec_ok_def content_add [OF assms(1)] intro: er.sorted_insert)

lemma ok_del:
  assumes "wf m" "sec_ok content keys m E" "inj_on ev_id E" "e \<in> E"
  shows "sec_ok content keys (del e m) (E - {e})"
proof -
  have s: "sorted_wrt er_less (content m k)" for k
    using assms(2) by (simp add: sec_ok_def)
  have "inj_on ev_id (insert e E)" using assms by (simp add: insert_absorb)
  note rm = er.set_remove [OF s only_self [OF assms(2) this]]
  show ?thesis
    using assms(2) rm s
    by (auto simp: sec_ok_def content_del [OF assms(1)] intro: er.sorted_remove)
qed

lemma newest:
  "sec_ok content keys m E \<Longrightarrow> newest_first {e \<in> E. k \<in> keys e} (map er_event (content m k))"
  by (rule sec_ok_content)

end

section \<open>Maps of sets\<close>

lemma idx_get_add:
  "idx_get (idx_add m k r) k' = (if k' = k then bts_insert er_less r (idx_get m k) else idx_get m k')"
  by (simp add: idx_add_def idx_get_def)

lemma idx_get_del:
  "idx_get (idx_del m k r) k' = (if k' = k then bts_remove er_less r (idx_get m k) else idx_get m k')"
  by (auto simp: idx_del_def idx_get_def split: option.splits)

lemma idx_get_empty [simp]: "idx_get Map.empty k = []"
  by (simp add: idx_get_def)

text \<open>A run over a list of keys, which may repeat, has the effect of one step per key.\<close>

lemma fold_idx_add:
  "idx_get (fold (\<lambda>i m. idx_add m (f i) r) xs m) k =
     (if k \<in> f ` set xs then bts_insert er_less r (idx_get m k) else idx_get m k)"
  by (induction xs arbitrary: m) (auto simp: idx_get_add er.insert_idem)

lemma fold_idx_del:
  "\<forall>k. sorted_wrt er_less (idx_get m k) \<Longrightarrow>
   idx_get (fold (\<lambda>i m. idx_del m (f i) r) xs m) k =
     (if k \<in> f ` set xs then bts_remove er_less r (idx_get m k) else idx_get m k)"
proof (induction xs arbitrary: m)
  case (Cons x xs)
  have "\<forall>k. sorted_wrt er_less (idx_get (idx_del m (f x) r) k)"
    using Cons.prems by (simp add: idx_get_del er.sorted_remove)
  from Cons.IH [OF this] Cons.prems show ?case
    by (auto simp: idx_get_del er.remove_idem)
qed simp

lemma other_get_add1:
  "other_get (other_add1 m k r) k' =
     (if k' = k then bts_insert er_less r (other_get m k) else other_get m k')"
  by (cases k; cases k') (auto simp: other_get_def other_add1_def idx_get_add split: option.splits)

lemma other_get_del1:
  "other_get (other_del1 m k r) k' =
     (if k' = k then bts_remove er_less r (other_get m k) else other_get m k')"
  by (cases k; cases k') (auto simp: other_get_def other_del1_def idx_get_del split: option.splits)

lemma fold_other_add:
  "other_get (fold (\<lambda>k m. other_add1 m k r) xs m) k =
     (if k \<in> set xs then bts_insert er_less r (other_get m k) else other_get m k)"
  by (induction xs arbitrary: m) (auto simp: other_get_add1 er.insert_idem)

lemma fold_other_del:
  "\<forall>k. sorted_wrt er_less (other_get m k) \<Longrightarrow>
   other_get (fold (\<lambda>k m. other_del1 m k r) xs m) k =
     (if k \<in> set xs then bts_remove er_less r (other_get m k) else other_get m k)"
proof (induction xs arbitrary: m)
  case (Cons x xs)
  have "sorted_wrt er_less (other_get m k)" for k
    using Cons.prems by blast
  then have "\<forall>k. sorted_wrt er_less (other_get (other_del1 m x r) k)"
    unfolding other_get_del1 by (metis er.sorted_remove)
  from Cons.IH [OF this] \<open>\<And>k. sorted_wrt er_less (other_get m k)\<close> show ?case
    by (auto simp: other_get_del1 er.remove_idem)
qed simp

section \<open>The six indexes fulfil the contract\<close>

abbreviation pubkey_keys :: "event \<Rightarrow> (128 word) set" where
  "pubkey_keys e \<equiv> {tag_id_hash (ev_pubkey e)}"

abbreviation kind_keys :: "event \<Rightarrow> u32 set" where
  "kind_keys e \<equiv> {ev_kind e}"

abbreviation e_keys :: "'x ext_scheme \<Rightarrow> event \<Rightarrow> (128 word) set" where
  "e_keys X e \<equiv> tag_id_hash ` set (e_tags X e)"

abbreviation p_keys :: "'x ext_scheme \<Rightarrow> event \<Rightarrow> (128 word) set" where
  "p_keys X e \<equiv> tag_id_hash ` set (p_tags X e)"

abbreviation other_keys :: "event \<Rightarrow> (string \<times> string) set" where
  "other_keys e \<equiv> set (List.map_filter other_tag (ev_tags e))"

abbreviation oldest_keys :: "event \<Rightarrow> nat set" where
  "oldest_keys e \<equiv> {oldest_shard (ev_id e)}"

abbreviation any_map :: "'m \<Rightarrow> bool" where
  "any_map m \<equiv> True"

definition oldest_wf :: "eref list list \<Rightarrow> bool" where
  "oldest_wf sh \<longleftrightarrow> length sh = OLDEST_SHARDS"

definition oldest_get :: "eref list list \<Rightarrow> nat \<Rightarrow> eref list" where
  "oldest_get sh k = (if k < length sh then sh ! k else [])"

lemma oldest_shard_less: "oldest_shard i < OLDEST_SHARDS"
  by (simp add: oldest_shard_def OLDEST_SHARDS_def)

interpretation pubkey_index:
  secondary_index any_map pubkey_keys idx_get Map.empty add_pubkey del_pubkey
  by unfold_locales (auto simp: add_pubkey_def del_pubkey_def idx_get_add idx_get_del)

interpretation kind_index:
  secondary_index any_map kind_keys idx_get Map.empty add_kind del_kind
  by unfold_locales (auto simp: add_kind_def del_kind_def idx_get_add idx_get_del)

interpretation e_index:
  secondary_index any_map "e_keys X" idx_get Map.empty
    "\<lambda>e. add_ids (e_tags X e) e" "\<lambda>e. del_ids (e_tags X e) e" for X :: "'x ext_scheme"
  by unfold_locales (simp_all add: add_ids_def del_ids_def fold_idx_add fold_idx_del)

interpretation p_index:
  secondary_index any_map "p_keys X" idx_get Map.empty
    "\<lambda>e. add_ids (p_tags X e) e" "\<lambda>e. del_ids (p_tags X e) e" for X :: "'x ext_scheme"
  by unfold_locales (simp_all add: add_ids_def del_ids_def fold_idx_add fold_idx_del)

interpretation other_index:
  secondary_index any_map other_keys other_get Map.empty add_other del_other
  by unfold_locales (simp_all add: add_other_def del_other_def fold_other_add fold_other_del
      other_get_def [of Map.empty])

interpretation oldest_index:
  secondary_index oldest_wf oldest_keys oldest_get "replicate OLDEST_SHARDS []"
    add_oldest del_oldest
  using oldest_shard_less
  by unfold_locales
    (auto simp: oldest_wf_def oldest_get_def add_oldest_def del_oldest_def Let_def nth_list_update)

end
