(* ===== verification/Index_Invariant.thy ===== *)
theory Index_Invariant
  imports Secondary_Index
begin

text \<open>
  The representation invariant of the event index, that every operation keeps it, and that the
  index refines an abstract store: a finite map from ids to events in which at most one event has
  a given replacement key. Events are drawn from a universe \<open>U\<close> in which ids identify events
  (\<open>inj_on ev_id U\<close>), as SHA-256 ids do for honest content.
\<close>

section \<open>Invariant\<close>

definition stored :: "event_index \<Rightarrow> event set" where
  "stored s = ran (by_id s)"

definition payload :: "event set \<Rightarrow> nat" where
  "payload E = (\<Sum>e \<in> E. length (ev_raw e))"

definition sec_all :: "'x ext_scheme \<Rightarrow> event_index \<Rightarrow> event set \<Rightarrow> bool" where
  "sec_all X s E \<longleftrightarrow>
     sec_ok idx_get pubkey_keys (by_pubkey s) E \<and>
     sec_ok idx_get kind_keys (by_kind s) E \<and>
     sec_ok idx_get (e_keys X) (by_tag_e s) E \<and>
     sec_ok idx_get (p_keys X) (by_tag_p s) E \<and>
     sec_ok other_get other_keys (by_tag_other s) E \<and>
     oldest_wf (by_oldest s) \<and> sec_ok oldest_get oldest_keys (by_oldest s) E"

text \<open>Everything but the replaceable index, which \<open>insert\<close> updates before the rest.\<close>

definition index_core :: "'x ext_scheme \<Rightarrow> event set \<Rightarrow> event_index \<Rightarrow> bool" where
  "index_core X U s \<longleftrightarrow>
     finite (dom (by_id s)) \<and> keyed ev_id (by_id s) \<and> stored s \<subseteq> U \<and>
     sec_all X s (stored s) \<and>
     memory_bytes s = of_nat (payload (stored s)) \<and>
     event_count s = of_nat (card (stored s)) \<and>
     tombs_inv (tombstones s) \<and> dom (by_id s) \<inter> ts_ids (tombstones s) = {}"

definition repl_ok :: "event set \<Rightarrow> event_index \<Rightarrow> bool" where
  "repl_ok U s \<longleftrightarrow>
     (\<forall>e \<in> stored s. is_replaceable e \<longrightarrow>
        by_replaceable s (replacement_key e) = Some (ev_id e)) \<and>
     (\<forall>k i. by_replaceable s k = Some i \<longrightarrow>
        (\<exists>e \<in> U. ev_id e = i \<and> is_replaceable e \<and> replacement_key e = k))"

definition index_inv :: "'x ext_scheme \<Rightarrow> event set \<Rightarrow> event_index \<Rightarrow> bool" where
  "index_inv X U s \<longleftrightarrow> index_core X U s \<and> repl_ok U s"

section \<open>The abstract store\<close>

text \<open>
  \<open>spec_insert T m e o m'\<close>: publishing \<open>e\<close> to a store that holds \<open>m\<close> and refuses the ids in
  \<open>T\<close> answers \<open>o\<close> and leaves \<open>m'\<close>.
\<close>

definition rival :: "(bytes \<rightharpoonup> event) \<Rightarrow> event \<Rightarrow> event \<Rightarrow> bool" where
  "rival m e d \<longleftrightarrow>
     is_replaceable e \<and> d \<in> ran m \<and> is_replaceable d \<and> replacement_key d = replacement_key e"

inductive spec_insert ::
    "bytes set \<Rightarrow> (bytes \<rightharpoonup> event) \<Rightarrow> event \<Rightarrow> insert_outcome \<Rightarrow> (bytes \<rightharpoonup> event) \<Rightarrow> bool"
  for T m e where
  tombstoned: "ev_id e \<in> T \<Longrightarrow> spec_insert T m e Deleted m"
| stale: "ev_id e \<notin> T \<Longrightarrow> rival m e d \<Longrightarrow> \<not> incoming_wins e d \<Longrightarrow> spec_insert T m e LostRace m"
| replace: "ev_id e \<notin> T \<Longrightarrow> rival m e d \<Longrightarrow> incoming_wins e d \<Longrightarrow>
    spec_insert T m e (Inserted (Some d)) (m(ev_id d := None, ev_id e \<mapsto> e))"
| again: "ev_id e \<notin> T \<Longrightarrow> \<not> is_replaceable e \<Longrightarrow> m (ev_id e) \<noteq> None \<Longrightarrow>
    spec_insert T m e Duplicate m"
| fresh: "ev_id e \<notin> T \<Longrightarrow> \<nexists>d. rival m e d \<Longrightarrow> m (ev_id e) = None \<Longrightarrow>
    spec_insert T m e (Inserted None) (m(ev_id e \<mapsto> e))"

inductive_cases spec_insertE [elim]: "spec_insert T m e r m'"

section \<open>Field frames\<close>

lemma add_secondary_frame [frame_simps, simp]:
  "by_id (add_secondary X e s) = by_id s"
  "by_replaceable (add_secondary X e s) = by_replaceable s"
  "tombstones (add_secondary X e s) = tombstones s"
  "memory_bytes (add_secondary X e s) = memory_bytes s"
  "event_count (add_secondary X e s) = event_count s"
  by (simp_all add: add_secondary_def)

lemma cleanup_secondary_frame [frame_simps, simp]:
  "by_id (cleanup_secondary_indexes X e s) = by_id s"
  "by_replaceable (cleanup_secondary_indexes X e s) = by_replaceable s"
  "tombstones (cleanup_secondary_indexes X e s) = tombstones s"
  "memory_bytes (cleanup_secondary_indexes X e s) = memory_bytes s"
  "event_count (cleanup_secondary_indexes X e s) = event_count s"
  by (simp_all add: cleanup_secondary_indexes_def)

lemma sec_all_frame [simp]:
  "sec_all X (s\<lparr>by_id := a\<rparr>) E = sec_all X s E"
  "sec_all X (s\<lparr>by_replaceable := b\<rparr>) E = sec_all X s E"
  "sec_all X (s\<lparr>tombstones := c\<rparr>) E = sec_all X s E"
  "sec_all X (s\<lparr>memory_bytes := d\<rparr>) E = sec_all X s E"
  "sec_all X (s\<lparr>event_count := f\<rparr>) E = sec_all X s E"
  by (simp_all add: sec_all_def)

lemma stored_frame [simp]:
  "stored (s\<lparr>by_replaceable := b\<rparr>) = stored s"
  "stored (s\<lparr>tombstones := c\<rparr>) = stored s"
  "stored (s\<lparr>memory_bytes := d\<rparr>) = stored s"
  "stored (s\<lparr>event_count := f\<rparr>) = stored s"
  "stored (add_secondary X e s) = stored s"
  "stored (cleanup_secondary_indexes X e s) = stored s"
  by (simp_all add: stored_def)

section \<open>The secondary indexes together\<close>

lemma sec_all_new: "sec_all X index_new {}"
  unfolding sec_all_def index_new_def event_index.simps
  by (intro conjI pubkey_index.ok_new kind_index.ok_new e_index.ok_new p_index.ok_new
      other_index.ok_new oldest_index.ok_new oldest_index.wf_new)

lemma sec_all_add:
  assumes "sec_all X s E" "inj_on ev_id (insert e E)"
  shows "sec_all X (add_secondary X e s) (insert e E)"
  using assms unfolding sec_all_def add_secondary_def
  by (simp add: pubkey_index.ok_add kind_index.ok_add e_index.ok_add p_index.ok_add
      other_index.ok_add oldest_index.ok_add oldest_index.wf_add)

lemma sec_all_del:
  assumes "sec_all X s E" "inj_on ev_id E" "e \<in> E"
  shows "sec_all X (cleanup_secondary_indexes X e s) (E - {e})"
  using assms unfolding sec_all_def cleanup_secondary_indexes_def
  by (simp add: pubkey_index.ok_del kind_index.ok_del e_index.ok_del p_index.ok_del
      other_index.ok_del oldest_index.ok_del oldest_index.wf_del)

lemma payload_insert: "finite E \<Longrightarrow> e \<notin> E \<Longrightarrow> payload (insert e E) = length (ev_raw e) + payload E"
  by (simp add: payload_def)

lemma payload_remove:
  "finite E \<Longrightarrow> e \<in> E \<Longrightarrow>
   (of_nat (payload (E - {e})) :: usize) = of_nat (payload E) - of_nat (length (ev_raw e))"
  by (simp add: payload_def sum.remove)

lemma count_remove:
  "finite E \<Longrightarrow> e \<in> E \<Longrightarrow> (of_nat (card (E - {e})) :: usize) = of_nat (card E) - 1"
  using card.remove [of E e] by simp

section \<open>Consequences of the invariant\<close>

lemma index_core_facts:
  assumes "index_core X U s"
  shows "finite (stored s)" "keyed ev_id (by_id s)" "stored s \<subseteq> U" "sec_all X s (stored s)"
    "tombs_inv (tombstones s)"
  using assms by (auto simp: index_core_def stored_def finite_ran)

lemma index_invD: "index_inv X U s \<Longrightarrow> index_core X U s" "index_inv X U s \<Longrightarrow> repl_ok U s"
  by (simp_all add: index_inv_def)

lemma stored_iff: "index_core X U s \<Longrightarrow> e \<in> stored s \<longleftrightarrow> by_id s (ev_id e) = Some e"
  by (simp add: index_core_def stored_def keyed_ran_iff)

lemma by_id_id: "index_core X U s \<Longrightarrow> by_id s i = Some e \<Longrightarrow> ev_id e = i"
  by (auto simp: index_core_def dest: keyedD)

lemma by_id_stored: "by_id s i = Some e \<Longrightarrow> e \<in> stored s"
  by (simp add: stored_def ranI)

lemma stored_inj: "index_core X U s \<Longrightarrow> inj_on ev_id (stored s)"
  by (simp add: index_core_def stored_def keyed_inj)

text \<open>In a universe where ids identify events, the entry of an event's id is the event.\<close>

lemma stored_same_id:
  assumes "inj_on ev_id U" "index_core X U s" "e \<in> U" "by_id s (ev_id e) = Some c"
  shows "c = e"
proof -
  have "c \<in> U" using by_id_stored [OF assms(4)] index_core_facts(3) [OF assms(2)] by blast
  then show ?thesis
    using inj_onD [OF assms(1), of c e] by_id_id [OF assms(2,4)] assms(3) by simp
qed

lemma index_inv_new: "index_inv X U index_new"
  using sec_all_new [of X]
  by (simp add: index_inv_def index_core_def repl_ok_def stored_def index_new_def payload_def)

lemma core_repl_irrelevant [simp]:
  "index_core X U (s\<lparr>by_replaceable := r\<rparr>) = index_core X U s"
  by (simp add: index_core_def)

section \<open>Removal\<close>

lemma internal_remove_absent: "by_id s i = None \<Longrightarrow> internal_remove X i b s = (None, s)"
  by (simp add: internal_remove_def)

lemma internal_remove_result: "fst (internal_remove X i b s) = by_id s i"
  by (simp add: internal_remove_def Let_def split: option.splits)

lemma internal_remove_frame [simp]:
  "by_id (snd (internal_remove X i b s)) = (by_id s)(i := None)"
  "tombstones (snd (internal_remove X i b s)) = tombstones s"
  "by_replaceable (snd (internal_remove X i True s)) = by_replaceable s"
  by (auto simp: internal_remove_def Let_def split: option.splits)

lemma internal_remove_repl:
  "by_id s i = Some e \<Longrightarrow>
   by_replaceable (snd (internal_remove X i False s)) =
     (if is_replaceable e then (by_replaceable s)(replacement_key e := None)
      else by_replaceable s)"
  by (simp add: internal_remove_def Let_def)

lemma internal_remove_core:
  assumes "index_core X U s"
  shows "index_core X U (snd (internal_remove X i b s))"
proof (cases "by_id s i")
  case None
  then show ?thesis using assms by (simp add: internal_remove_absent)
next
  case (Some e)
  let ?s = "snd (internal_remove X i b s)"
  note facts = index_core_facts [OF assms]
  have e: "e \<in> stored s" using Some by (rule by_id_stored)
  have st: "stored ?s = stored s - {e}"
    by (simp add: stored_def ran_keyed_del [OF facts(2) Some])
  have "sec_all X ?s (stored s - {e})"
    using Some sec_all_del [OF facts(4) stored_inj [OF assms] e]
    by (simp add: internal_remove_def Let_def cleanup_secondary_indexes_def sec_all_def)
  moreover have "memory_bytes ?s = memory_bytes s - of_nat (length (ev_raw e))"
    "event_count ?s = event_count s - 1"
    using Some by (simp_all add: internal_remove_def Let_def)
  ultimately show ?thesis
    unfolding index_core_def st
    using assms facts e count_remove [OF facts(1) e]
    by (auto simp: index_core_def keyed_del payload_remove)
qed

lemma index_remove_inv:
  assumes "index_inv X U s"
  shows "index_inv X U (snd (index_remove X i s))"
proof -
  have "stored (snd (internal_remove X i True s)) \<subseteq> stored s"
    by (auto simp: stored_def ran_def)
  moreover have "by_replaceable (snd (internal_remove X i True s)) = by_replaceable s"
    by simp
  ultimately show ?thesis
    using assms internal_remove_core [of X U s i True]
    unfolding index_remove_def index_inv_def repl_ok_def by auto
qed

text \<open>
  A stored replaceable event owns the entry of its key, so deleting it frees exactly that entry.
\<close>

lemma internal_remove_false_inv:
  assumes "inj_on ev_id U" "index_inv X U s"
  shows "index_inv X U (snd (internal_remove X i False s))"
proof (cases "by_id s i")
  case None
  then show ?thesis using assms by (simp add: internal_remove_absent)
next
  case (Some d)
  let ?s = "snd (internal_remove X i False s)"
  have core: "index_core X U s" and repl: "repl_ok U s"
    using assms(2) by (auto simp: index_inv_def)
  have d: "d \<in> stored s" "ev_id d = i"
    using Some core by (auto intro: by_id_stored by_id_id)
  have st: "stored ?s = stored s - {d}"
    by (simp add: stored_def ran_keyed_del [OF index_core_facts(2) [OF core] Some])
  have br: "by_replaceable ?s = (if is_replaceable d
      then (by_replaceable s)(replacement_key d := None) else by_replaceable s)"
    using Some by (rule internal_remove_repl)
  have "by_replaceable ?s (replacement_key e) = Some (ev_id e)"
    if e: "e \<in> stored s" "e \<noteq> d" "is_replaceable e" for e
  proof -
    have own: "by_replaceable s (replacement_key e) = Some (ev_id e)"
      using repl e by (simp add: repl_ok_def)
    have "ev_id e \<noteq> ev_id d"
      using e d stored_inj [OF core] by (auto dest: inj_onD)
    then have "\<not> (is_replaceable d \<and> replacement_key d = replacement_key e)"
      using own repl d by (auto simp: repl_ok_def)
    then show ?thesis using own br by auto
  qed
  moreover have "\<exists>e \<in> U. ev_id e = j \<and> is_replaceable e \<and> replacement_key e = k"
    if "by_replaceable ?s k = Some j" for k j
    using that repl br by (auto simp: repl_ok_def split: if_splits)
  ultimately have "repl_ok U ?s" by (auto simp: repl_ok_def st)
  then show ?thesis
    using internal_remove_core [OF core] by (simp add: index_inv_def)
qed

section \<open>Insertion\<close>

text \<open>Storing a new event after the replaceable swap keeps the core invariant.\<close>

definition put_event :: "event \<Rightarrow> event_index \<Rightarrow> event_index" where
  "put_event e s =
     s\<lparr>by_id := (by_id s)(ev_id e \<mapsto> e),
       memory_bytes := memory_bytes s + of_nat (length (ev_raw e)),
       event_count := event_count s + 1\<rparr>"

lemma put_event_frame [simp]:
  "by_id (put_event e s) = (by_id s)(ev_id e \<mapsto> e)"
  "by_replaceable (put_event e s) = by_replaceable s"
  "tombstones (put_event e s) = tombstones s"
  "sec_all X (put_event e s) E = sec_all X s E"
  by (simp_all add: put_event_def)

lemma put_event_stored: "by_id s (ev_id e) = None \<Longrightarrow> stored (put_event e s) = insert e (stored s)"
  by (simp add: stored_def ran_keyed_upd)

lemma add_event_core:
  assumes inj: "inj_on ev_id U" and core: "index_core X U s" and e: "e \<in> U"
    and new: "by_id s (ev_id e) = None" and live: "ev_id e \<notin> ts_ids (tombstones s)"
  shows "index_core X U (add_secondary X e (put_event e s))"
proof -
  note facts = index_core_facts [OF core]
  have fresh: "e \<notin> stored s" using new core by (auto simp: stored_iff)
  have "insert e (stored s) \<subseteq> U" using e facts by simp
  then have "inj_on ev_id (insert e (stored s))" by (rule inj_on_subset [OF inj])
  then have "sec_all X (add_secondary X e (put_event e s)) (insert e (stored s))"
    using facts(4) by (intro sec_all_add) simp_all
  moreover have "memory_bytes (put_event e s) = memory_bytes s + of_nat (length (ev_raw e))"
    "event_count (put_event e s) = event_count s + 1"
    by (simp_all add: put_event_def)
  ultimately show ?thesis
    unfolding index_core_def using core facts e fresh live
    by (simp add: index_core_def keyed_upd payload_insert put_event_stored [OF new] add.commute)
qed

lemma repl_ok_winner:
  assumes "repl_ok U s" "e \<in> stored s" "is_replaceable e"
  shows "is_still_winner s e"
proof -
  have "replacement_key e \<noteq> RK_None" using assms(3) by (simp add: replacement_key_None)
  then show ?thesis using assms
    by (auto simp: is_still_winner_def repl_ok_def split: repl_key.splits)
qed

text \<open>What the replaceable swap finds is the abstract store's rival.\<close>

lemma rival_iff:
  assumes inj: "inj_on ev_id U" and inv: "index_inv X U s" and repl: "is_replaceable e"
  shows "rival (by_id s) e d \<longleftrightarrow>
     by_replaceable s (replacement_key e) = Some (ev_id d) \<and> by_id s (ev_id d) = Some d"
proof
  have core: "index_core X U s" and r: "repl_ok U s"
    using inv by (auto simp: index_inv_def)
  show "by_replaceable s (replacement_key e) = Some (ev_id d) \<and> by_id s (ev_id d) = Some d"
    if "rival (by_id s) e d"
    using that r core by (auto simp: rival_def repl_ok_def stored_def [symmetric] stored_iff)
  assume h: "by_replaceable s (replacement_key e) = Some (ev_id d) \<and> by_id s (ev_id d) = Some d"
  then have d: "d \<in> stored s" by (auto intro: by_id_stored)
  obtain d' where d': "d' \<in> U" "ev_id d' = ev_id d" "is_replaceable d'"
      "replacement_key d' = replacement_key e"
    using h r unfolding repl_ok_def by meson
  have "d' = d"
    using inj_onD [OF inj d'(2) d'(1)] d index_core_facts(3) [OF core] by auto
  then show "rival (by_id s) e d"
    using d' d repl by (simp add: rival_def stored_def)
qed

lemma rival_unique:
  assumes "inj_on ev_id U" "index_inv X U s" "rival (by_id s) e d" "rival (by_id s) e d'"
  shows "d = d'"
proof -
  have "is_replaceable e" using assms(3) by (simp add: rival_def)
  from rival_iff [OF assms(1,2) this] assms(3,4) show ?thesis by simp
qed

lemma stored_replaceable_is_rival:
  assumes "index_inv X U s" "is_replaceable e" "by_id s (ev_id e) = Some e"
  shows "rival (by_id s) e e"
  using assms by (auto simp: rival_def intro: ranI)

lemma incoming_wins_irrefl [simp]: "\<not> incoming_wins e e"
  by (simp add: incoming_wins_def)

text \<open>The swap, described by the rival it meets.\<close>

lemma swap_not_replaceable: "\<not> is_replaceable e \<Longrightarrow> swap_replaceable X e s = Some (None, s)"
  by (simp add: swap_replaceable_def)

lemma swap_replaceable_cases:
  assumes repl: "is_replaceable e"
  shows "swap_replaceable X e s =
     (case by_replaceable s (replacement_key e) of
        None \<Rightarrow> Some (None, s\<lparr>by_replaceable := (by_replaceable s)(replacement_key e \<mapsto> ev_id e)\<rparr>)
      | Some i \<Rightarrow>
          (case by_id s i of
             Some d \<Rightarrow>
               if incoming_wins e d
               then Some (internal_remove X i True
                      (s\<lparr>by_replaceable := (by_replaceable s)(replacement_key e \<mapsto> ev_id e)\<rparr>))
               else None
           | None \<Rightarrow>
               Some (None, s\<lparr>by_replaceable := (by_replaceable s)(replacement_key e \<mapsto> ev_id e)\<rparr>)))"
proof -
  have "replacement_key e \<noteq> RK_None" using repl by (simp add: replacement_key_None)
  with repl show ?thesis
    by (simp add: swap_replaceable_def internal_remove_absent
        split: repl_key.splits option.splits)
qed

text \<open>
  After a successful swap nothing else stands in the way of the new event: its id is free and it
  owns its key.
\<close>

definition swapped :: "'x ext_scheme \<Rightarrow> event set \<Rightarrow> event \<Rightarrow> event_index \<Rightarrow> bool" where
  "swapped X U e s \<longleftrightarrow>
     index_core X U s \<and> by_id s (ev_id e) = None \<and>
     (\<forall>d \<in> stored s. is_replaceable d \<longrightarrow>
        by_replaceable s (replacement_key d) = Some (ev_id d)) \<and>
     (\<forall>k i. by_replaceable s k = Some i \<longrightarrow>
        (\<exists>d \<in> U. ev_id d = i \<and> is_replaceable d \<and> replacement_key d = k)) \<and>
     (is_replaceable e \<longrightarrow> by_replaceable s (replacement_key e) = Some (ev_id e))"

lemma swapped_insert:
  assumes inj: "inj_on ev_id U" and sw: "swapped X U e s" and e: "e \<in> U"
    and live: "ev_id e \<notin> ts_ids (tombstones s)"
  shows "index_inv X U (add_secondary X e (put_event e s))"
    and "is_replaceable e \<Longrightarrow> is_still_winner (s\<lparr>by_id := m\<rparr>) e"
    and "is_replaceable e \<Longrightarrow> is_still_winner (add_secondary X e (put_event e s)) e"
proof -
  have new: "by_id s (ev_id e) = None" and core: "index_core X U s"
    using sw by (auto simp: swapped_def)
  have "repl_ok U (add_secondary X e (put_event e s))"
    using sw by (auto simp: repl_ok_def swapped_def put_event_stored [OF new])
  then show "index_inv X U (add_secondary X e (put_event e s))"
    using add_event_core [OF inj core e new live] by (simp add: index_inv_def)
  have "replacement_key e \<noteq> RK_None" if "is_replaceable e"
    using that by (simp add: replacement_key_None)
  then show "is_still_winner (s\<lparr>by_id := m\<rparr>) e"
    and "is_still_winner (add_secondary X e (put_event e s)) e" if "is_replaceable e"
    using sw that
    by (auto simp: is_still_winner_def swapped_def split: repl_key.splits)
qed

lemma index_insert_swapped:
  assumes "inj_on ev_id U" "swapped X U e s1" "e \<in> U"
    and "\<not> tombs_contains (tombstones s) (ev_id e)" "ev_id e \<notin> ts_ids (tombstones s1)"
    and "swap_replaceable X e s = Some (replaced, s1)"
  shows "index_insert X e s = (Inserted replaced, add_secondary X e (put_event e s1))"
  using assms swapped_insert [OF assms(1-3,5)]
  by (simp add: index_insert_def Let_def swapped_def put_event_def)

lemma swapped_not_replaceable:
  assumes "index_inv X U s" "\<not> is_replaceable e" "by_id s (ev_id e) = None"
  shows "swapped X U e s"
  using assms by (simp add: swapped_def index_inv_def repl_ok_def)

lemma swapped_vacant:
  assumes inj: "inj_on ev_id U" and inv: "index_inv X U s" and e: "e \<in> U"
    and repl: "is_replaceable e" and no: "\<nexists>d. rival (by_id s) e d"
  shows "swapped X U e (s\<lparr>by_replaceable := (by_replaceable s)(replacement_key e \<mapsto> ev_id e)\<rparr>)"
    and "by_id s (ev_id e) = None"
proof -
  have core: "index_core X U s" and r: "repl_ok U s"
    using inv by (auto simp: index_inv_def)
  show new: "by_id s (ev_id e) = None"
  proof (cases "by_id s (ev_id e)")
    case (Some d)
    have "d = e" by (rule stored_same_id [OF inj core e Some])
    with Some no stored_replaceable_is_rival [OF inv repl] show ?thesis by blast
  qed
  have "replacement_key d \<noteq> replacement_key e" if "d \<in> stored s" "is_replaceable d" for d
    using no that repl by (auto simp: rival_def stored_def)
  then show "swapped X U e (s\<lparr>by_replaceable := (by_replaceable s)(replacement_key e \<mapsto> ev_id e)\<rparr>)"
    using core r new e repl by (auto simp: swapped_def repl_ok_def)
qed

lemma swapped_rival:
  assumes inj: "inj_on ev_id U" and inv: "index_inv X U s" and e: "e \<in> U"
    and riv: "rival (by_id s) e d" and wins: "incoming_wins e d"
  shows "swapped X U e (snd (internal_remove X (ev_id d) True
           (s\<lparr>by_replaceable := (by_replaceable s)(replacement_key e \<mapsto> ev_id e)\<rparr>)))"
    (is "swapped X U e ?s")
proof -
  have core: "index_core X U s" and r: "repl_ok U s"
    using inv by (auto simp: index_inv_def)
  have repl: "is_replaceable e" using riv by (simp add: rival_def)
  have d: "by_id s (ev_id d) = Some d"
    using rival_iff [OF inj inv repl] riv by blast
  have "by_id s (ev_id e) = None \<or> ev_id e = ev_id d"
  proof (cases "by_id s (ev_id e)")
    case (Some d')
    have "d' = e" by (rule stored_same_id [OF inj core e Some])
    with Some have "by_id s (ev_id e) = Some e" by simp
    then have "rival (by_id s) e e" by (rule stored_replaceable_is_rival [OF inv repl])
    from rival_unique [OF inj inv riv this] show ?thesis by simp
  qed simp
  then have new: "((by_id s)(ev_id d := None)) (ev_id e) = None" by auto
  have st: "stored ?s = stored s - {d}"
    by (simp add: stored_def ran_keyed_del [OF index_core_facts(2) [OF core] d])
  have "replacement_key d' \<noteq> replacement_key e"
    if d': "d' \<in> stored s" "d' \<noteq> d" "is_replaceable d'" for d'
  proof
    assume "replacement_key d' = replacement_key e"
    then have "rival (by_id s) e d'" using d' repl by (simp add: rival_def stored_def)
    from rival_unique [OF inj inv riv this] d'(2) show False by simp
  qed
  then have "\<forall>d' \<in> stored ?s. is_replaceable d' \<longrightarrow>
      by_replaceable ?s (replacement_key d') = Some (ev_id d')"
    using r by (auto simp: st repl_ok_def)
  then show "swapped X U e ?s"
    using new r e repl internal_remove_core [of X U _ "ev_id d" True] core
    by (auto simp: swapped_def repl_ok_def)
qed

text \<open>The refinement: every call of \<open>index_insert\<close> is a step of the abstract store.\<close>

definition insert_refines :: "'x ext_scheme \<Rightarrow> event set \<Rightarrow> event \<Rightarrow> event_index \<Rightarrow> bool" where
  "insert_refines X U e s \<longleftrightarrow>
     (let (r, s') = index_insert X e s in
      index_inv X U s' \<and> tombstones s' = tombstones s \<and>
      spec_insert (ts_ids (tombstones s)) (by_id s) e r (by_id s'))"

lemma insert_refines_swapped:
  assumes "inj_on ev_id U" "swapped X U e s1" "e \<in> U"
    and "\<not> tombs_contains (tombstones s) (ev_id e)" "ev_id e \<notin> ts_ids (tombstones s)"
    and "tombstones s1 = tombstones s"
    and "swap_replaceable X e s = Some (replaced, s1)"
    and "spec_insert (ts_ids (tombstones s)) (by_id s) e (Inserted replaced)
           ((by_id s1)(ev_id e \<mapsto> e))"
  shows "insert_refines X U e s"
  using assms index_insert_swapped [of U X e s1 s replaced]
    swapped_insert(1) [OF assms(1-3)]
  by (simp add: insert_refines_def)

lemma insert_refines_replaceable:
  assumes inj: "inj_on ev_id U" and inv: "index_inv X U s" and e: "e \<in> U"
    and repl: "is_replaceable e"
    and live: "\<not> tombs_contains (tombstones s) (ev_id e)" "ev_id e \<notin> ts_ids (tombstones s)"
  shows "insert_refines X U e s"
proof -
  let ?r = "s\<lparr>by_replaceable := (by_replaceable s)(replacement_key e \<mapsto> ev_id e)\<rparr>"
  note sc = swap_replaceable_cases [OF repl, of X s] and rv = rival_iff [OF inj inv repl]
  have core: "index_core X U s" using inv by (simp add: index_inv_def)
  show ?thesis
  proof (cases "\<exists>d. rival (by_id s) e d")
    case False
    have "swap_replaceable X e s = Some (None, ?r)"
      using False rv by_id_id [OF core] unfolding sc by (auto split: option.splits)
    moreover note sw = swapped_vacant [OF inj inv e repl False]
    moreover have "spec_insert (ts_ids (tombstones s)) (by_id s) e (Inserted None)
        ((by_id ?r)(ev_id e \<mapsto> e))"
      using live(2) False sw(2) by (simp add: spec_insert.fresh)
    ultimately show ?thesis
      using live by (intro insert_refines_swapped [OF inj sw(1) e]) simp_all
  next
    case True
    then obtain d where riv: "rival (by_id s) e d" by blast
    then have d: "by_replaceable s (replacement_key e) = Some (ev_id d)" "by_id s (ev_id d) = Some d"
      using rv by blast+
    show ?thesis
    proof (cases "incoming_wins e d")
      case True
      let ?s1 = "snd (internal_remove X (ev_id d) True ?r)"
      have "swap_replaceable X e s = Some (Some d, ?s1)"
        using d True internal_remove_result [of X "ev_id d" True ?r]
        unfolding sc by (simp add: prod_eq_iff)
      moreover have "spec_insert (ts_ids (tombstones s)) (by_id s) e (Inserted (Some d))
          ((by_id ?s1)(ev_id e \<mapsto> e))"
        using spec_insert.replace [OF live(2) riv True] by simp
      ultimately show ?thesis
        using live by (intro insert_refines_swapped
            [OF inj swapped_rival [OF inj inv e riv True] e]) simp_all
    next
      case False
      have "index_insert X e s = (LostRace, s)"
        using d False live unfolding index_insert_def sc by simp
      then show ?thesis
        using inv spec_insert.stale [OF live(2) riv False] by (simp add: insert_refines_def)
    qed
  qed
qed

lemma index_insert_refines:
  assumes inj: "inj_on ev_id U" and inv: "index_inv X U s" and e: "e \<in> U"
  shows "insert_refines X U e s"
proof -
  have core: "index_core X U s" using inv by (simp add: index_inv_def)
  have tomb: "tombs_contains (tombstones s) (ev_id e) \<longleftrightarrow> ev_id e \<in> ts_ids (tombstones s)"
    using tombs_contains_iff [OF index_core_facts(5) [OF core]] .
  consider "ev_id e \<in> ts_ids (tombstones s)"
    | "ev_id e \<notin> ts_ids (tombstones s)" "is_replaceable e"
    | "ev_id e \<notin> ts_ids (tombstones s)" "\<not> is_replaceable e" "by_id s (ev_id e) = None"
    | d where "ev_id e \<notin> ts_ids (tombstones s)" "\<not> is_replaceable e" "by_id s (ev_id e) = Some d"
    by (cases "by_id s (ev_id e)") blast+
  then show ?thesis
  proof cases
    case 1
    then show ?thesis
      using inv tomb by (simp add: insert_refines_def index_insert_def spec_insert.tombstoned)
  next
    case 2
    with tomb show ?thesis by (intro insert_refines_replaceable [OF inj inv e]) simp_all
  next
    case 3
    then have "\<nexists>d. rival (by_id s) e d" by (auto simp: rival_def)
    then have "spec_insert (ts_ids (tombstones s)) (by_id s) e (Inserted None)
        ((by_id s)(ev_id e \<mapsto> e))"
      using 3 by (intro spec_insert.fresh)
    with 3 tomb show ?thesis
      by (intro insert_refines_swapped [OF inj swapped_not_replaceable [OF inv 3(2,3)] e])
        (simp_all add: swap_not_replaceable)
  next
    case 4
    have "d = e" by (rule stored_same_id [OF inj core e 4(3)])
    then have "(by_id s)(ev_id e \<mapsto> e) = by_id s" using 4 by auto
    then have "index_insert X e s = (Duplicate, s)"
      using 4 tomb by (simp add: index_insert_def swap_not_replaceable Let_def)
    then show ?thesis
      using 4 inv by (simp add: insert_refines_def spec_insert.again)
  qed
qed

lemma index_insert_inv:
  assumes "inj_on ev_id U" "index_inv X U s" "e \<in> U"
  shows "index_inv X U (snd (index_insert X e s))"
  using index_insert_refines [OF assms] by (simp add: insert_refines_def split: prod.splits)

lemma delete_by_id_state:
  "snd (delete_by_id X i s) =
     (snd (internal_remove X i False s))\<lparr>tombstones := tombs_insert (tombstones s) i\<rparr>"
  by (simp add: delete_by_id_def case_prod_beta)

lemma delete_by_id_inv:
  assumes "inj_on ev_id U" "index_inv X U s"
  shows "index_inv X U (snd (delete_by_id X i s))"
proof -
  let ?s = "snd (internal_remove X i False s)"
  have s: "index_inv X U ?s" by (rule internal_remove_false_inv [OF assms])
  have "tombs_inv (tombstones s)" using assms by (simp add: index_inv_def index_core_def)
  then have "tombs_inv (tombs_insert (tombstones s) i)"
    "ts_ids (tombs_insert (tombstones s) i) \<subseteq> insert i (ts_ids (tombstones s))"
    by (simp_all add: tombs_inv_insert tombs_insert_subset)
  then show ?thesis
    using s unfolding delete_by_id_state
    by (auto simp: index_inv_def index_core_def repl_ok_def)
qed

lemma index_tombstone_remove_inv:
  assumes "inj_on ev_id U" "index_inv X U s"
  shows "index_inv X U (snd (index_remove X i (index_tombstone i s)))"
proof -
  let ?s = "snd (index_remove X i s)"
  have s: "index_inv X U ?s" by (rule index_remove_inv [OF assms(2)])
  have t: "tombs_inv (tombstones s)" using assms by (simp add: index_inv_def index_core_def)
  have eq: "snd (index_remove X i (index_tombstone i s)) =
      ?s\<lparr>tombstones := tombs_insert (tombstones s) i\<rparr>"
    by (simp add: index_remove_def index_tombstone_def internal_remove_def Let_def
        cleanup_secondary_indexes_def split: option.splits)
  have "by_id ?s = (by_id s)(i := None)" "tombstones ?s = tombstones s"
    by (simp_all add: index_remove_def)
  with s t tombs_inv_insert [OF t, of i] tombs_insert_subset [OF t, of i] show ?thesis
    unfolding eq by (auto simp: index_inv_def index_core_def repl_ok_def)
qed

section \<open>Deletion\<close>

lemma replacement_key_coordinate:
  assumes "replacement_key e = coordinate_key c"
  shows "is_replaceable e" "ev_pubkey e = co_pubkey c" "ev_kind e = co_kind c"
proof -
  have "replacement_key e \<noteq> RK_None" using assms by (simp add: coordinate_key_def)
  then show r: "is_replaceable e" by (simp add: replacement_key_None)
  from replacement_key_cases [OF r] assms
  show "ev_pubkey e = co_pubkey c" "ev_kind e = co_kind c"
    by (auto simp: coordinate_key_def split: if_splits)
qed

text \<open>A coordinate selects the stored event that has its key, unless that is too new.\<close>

lemma coordinate_owner:
  assumes inj: "inj_on ev_id U" and inv: "index_inv X U s"
  shows "by_replaceable s (coordinate_key c) = Some i \<and> by_id s i = Some e \<longleftrightarrow>
     e \<in> stored s \<and> replacement_key e = coordinate_key c \<and> ev_id e = i"
proof
  have core: "index_core X U s" and r: "repl_ok U s" using inv by (auto simp: index_inv_def)
  show "e \<in> stored s \<and> replacement_key e = coordinate_key c \<and> ev_id e = i"
    if h: "by_replaceable s (coordinate_key c) = Some i \<and> by_id s i = Some e"
  proof -
    have e: "e \<in> stored s" "ev_id e = i"
      using h core by (auto intro: by_id_stored by_id_id)
    obtain d where d: "d \<in> U" "ev_id d = i" "replacement_key d = coordinate_key c"
      using h r unfolding repl_ok_def by blast
    have "d = e" using inj_onD [OF inj, of d e] d e index_core_facts(3) [OF core] by auto
    with d e show ?thesis by simp
  qed
  show "by_replaceable s (coordinate_key c) = Some i \<and> by_id s i = Some e"
    if h: "e \<in> stored s \<and> replacement_key e = coordinate_key c \<and> ev_id e = i"
  proof -
    have "is_replaceable e" using h by (intro replacement_key_coordinate(1)) simp
    moreover have "by_id s (ev_id e) = Some e" using h stored_iff [OF core] by blast
    ultimately show ?thesis using h r unfolding repl_ok_def by metis
  qed
qed

lemma coordinate_targets_set:
  assumes inj: "inj_on ev_id U" and inv: "index_inv X U s"
  shows "set (coordinate_targets s c until) =
     ev_id ` {e \<in> stored s. replacement_key e = coordinate_key c \<and> ev_created_at e \<le> until}"
proof -
  have "i \<in> set (coordinate_targets s c until) \<longleftrightarrow>
      (\<exists>e. (by_replaceable s (coordinate_key c) = Some i \<and> by_id s i = Some e) \<and>
           ev_created_at e \<le> until)" for i
    by (auto simp: coordinate_targets_def split: option.splits)
  then show ?thesis unfolding coordinate_owner [OF inj inv] by (auto simp: set_eq_iff image_iff)
qed

lemma delete_by_id_result: "fst (delete_by_id X i s) = by_id s i"
  by (simp add: delete_by_id_def case_prod_beta internal_remove_result)

lemma delete_by_id_frame [simp]:
  "by_id (snd (delete_by_id X i s)) = (by_id s)(i := None)"
  "tombstones (snd (delete_by_id X i s)) = tombs_insert (tombstones s) i"
  by (simp_all add: delete_by_id_state)

lemma iter_all_set:
  assumes "enumerates ord" "finite (dom (by_id s))"
  shows "set (iter_all ord s) = stored s"
  using enumeratesD(2) [OF assms] by (auto simp: iter_all_def map_filter_set stored_def ran_def)

lemma iter_all_distinct:
  assumes "enumerates ord" "finite (dom (by_id s))" "keyed ev_id (by_id s)"
  shows "distinct (iter_all ord s)"
proof -
  have inj: "inj_on (by_id s) (dom (by_id s))"
    using keyedD [OF assms(3)] by (auto intro!: inj_onI) metis
  have "distinct (List.map_filter m is)" if "distinct is" "inj_on m (set is \<inter> dom m)"
    for m :: "bytes \<rightharpoonup> event" and "is"
    using that
    by (induction "is") (auto simp: map_filter_set inj_on_def dom_def split: option.splits)
  then show ?thesis
    using enumeratesD [OF assms(1,2)] inj by (simp add: iter_all_def)
qed

end
