(* ===== verification/Index_Queries.thy ===== *)
theory Index_Queries
  imports Index_Invariant
begin

text \<open>
  What the reads of the index return: the queries of a secondary index are prefixes of the stored
  events that have the key, newest first; \<open>get_oldest\<close>, which eviction relies on, returns the
  oldest events of all shards; \<open>get_newest\<close>, whose heap is ordered the wrong way round, does
  not return the newest ones.
\<close>

section \<open>Queries of the secondary indexes\<close>

text \<open>The answer of a query: the first \<open>n\<close> events of the newest-first list of a set.\<close>

definition answers :: "event set \<Rightarrow> nat \<Rightarrow> event list \<Rightarrow> bool" where
  "answers E n es \<longleftrightarrow> (\<exists>all. newest_first E all \<and> es = take n all)"

lemma answers_unique: "answers E n es \<Longrightarrow> answers E n fs \<Longrightarrow> es = fs"
  using newest_first_unique by (auto simp: answers_def)

lemma answers_subset: "answers E n es \<Longrightarrow> set es \<subseteq> E"
  by (auto simp: answers_def newest_first_def dest: in_set_takeD)

lemma answers_complete: "answers E n es \<Longrightarrow> finite E \<Longrightarrow> card E \<le> n \<Longrightarrow> set es = E"
  by (metis answers_def distinct_card newest_first_def newest_first_distinct take_all)

lemma answers_length: "answers E n es \<Longrightarrow> length es = min n (card E)"
  by (metis answers_def distinct_card length_take min.commute newest_first_def
      newest_first_distinct)

lemma answersI: "newest_first E all \<Longrightarrow> answers E n (take n all)"
  by (auto simp: answers_def)

lemma idx_answers:
  assumes "sec_ok idx_get keys m E"
  shows "answers {e \<in> E. k \<in> keys e} n
    (case m k of None \<Rightarrow> [] | Some refs \<Rightarrow> map er_event (take n refs))"
  using answersI [OF sec_ok_content [OF assms, of k], of n]
  by (simp add: take_map idx_get_def split: option.splits)

lemma sec_allD:
  assumes "sec_all X s E"
  shows "sec_ok idx_get pubkey_keys (by_pubkey s) E"
    "sec_ok idx_get kind_keys (by_kind s) E"
    "sec_ok idx_get (e_keys X) (by_tag_e s) E"
    "sec_ok idx_get (p_keys X) (by_tag_p s) E"
    "sec_ok other_get other_keys (by_tag_other s) E"
    "oldest_wf (by_oldest s)" "sec_ok oldest_get oldest_keys (by_oldest s) E"
  using assms by (simp_all add: sec_all_def)

lemma index_inv_sec: "index_inv X U s \<Longrightarrow> sec_all X s (stored s)"
  by (simp add: index_inv_def index_core_def)

lemma query_by_pubkey_answers:
  assumes "index_inv X U s"
  shows "answers {e \<in> stored s. tag_id_hash (ev_pubkey e) = tag_id_hash pk} n
    (query_by_pubkey s pk n)"
  using idx_answers [OF sec_allD(1) [OF index_inv_sec [OF assms]], of "tag_id_hash pk" n]
  unfolding query_by_pubkey_def by (simp add: eq_commute)

lemma query_by_kind_answers:
  assumes "index_inv X U s"
  shows "answers {e \<in> stored s. ev_kind e = k} n (query_by_kind s k n)"
  using idx_answers [OF sec_allD(2) [OF index_inv_sec [OF assms]], of k n]
  unfolding query_by_kind_def by (simp add: eq_commute)

lemma query_by_e_tag_answers:
  assumes "index_inv X U s"
  shows "answers {e \<in> stored s. tag_id_hash i \<in> e_keys X e} n (query_by_e_tag s i n)"
  using idx_answers [OF sec_allD(3) [OF index_inv_sec [OF assms]], of "tag_id_hash i" n]
  unfolding query_by_e_tag_def .

lemma query_by_p_tag_answers:
  assumes "index_inv X U s"
  shows "answers {e \<in> stored s. tag_id_hash i \<in> p_keys X e} n (query_by_p_tag s i n)"
  using idx_answers [OF sec_allD(4) [OF index_inv_sec [OF assms]], of "tag_id_hash i" n]
  unfolding query_by_p_tag_def .

lemma query_by_tag_answers:
  assumes "index_inv X U s"
  shows "answers {e \<in> stored s. (letter, v) \<in> other_keys e} n (query_by_tag s letter v n)"
  using answersI [OF sec_ok_content [OF sec_allD(5) [OF index_inv_sec [OF assms]], of "(letter, v)"],
      of n]
  by (cases "by_tag_other s letter")
    (simp_all add: query_by_tag_def other_get_def idx_get_def take_map split: option.splits)

text \<open>
  In a newest-first list the events not older than \<open>since\<close> are a prefix, so stopping at the first
  older one loses nothing.
\<close>

lemma takeWhile_newest:
  assumes "sorted_wrt er_less rs"
  shows "takeWhile (\<lambda>r. since \<le> er_created_at r) rs = filter (\<lambda>r. since \<le> er_created_at r) rs"
  using assms
proof (induction rs)
  case (Cons r rs)
  show ?case
  proof (cases "since \<le> er_created_at r")
    case False
    then have "\<forall>x \<in> set rs. \<not> since \<le> er_created_at x"
      using Cons.prems by (auto simp: er_less_def)
    with False show ?thesis by (simp add: filter_empty_conv)
  qed (use Cons in simp)
qed simp

lemma newest_first_filter:
  "newest_first E es \<Longrightarrow> newest_first {e \<in> E. P e} (filter P es)"
  by (auto simp: newest_first_def sorted_wrt_map intro: sorted_wrt_filter)

lemma query_by_pubkey_since_answers:
  assumes "index_inv X U s"
  shows "answers {e \<in> stored s. tag_id_hash (ev_pubkey e) = tag_id_hash pk \<and> since \<le> ev_created_at e}
    n (query_by_pubkey_since s pk since n)"
proof -
  let ?rs = "idx_get (by_pubkey s) (tag_id_hash pk)"
  let ?E = "{e \<in> stored s. tag_id_hash pk \<in> pubkey_keys e}"
  note sec = sec_allD(1) [OF index_inv_sec [OF assms]]
  have sorted: "sorted_wrt er_less ?rs" and set: "set ?rs = eref_new ` ?E"
    using sec unfolding sec_ok_def by blast+
  have "query_by_pubkey_since s pk since n =
      take n (map er_event (filter (\<lambda>r. since \<le> er_created_at r) ?rs))"
    using takeWhile_newest [OF sorted, of since]
    by (simp add: query_by_pubkey_since_def idx_get_def take_map split: option.splits)
  also have "map er_event (filter (\<lambda>r. since \<le> er_created_at r) ?rs) =
      filter (\<lambda>e. since \<le> ev_created_at e) (map er_event ?rs)"
    using set by (auto simp: filter_map comp_def intro!: arg_cong [of _ _ "map er_event"] filter_cong)
  finally show ?thesis
    using answersI [OF newest_first_filter [OF sec_ok_content [OF sec, of "tag_id_hash pk"],
          of "\<lambda>e. since \<le> ev_created_at e"], of n]
    by (simp add: eq_commute [of "tag_id_hash pk"] conj_assoc)
qed

section \<open>The oldest events\<close>

text \<open>
  The heap after the references \<open>P\<close> have been seen: it is sorted, the rest \<open>R\<close> was dropped
  only once the heap was full, and nothing dropped is older than anything kept.
\<close>

definition heap_inv :: "nat \<Rightarrow> eref multiset \<Rightarrow> eref list \<Rightarrow> bool" where
  "heap_inv n P h \<longleftrightarrow>
     sorted_wrt (\<lambda>a b. \<not> rev_less a b) h \<and> length h \<le> n \<and>
     (\<exists>R. P = mset h + R \<and> (length h < n \<longrightarrow> R = {#}) \<and>
        (\<forall>a \<in> set h. \<forall>b \<in># R. er_created_at a \<le> er_created_at b))"

lemma heap_inv_empty: "heap_inv n {#} []"
  by (simp add: heap_inv_def)

lemma heap_head_newest:
  assumes "sorted_wrt (\<lambda>a b. \<not> rev_less a b) (p # h)" "a \<in> set (p # h)"
  shows "er_created_at a \<le> er_created_at p"
  using assms by (auto simp: rev_less_def er_less_def not_less)

lemma heap_inv_push:
  assumes "heap_inv n P h" "length h < n"
  shows "heap_inv n (add_mset r P) (heap_push rev_less r h)"
  using assms by (auto simp: heap_inv_def er_rev.sorted_push)

lemma heap_inv_swap:
  assumes inv: "heap_inv n P (p # h)" and full: "\<not> length (p # h) < n"
    and older: "er_created_at r < er_created_at p"
  shows "heap_inv n (add_mset r P) (heap_push rev_less r h)"
proof -
  obtain R where R: "P = mset (p # h) + R"
      "\<forall>a \<in> set (p # h). \<forall>b \<in># R. er_created_at a \<le> er_created_at b"
    and sorted: "sorted_wrt (\<lambda>a b. \<not> rev_less a b) (p # h)" and len: "length (p # h) \<le> n"
    using inv by (auto simp: heap_inv_def)
  have "add_mset r P = mset (heap_push rev_less r h) + add_mset p R"
    using R(1) by simp
  moreover have "er_created_at a \<le> er_created_at b"
    if "a \<in> set (heap_push rev_less r h)" "b \<in># add_mset p R" for a b
  proof -
    have "er_created_at a \<le> er_created_at p"
      using that(1) older heap_head_newest [OF sorted, of a] by auto
    moreover have "er_created_at p \<le> er_created_at b" using that(2) R(2) by auto
    ultimately show ?thesis by (rule order_trans)
  qed
  moreover have "sorted_wrt (\<lambda>a b. \<not> rev_less a b) (heap_push rev_less r h)"
    using sorted by (intro er_rev.sorted_push) simp
  moreover have "length (heap_push rev_less r h) \<le> n"
    "\<not> length (heap_push rev_less r h) < n"
    using len full by simp_all
  ultimately show ?thesis unfolding heap_inv_def by blast
qed

lemma heap_inv_stop:
  assumes inv: "heap_inv n P (p # h)" and full: "\<not> length (p # h) < n"
    and newer: "\<forall>r \<in> set rs. er_created_at p \<le> er_created_at r"
  shows "heap_inv n (P + mset rs) (p # h)"
proof -
  obtain R where R: "P = mset (p # h) + R"
      "\<forall>a \<in> set (p # h). \<forall>b \<in># R. er_created_at a \<le> er_created_at b"
    and sorted: "sorted_wrt (\<lambda>a b. \<not> rev_less a b) (p # h)" and len: "length (p # h) \<le> n"
    using inv by (auto simp: heap_inv_def)
  have "\<forall>a \<in> set (p # h). \<forall>b \<in># R + mset rs. er_created_at a \<le> er_created_at b"
    using R(2) newer heap_head_newest [OF sorted] by (metis order_trans set_mset_mset union_iff)
  moreover have "P + mset rs = mset (p # h) + (R + mset rs)" using R(1) by (simp add: ac_simps)
  ultimately show ?thesis
    using sorted len full unfolding heap_inv_def by blast
qed

text \<open>A shard, read from its old end, is sorted by time.\<close>

lemma oldest_loop_inv:
  assumes "heap_inv n P h" "0 < n" "sorted_wrt (\<lambda>a b. er_created_at a \<le> er_created_at b) rs"
  shows "\<exists>h'. oldest_loop n rs h = Some h' \<and> heap_inv n (P + mset rs) h'"
  using assms
proof (induction rs arbitrary: P h)
  case (Cons r rs)
  have tail: "sorted_wrt (\<lambda>a b. er_created_at a \<le> er_created_at b) rs" using Cons.prems by simp
  show ?case
  proof (cases "length h < n")
    case True
    from Cons.IH [OF heap_inv_push [OF Cons.prems(1) this] Cons.prems(2) tail] True
    show ?thesis by simp
  next
    case False
    then obtain p h' where h: "h = p # h'" using Cons.prems(2) by (cases h) auto
    note full = False [unfolded h] and inv = Cons.prems(1) [unfolded h]
    show ?thesis
    proof (cases "er_created_at r < er_created_at p")
      case True
      from Cons.IH [OF heap_inv_swap [OF inv full this] Cons.prems(2) tail] True full
      show ?thesis by (simp add: h)
    next
      case stop: False
      have "\<forall>q \<in> set (r # rs). er_created_at p \<le> er_created_at q"
        using stop Cons.prems(3) by (auto intro: order_trans)
      from heap_inv_stop [OF inv full this] stop full show ?thesis by (simp add: h)
    qed
  qed
qed simp

lemma oldest_shards_inv:
  assumes "heap_inv n P h" "0 < n" "\<forall>sh \<in> set shs. sorted_wrt er_less sh"
  shows "\<exists>h'. oldest_shards n shs h = Some h' \<and> heap_inv n (P + mset (concat shs)) h'"
  using assms
proof (induction shs arbitrary: P h)
  case (Cons sh shs)
  have "sorted_wrt (\<lambda>a b. er_created_at a \<le> er_created_at b) (rev sh)"
    using Cons.prems(3)
    by (auto simp: sorted_wrt_rev er_less_def elim!: sorted_wrt_mono_rel [rotated])
  from oldest_loop_inv [OF Cons.prems(1,2) this] obtain h1
    where "oldest_loop n (rev sh) h = Some h1" "heap_inv n (P + mset sh) h1" by auto
  with Cons.IH [of "P + mset sh" h1] Cons.prems show ?case by (auto simp: ac_simps)
qed simp

text \<open>The shards together hold every stored event once.\<close>

lemma set_concat_nth: "set (concat xss) = (\<Union>k < length xss. set (xss ! k))"
  by (metis atLeast_upt set_concat set_upt map_nth set_map image_image lessThan_atLeast0)

lemma distinct_concat_partition:
  assumes "\<forall>i < length xss. distinct (xss ! i) \<and> (\<forall>x \<in> set (xss ! i). f x = i + c)"
  shows "distinct (concat xss)"
  using assms
proof (induction xss arbitrary: c)
  case (Cons xs xss)
  have tl: "\<forall>i < length xss. distinct (xss ! i) \<and> (\<forall>x \<in> set (xss ! i). f x = i + Suc c)"
    using Cons.prems by (metis Suc_less_eq add_Suc_shift length_Cons nth_Cons_Suc)
  then have "distinct (concat xss)" by (rule Cons.IH)
  moreover have "\<forall>x \<in> set (concat xss). f x \<noteq> c"
  proof
    fix x assume "x \<in> set (concat xss)"
    then obtain i where "i < length xss" "x \<in> set (xss ! i)" by (auto simp: set_concat_nth simp del: set_concat)
    with tl have "f x = i + Suc c" by blast
    then show "f x \<noteq> c" by simp
  qed
  moreover have "distinct xs" "\<forall>x \<in> set xs. f x = c"
    using Cons.prems by (metis add_0 length_greater_0_conv list.discI nth_Cons_0)+
  ultimately show ?case by auto
qed simp

lemma oldest_partition:
  assumes "oldest_wf sh" "sec_ok oldest_get oldest_keys sh E"
  shows "distinct (concat sh)" "set (concat sh) = eref_new ` E" "\<forall>xs \<in> set sh. sorted_wrt er_less xs"
proof -
  have len: "length sh = OLDEST_SHARDS" using assms by (simp add: oldest_wf_def)
  have at: "sorted_wrt er_less (sh ! k)"
    "set (sh ! k) = eref_new ` {e \<in> E. oldest_shard (ev_id e) = k}" if "k < length sh" for k
    using assms(2) that by (auto simp: sec_ok_def oldest_get_def split: if_splits)
  have "\<forall>i < length sh. distinct (sh ! i) \<and>
      (\<forall>x \<in> set (sh ! i). oldest_shard (er_id x) = i + 0)"
    using at er.sorted_distinct by auto
  then show "distinct (concat sh)" by (rule distinct_concat_partition)
  show "\<forall>xs \<in> set sh. sorted_wrt er_less xs" using at(1) by (auto simp: in_set_conv_nth)
  have "set (concat sh) = eref_new ` (\<Union>k < length sh. {e \<in> E. oldest_shard (ev_id e) = k})"
    using at(2) by (simp add: set_concat_nth image_UN del: set_concat)
  also have "(\<Union>k < length sh. {e \<in> E. oldest_shard (ev_id e) = k}) = E"
    using oldest_shard_less by (auto simp: len)
  finally show "set (concat sh) = eref_new ` E" .
qed

text \<open>What eviction needs: the \<open>n\<close> oldest events of a set, oldest first.\<close>

definition oldest_first :: "event set \<Rightarrow> nat \<Rightarrow> event list \<Rightarrow> bool" where
  "oldest_first E n es \<longleftrightarrow>
     set es \<subseteq> E \<and> distinct es \<and> length es = min n (card E) \<and>
     sorted_wrt (\<lambda>a b. ev_created_at a \<le> ev_created_at b) es \<and>
     (\<forall>a \<in> set es. \<forall>b \<in> E - set es. ev_created_at a \<le> ev_created_at b)"

lemma heap_inv_oldest_first:
  assumes inv: "heap_inv n (mset rs) h" and rs: "distinct rs" "set rs = eref_new ` E"
    and fin: "finite E"
  shows "oldest_first E n (map er_event (rev h))"
proof -
  obtain R where R: "mset rs = mset h + R" "length h < n \<longrightarrow> R = {#}"
      "\<forall>a \<in> set h. \<forall>b \<in># R. er_created_at a \<le> er_created_at b"
    and sorted: "sorted_wrt (\<lambda>a b. \<not> rev_less a b) h" and len: "length h \<le> n"
    using inv by (auto simp: heap_inv_def)
  have sub: "set h \<subseteq> eref_new ` E"
    using R(1) rs(2) by (metis mset_subset_eq_add_left set_mset_mono set_mset_mset)
  have er: "eref_new (er_event r) = r" "er_event r \<in> E" if "r \<in> set h" for r
    using that sub by auto
  have dist: "distinct h"
    using R(1) rs(1) by (metis distinct_append mset_append ex_mset mset_eq_imp_distinct_iff)
  have card: "card E = length h + size R"
    using arg_cong [OF R(1), of size] rs distinct_card [OF rs(1)]
    by (simp add: card_image inj_on_def)
  have rest: "eref_new b \<in># R" if "b \<in> E" "b \<notin> er_event ` set h" for b
  proof -
    have "eref_new b \<notin> set h" using that(2) by force
    moreover have "eref_new b \<in># mset h + R" using that(1) rs(2) by (metis R(1) imageI set_mset_mset)
    ultimately show ?thesis by simp
  qed
  have "distinct (map er_event (rev h))"
    using dist er(1) by (auto simp: distinct_map inj_on_def) metis
  moreover have "length h = min n (card E)" using card len R(2) by (auto simp: min_def)
  moreover have "sorted_wrt (\<lambda>a b. ev_created_at a \<le> ev_created_at b) (map er_event (rev h))"
  proof -
    have "ev_created_at (er_event b) \<le> ev_created_at (er_event a)"
      if "a \<in> set h" "b \<in> set h" "\<not> rev_less a b" for a b
      using that(3) eref_new_simps(1) [of "er_event a"] eref_new_simps(1) [of "er_event b"]
      by (simp add: er [OF that(1)] er [OF that(2)] rev_less_def er_less_def not_less)
    then show ?thesis
      using sorted by (auto simp: sorted_wrt_map sorted_wrt_rev elim!: sorted_wrt_mono_rel [rotated])
  qed
  moreover have "ev_created_at a \<le> ev_created_at b"
    if "a \<in> er_event ` set h" "b \<in> E" "b \<notin> er_event ` set h" for a b
    using R(3) rest [OF that(2,3)] that(1) er(1) by (metis eref_new_simps(1) image_iff)
  ultimately show ?thesis using er(2) by (auto simp: oldest_first_def)
qed

lemma get_oldest_correct:
  assumes "index_inv X U s" "0 < n"
  shows "\<exists>rs. get_oldest s n = Some rs \<and> oldest_first (stored s) n (map er_event rs) \<and>
           (\<forall>r \<in> set rs. r = eref_new (er_event r))"
proof -
  note sec = sec_allD [OF index_inv_sec [OF assms(1)]]
  note part = oldest_partition [OF sec(6,7)]
  obtain h where h: "oldest_shards n (by_oldest s) [] = Some h"
      "heap_inv n (mset (concat (by_oldest s))) h"
    using oldest_shards_inv [OF heap_inv_empty assms(2) part(3)] by auto
  have "finite (stored s)" using index_core_facts(1) [OF index_invD(1) [OF assms(1)]] .
  from heap_inv_oldest_first [OF h(2) part(1,2) this]
  have "oldest_first (stored s) n (map er_event (rev h))" .
  moreover have "set h \<subseteq> eref_new ` stored s"
    using h(2) part(2) unfolding heap_inv_def
    by (metis mset_subset_eq_add_left set_mset_mono set_mset_mset)
  then have "\<forall>r \<in> set (rev h). r = eref_new (er_event r)" by auto
  ultimately show ?thesis using h(1) by (auto simp: get_oldest_def)
qed

end
