(* ===== verification/Newest_Scan.thy ===== *)
theory Newest_Scan
  imports Index_Queries
begin

text \<open>
  What \<open>get_newest\<close> (\<^verbatim>\<open>src/src/store/index.rs\<close>) computes. Its heap has the newest kept event on top, so once
  the heap is full only that one is ever exchanged.
\<close>

abbreviation heap_order :: "eref list \<Rightarrow> bool" where
  "heap_order h \<equiv> sorted_wrt (\<lambda>a b. \<not> rev_less a b) h"

lemma behind_older: "\<not> rev_less a b \<Longrightarrow> er_created_at b \<le> er_created_at a"
  by (auto simp: rev_less_def er_less_def not_less)

lemma sorted_older: "er_less a b \<Longrightarrow> er_created_at b \<le> er_created_at a"
  by (auto simp: er_less_def)

lemma top_newest: "heap_order (y # B) \<Longrightarrow> r \<in> set (y # B) \<Longrightarrow> er_created_at r \<le> er_created_at y"
  using behind_older by auto

lemma push_newer:
  assumes "heap_order (y # B)" "er_created_at y < er_created_at r"
  shows "heap_push rev_less r B = r # B" "heap_order (r # B)"
proof -
  have "\<not> rev_less r b" if "b \<in> set B" for b
  proof -
    have "er_created_at b < er_created_at r" using top_newest [OF assms(1), of b] that assms(2) by simp
    then show ?thesis by (auto simp: rev_less_def er_less_def)
  qed
  then show "heap_push rev_less r B = r # B" "heap_order (r # B)"
    using assms(1) by (cases B; simp)+
qed

text \<open>The last event of the answer is as new as any event of \<open>R\<close>, and no older than \<open>x\<close>.\<close>

definition tops :: "eref \<Rightarrow> eref \<Rightarrow> eref set \<Rightarrow> bool" where
  "tops y x R \<longleftrightarrow> er_created_at x \<le> er_created_at y \<and> (\<forall>r \<in> R. er_created_at r \<le> er_created_at y)"

lemma newest_loop_stop:
  assumes "length (y # B) = n" "\<forall>q \<in> set rs. er_created_at q \<le> er_created_at y"
  shows "newest_loop n rs (y # B) = Some (y # B)"
  using assms by (cases rs) (simp_all add: leD)

text \<open>A full heap and a shard, newest first: at most the first event of the shard gets in.\<close>

lemma newest_loop_full:
  assumes "heap_order (y # B)" "length (y # B) = n" "sorted_wrt er_less rs"
  shows "\<exists>y'. newest_loop n rs (y # B) = Some (y' # B) \<and> heap_order (y' # B) \<and> y' \<in> insert y (set rs) \<and> tops y' y (set rs)"
proof (cases rs)
  case Nil
  then show ?thesis using assms(1) by (simp add: tops_def)
next
  case (Cons r rs')
  have older: "er_created_at q \<le> er_created_at r" if "q \<in> set rs'" for q
    using assms(3) Cons that sorted_older by auto
  show ?thesis
  proof (cases "er_created_at y < er_created_at r")
    case True
    have "newest_loop n rs' (r # B) = Some (r # B)"
      using assms(2) older by (intro newest_loop_stop) simp_all
    then show ?thesis
      using Cons True assms(2) push_newer [OF assms(1) True] older by (auto simp: tops_def)
  next
    case False
    then have "q \<in> set rs \<Longrightarrow> er_created_at q \<le> er_created_at y" for q using older Cons by fastforce
    then show ?thesis using Cons False assms(1,2) by (auto simp: tops_def)
  qed
qed

lemma newest_shards_full:
  assumes "heap_order (y # B)" "length (y # B) = n" "\<forall>rs \<in> set shs. sorted_wrt er_less rs"
  shows "\<exists>y'. newest_shards n shs (y # B) = Some (y' # B) \<and> heap_order (y' # B) \<and>
    y' \<in> insert y (set (concat shs)) \<and> tops y' y (set (concat shs))"
  using assms
proof (induction shs arbitrary: y)
  case (Cons rs shs)
  then obtain y1 where y1: "newest_loop n rs (y # B) = Some (y1 # B)" "heap_order (y1 # B)" "y1 \<in> insert y (set rs)"
    "tops y1 y (set rs)" using newest_loop_full [of y B n rs] by auto
  moreover obtain y2 where "newest_shards n shs (y1 # B) = Some (y2 # B)" "heap_order (y2 # B)"
    "y2 \<in> insert y1 (set (concat shs))" "tops y2 y1 (set (concat shs))"
    using Cons.IH [OF y1(2)] Cons.prems(2,3) by auto
  ultimately show ?case by (auto simp: tops_def intro: order.trans)
qed (simp add: tops_def)

text \<open>Until the heap is full every event goes in.\<close>

lemma newest_loop_fill:
  assumes "heap_order h" "length h < n" "n \<le> length h + length rs" "sorted_wrt er_less rs"
  shows "\<exists>h'. newest_loop n rs h = Some h' \<and> heap_order h' \<and> length h' = n \<and>
    mset h' = mset h + mset (take (n - length h) rs) \<and> (\<forall>r \<in> set rs. er_created_at r \<le> er_created_at (hd h'))"
  using assms
proof (induction rs arbitrary: h)
  case (Cons r rs)
  let ?h = "heap_push rev_less r h"
  have h: "heap_order ?h" "length ?h = Suc (length h)" using er_rev.sorted_push [OF Cons.prems(1)] by simp_all
  have older: "\<forall>q \<in> set rs. er_created_at q \<le> er_created_at r" using Cons.prems(4) sorted_older by auto
  have step: "newest_loop n (r # rs) h = newest_loop n rs ?h" using Cons.prems(2) by simp
  show ?case
  proof (cases "length ?h < n")
    case True
    then obtain h' where h': "newest_loop n rs ?h = Some h'" "heap_order h'" "length h' = n"
      "mset h' = mset ?h + mset (take (n - length ?h) rs)" "\<forall>q \<in> set rs. er_created_at q \<le> er_created_at (hd h')"
      using Cons.IH [OF h(1)] h(2) Cons.prems(3,4) by auto
    obtain y B where yB: "h' = y # B" using h'(3) True by (cases h') auto
    have "r \<in> set h'" using h'(4) by (metis add_mset_add_single mset_heap_push set_mset_mset union_iff union_single_eq_member)
    then have "er_created_at r \<le> er_created_at (hd h')" using top_newest h'(2) by (simp add: yB)
    moreover have "take (n - length h) (r # rs) = r # take (n - length ?h) rs"
      using Cons.prems(2) h(2) by (simp add: take_Cons' Suc_diff_Suc)
    ultimately show ?thesis using step h' by auto
  next
    case False
    then have len: "length ?h = n" using h(2) Cons.prems(2) by simp
    obtain y B where yB: "?h = y # B" using h(2) by (cases ?h) auto
    have top: "er_created_at r \<le> er_created_at y"
      using top_newest [of y B r] h(1) yB set_heap_push [of rev_less r h] by auto
    have below: "\<forall>q \<in> set rs. er_created_at q \<le> er_created_at y" using older top by (auto intro: order.trans)
    have "newest_loop n rs ?h = Some ?h" unfolding yB using len below yB by (intro newest_loop_stop) simp_all
    moreover have "n - length h = 1" using len h(2) by simp
    moreover have "hd ?h = y" by (simp add: yB)
    ultimately show ?thesis using step h(1) len below top by simp
  qed
qed simp

text \<open>The heap after all shards: the oldest of the first \<open>n\<close> events scanned, and one newest event.\<close>

lemma newest_loop_push_all:
  assumes "heap_order h" "length h + length rs \<le> n"
  shows "\<exists>h'. newest_loop n rs h = Some h' \<and> heap_order h' \<and> mset h' = mset h + mset rs \<and>
    length h' = length h + length rs"
  using assms
proof (induction rs arbitrary: h)
  case (Cons r rs)
  then show ?case using Cons.IH [OF er_rev.sorted_push [OF Cons.prems(1), of r]] by auto
qed simp

lemma newest_shards_scan:
  assumes "heap_order h" "length h < n" "n \<le> length h + length (concat shs)" "\<forall>rs \<in> set shs. sorted_wrt er_less rs"
  shows "\<exists>x y B. newest_shards n shs h = Some (y # B) \<and>
    mset h + mset (take (n - length h) (concat shs)) = add_mset x (mset B) \<and> heap_order (x # B) \<and> heap_order (y # B) \<and>
    y \<in> set h \<union> set (concat shs) \<and> tops y x (set h \<union> set (concat shs))"
  using assms
proof (induction shs arbitrary: h)
  case (Cons rs shs)
  show ?case
  proof (cases "n \<le> length h + length rs")
    case True
    obtain h' where h': "newest_loop n rs h = Some h'" "heap_order h'" "length h' = n"
      "mset h' = mset h + mset (take (n - length h) rs)" "\<forall>r \<in> set rs. er_created_at r \<le> er_created_at (hd h')"
      using newest_loop_fill [OF Cons.prems(1,2) True] Cons.prems(4) by auto
    obtain x B where xB: "h' = x # B" using h'(3) Cons.prems(2) by (cases h') auto
    obtain y where y: "newest_shards n shs (x # B) = Some (y # B)" "heap_order (y # B)"
      "y \<in> insert x (set (concat shs))" "tops y x (set (concat shs))"
      using newest_shards_full [of x B n shs] h'(2,3) xB Cons.prems(4) by auto
    have "set h \<subseteq> set h'" "set h' \<subseteq> set h \<union> set rs"
      using arg_cong [OF h'(4), of set_mset] set_take_subset [of "n - length h" rs] by auto
    then have "tops y x (set h \<union> set (concat (rs # shs)))" "x \<in> set h \<union> set rs"
      using y(4) h'(5) top_newest [of x B] h'(2) xB by (auto simp: tops_def intro: order.trans)
    then show ?thesis using h' xB y True by (intro exI [of _ x] exI [of _ y] exI [of _ B]) auto
  next
    case False
    then have room: "length h + length rs \<le> n" by simp
    obtain h' where h': "newest_loop n rs h = Some h'" "mset h' = mset h + mset rs" "length h' = length h + length rs"
      "heap_order h'" using newest_loop_push_all [OF Cons.prems(1) room] by blast
    from Cons.IH [OF h'(4)] obtain x y B where "newest_shards n shs h' = Some (y # B)"
      "mset h' + mset (take (n - length h') (concat shs)) = add_mset x (mset B)" "heap_order (x # B)" "heap_order (y # B)"
      "y \<in> set h' \<union> set (concat shs)" "tops y x (set h' \<union> set (concat shs))"
      using h'(3) False Cons.prems(3,4) by auto
    moreover have "set h' = set h \<union> set rs" using arg_cong [OF h'(2), of set_mset] by simp
    ultimately show ?thesis
      using h' False by (intro exI [of _ x] exI [of _ y] exI [of _ B]) (auto simp: ac_simps)
  qed
qed simp

text \<open>The events in the order of the shards, newest first in each.\<close>

definition scan_order :: "event_index \<Rightarrow> event list" where
  "scan_order s = map er_event (concat (by_oldest s))"

lemma get_newest_scan:
  assumes "index_inv X U s" "0 < n" "n \<le> card (stored s)"
  shows "\<exists>x y kept. get_newest s n = Some (kept @ [y]) \<and>
    mset (take n (scan_order s)) = add_mset x (mset kept) \<and> (\<forall>e \<in> set kept. ev_created_at e \<le> ev_created_at x) \<and>
    sorted_wrt (\<lambda>a b. ev_created_at a \<le> ev_created_at b) (kept @ [y]) \<and>
    y \<in> stored s \<and> (\<forall>e \<in> stored s. ev_created_at e \<le> ev_created_at y)"
proof -
  note part = oldest_partition [OF sec_allD(6,7) [OF index_inv_sec [OF assms(1)]]]
  have len: "length (concat (by_oldest s)) = card (stored s)"
    using distinct_card [OF part(1)] part(2) by (simp add: card_image inj_on_def)
  obtain x y B where r: "newest_shards n (by_oldest s) [] = Some (y # B)"
    "mset (take n (concat (by_oldest s))) = add_mset x (mset B)" "heap_order (x # B)" "heap_order (y # B)"
    "y \<in> set (concat (by_oldest s))" "tops y x (set (concat (by_oldest s)))"
    using newest_shards_scan [of "[]" n "by_oldest s"] assms(2,3) len part(3) by (auto simp del: set_concat)
  have "set_mset (mset (take n (concat (by_oldest s)))) = insert x (set B)" unfolding r(2) by simp
  then have sub: "insert x (set B) \<subseteq> eref_new ` stored s"
    using set_take_subset [of n "concat (by_oldest s)"] unfolding part(2) set_mset_mset by simp
  have at: "ev_created_at (er_event q) = er_created_at q" if "q \<in> eref_new ` stored s" for q using that by auto
  have y: "y \<in> eref_new ` stored s" using r(5) unfolding part(2) .
  have "get_newest s n = Some (map er_event (rev B) @ [er_event y])" using r(1) assms(2) by (simp add: get_newest_def)
  moreover have "mset (take n (scan_order s)) = add_mset (er_event x) (mset (map er_event (rev B)))"
    unfolding scan_order_def take_map mset_map r(2) by simp
  moreover have "ev_created_at e \<le> ev_created_at (er_event x)" if kept: "e \<in> set (map er_event (rev B))" for e
  proof -
    obtain q where q: "q \<in> set B" "e = er_event q" using kept by auto
    then have "ev_created_at e = er_created_at q" "ev_created_at (er_event x) = er_created_at x" using at sub by auto
    then show ?thesis using top_newest [OF r(3), of q] q(1) by simp
  qed
  moreover have "sorted_wrt (\<lambda>a b. ev_created_at (er_event a) \<le> ev_created_at (er_event b)) (rev (y # B))"
    unfolding sorted_wrt_rev
  proof (rule sorted_wrt_mono_rel [OF _ r(4)])
    fix a b assume ab: "a \<in> set (y # B)" "b \<in> set (y # B)" "\<not> rev_less a b"
    then have "a \<in> eref_new ` stored s" "b \<in> eref_new ` stored s" using sub y by auto
    then show "ev_created_at (er_event b) \<le> ev_created_at (er_event a)" using behind_older [OF ab(3)] at by simp
  qed
  then have "sorted_wrt (\<lambda>a b. ev_created_at a \<le> ev_created_at b) (map er_event (rev B) @ [er_event y])"
    using sorted_wrt_map [of "\<lambda>a b. ev_created_at a \<le> ev_created_at b" er_event "rev (y # B)"] by simp
  moreover have "er_event y \<in> stored s" using y by auto
  moreover have "\<forall>e \<in> stored s. ev_created_at e \<le> ev_created_at (er_event y)"
    using r(6) at y unfolding part(2) tops_def by force
  ultimately show ?thesis by blast
qed

end
