(* ===== verification/Index_Copies.thy ===== *)
theory Index_Copies
  imports Index_Invariant
begin

text \<open>
  Inserting any event, the second copies of a stored one included. The id of an event is the hash of
  its signed fields, so two events with one id agree in all but the signature and the JSON text.
\<close>

definition copy_of :: "event \<Rightarrow> event \<Rightarrow> bool" where
  "copy_of d e \<longleftrightarrow>
     ev_id d = ev_id e \<and> ev_pubkey d = ev_pubkey e \<and> ev_created_at d = ev_created_at e \<and>
     ev_kind d = ev_kind e \<and> ev_tags d = ev_tags e \<and> ev_content d = ev_content e"

text \<open>The events seen so far, with \<open>e\<close> in the place of its copies.\<close>

definition adopt :: "event \<Rightarrow> event set \<Rightarrow> event set" where
  "adopt e U = insert e {d \<in> U. ev_id d \<noteq> ev_id e}"

lemma copy_key: "copy_of d e \<Longrightarrow> is_replaceable d = is_replaceable e" "copy_of d e \<Longrightarrow> replacement_key d = replacement_key e"
  by (simp_all add: copy_of_def is_replaceable_def replacement_key_def is_addressable_def d_tag_def split: option.splits)

lemma adopt_member: "inj_on ev_id U \<Longrightarrow> e \<in> U \<Longrightarrow> adopt e U = U"
  by (auto simp: adopt_def dest: inj_onD)

lemma adopt_inj: "inj_on ev_id U \<Longrightarrow> inj_on ev_id (adopt e U)"
  by (auto simp: adopt_def inj_on_def)

lemma adopt_inv:
  assumes inv: "index_inv X U s" and copies: "\<forall>d \<in> U. ev_id d = ev_id e \<longrightarrow> copy_of d e"
    and alone: "\<forall>d \<in> stored s. ev_id d = ev_id e \<longrightarrow> d = e"
  shows "index_inv X (adopt e U) s"
proof -
  have "stored s \<subseteq> U" using inv by (simp add: index_inv_def index_core_def)
  then have "index_core X (adopt e U) s"
    using inv alone by (auto simp: index_inv_def index_core_def adopt_def)
  moreover have "\<exists>d \<in> adopt e U. ev_id d = i \<and> is_replaceable d \<and> replacement_key d = k"
    if entry: "by_replaceable s k = Some i" for k i
  proof -
    obtain d where d: "d \<in> U" "ev_id d = i" "is_replaceable d" "replacement_key d = k"
      using inv entry unfolding index_inv_def repl_ok_def by blast
    show ?thesis
    proof (cases "i = ev_id e")
      case True
      then have "copy_of d e" using copies d(1,2) by simp
      then show ?thesis using d True copy_key by (auto simp: adopt_def)
    qed (use d in \<open>auto simp: adopt_def\<close>)
  qed
  ultimately show ?thesis using inv by (simp add: index_inv_def repl_ok_def)
qed

text \<open>A second copy of a stored event replaces it in the primary map, and nowhere else.\<close>

lemma index_insert_copy:
  assumes inv: "index_inv X U s" and d: "d \<in> stored s" "copy_of d e"
  shows "index_insert X e s =
    (if is_replaceable e then (LostRace, s) else (Duplicate, s\<lparr>by_id := (by_id s)(ev_id e \<mapsto> e)\<rparr>))"
proof -
  have core: "index_core X U s" and repl: "repl_ok U s" using inv by (simp_all add: index_inv_def)
  have i: "by_id s (ev_id e) = Some d" using d stored_iff [OF core, of d] by (simp add: copy_of_def)
  have "ev_id e \<notin> ts_ids (tombstones s)" using core i by (auto simp: index_core_def)
  then have live: "\<not> tombs_contains (tombstones s) (ev_id e)"
    using tombs_contains_iff [OF index_core_facts(5) [OF core]] by simp
  show ?thesis
  proof (cases "is_replaceable e")
    case True
    then have key: "replacement_key e \<noteq> RK_None" by (simp add: replacement_key_None)
    have "by_replaceable s (replacement_key e) = Some (ev_id e)"
      using repl d True copy_key [OF d(2)] by (auto simp: repl_ok_def copy_of_def)
    moreover have "\<not> incoming_wins e d" using d(2) by (simp add: copy_of_def incoming_wins_def)
    ultimately have "swap_replaceable X e s = None"
      using True key i by (cases "replacement_key e") (simp_all add: swap_replaceable_def)
    then show ?thesis using True live by (simp add: index_insert_def)
  next
    case False
    then show ?thesis using live i by (simp add: index_insert_def swap_replaceable_def Let_def)
  qed
qed

lemma index_insert_any:
  assumes "inj_on ev_id U" "index_inv X U s" "\<forall>d \<in> U. ev_id d = ev_id e \<longrightarrow> copy_of d e"
  shows "if \<exists>d \<in> stored s. ev_id d = ev_id e \<and> d \<noteq> e
     then index_insert X e s =
       (if is_replaceable e then (LostRace, s) else (Duplicate, s\<lparr>by_id := (by_id s)(ev_id e \<mapsto> e)\<rparr>))
     else insert_refines X (adopt e U) e s"
proof (cases "\<exists>d \<in> stored s. ev_id d = ev_id e \<and> d \<noteq> e")
  case True
  then obtain d where d: "d \<in> stored s" "ev_id d = ev_id e" by blast
  moreover have "stored s \<subseteq> U" using assms(2) by (simp add: index_inv_def index_core_def)
  ultimately have "copy_of d e" using assms(3) by blast
  from index_insert_copy [OF assms(2) d(1) this] show ?thesis using True by simp
next
  case False
  then have "index_inv X (adopt e U) s" by (intro adopt_inv [OF assms(2,3)]) blast
  from index_insert_refines [OF adopt_inj [OF assms(1)] this] False show ?thesis by (auto simp: adopt_def)
qed

end
