(* ===== verification/Index_Slots.thy ===== *)
theory Index_Slots
  imports Index_Invariant
begin

text \<open>
  The slots of the index: a slot is the replacement key of a replaceable event or the id of another
  one, and holds at most one event. What one insert does to the slots, and what a sequence of
  inserts leaves in them whatever its order.
\<close>

section \<open>Slots\<close>

definition slot_of :: "event \<Rightarrow> repl_key + bytes" where
  "slot_of e = (if is_replaceable e then Inl (replacement_key e) else Inr (ev_id e))"

definition at_slot :: "(bytes \<rightharpoonup> event) \<Rightarrow> repl_key + bytes \<Rightarrow> event set" where
  "at_slot m k = {e \<in> ran m. slot_of e = k}"

lemma rival_slot: "rival m e d \<longleftrightarrow> is_replaceable e \<and> d \<in> at_slot m (slot_of e)"
  by (auto simp: rival_def at_slot_def slot_of_def split: if_splits)

lemma slot_unique:
  assumes "inj_on ev_id U" "index_inv X U s"
  shows "inj_on slot_of (stored s)"
proof (rule inj_onI)
  fix a b assume a: "a \<in> stored s" and b: "b \<in> stored s" and eq: "slot_of a = slot_of b"
  note core = index_invD(1) [OF assms(2)]
  show "a = b"
  proof (cases "is_replaceable a")
    case True
    then have "rival (by_id s) a a" "rival (by_id s) a b"
      using a b eq by (auto simp: rival_def stored_def slot_of_def split: if_splits)
    then show ?thesis by (rule rival_unique [OF assms])
  next
    case False
    then have "ev_id a = ev_id b" using eq by (auto simp: slot_of_def split: if_splits)
    then show ?thesis using inj_onD [OF stored_inj [OF core]] a b by blast
  qed
qed

lemma at_slot_single:
  assumes "inj_on ev_id U" "index_inv X U s" "e \<in> at_slot (by_id s) k"
  shows "at_slot (by_id s) k = {e}"
  using assms(3) inj_onD [OF slot_unique [OF assms(1,2)]] by (auto simp: at_slot_def stored_def)

lemma at_slot_ran: "(\<And>k. at_slot m k = at_slot m' k) \<Longrightarrow> ran m = ran m'"
  by (auto simp: at_slot_def)

lemma stored_by_id:
  assumes "index_inv X U s" "index_inv X U s'" "stored s = stored s'"
  shows "by_id s = by_id s'"
proof
  fix i
  note c = index_invD(1) [OF assms(1)] index_invD(1) [OF assms(2)]
  have "by_id s i = Some e \<longleftrightarrow> by_id s' i = Some e" for e
    using assms(3) stored_iff [OF c(1)] stored_iff [OF c(2)] by_id_id [OF c(1)] by_id_id [OF c(2)]
      by_id_stored by metis
  then show "by_id s i = by_id s' i" by (metis option.exhaust)
qed

lemma at_slots_by_id:
  assumes "index_inv X U s" "index_inv X U s'"
    and "\<And>k. at_slot (by_id s) k = at_slot (by_id s') k"
  shows "by_id s = by_id s'"
  using stored_by_id [OF assms(1,2)] at_slot_ran [OF assms(3)] by (simp add: stored_def)

lemma at_slot_remove:
  assumes "index_inv X U s"
  shows "at_slot ((by_id s)(i := None)) k = {e \<in> at_slot (by_id s) k. ev_id e \<noteq> i}"
proof -
  note core = index_invD(1) [OF assms]
  have "ran ((by_id s)(i := None)) = {e \<in> stored s. ev_id e \<noteq> i}"
    using by_id_id [OF core] stored_iff [OF core]
    by (auto simp: ran_def stored_def split: if_splits)
  then show ?thesis by (auto simp: at_slot_def stored_def)
qed

lemma at_slot_put:
  assumes "m (ev_id e) = None" "at_slot m (slot_of e) = {}"
  shows "at_slot (m(ev_id e \<mapsto> e)) k = (if k = slot_of e then {e} else at_slot m k)"
  using assms by (auto simp: at_slot_def ran_keyed_upd [where key = ev_id])

lemma at_slot_stored:
  assumes "inj_on ev_id U" "index_inv X U s" "e \<in> U" "by_id s (ev_id e) = Some c"
  shows "at_slot (by_id s) (slot_of e) = {e}"
proof -
  have "c = e" by (rule stored_same_id [OF assms(1) index_invD(1) [OF assms(2)] assms(3,4)])
  then have "e \<in> at_slot (by_id s) (slot_of e)"
    using assms(4) by (auto simp: at_slot_def intro: ranI)
  then show ?thesis by (rule at_slot_single [OF assms(1,2)])
qed

lemma at_slot_free:
  assumes "index_inv X U s" "\<nexists>d. rival (by_id s) e d" "by_id s (ev_id e) = None"
  shows "at_slot (by_id s) (slot_of e) = {}"
proof (cases "is_replaceable e")
  case True
  then show ?thesis using assms(2) by (auto simp: rival_slot)
next
  case False
  have "c \<notin> at_slot (by_id s) (slot_of e)" for c
  proof
    assume "c \<in> at_slot (by_id s) (slot_of e)"
    then have "c \<in> stored s" "ev_id c = ev_id e"
      using False by (auto simp: at_slot_def stored_def slot_of_def split: if_splits)
    then show False using assms(3) stored_iff [OF index_invD(1) [OF assms(1)], of c] by simp
  qed
  then show ?thesis by auto
qed

text \<open>Replacing the event of a slot.\<close>

lemma at_slot_replace:
  assumes inj: "inj_on ev_id U" and inv: "index_inv X U s" and e: "e \<in> U"
    and d: "d \<in> at_slot (by_id s) (slot_of e)"
  shows "at_slot ((by_id s)(ev_id d := None, ev_id e \<mapsto> e)) k =
    (if k = slot_of e then {e} else at_slot (by_id s) k)"
proof -
  note core = index_invD(1) [OF inv] and only = at_slot_single [OF inj inv d]
  have ds: "d \<in> stored s" "slot_of d = slot_of e" using d by (auto simp: at_slot_def stored_def)
  have keep: "ev_id c \<noteq> ev_id d" if "c \<in> at_slot (by_id s) k" "k \<noteq> slot_of e" for c k
  proof
    assume "ev_id c = ev_id d"
    moreover have "c \<in> stored s" "slot_of c = k" using that(1) by (auto simp: at_slot_def stored_def)
    ultimately have "c = d" using inj_onD [OF stored_inj [OF core]] ds(1) by blast
    with ds \<open>slot_of c = k\<close> that(2) show False by simp
  qed
  have rest: "at_slot ((by_id s)(ev_id d := None)) k =
      (if k = slot_of e then {} else at_slot (by_id s) k)" for k
    using keep [of _ k] unfolding at_slot_remove [OF inv] by (auto simp: only)
  have "((by_id s)(ev_id d := None)) (ev_id e) = None"
    using at_slot_stored [OF inj inv e] only by (cases "by_id s (ev_id e)") auto
  from at_slot_put [of "(by_id s)(ev_id d := None)" e k, OF this] show ?thesis
    unfolding rest by simp
qed

text \<open>
  What one insert does to the slots: nothing outside the event's own, which then holds the event,
  or keeps one that wins over it.
\<close>

definition slot_step :: "(bytes \<rightharpoonup> event) \<Rightarrow> event \<Rightarrow> insert_outcome \<Rightarrow> (bytes \<rightharpoonup> event) \<Rightarrow> bool" where
  "slot_step m e r m' \<longleftrightarrow>
     (\<forall>k. k \<noteq> slot_of e \<longrightarrow> at_slot m' k = at_slot m k) \<and>
     (if \<exists>d. r = Inserted d then at_slot m' (slot_of e) = {e}
      else m' = m \<and> (\<exists>d. at_slot m (slot_of e) = {d} \<and> \<not> incoming_wins e d)) \<and>
     (\<forall>d. r = Inserted (Some d) \<longrightarrow> rival m e d \<and> incoming_wins e d) \<and>
     (r = Inserted None \<longrightarrow> at_slot m (slot_of e) = {})"

lemma insert_slot_step:
  assumes inj: "inj_on ev_id U" and inv: "index_inv X U s" and e: "e \<in> U"
    and live: "ev_id e \<notin> T" and spec: "spec_insert T (by_id s) e r m'"
  shows "slot_step (by_id s) e r m'"
  using spec
proof (cases rule: spec_insert.cases)
  case tombstoned
  then show ?thesis using live by simp
next
  case (stale d)
  then have "at_slot (by_id s) (slot_of e) = {d}"
    using at_slot_single [OF inj inv] by (simp add: rival_slot)
  with stale show ?thesis by (auto simp: slot_step_def)
next
  case (replace d)
  then have "d \<in> at_slot (by_id s) (slot_of e)" by (simp add: rival_slot)
  from at_slot_replace [OF inj inv e this] replace show ?thesis by (simp add: slot_step_def)
next
  case again
  then obtain c where "by_id s (ev_id e) = Some c" by auto
  from at_slot_stored [OF inj inv e this] again show ?thesis by (simp add: slot_step_def)
next
  case fresh
  note free = at_slot_free [OF inv fresh(4,5)]
  from at_slot_put [OF fresh(5) free] free fresh show ?thesis by (simp add: slot_step_def)
qed

section \<open>Sequences of inserts\<close>

definition insert_all :: "'x ext_scheme \<Rightarrow> event list \<Rightarrow> event_index \<Rightarrow> event_index" where
  "insert_all X es s = fold (\<lambda>e s. snd (index_insert X e s)) es s"

text \<open>
  The events of a set that no other event of the set with the same slot replaces: one per slot, the
  newest, and of equally old ones the one with the lowest id.
\<close>

definition winners :: "event set \<Rightarrow> event set" where
  "winners A = {e \<in> A. \<forall>d \<in> A. slot_of d = slot_of e \<longrightarrow> \<not> incoming_wins d e}"

lemma incoming_wins_trans: "incoming_wins a b \<Longrightarrow> incoming_wins b c \<Longrightarrow> incoming_wins a c"
  by (auto simp: incoming_wins_def)

lemma incoming_wins_total:
  "\<not> incoming_wins a b \<Longrightarrow> \<not> incoming_wins b a \<Longrightarrow> ev_id a = ev_id b"
  by (auto simp: incoming_wins_def not_less_iff_gr_or_eq)

text \<open>What holds after the events \<open>A\<close> have been offered.\<close>

definition offered :: "event set \<Rightarrow> event_index \<Rightarrow> bool" where
  "offered A s \<longleftrightarrow>
     stored s \<subseteq> A \<and> ts_ids (tombstones s) = {} \<and>
     (\<forall>a \<in> A. \<exists>w \<in> stored s. slot_of w = slot_of a \<and> \<not> incoming_wins a w)"

lemma stored_slot: "e \<in> stored s \<longleftrightarrow> e \<in> at_slot (by_id s) (slot_of e)"
  by (simp add: at_slot_def stored_def)

lemma offered_insert:
  assumes inj: "inj_on ev_id U" and inv: "index_inv X U s" and off: "offered A s" and e: "e \<in> U"
  shows "offered (insert e A) (snd (index_insert X e s))"
proof -
  obtain r s' where ins: "index_insert X e s = (r, s')" by fastforce
  have ref: "tombstones s' = tombstones s"
      "spec_insert (ts_ids (tombstones s)) (by_id s) e r (by_id s')"
    using index_insert_refines [OF inj inv e] by (simp_all add: insert_refines_def ins)
  have T: "ts_ids (tombstones s) = {}" using off by (simp add: offered_def)
  have step: "slot_step (by_id s) e r (by_id s')"
    using insert_slot_step [OF inj inv e _ ref(2)] T by simp
  have dom: "\<exists>w \<in> stored s. slot_of w = slot_of a \<and> \<not> incoming_wins a w" if "a \<in> A" for a
    using off that by (simp add: offered_def)
  show ?thesis
  proof (cases "\<exists>d. r = Inserted d")
    case True
    then have own: "at_slot (by_id s') (slot_of e) = {e}" using step by (auto simp: slot_step_def)
    have other: "x \<in> stored s' \<longleftrightarrow> x \<in> stored s" if "slot_of x \<noteq> slot_of e" for x
      using step that by (simp add: stored_slot slot_step_def)
    have mine: "x \<in> stored s' \<longleftrightarrow> x = e" if "slot_of x = slot_of e" for x
      using own that by (simp add: stored_slot)
    have beaten: "\<not> incoming_wins a e" if a: "a \<in> A" "slot_of a = slot_of e" for a
    proof -
      obtain w where w: "w \<in> stored s" "slot_of w = slot_of e" "\<not> incoming_wins a w"
        using dom [OF a(1)] a(2) by auto
      then have "at_slot (by_id s) (slot_of e) = {w}"
        using at_slot_single [OF inj inv, of w "slot_of e"] by (simp add: stored_slot)
      moreover obtain q where "r = Inserted q" using True by blast
      ultimately have "incoming_wins e w"
        using step by (cases q) (auto simp: slot_step_def rival_slot)
      then show ?thesis using w(3) incoming_wins_trans by blast
    qed
    have "\<exists>w \<in> stored s'. slot_of w = slot_of a \<and> \<not> incoming_wins a w" if "a \<in> insert e A" for a
    proof (cases "slot_of a = slot_of e")
      case True
      then show ?thesis using that beaten mine by (intro bexI [of _ e]) auto
    next
      case False
      then have "a \<in> A" using that by auto
      then obtain w where "w \<in> stored s" "slot_of w = slot_of a" "\<not> incoming_wins a w"
        using dom by blast
      with False other [of w] show ?thesis by auto
    qed
    moreover have "stored s' \<subseteq> insert e A"
      using other mine off by (auto simp: offered_def)
    ultimately show ?thesis using ref(1) T by (simp add: offered_def ins)
  next
    case False
    then have same: "by_id s' = by_id s" and "\<exists>d. at_slot (by_id s) (slot_of e) = {d} \<and> \<not> incoming_wins e d"
      using step by (auto simp: slot_step_def)
    then obtain d where "d \<in> stored s" "slot_of d = slot_of e" "\<not> incoming_wins e d"
      by (auto simp: at_slot_def stored_def)
    with off same ref(1) T show ?thesis by (auto simp: offered_def ins stored_def)
  qed
qed

lemma offered_all:
  assumes inj: "inj_on ev_id U"
  shows "index_inv X U s \<Longrightarrow> offered A s \<Longrightarrow> set es \<subseteq> U \<Longrightarrow>
    index_inv X U (insert_all X es s) \<and> offered (A \<union> set es) (insert_all X es s)"
proof (induction es arbitrary: s A)
  case (Cons e es)
  have e: "e \<in> U" using Cons.prems by simp
  from Cons.IH [OF index_insert_inv [OF inj Cons.prems(1) e]
      offered_insert [OF inj Cons.prems(1,2) e]] Cons.prems(3)
  show ?case by (simp add: insert_all_def)
qed (simp add: insert_all_def)

lemma offered_winners:
  assumes inj: "inj_on ev_id U" and inv: "index_inv X U s" and off: "offered A s" and "A \<subseteq> U"
  shows "stored s = winners A"
proof (intro equalityI subsetI)
  fix x assume x: "x \<in> stored s"
  have "\<not> incoming_wins d x" if d: "d \<in> A" "slot_of d = slot_of x" for d
  proof -
    obtain w where w: "w \<in> stored s" "slot_of w = slot_of x" "\<not> incoming_wins d w"
      using off d by (force simp: offered_def)
    then have "w = x" using inj_onD [OF slot_unique [OF inj inv]] x by blast
    with w show ?thesis by simp
  qed
  then show "x \<in> winners A" using off x by (auto simp: winners_def offered_def)
next
  fix x assume x: "x \<in> winners A"
  then obtain w where w: "w \<in> stored s" "slot_of w = slot_of x" "\<not> incoming_wins x w"
    using off by (auto simp: winners_def offered_def)
  have wA: "w \<in> A" using w(1) off by (auto simp: offered_def)
  then have "\<not> incoming_wins w x" using x w(2) by (auto simp: winners_def)
  from incoming_wins_total [OF this w(3)] have "ev_id w = ev_id x" .
  then have "w = x" using inj_onD [OF inj] wA x assms(4) by (auto simp: winners_def)
  then show "x \<in> stored s" using w(1) by simp
qed

lemma insert_all_winners:
  assumes "inj_on ev_id U" "set es \<subseteq> U"
  shows "stored (insert_all X es index_new) = winners (set es)"
proof -
  have "offered {} index_new" by (simp add: offered_def stored_def index_new_def tombs_new_def)
  from offered_all [OF assms(1) index_inv_new this assms(2), of X]
  show ?thesis using assms(2) by (intro offered_winners [OF assms(1), of X]) simp_all
qed

end
