(* ===== verification/Index_Properties.thy ===== *)
theory Index_Properties
  imports Newest_Scan Index_Copies Index_Slots Sample_Inputs
begin

text \<open>
  Properties of the index: it refines the abstract store, keeps its invariant along every run,
  converges whatever the order of arrival, refuses deleted events, and what its reads return.
\<close>

lemma winners_single: "winners {e} = {e}"
  by (auto simp: winners_def)

lemma sample_index:
  assumes "set es \<subseteq> set sample_events"
  shows "index_inv sample_ext (set sample_events) (insert_all sample_ext es index_new)"
  using offered_all [OF sample_inj index_inv_new _ assms, of "{}" sample_ext]
  by (simp add: offered_def stored_def index_new_def tombs_new_def)

lemma sample_index_note: "stored (insert_all sample_ext [sample_note] index_new) = {sample_note}"
  using insert_all_winners [OF sample_inj, of "[sample_note]" sample_ext]
  by (simp add: winners_single)

section \<open>Refinement and invariant\<close>

text \<open>
  C3. Inserting any event into a consistent index, when events with one id differ at most in
  signature and JSON text. Unless another copy of it is stored, the insert is a step of the abstract
  store: it answers and changes the primary map as \<open>spec_insert\<close> says (refused if tombstoned, stale
  against a winning rival, replacing a losing one, duplicate, or new), keeps the invariant of all
  indexes and counters, and leaves the tombstones alone. When another copy is stored, a replaceable
  event is refused; any other takes the copy's place in the primary map and only there, so the
  secondary indexes and the counter of payload bytes still belong to the copy that is gone.
\<close>

theorem index_insert_refinement:
  assumes "inj_on ev_id U" "index_inv X U s" "\<forall>d \<in> U. ev_id d = ev_id e \<longrightarrow> copy_of d e"
  shows "if \<exists>d \<in> stored s. ev_id d = ev_id e \<and> d \<noteq> e
     then index_insert X e s =
       (if is_replaceable e then (LostRace, s) else (Duplicate, s\<lparr>by_id := (by_id s)(ev_id e \<mapsto> e)\<rparr>))
     else case index_insert X e s of (r, s') \<Rightarrow>
       index_inv X (adopt e U) s' \<and> tombstones s' = tombstones s \<and>
       spec_insert (ts_ids (tombstones s)) (by_id s) e r (by_id s')"
  using index_insert_any [OF assms] by (simp only: insert_refines_def Let_def)

lemma sample_copies: "e \<in> set sample_events \<Longrightarrow> \<forall>d \<in> set sample_events. ev_id d = ev_id e \<longrightarrow> copy_of d e"
  using sample_inj by (auto simp: copy_of_def dest: inj_onD)

theorem index_insert_refinement_witness:
  "(case index_insert sample_ext sample_new (snd (index_insert sample_ext sample_old index_new)) of
      (r, s') \<Rightarrow> index_inv sample_ext (set sample_events) s') \<and>
   (\<exists>s'. index_insert sample_ext (sample_note\<lparr>ev_raw := [7]\<rparr>) (snd (index_insert sample_ext sample_note index_new)) = (Duplicate, s') \<and>
      by_id s' (ev_id sample_note) = Some (sample_note\<lparr>ev_raw := [7]\<rparr>))"
proof
  let ?s = "snd (index_insert sample_ext sample_old index_new)" and ?t = "snd (index_insert sample_ext sample_note index_new)"
  let ?e = "sample_note\<lparr>ev_raw := [7]\<rparr>"
  have inv: "index_inv sample_ext (set sample_events) ?s" "index_inv sample_ext (set sample_events) ?t"
    by (intro index_insert_inv sample_inj index_inv_new; simp)+
  have "\<not> (\<exists>d \<in> stored ?s. ev_id d = ev_id sample_new \<and> d \<noteq> sample_new)"
    using index_core_facts(3) [OF index_invD(1) [OF inv(1)]] inj_onD [OF sample_inj, of _ sample_new] by auto
  from index_insert_refinement [OF sample_inj inv(1) sample_copies [OF sample_member(3)], unfolded if_not_P [OF this]]
  show "case index_insert sample_ext sample_new ?s of (r, s') \<Rightarrow> index_inv sample_ext (set sample_events) s'"
    unfolding adopt_member [OF sample_inj sample_member(3)] case_prod_unfold by (rule conjunct1)
  have "copy_of d ?e \<longleftrightarrow> copy_of d sample_note" for d by (simp add: copy_of_def)
  moreover have id: "ev_id ?e = ev_id sample_note" by simp
  ultimately have "\<forall>d \<in> set sample_events. ev_id d = ev_id ?e \<longrightarrow> copy_of d ?e"
    using sample_copies [OF sample_member(1)] by metis
  moreover have "sample_note \<in> stored ?t"
    using sample_index_note by (simp add: insert_all_def)
  moreover have "sample_note \<noteq> ?e" "\<not> is_replaceable ?e" by (simp_all add: sample_note_def kind_defs word_le_nat_alt)
  moreover have "\<exists>d \<in> stored ?t. ev_id d = ev_id ?e \<and> d \<noteq> ?e"
    by (rule bexI [of _ sample_note]) (use calculation in simp_all)
  ultimately have "index_insert sample_ext ?e ?t = (Duplicate, ?t\<lparr>by_id := (by_id ?t)(ev_id ?e \<mapsto> ?e)\<rparr>)"
    using index_insert_refinement [OF sample_inj inv(2), of ?e] by (simp only: if_True if_False)
  then show "\<exists>s'. index_insert sample_ext ?e ?t = (Duplicate, s') \<and> by_id s' (ev_id sample_note) = Some ?e" by simp
qed

text \<open>The states an index goes through.\<close>

inductive index_reach :: "'x ext_scheme \<Rightarrow> event set \<Rightarrow> event_index \<Rightarrow> bool" for X U where
  new: "index_reach X U index_new"
| insert: "index_reach X U s \<Longrightarrow> e \<in> U \<Longrightarrow> index_insert X e s = (r, s') \<Longrightarrow> index_reach X U s'"
| remove: "index_reach X U s \<Longrightarrow> index_remove X i s = (r, s') \<Longrightarrow> index_reach X U s'"
| delete: "index_reach X U s \<Longrightarrow> delete_by_id X i s = (r, s') \<Longrightarrow> index_reach X U s'"
| tombstone: "index_reach X U s \<Longrightarrow> index_remove X i (index_tombstone i s) = (r, s') \<Longrightarrow>
    index_reach X U s'"

lemma index_reach_invariant:
  assumes "index_reach X U s" "inj_on ev_id U"
  shows "index_inv X U s"
  using assms(1)
proof induction
  case new
  show ?case by (rule index_inv_new)
next
  case (insert s e r s')
  with index_insert_inv [OF assms(2) insert.IH, of e] show ?case by simp
next
  case (remove s i r s')
  with index_remove_inv [OF remove.IH, of i] show ?case by simp
next
  case (delete s i r s')
  with delete_by_id_inv [OF assms(2) delete.IH, of i] show ?case by simp
next
  case (tombstone s i r s')
  with index_tombstone_remove_inv [OF assms(2) tombstone.IH, of i] show ?case by simp
qed

text \<open>
  In every reachable state the six secondary indexes hold exactly the stored events, the
  counters are the number of events and of payload bytes (modulo their width), the tombstone set
  is within its cap and exact, no stored event is tombstoned, and a stored replaceable event owns
  the entry of its key.
\<close>

theorem index_reachable_inv:
  assumes "index_reach X U s" "inj_on ev_id U"
  shows "sec_all X s (stored s) \<and> memory_bytes s = of_nat (payload (stored s)) \<and>
    event_count s = of_nat (card (stored s)) \<and> tombs_inv (tombstones s) \<and>
    dom (by_id s) \<inter> ts_ids (tombstones s) = {} \<and> repl_ok U s"
  using index_reach_invariant [OF assms] by (simp add: index_inv_def index_core_def)

theorem index_reachable_inv_witness:
  "memory_bytes (snd (index_insert sample_ext sample_note index_new)) = 3"
proof -
  let ?s = "snd (index_insert sample_ext sample_note index_new)"
  obtain r where "index_insert sample_ext sample_note index_new = (r, ?s)"
    by (metis prod.collapse)
  from index_reach.insert [OF index_reach.new sample_member(1) this]
  have "index_reach sample_ext (set sample_events) ?s" .
  from index_reachable_inv [OF this sample_inj]
  have "memory_bytes ?s = of_nat (payload (stored ?s))" by simp
  moreover have "stored ?s = {sample_note}"
    using insert_all_winners [OF sample_inj, of "[sample_note]" sample_ext]
    by (simp add: insert_all_def winners_single)
  ultimately show ?thesis by (simp add: payload_def sample_note_def)
qed

section \<open>Convergence\<close>

text \<open>
  C12. Without deletions the index converges: after any sequence of inserts it holds, per
  replacement key, the newest event of the sequence (of equally old ones the one with the lowest
  id) and every event without a key, whatever the order and the repetitions.
\<close>

theorem index_converges:
  assumes "inj_on ev_id U" "set es \<subseteq> U"
  shows "stored (insert_all X es index_new) = winners (set es)"
  by (rule insert_all_winners [OF assms])

theorem index_converges_witness:
  "stored (insert_all sample_ext [sample_new, sample_old, sample_new] index_new) = {sample_new}"
proof -
  have slot: "slot_of sample_old = slot_of sample_new"
    by (simp add: slot_of_def kind_defs replacement_key_def sample_old_def sample_new_def)
  have "incoming_wins sample_new sample_old" "\<not> incoming_wins sample_old sample_new"
    "\<not> incoming_wins sample_new sample_new"
    by (simp_all add: incoming_wins_def sample_old_def sample_new_def)
  with slot have "winners (set [sample_new, sample_old, sample_new]) = {sample_new}"
    unfolding winners_def by auto
  then show ?thesis
    using index_converges [OF sample_inj, of "[sample_new, sample_old, sample_new]" sample_ext] by simp
qed

section \<open>Tombstones\<close>

lemma tombs_survive:
  assumes "tombs_inv t" "ts_order t = p @ i # q" "length q + length is < MAX_TOMBSTONES"
  shows "i \<in> ts_ids (tombs_inserts t is)"
  using assms
proof (induction "is" arbitrary: t p q)
  case Nil
  then have "i \<in> set (ts_order t)" by simp
  then show ?case using Nil.prems(1) by (simp add: tombs_inv_def)
next
  case (Cons j "is")
  note inv = tombs_inv_insert [OF Cons.prems(1), of j]
  show ?case
  proof (cases "j \<in> ts_ids t")
    case True
    then show ?thesis using Cons by (simp add: tombs_insert_def)
  next
    case False
    let ?k = "Suc (length (ts_order t)) - MAX_TOMBSTONES"
    have "length (ts_order t) \<le> MAX_TOMBSTONES" using Cons.prems(1) by (simp add: tombs_inv_def)
    then have "?k \<le> length p" using Cons.prems(2,3) by (cases p) auto
    then have "ts_order (tombs_insert t j) = drop ?k p @ i # (q @ [j])"
      using tombs_insert_order(1) [OF Cons.prems(1) False] by (simp add: Cons.prems(2))
    from Cons.IH [OF inv this] Cons.prems(3) show ?thesis by simp
  qed
qed

definition delete_all :: "'x ext_scheme \<Rightarrow> bytes list \<Rightarrow> event_index \<Rightarrow> event_index" where
  "delete_all X is s = fold (\<lambda>i s. snd (delete_by_id X i s)) is s"

lemma delete_all_tombstones:
  "tombstones (delete_all X is s) = tombs_inserts (tombstones s) is"
  by (induction "is" arbitrary: s) (simp_all add: delete_all_def)

lemma delete_all_inv:
  "inj_on ev_id U \<Longrightarrow> index_inv X U s \<Longrightarrow> index_inv X U (delete_all X is s)"
  by (induction "is" arbitrary: s) (simp_all add: delete_all_def delete_by_id_inv)

text \<open>
  C27. A deleted event stays deleted: publishing it again is refused and changes nothing, for as
  long as fewer than \<open>MAX_TOMBSTONES\<close> further deletions have followed.
\<close>

theorem deleted_stays_deleted:
  assumes "inj_on ev_id U" "index_inv X U s" "e \<in> stored s" "length is < MAX_TOMBSTONES"
  shows "index_insert X e (delete_all X (ev_id e # is) s) = (Deleted, delete_all X (ev_id e # is) s)"
proof -
  let ?i = "ev_id e" and ?t = "tombstones s"
  have core: "index_core X U s" using assms(2) by (simp add: index_inv_def)
  note t = index_core_facts(5) [OF core]
  have "by_id s ?i = Some e" using assms(3) core by (simp add: stored_iff)
  then have "?i \<notin> ts_ids ?t" using core by (auto simp: index_core_def)
  from tombs_insert_order(1) [OF t this]
  have p: "ts_order (tombs_insert ?t ?i) =
      drop (Suc (length (ts_order ?t)) - MAX_TOMBSTONES) (ts_order ?t) @ ?i # []"
    using MAX_TOMBSTONES_pos by simp
  have "?i \<in> ts_ids (tombs_inserts (tombs_insert ?t ?i) is)"
    using tombs_survive [OF tombs_inv_insert [OF t] p] assms(4) by simp
  then have "?i \<in> ts_ids (tombstones (delete_all X (?i # is) s))"
    by (simp add: delete_all_tombstones)
  moreover have "tombs_inv (tombstones (delete_all X (?i # is) s))"
    using index_core_facts(5) [OF index_invD(1) [OF delete_all_inv [OF assms(1,2)]]] .
  ultimately show ?thesis by (simp add: index_insert_def tombs_contains_iff)
qed

theorem deleted_stays_deleted_witness:
  "fst (index_insert sample_ext sample_note
     (delete_all sample_ext [ev_id sample_note, replicate 32 9]
        (insert_all sample_ext [sample_note] index_new))) = Deleted"
proof -
  have "sample_note \<in> stored (insert_all sample_ext [sample_note] index_new)"
    by (simp add: sample_index_note)
  from deleted_stays_deleted [OF sample_inj sample_index this, of "[replicate 32 9]"]
  show ?thesis by (simp add: MAX_TOMBSTONES_def)
qed

text \<open>
  The tombstone set is a sliding window: after any number of deletions of distinct ids, the
  ids refused are exactly the last \<open>MAX_TOMBSTONES\<close> of them, found by \<open>contains\<close> in spite of its
  fast path.
\<close>

theorem tombstone_window:
  assumes "distinct is"
  shows "tombs_contains (tombs_inserts tombs_new is) i \<longleftrightarrow>
    i \<in> set (drop (length is - MAX_TOMBSTONES) is)"
proof -
  have inv: "tombs_inv (tombs_inserts tombs_new is)" by (rule tombs_inv_inserts [OF tombs_inv_new])
  have "ts_order (tombs_inserts tombs_new is) = drop (length is - MAX_TOMBSTONES) is"
    using tombs_inserts_fresh [OF tombs_inv_new assms] by (simp add: tombs_new_def)
  with inv show ?thesis by (simp add: tombs_contains_iff) (metis tombs_inv_def)
qed

theorem tombstone_window_witness:
  "tombs_contains (tombs_inserts tombs_new [[1], [2]]) [1] \<and>
   \<not> tombs_contains (tombs_inserts tombs_new [[1], [2]]) [3]"
  using tombstone_window [of "[[1], [2]]" "[1]"] tombstone_window [of "[[1], [2]]" "[3]"]
  by (simp add: MAX_TOMBSTONES_def)

section \<open>Reads\<close>

text \<open>
  C29. Each query returns the first \<open>n\<close> events, newest first and ties by the lower id, of the
  stored events that have the key: the kind, the hash of the public key (with or without a lower
  bound on the time), the hash of an id among the \<open>e\<close> or \<open>p\<close> tags, a letter and value among the
  other tags.
\<close>

theorem index_query_answers:
  assumes "index_inv X U s"
  shows "answers {e \<in> stored s. tag_id_hash (ev_pubkey e) = tag_id_hash pk} n (query_by_pubkey s pk n) \<and>
    answers {e \<in> stored s. ev_kind e = k} n (query_by_kind s k n) \<and>
    answers {e \<in> stored s. tag_id_hash (ev_pubkey e) = tag_id_hash pk \<and> since \<le> ev_created_at e}
      n (query_by_pubkey_since s pk since n) \<and>
    answers {e \<in> stored s. \<exists>t \<in> set (e_tags X e). tag_id_hash t = tag_id_hash i}
      n (query_by_e_tag s i n) \<and>
    answers {e \<in> stored s. \<exists>t \<in> set (p_tags X e). tag_id_hash t = tag_id_hash i}
      n (query_by_p_tag s i n) \<and>
    answers {e \<in> stored s. \<exists>t \<in> set (ev_tags e). other_tag t = Some (letter, v)}
      n (query_by_tag s letter v n)"
proof -
  have "tag_id_hash i \<in> tag_id_hash ` A \<longleftrightarrow> (\<exists>t \<in> A. tag_id_hash t = tag_id_hash i)" for A :: "bytes set"
    by (metis (no_types, lifting) image_iff)
  then show ?thesis
    using query_by_pubkey_answers [OF assms, of pk n] query_by_kind_answers [OF assms, of k n]
      query_by_pubkey_since_answers [OF assms, of pk since n] query_by_e_tag_answers [OF assms, of i n]
      query_by_p_tag_answers [OF assms, of i n] query_by_tag_answers [OF assms, of letter v n]
    by (simp only: map_filter_set mem_Collect_eq)
qed

theorem index_query_answers_witness:
  "answers {e \<in> {sample_note}. ev_kind e = 1} 10
     (query_by_kind (insert_all sample_ext [sample_note] index_new) 1 10)"
proof -
  have "index_inv sample_ext (set sample_events) (insert_all sample_ext [sample_note] index_new)"
    by (rule sample_index) simp
  from index_query_answers [OF this] show ?thesis by (simp only: sample_index_note)
qed

text \<open>
  \<open>get_oldest\<close>, from which eviction takes its victims, returns the \<open>n\<close> oldest events of all
  64 shards, oldest first, and every stored event when there are fewer.
\<close>

theorem get_oldest_spec:
  assumes "index_inv X U s" "0 < n"
  shows "\<exists>rs. get_oldest s n = Some rs \<and> oldest_first (stored s) n (map er_event rs)"
  using get_oldest_correct [OF assms] by blast

theorem get_oldest_spec_witness:
  "\<exists>rs. get_oldest (insert_all sample_ext [sample_note] index_new) 5 = Some rs \<and>
     oldest_first {sample_note} 5 (map er_event rs)"
proof -
  have "index_inv sample_ext (set sample_events) (insert_all sample_ext [sample_note] index_new)"
    by (rule sample_index) simp
  from get_oldest_spec [OF this, of 5] show ?thesis by (simp add: sample_index_note)
qed

definition event_at :: "byte \<Rightarrow> u64 \<Rightarrow> event" where
  "event_at b t =
     \<lparr>ev_id = replicate 7 0 @ b # replicate 24 0, ev_pubkey = replicate 32 7, ev_created_at = t,
      ev_kind = 1, ev_tags = [], ev_content = [], ev_sig = [], ev_raw = []\<rparr>"

text \<open>
  C39. \<open>get_newest\<close> does not return the newest events: the heap it bounds has the newest kept event
  at its top, where the code takes it to be the oldest. Asked for \<open>n\<close> events of which there are as
  many, it answers, oldest first, with the first \<open>n\<close> in the order of its shards less the newest of
  these, however old they are, and one newest event of all.
\<close>

theorem get_newest_returns_older:
  assumes "index_inv X U s" "0 < n" "n \<le> card (stored s)"
  shows "\<exists>x y kept. get_newest s n = Some (kept @ [y]) \<and>
    mset (take n (scan_order s)) = add_mset x (mset kept) \<and> (\<forall>e \<in> set kept. ev_created_at e \<le> ev_created_at x) \<and>
    sorted_wrt (\<lambda>a b. ev_created_at a \<le> ev_created_at b) (kept @ [y]) \<and>
    y \<in> stored s \<and> (\<forall>e \<in> stored s. ev_created_at e \<le> ev_created_at y)"
  by (rule get_newest_scan [OF assms])

lemma winners_plain:
  assumes "inj_on ev_id A" "\<forall>e \<in> A. \<not> is_replaceable e"
  shows "winners A = A"
proof -
  have "\<not> incoming_wins d e" if "d \<in> A" "e \<in> A" "slot_of d = slot_of e" for d e
    using that assms inj_onD [OF assms(1), of d e] by (simp add: slot_of_def incoming_wins_def)
  then show ?thesis by (auto simp: winners_def)
qed

text \<open>Three events at the times 10, 20 and 30, the first two in one shard: of the two newest one is missing.\<close>

definition three_times :: event_index where
  "three_times = insert_all sample_ext [event_at 1 10, event_at 65 20, event_at 2 30] index_new"

lemma three_times_index:
  "index_inv sample_ext {event_at 1 10, event_at 65 20, event_at 2 30} three_times"
  "stored three_times = {event_at 1 10, event_at 65 20, event_at 2 30}"
proof -
  let ?es = "[event_at 1 10, event_at 65 20, event_at 2 30]"
  have inj: "inj_on ev_id (set ?es)" by (simp add: event_at_def)
  show "index_inv sample_ext {event_at 1 10, event_at 65 20, event_at 2 30} three_times"
    using offered_all [OF inj index_inv_new, of "{}" ?es sample_ext]
    by (simp add: three_times_def offered_def stored_def index_new_def tombs_new_def)
  have "\<not> is_replaceable (event_at b t)" for b t by (simp add: event_at_def kind_defs word_le_nat_alt)
  then have "winners (set ?es) = set ?es" by (intro winners_plain inj) auto
  then show "stored three_times = {event_at 1 10, event_at 65 20, event_at 2 30}"
    using insert_all_winners [OF inj, of ?es sample_ext] by (simp add: three_times_def)
qed

theorem get_newest_returns_older_witness:
  "\<exists>kept y. get_newest three_times 2 = Some (kept @ [y]) \<and> kept = [event_at 1 10] \<and> y = event_at 2 30"
proof -
  have "card (stored three_times) = 3" by (simp add: three_times_index(2) event_at_def)
  then obtain x y kept where r: "get_newest three_times 2 = Some (kept @ [y])"
    "mset (take 2 (scan_order three_times)) = add_mset x (mset kept)" "\<forall>e \<in> set kept. ev_created_at e \<le> ev_created_at x"
    "y \<in> stored three_times" "\<forall>e \<in> stored three_times. ev_created_at e \<le> ev_created_at y"
    using get_newest_returns_older [OF three_times_index(1), of 2] by auto
  have "take 2 (scan_order three_times) = [event_at 65 20, event_at 1 10]" by code_simp
  then have "{#event_at 65 20, event_at 1 10#} = add_mset x (mset kept)" using r(2) by simp
  then have "x = event_at 65 20 \<and> kept = [event_at 1 10] \<or> x = event_at 1 10 \<and> kept = [event_at 65 20]"
    by (auto simp: add_eq_conv_ex)
  then have "kept = [event_at 1 10]" using r(3) by (auto simp: event_at_def)
  moreover have "y = event_at 2 30" using r(4,5) unfolding three_times_index(2) by (auto simp: event_at_def)
  ultimately show ?thesis using r(1) by blast
qed

section \<open>Hashed tag keys\<close>

lemma tag_id_hash_swap:
  "length a = 16 \<Longrightarrow> length b = 16 \<Longrightarrow> tag_id_hash (a @ b) = tag_id_hash (b @ a)"
  by (simp add: tag_id_hash_def xor.commute)

text \<open>
  The 128-bit key of an \<open>e\<close> tag is the XOR of the halves of the id, so swapping the halves
  gives a collision at no cost: the query for the swapped id returns the events that tag the
  original one, though they do not reference the id asked for.
\<close>

theorem e_tag_query_confuses_halves:
  assumes "index_inv X U s" "e \<in> stored s" "a @ b \<in> set (e_tags X e)"
    and "length a = 16" "length b = 16" "card (stored s) \<le> n"
  shows "e \<in> set (query_by_e_tag s (b @ a) n)"
proof -
  let ?E = "{e \<in> stored s. tag_id_hash (b @ a) \<in> e_keys X e}"
  have fin: "finite (stored s)"
    using assms(1) by (simp add: index_inv_def index_core_def stored_def finite_ran)
  then have "card ?E \<le> n" using assms(6) card_mono [OF fin, of ?E] by simp
  then have "set (query_by_e_tag s (b @ a) n) = ?E"
    using answers_complete [OF query_by_e_tag_answers [OF assms(1)]] fin by simp
  moreover have "tag_id_hash (b @ a) = tag_id_hash (a @ b)" using assms(4,5) by (simp add: tag_id_hash_swap)
  ultimately show ?thesis using assms(2,3) by auto
qed

definition sample_reply :: event where
  "sample_reply =
     sample_note\<lparr>ev_tags := [\<lparr>tag_name = ''e'',
       tag_values = [sample_encode (replicate 16 1 @ replicate 16 2)]\<rparr>]\<rparr>"

lemma sample_reply_tags: "e_tags sample_ext sample_reply = [replicate 16 1 @ replicate 16 2]"
  using sample_parse_hex(1) [of "replicate 16 1 @ replicate 16 2"]
  by (simp add: e_tags_def sample_reply_def tag_value_def)

lemma sample_reply_index:
  "index_inv sample_ext {sample_reply} (insert_all sample_ext [sample_reply] index_new)"
  "stored (insert_all sample_ext [sample_reply] index_new) = {sample_reply}"
  using offered_all [OF _ index_inv_new, of "{sample_reply}" "{}" "[sample_reply]" sample_ext]
    insert_all_winners [of "{sample_reply}" "[sample_reply]" sample_ext]
  by (simp_all add: offered_def stored_def index_new_def tombs_new_def winners_single)

theorem e_tag_query_confuses_halves_witness:
  "sample_reply \<in> set (query_by_e_tag (insert_all sample_ext [sample_reply] index_new)
     (replicate 16 2 @ replicate 16 1) 10)"
proof -
  let ?s = "insert_all sample_ext [sample_reply] index_new"
  have "sample_reply \<in> stored ?s" "card (stored ?s) \<le> 10" by (simp_all only: sample_reply_index(2)) simp_all
  from e_tag_query_confuses_halves [OF sample_reply_index(1) this(1) _ _ _ this(2)]
  show ?thesis by (simp add: sample_reply_tags)
qed

section \<open>Deletion by coordinate\<close>

text \<open>
  A coordinate names at most the winner of its replacement key, and only when that is not
  newer than the request: the events it selects have the coordinate's author and kind, are stored
  and have the key that the coordinate spells.
\<close>

theorem coordinate_targets_exact:
  assumes "inj_on ev_id U" "index_inv X U s"
  shows "set (coordinate_targets s c until) =
      ev_id ` {e \<in> stored s. ev_created_at e \<le> until \<and> ev_pubkey e = co_pubkey c \<and>
                 ev_kind e = co_kind c \<and> is_replaceable e \<and>
                 d_tag e = (if co_d_tag c = [] then None else Some (co_d_tag c))}"
proof -
  have "replacement_key e = coordinate_key c \<longleftrightarrow>
      ev_pubkey e = co_pubkey c \<and> ev_kind e = co_kind c \<and> is_replaceable e \<and>
      d_tag e = (if co_d_tag c = [] then None else Some (co_d_tag c))" for e
    using addressable_replaceable [of e]
    by (auto simp: replacement_key_def coordinate_key_def d_tag_def split: option.splits)
  then show ?thesis
    using coordinate_targets_set [OF assms, of c until] by (auto simp: image_iff)
qed

theorem coordinate_targets_exact_witness:
  "set (coordinate_targets (insert_all sample_ext [sample_article] index_new)
     \<lparr>co_kind = 30023, co_pubkey = replicate 32 7, co_d_tag = []\<rparr> 100) = {}"
proof -
  let ?s = "insert_all sample_ext [sample_article] index_new"
  have inv: "index_inv sample_ext (set sample_events) ?s" by (rule sample_index) simp
  have "stored ?s = {sample_article}"
    using insert_all_winners [OF sample_inj, of "[sample_article]" sample_ext]
    by (simp add: winners_single)
  moreover have "d_tag sample_article = Some []"
    by (simp add: d_tag_def is_addressable_def sample_article_def tag_value_def)
  ultimately show ?thesis
    using coordinate_targets_exact [OF sample_inj inv,
        of "\<lparr>co_kind = 30023, co_pubkey = replicate 32 7, co_d_tag = []\<rparr>" 100]
    by auto
qed

end
