(* ===== verification/Concurrent_Index.thy ===== *)
theory Concurrent_Index
  imports Index_Invariant
begin

text \<open>
  Concurrent inserts and evictions on the index (\<^verbatim>\<open>src/src/store/index.rs\<close>). Each access of
  \<open>insert\<close> and \<open>internal_remove\<close> to a concurrent map, a locked set or an atomic counter is one
  step, and the steps of the threads interleave freely. The entry of \<open>by_replaceable\<close> stays locked
  from the swap to the end of the removal of the old event; other threads that access the same key
  wait. What the entry holds cannot be seen while it is locked, so the lookup in \<open>by_id\<close> that
  decides the swap and the write of the entry are one step.
\<close>

section \<open>Accesses to the secondary indexes\<close>

text \<open>One locked set each: by pubkey, by kind, per \<open>e\<close> tag, per \<open>p\<close> tag, per other tag, by age.\<close>

datatype sec_op = S_Pubkey | S_Kind | S_E bytes | S_P bytes | S_Other "string \<times> string" | S_Oldest

definition sec_ops :: "'x ext_scheme \<Rightarrow> event \<Rightarrow> sec_op list" where
  "sec_ops X e =
     [S_Pubkey, S_Kind] @ map S_E (e_tags X e) @ map S_P (p_tags X e) @
     map S_Other (List.map_filter other_tag (ev_tags e)) @ [S_Oldest]"

fun add_op :: "event \<Rightarrow> sec_op \<Rightarrow> event_index \<Rightarrow> event_index" where
  "add_op e S_Pubkey s = s\<lparr>by_pubkey := add_pubkey e (by_pubkey s)\<rparr>"
| "add_op e S_Kind s = s\<lparr>by_kind := add_kind e (by_kind s)\<rparr>"
| "add_op e (S_E i) s = s\<lparr>by_tag_e := idx_add (by_tag_e s) (tag_id_hash i) (eref_new e)\<rparr>"
| "add_op e (S_P i) s = s\<lparr>by_tag_p := idx_add (by_tag_p s) (tag_id_hash i) (eref_new e)\<rparr>"
| "add_op e (S_Other k) s = s\<lparr>by_tag_other := other_add1 (by_tag_other s) k (eref_new e)\<rparr>"
| "add_op e S_Oldest s = s\<lparr>by_oldest := add_oldest e (by_oldest s)\<rparr>"

fun del_op :: "event \<Rightarrow> sec_op \<Rightarrow> event_index \<Rightarrow> event_index" where
  "del_op e S_Pubkey s = s\<lparr>by_pubkey := del_pubkey e (by_pubkey s)\<rparr>"
| "del_op e S_Kind s = s\<lparr>by_kind := del_kind e (by_kind s)\<rparr>"
| "del_op e (S_E i) s = s\<lparr>by_tag_e := idx_del (by_tag_e s) (tag_id_hash i) (eref_new e)\<rparr>"
| "del_op e (S_P i) s = s\<lparr>by_tag_p := idx_del (by_tag_p s) (tag_id_hash i) (eref_new e)\<rparr>"
| "del_op e (S_Other k) s = s\<lparr>by_tag_other := other_del1 (by_tag_other s) k (eref_new e)\<rparr>"
| "del_op e S_Oldest s = s\<lparr>by_oldest := del_oldest e (by_oldest s)\<rparr>"

section \<open>Threads\<close>

text \<open>\<open>internal_remove\<close> with \<open>skip_replaceable\<close>, up to its result.\<close>

datatype removal =
  Rm_Id bytes | Rm_Mem event | Rm_Cnt event | Rm_Sec event "sec_op list" | Rm_End "event option"

fun rm_step :: "'x ext_scheme \<Rightarrow> removal \<Rightarrow> event_index \<Rightarrow> removal \<times> event_index" where
  "rm_step X (Rm_Id i) s =
     (case by_id s i of
        None \<Rightarrow> (Rm_End None, s)
      | Some e \<Rightarrow> (Rm_Mem e, s\<lparr>by_id := (by_id s)(i := None)\<rparr>))"
| "rm_step X (Rm_Mem e) s = (Rm_Cnt e, s\<lparr>memory_bytes := memory_bytes s - of_nat (length (ev_raw e))\<rparr>)"
| "rm_step X (Rm_Cnt e) s = (Rm_Sec e (sec_ops X e), s\<lparr>event_count := event_count s - 1\<rparr>)"
| "rm_step X (Rm_Sec e []) s = (Rm_End (Some e), s)"
| "rm_step X (Rm_Sec e (op # ops)) s = (Rm_Sec e ops, del_op e op s)"
| "rm_step X (Rm_End r) s = (Rm_End r, s)"

text \<open>
  \<open>insert\<close>. The argument of most states is the replaced event; \<open>I_Unlink\<close> runs under the lock of the
  event's entry in \<open>by_replaceable\<close>, \<open>I_Undo\<close> is the early clean-up, \<open>I_Orphan\<close> and the states from
  \<open>I_Remove\<close> to \<open>I_Clean\<close> are those of the final checks.
\<close>

datatype ins_pc =
  I_Start
| I_Swap
| I_Unlink removal
| I_Put "event option"
| I_Check1 "event option"
| I_Undo
| I_Mem "event option"
| I_Cnt "event option"
| I_Index "event option" "sec_op list"
| I_Check2 "event option"
| I_Orphan "sec_op list"
| I_Check3 "event option"
| I_Remove
| I_UnMem
| I_UnCnt
| I_Clean "sec_op list"
| I_Done insert_outcome

fun ins_step :: "'x ext_scheme \<Rightarrow> event \<Rightarrow> ins_pc \<Rightarrow> event_index \<Rightarrow> ins_pc \<times> event_index" where
  "ins_step X e I_Start s = (if tombs_contains (tombstones s) (ev_id e) then I_Done Deleted else I_Swap, s)"
| "ins_step X e I_Swap s =
     (if \<not> is_replaceable e then (I_Put None, s)
      else
        (case replacement_key e of
           RK_None \<Rightarrow> (I_Put None, s)
         | key \<Rightarrow>
             (let s1 = s\<lparr>by_replaceable := (by_replaceable s)(key \<mapsto> ev_id e)\<rparr> in
              case by_replaceable s key of
                Some old_id \<Rightarrow>
                  if (case by_id s old_id of Some old \<Rightarrow> incoming_wins e old | None \<Rightarrow> True)
                  then (I_Unlink (Rm_Id old_id), s1) else (I_Done LostRace, s)
              | None \<Rightarrow> (I_Put None, s1))))"
| "ins_step X e (I_Unlink rm) s =
     (case rm of
        Rm_End r \<Rightarrow> (I_Put r, s)
      | _ \<Rightarrow> (let (rm', s') = rm_step X rm s in (I_Unlink rm', s')))"
| "ins_step X e (I_Put r) s =
     (if by_id s (ev_id e) \<noteq> None then I_Done Duplicate else I_Check1 r,
      s\<lparr>by_id := (by_id s)(ev_id e \<mapsto> e)\<rparr>)"
| "ins_step X e (I_Check1 r) s =
     (if is_replaceable e \<and> \<not> is_still_winner s e then I_Undo else I_Mem r, s)"
| "ins_step X e I_Undo s = (I_Done LostRace, s\<lparr>by_id := (by_id s)(ev_id e := None)\<rparr>)"
| "ins_step X e (I_Mem r) s =
     (I_Cnt r, s\<lparr>memory_bytes := memory_bytes s + of_nat (length (ev_raw e))\<rparr>)"
| "ins_step X e (I_Cnt r) s = (I_Index r (sec_ops X e), s\<lparr>event_count := event_count s + 1\<rparr>)"
| "ins_step X e (I_Index r []) s = (I_Check2 r, s)"
| "ins_step X e (I_Index r (op # ops)) s = (I_Index r ops, add_op e op s)"
| "ins_step X e (I_Check2 r) s =
     (if by_id s (ev_id e) = None then I_Orphan (sec_ops X e) else I_Check3 r, s)"
| "ins_step X e (I_Orphan []) s = (I_Done (if is_replaceable e then LostRace else Duplicate), s)"
| "ins_step X e (I_Orphan (op # ops)) s = (I_Orphan ops, del_op e op s)"
| "ins_step X e (I_Check3 r) s =
     (if is_replaceable e \<and> \<not> is_still_winner s e then I_Remove else I_Done (Inserted r), s)"
| "ins_step X e I_Remove s =
     (if by_id s (ev_id e) = None then (I_Clean (sec_ops X e), s)
      else (I_UnMem, s\<lparr>by_id := (by_id s)(ev_id e := None)\<rparr>))"
| "ins_step X e I_UnMem s =
     (I_UnCnt, s\<lparr>memory_bytes := memory_bytes s - of_nat (length (ev_raw e))\<rparr>)"
| "ins_step X e I_UnCnt s = (I_Clean (sec_ops X e), s\<lparr>event_count := event_count s - 1\<rparr>)"
| "ins_step X e (I_Clean []) s = (I_Done LostRace, s)"
| "ins_step X e (I_Clean (op # ops)) s = (I_Clean ops, del_op e op s)"
| "ins_step X e (I_Done out) s = (I_Done out, s)"

datatype thread = T_Insert event ins_pc | T_Evict removal

record conc =
  cc_index :: event_index
  cc_threads :: "nat \<rightharpoonup> thread"

text \<open>Who holds an entry of \<open>by_replaceable\<close>, and which steps need it.\<close>

definition locked :: "conc \<Rightarrow> repl_key \<Rightarrow> bool" where
  "locked c k \<longleftrightarrow>
     (\<exists>t e rm. cc_threads c t = Some (T_Insert e (I_Unlink rm)) \<and> replacement_key e = k)"

fun needs_key :: "ins_pc \<Rightarrow> bool" where
  "needs_key I_Swap = True"
| "needs_key (I_Check1 r) = True"
| "needs_key (I_Check3 r) = True"
| "needs_key pc = False"

inductive conc_step :: "'x ext_scheme \<Rightarrow> conc \<Rightarrow> conc \<Rightarrow> bool" for X where
  insert: "cc_threads c t = Some (T_Insert e pc) \<Longrightarrow>
    (is_replaceable e \<and> needs_key pc \<longrightarrow> \<not> locked c (replacement_key e)) \<Longrightarrow>
    ins_step X e pc (cc_index c) = (pc', s') \<Longrightarrow>
    conc_step X c (c\<lparr>cc_index := s', cc_threads := (cc_threads c)(t \<mapsto> T_Insert e pc')\<rparr>)"
| evict: "cc_threads c t = Some (T_Evict rm) \<Longrightarrow> rm_step X rm (cc_index c) = (rm', s') \<Longrightarrow>
    conc_step X c (c\<lparr>cc_index := s', cc_threads := (cc_threads c)(t \<mapsto> T_Evict rm')\<rparr>)"

inductive conc_run :: "'x ext_scheme \<Rightarrow> conc \<Rightarrow> conc \<Rightarrow> bool" for X c0 where
  start: "conc_run X c0 c0"
| step: "conc_run X c0 c \<Longrightarrow> conc_step X c c' \<Longrightarrow> conc_run X c0 c'"

fun thread_done :: "thread \<Rightarrow> bool" where
  "thread_done (T_Insert e (I_Done out)) = True"
| "thread_done (T_Evict (Rm_End r)) = True"
| "thread_done th = False"

definition quiescent :: "conc \<Rightarrow> bool" where
  "quiescent c \<longleftrightarrow> (\<forall>th \<in> ran (cc_threads c). thread_done th)"

section \<open>Alone, the steps are the operation\<close>

lemma fold_by_tag_e:
  "fold (add_op e) (map S_E is) s = s\<lparr>by_tag_e := add_ids is e (by_tag_e s)\<rparr>"
  "fold (del_op e) (map S_E is) s = s\<lparr>by_tag_e := del_ids is e (by_tag_e s)\<rparr>"
  by (induction "is" arbitrary: s) (simp_all add: add_ids_def del_ids_def)

lemma fold_by_tag_p:
  "fold (add_op e) (map S_P is) s = s\<lparr>by_tag_p := add_ids is e (by_tag_p s)\<rparr>"
  "fold (del_op e) (map S_P is) s = s\<lparr>by_tag_p := del_ids is e (by_tag_p s)\<rparr>"
  by (induction "is" arbitrary: s) (simp_all add: add_ids_def del_ids_def)

lemma fold_by_tag_other:
  "fold (add_op e) (map S_Other ks) s =
     s\<lparr>by_tag_other := fold (\<lambda>k m. other_add1 m k (eref_new e)) ks (by_tag_other s)\<rparr>"
  "fold (del_op e) (map S_Other ks) s =
     s\<lparr>by_tag_other := fold (\<lambda>k m. other_del1 m k (eref_new e)) ks (by_tag_other s)\<rparr>"
  by (induction ks arbitrary: s) simp_all

lemma fold_sec_ops:
  "fold (add_op e) (sec_ops X e) s = add_secondary X e s"
  "fold (del_op e) (sec_ops X e) s = cleanup_secondary_indexes X e s"
  by (simp_all add: sec_ops_def fold_by_tag_e fold_by_tag_p fold_by_tag_other add_secondary_def
      cleanup_secondary_indexes_def add_other_def del_other_def)

text \<open>Running one thread, and the runs of its loops.\<close>

definition ins_run :: "'x ext_scheme \<Rightarrow> event \<Rightarrow> nat \<Rightarrow> ins_pc \<times> event_index \<Rightarrow> ins_pc \<times> event_index" where
  "ins_run X e n = (\<lambda>p. ins_step X e (fst p) (snd p)) ^^ n"

definition ends_in :: "'x ext_scheme \<Rightarrow> event \<Rightarrow> ins_pc \<times> event_index \<Rightarrow> ins_pc \<times> event_index \<Rightarrow> bool" where
  "ends_in X e p q \<longleftrightarrow> (\<exists>n. ins_run X e n p = q)"

lemma ends_in_refl: "ends_in X e p p"
  unfolding ends_in_def ins_run_def by (rule exI [of _ 0]) simp

lemma ends_in_step:
  assumes "ends_in X e (ins_step X e pc s) q"
  shows "ends_in X e (pc, s) q"
proof -
  obtain n where "ins_run X e n (ins_step X e pc s) = q" using assms by (auto simp: ends_in_def)
  then have "ins_run X e (Suc n) (pc, s) = q" by (simp add: ins_run_def funpow_Suc_right del: funpow.simps)
  then show ?thesis unfolding ends_in_def by blast
qed

lemma ends_in_index:
  "ends_in X e (I_Check2 r, fold (add_op e) ops s) q \<Longrightarrow> ends_in X e (I_Index r ops, s) q"
  by (induction ops arbitrary: s) (auto intro: ends_in_step)

lemma ends_in_orphan:
  "ends_in X e (I_Done (if is_replaceable e then LostRace else Duplicate), fold (del_op e) ops s) q \<Longrightarrow>
   ends_in X e (I_Orphan ops, s) q"
  by (induction ops arbitrary: s) (auto intro: ends_in_step)

lemma ends_in_clean:
  "ends_in X e (I_Done LostRace, fold (del_op e) ops s) q \<Longrightarrow> ends_in X e (I_Clean ops, s) q"
  by (induction ops arbitrary: s) (auto intro: ends_in_step)

lemma ends_in_unlink_sec:
  "ends_in X e (I_Put (Some d), fold (del_op d) ops s) q \<Longrightarrow> ends_in X e (I_Unlink (Rm_Sec d ops), s) q"
proof (induction ops arbitrary: s)
  case Nil
  then have "ends_in X e (I_Unlink (Rm_End (Some d)), s) q" by (intro ends_in_step) simp
  then show ?case by (intro ends_in_step) simp
qed (auto intro: ends_in_step)

text \<open>The steps that are not loops.\<close>

lemmas ends_in_head = ends_in_step [where pc = I_Start] ends_in_step [where pc = I_Swap]

lemmas ends_in_removal =
  ends_in_step [where pc = "I_Unlink (Rm_Id i)" for i] ends_in_step [where pc = "I_Unlink (Rm_Mem d)" for d]
  ends_in_step [where pc = "I_Unlink (Rm_Cnt d)" for d] ends_in_step [where pc = "I_Unlink (Rm_End d)" for d]

lemmas ends_in_steps =
  ends_in_step [where pc = "I_Put r" for r] ends_in_step [where pc = "I_Check1 r" for r]
  ends_in_step [where pc = I_Undo] ends_in_step [where pc = "I_Mem r" for r]
  ends_in_step [where pc = "I_Cnt r" for r] ends_in_step [where pc = "I_Check2 r" for r]
  ends_in_step [where pc = "I_Check3 r" for r] ends_in_step [where pc = I_Remove]
  ends_in_step [where pc = I_UnMem] ends_in_step [where pc = I_UnCnt]

lemmas ends_in_loops = ends_in_index ends_in_orphan ends_in_clean ends_in_unlink_sec

lemma ends_in_unlink:
  assumes "ends_in X e (I_Put (fst (internal_remove X i True s)), snd (internal_remove X i True s)) q"
  shows "ends_in X e (I_Unlink (Rm_Id i), s) q"
  using assms
  by (cases "by_id s i")
    (auto simp: internal_remove_def fold_sec_ops Let_def intro!: ends_in_removal ends_in_unlink_sec)

text \<open>The part of \<open>index_insert\<close> after the swap.\<close>

definition insert_tail ::
    "'x ext_scheme \<Rightarrow> event \<Rightarrow> event option \<Rightarrow> event_index \<Rightarrow> insert_outcome \<times> event_index" where
  "insert_tail X e replaced s1 =
     (let s2 = s1\<lparr>by_id := (by_id s1)(ev_id e \<mapsto> e)\<rparr> in
      if by_id s1 (ev_id e) \<noteq> None then (Duplicate, s2)
      else if is_replaceable e \<and> \<not> is_still_winner s2 e then
        (LostRace, s2\<lparr>by_id := (by_id s2)(ev_id e := None)\<rparr>)
      else
        let s3 = add_secondary X e
                   (s2\<lparr>memory_bytes := memory_bytes s2 + of_nat (length (ev_raw e)),
                       event_count := event_count s2 + 1\<rparr>) in
        if by_id s3 (ev_id e) = None then
          (if is_replaceable e then LostRace else Duplicate, cleanup_secondary_indexes X e s3)
        else if is_replaceable e \<and> \<not> is_still_winner s3 e then (LostRace, cleanup_event X e s3)
        else (Inserted replaced, s3))"

lemma index_insert_tail:
  "index_insert X e s =
     (if tombs_contains (tombstones s) (ev_id e) then (Deleted, s)
      else (case swap_replaceable X e s of
              None \<Rightarrow> (LostRace, s) | Some (replaced, s1) \<Rightarrow> insert_tail X e replaced s1))"
  by (simp only: index_insert_def insert_tail_def)

lemma ends_in_tail:
  "ends_in X e (I_Put r, s) (I_Done (fst (insert_tail X e r s)), snd (insert_tail X e r s))"
proof -
  let ?s2 = "s\<lparr>by_id := (by_id s)(ev_id e \<mapsto> e)\<rparr>"
  have w: "is_still_winner (add_secondary X e (?s2\<lparr>memory_bytes := m, event_count := n\<rparr>)) e = is_still_winner ?s2 e" for m n
    by (simp add: is_still_winner_def add_secondary_def cong: repl_key.case_cong)
  have i: "by_id (add_secondary X e (?s2\<lparr>memory_bytes := m, event_count := n\<rparr>)) (ev_id e) = Some e" for m n
    by (simp add: add_secondary_def)
  show ?thesis
    by (auto simp: insert_tail_def Let_def fold_sec_ops w i ends_in_refl intro!: ends_in_steps ends_in_loops)
qed

lemma ends_in_insert:
  "ends_in X e (I_Start, s) (I_Done (fst (index_insert X e s)), snd (index_insert X e s))"
proof -
  have t: "ends_in X e (I_Put r, s1) (I_Done (fst (insert_tail X e r s1)), snd (insert_tail X e r s1))" for r s1
    by (rule ends_in_tail)
  have u: "ends_in X e (I_Unlink (Rm_Id i), s1) (I_Done (fst (insert_tail X e r s2)), snd (insert_tail X e r s2))"
    if "internal_remove X i True s1 = (r, s2)" for i r s1 s2
    using ends_in_unlink [OF ends_in_tail, of X e i s1] that by simp
  show ?thesis
    by (auto simp: index_insert_tail swap_replaceable_def t ends_in_refl Let_def
        split: repl_key.splits option.splits prod.splits intro!: ends_in_head u)
qed

end
