(* ===== verification/Index_Places.thy ===== *)
theory Index_Places
  imports Concurrent_Index
begin

text \<open>
  The secondary indexes as one family of ordered sets, one per place: a step of an insert or of a
  removal adds or deletes one event at one place. \<open>present s e\<close> are the places where an event is.
\<close>

section \<open>Places\<close>

datatype place =
  K_Pubkey "128 word" | K_Kind u32 | K_E "128 word" | K_P "128 word" | K_Other "string \<times> string" | K_Oldest nat

fun place_of :: "event \<Rightarrow> sec_op \<Rightarrow> place" where
  "place_of e S_Pubkey = K_Pubkey (tag_id_hash (ev_pubkey e))"
| "place_of e S_Kind = K_Kind (ev_kind e)"
| "place_of e (S_E i) = K_E (tag_id_hash i)"
| "place_of e (S_P i) = K_P (tag_id_hash i)"
| "place_of e (S_Other k) = K_Other k"
| "place_of e S_Oldest = K_Oldest (oldest_shard (ev_id e))"

fun place_get :: "event_index \<Rightarrow> place \<Rightarrow> eref list" where
  "place_get s (K_Pubkey h) = idx_get (by_pubkey s) h"
| "place_get s (K_Kind k) = idx_get (by_kind s) k"
| "place_get s (K_E h) = idx_get (by_tag_e s) h"
| "place_get s (K_P h) = idx_get (by_tag_p s) h"
| "place_get s (K_Other k) = other_get (by_tag_other s) k"
| "place_get s (K_Oldest n) = oldest_get (by_oldest s) n"

definition places :: "event \<Rightarrow> sec_op list \<Rightarrow> place set" where
  "places e ops = place_of e ` set ops"

lemma places_simps [simp]:
  "places e [] = {}" "places e (op # ops) = insert (place_of e op) (places e ops)"
  "places e (ops @ ops') = places e ops \<union> places e ops'"
  by (simp_all add: places_def image_Un)

definition present :: "event_index \<Rightarrow> event \<Rightarrow> place set" where
  "present s e = {k. eref_new e \<in> set (place_get s k)}"

text \<open>Every place is ordered and holds references to events of \<open>U\<close> only.\<close>

definition places_wf :: "event set \<Rightarrow> event_index \<Rightarrow> bool" where
  "places_wf U s \<longleftrightarrow>
     oldest_wf (by_oldest s) \<and>
     (\<forall>k. sorted_wrt er_less (place_get s k) \<and> set (place_get s k) \<subseteq> eref_new ` U)"

section \<open>Effect of a step\<close>

lemma place_get_add:
  assumes "oldest_wf (by_oldest s)"
  shows "place_get (add_op e op s) k =
    (if k = place_of e op then bts_insert er_less (eref_new e) (place_get s k) else place_get s k)"
  using oldest_index.content_add [OF assms]
  by (cases op; cases k)
    (auto simp: add_pubkey_def add_kind_def idx_get_add other_get_add1)

lemma place_get_del:
  assumes "oldest_wf (by_oldest s)" "\<forall>k. sorted_wrt er_less (place_get s k)"
  shows "place_get (del_op e op s) k =
    (if k = place_of e op then bts_remove er_less (eref_new e) (place_get s k) else place_get s k)"
proof -
  have "\<forall>n. sorted_wrt er_less (oldest_get (by_oldest s) n)"
  proof
    fix n show "sorted_wrt er_less (oldest_get (by_oldest s) n)"
      using assms(2) [rule_format, of "K_Oldest n"] by simp
  qed
  then show ?thesis
    using oldest_index.content_del [OF assms(1)]
    by (cases op; cases k) (auto simp: del_pubkey_def del_kind_def idx_get_del other_get_del1)
qed

lemma oldest_wf_op [simp]:
  "oldest_wf (by_oldest (add_op e op s)) = oldest_wf (by_oldest s)"
  "oldest_wf (by_oldest (del_op e op s)) = oldest_wf (by_oldest s)"
  by (cases op; simp add: oldest_wf_def add_oldest_def del_oldest_def Let_def)+

lemma op_frame [simp]:
  "by_id (add_op e op s) = by_id s" "by_id (del_op e op s) = by_id s"
  "by_replaceable (add_op e op s) = by_replaceable s" "by_replaceable (del_op e op s) = by_replaceable s"
  "tombstones (add_op e op s) = tombstones s" "tombstones (del_op e op s) = tombstones s"
  by (cases op; simp)+

lemma place_get_frame [simp]:
  "place_get (s\<lparr>by_id := a\<rparr>) k = place_get s k"
  "place_get (s\<lparr>by_replaceable := b\<rparr>) k = place_get s k"
  "place_get (s\<lparr>memory_bytes := m\<rparr>) k = place_get s k"
  "place_get (s\<lparr>event_count := n\<rparr>) k = place_get s k"
  by (cases k; simp)+

lemma present_frame [simp]:
  "present (s\<lparr>by_id := a\<rparr>) = present s" "present (s\<lparr>by_replaceable := b\<rparr>) = present s"
  "present (s\<lparr>memory_bytes := m\<rparr>) = present s" "present (s\<lparr>event_count := n\<rparr>) = present s"
  by (simp_all add: present_def fun_eq_iff)

lemma places_wf_frame [simp]:
  "places_wf U (s\<lparr>by_id := a\<rparr>) = places_wf U s" "places_wf U (s\<lparr>by_replaceable := b\<rparr>) = places_wf U s"
  "places_wf U (s\<lparr>memory_bytes := m\<rparr>) = places_wf U s" "places_wf U (s\<lparr>event_count := n\<rparr>) = places_wf U s"
  by (simp_all add: places_wf_def)

lemma only_ref:
  assumes "inj_on ev_id U" "places_wf U s" "e \<in> U"
  shows "\<forall>r \<in> set (place_get s k). \<not> er_less (eref_new e) r \<longrightarrow> \<not> er_less r (eref_new e) \<longrightarrow> r = eref_new e"
proof (intro ballI impI)
  fix r
  assume r: "r \<in> set (place_get s k)" "\<not> er_less (eref_new e) r" "\<not> er_less r (eref_new e)"
  then obtain b where b: "b \<in> U" "r = eref_new b" using assms(2) unfolding places_wf_def by blast
  then have "ev_id e = ev_id b" using r by (intro er_equiv_same_id) simp_all
  then show "r = eref_new e" using inj_onD [OF assms(1)] b assms(3) by simp
qed

lemma present_add:
  assumes "inj_on ev_id U" "places_wf U s" "e \<in> U"
  shows "present (add_op e op s) f = (if f = e then insert (place_of e op) (present s e) else present s f)"
    and "places_wf U (add_op e op s)"
proof -
  have wf: "oldest_wf (by_oldest s)" using assms(2) by (simp add: places_wf_def)
  note ins = er.set_insert [OF only_ref [OF assms]]
  show "present (add_op e op s) f = (if f = e then insert (place_of e op) (present s e) else present s f)"
    by (auto simp: present_def place_get_add [OF wf] ins)
  show "places_wf U (add_op e op s)"
    using assms(2,3) by (auto simp: places_wf_def place_get_add [OF wf] ins er.sorted_insert)
qed

lemma present_del:
  assumes "inj_on ev_id U" "places_wf U s" "e \<in> U"
  shows "present (del_op e op s) f = (if f = e then present s e - {place_of e op} else present s f)"
    and "places_wf U (del_op e op s)"
proof -
  have wf: "oldest_wf (by_oldest s)" "\<forall>k. sorted_wrt er_less (place_get s k)"
    using assms(2) by (simp_all add: places_wf_def)
  note rem = er.set_remove [OF wf(2) [rule_format] only_ref [OF assms]]
  show "present (del_op e op s) f = (if f = e then present s e - {place_of e op} else present s f)"
    by (auto simp: present_def place_get_del [OF wf] rem)
  show "places_wf U (del_op e op s)"
    using assms(2) by (auto simp: places_wf_def place_get_del [OF wf] rem er.sorted_remove)
qed

section \<open>The contract of the indexes in terms of places\<close>

lemma all_places: "(\<forall>k. P k) \<longleftrightarrow>
    (\<forall>h. P (K_Pubkey h)) \<and> (\<forall>h. P (K_Kind h)) \<and> (\<forall>h. P (K_E h)) \<and> (\<forall>h. P (K_P h)) \<and>
    (\<forall>h. P (K_Other h)) \<and> (\<forall>h. P (K_Oldest h))"
  by (metis place.exhaust)

lemma in_places [simp]:
  "K_Pubkey h \<in> places e (sec_ops X e) \<longleftrightarrow> h \<in> pubkey_keys e"
  "K_Kind n \<in> places e (sec_ops X e) \<longleftrightarrow> n \<in> kind_keys e"
  "K_E h \<in> places e (sec_ops X e) \<longleftrightarrow> h \<in> e_keys X e"
  "K_P h \<in> places e (sec_ops X e) \<longleftrightarrow> h \<in> p_keys X e"
  "K_Other k \<in> places e (sec_ops X e) \<longleftrightarrow> k \<in> other_keys e"
  "K_Oldest n' \<in> places e (sec_ops X e) \<longleftrightarrow> n' \<in> oldest_keys e"
  by (auto simp: places_def sec_ops_def image_Un image_image)

lemma sec_all_places:
  "sec_all X s E \<longleftrightarrow>
     oldest_wf (by_oldest s) \<and>
     (\<forall>k. sorted_wrt er_less (place_get s k) \<and>
          set (place_get s k) = eref_new ` {e \<in> E. k \<in> places e (sec_ops X e)})"
  unfolding all_places [of "\<lambda>k. sorted_wrt er_less (place_get s k) \<and>
      set (place_get s k) = eref_new ` {e \<in> E. k \<in> places e (sec_ops X e)}"]
  by (auto simp only: sec_all_def sec_ok_def in_places place_get.simps)

lemma sec_all_present:
  assumes "E \<subseteq> U"
  shows "sec_all X s E \<longleftrightarrow>
    places_wf U s \<and> (\<forall>e \<in> U. present s e = (if e \<in> E then places e (sec_ops X e) else {}))"
proof
  assume a: "sec_all X s E"
  then have "set (place_get s k) = eref_new ` {e \<in> E. k \<in> places e (sec_ops X e)}" for k
    by (simp add: sec_all_places)
  then have "present s e = (if e \<in> E then places e (sec_ops X e) else {})" for e
    by (auto simp: present_def)
  moreover have "places_wf U s" using a assms by (auto simp: sec_all_places places_wf_def)
  ultimately show "places_wf U s \<and> (\<forall>e \<in> U. present s e = (if e \<in> E then places e (sec_ops X e) else {}))"
    by blast
next
  assume a: "places_wf U s \<and> (\<forall>e \<in> U. present s e = (if e \<in> E then places e (sec_ops X e) else {}))"
  have "set (place_get s k) = eref_new ` {e \<in> E. k \<in> places e (sec_ops X e)}" for k
  proof -
    have "set (place_get s k) \<subseteq> eref_new ` U" using a by (simp add: places_wf_def)
    then have "r \<in> set (place_get s k) \<longleftrightarrow> (\<exists>e \<in> U. r = eref_new e \<and> k \<in> present s e)" for r
      by (auto simp: present_def)
    then show ?thesis using a assms by (auto split: if_splits)
  qed
  then show "sec_all X s E" using a by (simp add: sec_all_places places_wf_def)
qed

end
