(* ===== verification/Concurrent_Invariant.thy ===== *)
theory Concurrent_Invariant
  imports Index_Places
begin

text \<open>
  What every interleaving of inserts and evictions keeps. For each event the invariant relates the
  state of the thread that inserts it, whether \<open>by_id\<close> has it, the places of the secondary indexes
  where it is, and the places that removals in progress have still to visit. A step changes this
  for the event of its thread, or for the event that it removes, and for no other.
\<close>

section \<open>Views of a state\<close>

fun th_rm :: "thread \<Rightarrow> removal option" where
  "th_rm (T_Evict rm) = Some rm"
| "th_rm (T_Insert e (I_Unlink rm)) = Some rm"
| "th_rm th = None"

fun rm_on :: "removal \<Rightarrow> event option" where
  "rm_on (Rm_Mem e) = Some e"
| "rm_on (Rm_Cnt e) = Some e"
| "rm_on (Rm_Sec e ops) = Some e"
| "rm_on rm = None"

fun rm_ops :: "'x ext_scheme \<Rightarrow> removal \<Rightarrow> sec_op list" where
  "rm_ops X (Rm_Mem e) = sec_ops X e"
| "rm_ops X (Rm_Cnt e) = sec_ops X e"
| "rm_ops X (Rm_Sec e ops) = ops"
| "rm_ops X rm = []"

definition th_on :: "thread \<Rightarrow> event \<Rightarrow> bool" where
  "th_on th e \<longleftrightarrow> (\<exists>rm. th_rm th = Some rm \<and> rm_on rm = Some e)"

definition th_left :: "'x ext_scheme \<Rightarrow> thread \<Rightarrow> event \<Rightarrow> place set" where
  "th_left X th e = (if th_on th e then places e (rm_ops X (the (th_rm th))) else {})"

text \<open>The threads but one: whether they remove \<open>e\<close>, and the places they have still to visit.\<close>

definition rest_on :: "(nat \<rightharpoonup> thread) \<Rightarrow> nat \<Rightarrow> event \<Rightarrow> bool" where
  "rest_on T t e \<longleftrightarrow> (\<exists>u th. u \<noteq> t \<and> T u = Some th \<and> th_on th e)"

definition rest_left :: "'x ext_scheme \<Rightarrow> (nat \<rightharpoonup> thread) \<Rightarrow> nat \<Rightarrow> event \<Rightarrow> place set" where
  "rest_left X T t e = \<Union> {th_left X th e | u th. u \<noteq> t \<and> T u = Some th}"

definition unlinking :: "conc \<Rightarrow> event \<Rightarrow> bool" where
  "unlinking c e \<longleftrightarrow> (\<exists>u th. cc_threads c u = Some th \<and> th_on th e)"

definition left_of :: "'x ext_scheme \<Rightarrow> conc \<Rightarrow> event \<Rightarrow> place set" where
  "left_of X c e = \<Union> {th_left X th e | u th. cc_threads c u = Some th}"

definition live :: "conc \<Rightarrow> event \<Rightarrow> bool" where
  "live c e \<longleftrightarrow> by_id (cc_index c) (ev_id e) = Some e"

text \<open>The state of the thread that inserts \<open>e\<close>; an event without one counts as done.\<close>

definition pc_of :: "conc \<Rightarrow> event \<Rightarrow> ins_pc" where
  "pc_of c e =
     (if \<exists>t pc. cc_threads c t = Some (T_Insert e pc)
      then SOME pc. \<exists>t. cc_threads c t = Some (T_Insert e pc) else I_Done LostRace)"

definition solo :: "(nat \<rightharpoonup> thread) \<Rightarrow> bool" where
  "solo T \<longleftrightarrow> (\<forall>t u e p q. T t = Some (T_Insert e p) \<longrightarrow> T u = Some (T_Insert e q) \<longrightarrow> t = u)"

lemma pc_of_thread:
  assumes "solo (cc_threads c)" "cc_threads c t = Some (T_Insert e pc)"
  shows "pc_of c e = pc"
proof -
  have "pc' = pc" if "cc_threads c u = Some (T_Insert e pc')" for u pc'
    using assms that unfolding solo_def by (metis option.inject thread.inject(1))
  then have "(SOME pc. \<exists>t. cc_threads c t = Some (T_Insert e pc)) = pc"
    using assms(2) by (intro some_equality) blast+
  then show ?thesis using assms(2) by (auto simp: pc_of_def)
qed

lemma solo_update: "solo T \<Longrightarrow> T t = Some (T_Insert e p) \<Longrightarrow> solo (T(t \<mapsto> T_Insert e q))"
  "solo T \<Longrightarrow> T t = Some (T_Evict rm) \<Longrightarrow> solo (T(t \<mapsto> T_Evict rm'))"
  unfolding solo_def by (auto split: if_splits)

lemma pc_of_insert:
  assumes "solo (cc_threads c)" "cc_threads c t = Some (T_Insert e p)"
  shows "pc_of (c\<lparr>cc_index := s, cc_threads := (cc_threads c)(t \<mapsto> T_Insert e q)\<rparr>) f =
    (if f = e then q else pc_of c f)"
proof (cases "f = e")
  case True
  then show ?thesis
    using pc_of_thread [of "c\<lparr>cc_index := s, cc_threads := (cc_threads c)(t \<mapsto> T_Insert e q)\<rparr>" t e q]
      solo_update(1) [OF assms] by simp
next
  case False
  then have "((cc_threads c)(t \<mapsto> T_Insert e q)) u = Some (T_Insert f pc) \<longleftrightarrow> cc_threads c u = Some (T_Insert f pc)" for u pc
    using assms(2) by auto
  then show ?thesis using False by (simp add: pc_of_def)
qed

lemma pc_of_evict:
  assumes "cc_threads c t = Some (T_Evict rm)"
  shows "pc_of (c\<lparr>cc_index := s, cc_threads := (cc_threads c)(t \<mapsto> T_Evict rm')\<rparr>) f = pc_of c f"
proof -
  have "((cc_threads c)(t \<mapsto> T_Evict rm')) u = Some (T_Insert f pc) \<longleftrightarrow> cc_threads c u = Some (T_Insert f pc)" for u pc
    using assms by auto
  then show ?thesis by (simp add: pc_of_def)
qed

lemma unlinking_split: "cc_threads c t = Some th \<Longrightarrow> unlinking c e \<longleftrightarrow> th_on th e \<or> rest_on (cc_threads c) t e"
  unfolding unlinking_def rest_on_def by (metis option.inject)

lemma left_split: "cc_threads c t = Some th \<Longrightarrow> left_of X c e = th_left X th e \<union> rest_left X (cc_threads c) t e"
  unfolding left_of_def rest_left_def by (auto 0 3) (metis option.inject)

lemma rest_update [simp]:
  "rest_on (T(t \<mapsto> th)) t e = rest_on T t e" "rest_left X (T(t \<mapsto> th)) t e = rest_left X T t e"
  by (auto simp: rest_on_def rest_left_def)

lemma views_update:
  "unlinking (c\<lparr>cc_index := s, cc_threads := (cc_threads c)(t \<mapsto> th)\<rparr>) e \<longleftrightarrow>
     th_on th e \<or> rest_on (cc_threads c) t e"
  "left_of X (c\<lparr>cc_index := s, cc_threads := (cc_threads c)(t \<mapsto> th)\<rparr>) e =
     th_left X th e \<union> rest_left X (cc_threads c) t e"
  using unlinking_split [of "c\<lparr>cc_index := s, cc_threads := (cc_threads c)(t \<mapsto> th)\<rparr>" t th]
    left_split [of "c\<lparr>cc_index := s, cc_threads := (cc_threads c)(t \<mapsto> th)\<rparr>" t th X]
  by simp_all

section \<open>Phases\<close>

fun pre_put :: "ins_pc \<Rightarrow> bool" where
  "pre_put I_Start = True"
| "pre_put I_Swap = True"
| "pre_put (I_Unlink rm) = True"
| "pre_put (I_Put r) = True"
| "pre_put pc = False"

text \<open>
  The phase of an event: \<open>L\<close> whether \<open>by_id\<close> has it, \<open>P\<close> the places where it is, \<open>R\<close> the places that
  removals of it have still to visit.
\<close>

fun phase :: "'x ext_scheme \<Rightarrow> event \<Rightarrow> ins_pc \<Rightarrow> bool \<Rightarrow> place set \<Rightarrow> place set \<Rightarrow> bool" where
  "phase X e (I_Check1 r) L P R = (P = {})"
| "phase X e I_Undo L P R = (P = {})"
| "phase X e (I_Mem r) L P R = (P = {})"
| "phase X e (I_Cnt r) L P R = (P = {})"
| "phase X e (I_Index r ops) L P R =
     (\<exists>don. sec_ops X e = don @ ops \<and> P \<subseteq> places e don \<and> (L \<longrightarrow> P = places e don))"
| "phase X e (I_Check2 r) L P R =
     (P \<subseteq> places e (sec_ops X e) \<and> (L \<longrightarrow> P = places e (sec_ops X e)))"
| "phase X e (I_Orphan ops) L P R = (\<not> L \<and> P \<subseteq> places e ops)"
| "phase X e (I_Check3 r) L P R =
     (P \<subseteq> places e (sec_ops X e) \<and> (if L then P = places e (sec_ops X e) else P \<subseteq> R))"
| "phase X e I_Remove L P R = (P \<subseteq> places e (sec_ops X e))"
| "phase X e I_UnMem L P R = (\<not> L \<and> P \<subseteq> places e (sec_ops X e))"
| "phase X e I_UnCnt L P R = (\<not> L \<and> P \<subseteq> places e (sec_ops X e))"
| "phase X e (I_Clean ops) L P R = (\<not> L \<and> P \<subseteq> places e ops)"
| "phase X e (I_Done out) L P R =
     (P \<subseteq> places e (sec_ops X e) \<and> (if L then P = places e (sec_ops X e) else P \<subseteq> R))"
| "phase X e pc L P R = (\<not> L \<and> P = {})"

lemma phase_unborn: "pre_put pc \<Longrightarrow> phase X e pc L P R \<longleftrightarrow> \<not> L \<and> P = {}"
  by (cases pc) simp_all

text \<open>What a removal does to the event it removes.\<close>

lemma phase_unlinked:
  "phase X e pc True P R \<Longrightarrow> phase X e pc False P (places e (sec_ops X e) \<union> R)"
  by (cases pc) auto

lemma phase_deleted:
  "phase X e pc False P (insert k Q \<union> R) \<Longrightarrow> phase X e pc False (P - {k}) (Q \<union> R)"
  by (cases pc) auto

lemma phase_more: "phase X e pc L P R \<Longrightarrow> R \<subseteq> R' \<Longrightarrow> phase X e pc L P R'"
  by (cases pc) (auto split: if_splits)

section \<open>Structure\<close>

text \<open>What holds of the maps, and that all threads work on events of \<open>U\<close>.\<close>

definition thread_in :: "event set \<Rightarrow> thread \<Rightarrow> bool" where
  "thread_in U th \<longleftrightarrow>
     (\<forall>e pc. th = T_Insert e pc \<longrightarrow> e \<in> U) \<and> (\<forall>e. th_on th e \<longrightarrow> e \<in> U)"

definition maps_ok :: "event set \<Rightarrow> event_index \<Rightarrow> bool" where
  "maps_ok U s \<longleftrightarrow>
     finite (dom (by_id s)) \<and> keyed ev_id (by_id s) \<and> stored s \<subseteq> U \<and> places_wf U s \<and>
     (\<forall>k i. by_replaceable s k = Some i \<longrightarrow>
        (\<exists>e \<in> U. ev_id e = i \<and> is_replaceable e \<and> replacement_key e = k))"

definition structure_ok :: "event set \<Rightarrow> conc \<Rightarrow> bool" where
  "structure_ok U c \<longleftrightarrow>
     solo (cc_threads c) \<and> (\<forall>th \<in> ran (cc_threads c). thread_in U th) \<and> maps_ok U (cc_index c)"

lemma by_id_live:
  assumes "maps_ok U (cc_index c)" "by_id (cc_index c) i = Some d"
  shows "ev_id d = i" "d \<in> U" "live c d"
  using assms by (auto simp: maps_ok_def stored_def live_def ran_def dest: keyedD)

lemma by_id_same:
  assumes "inj_on ev_id U" "maps_ok U (cc_index c)" "e \<in> U"
  shows "by_id (cc_index c) (ev_id e) = (if live c e then Some e else None)"
proof (cases "by_id (cc_index c) (ev_id e)")
  case (Some d)
  then have "d = e" using by_id_live [OF assms(2) Some] inj_onD [OF assms(1)] assms(3) by simp
  then show ?thesis using Some by (simp add: live_def)
qed (simp add: live_def)

lemma maps_ok_put:
  assumes "inj_on ev_id U" "maps_ok U s" "e \<in> U"
  shows "maps_ok U (s\<lparr>by_id := (by_id s)(ev_id e \<mapsto> e)\<rparr>)"
  using assms(2,3) by (auto simp: maps_ok_def stored_def keyed_def ran_def)

lemma maps_ok_drop:
  "maps_ok U s \<Longrightarrow> maps_ok U (s\<lparr>by_id := (by_id s)(i := None)\<rparr>)"
  by (auto simp: maps_ok_def stored_def keyed_def ran_def split: if_splits)

lemma maps_ok_swap:
  "maps_ok U s \<Longrightarrow> e \<in> U \<Longrightarrow> is_replaceable e \<Longrightarrow>
   maps_ok U (s\<lparr>by_replaceable := (by_replaceable s)(replacement_key e \<mapsto> ev_id e)\<rparr>)"
  by (auto simp: maps_ok_def stored_def)

lemma maps_ok_count [simp]:
  "maps_ok U (s\<lparr>memory_bytes := m\<rparr>) = maps_ok U s" "maps_ok U (s\<lparr>event_count := n\<rparr>) = maps_ok U s"
  by (simp_all add: maps_ok_def stored_def)

lemma maps_ok_op:
  assumes "inj_on ev_id U" "maps_ok U s" "e \<in> U"
  shows "maps_ok U (add_op e op s)" "maps_ok U (del_op e op s)"
  using assms(2) present_add(2) [OF assms(1) _ assms(3)] present_del(2) [OF assms(1) _ assms(3)]
  by (simp_all add: maps_ok_def stored_def)

lemmas maps_ok_intros = maps_ok_put maps_ok_drop maps_ok_swap maps_ok_op

lemma th_on_simps [simp]:
  "th_on (T_Evict rm) d \<longleftrightarrow> rm_on rm = Some d" "th_on (T_Insert e (I_Unlink rm)) d \<longleftrightarrow> rm_on rm = Some d"
  by (simp_all add: th_on_def)

lemma th_off: "th_rm th = None \<Longrightarrow> \<not> th_on th d" "\<not> th_on th d \<Longrightarrow> th_left X th d = {}"
  by (simp add: th_on_def) (simp add: th_left_def)

lemma th_rm_insert: "th_rm (T_Insert e pc) = (case pc of I_Unlink rm \<Rightarrow> Some rm | _ \<Rightarrow> None)"
  by (cases pc) simp_all

lemma thread_in_insert:
  "thread_in U (T_Insert e pc) \<longleftrightarrow> e \<in> U \<and> (\<forall>rm d. pc = I_Unlink rm \<longrightarrow> rm_on rm = Some d \<longrightarrow> d \<in> U)"
  by (auto simp: thread_in_def th_on_def th_rm_insert split: ins_pc.splits)

text \<open>What a step of \<open>insert\<close> outside the removal does to the index.\<close>

definition own_effect :: "event \<Rightarrow> event_index \<Rightarrow> event_index \<Rightarrow> bool" where
  "own_effect e s s' \<longleftrightarrow>
     s' = s \<or>
     (is_replaceable e \<and> s' = s\<lparr>by_replaceable := (by_replaceable s)(replacement_key e \<mapsto> ev_id e)\<rparr>) \<or>
     s' = s\<lparr>by_id := (by_id s)(ev_id e \<mapsto> e)\<rparr> \<or> s' = s\<lparr>by_id := (by_id s)(ev_id e := None)\<rparr> \<or>
     (\<exists>m. s' = s\<lparr>memory_bytes := m\<rparr>) \<or> (\<exists>n. s' = s\<lparr>event_count := n\<rparr>) \<or>
     (\<exists>op. s' = add_op e op s) \<or> (\<exists>op. s' = del_op e op s)"

lemma ins_step_effect:
  assumes "ins_step X e pc s = (pc', s')" "\<And>rm. pc \<noteq> I_Unlink rm"
  shows "own_effect e s s'" "pc' = I_Unlink rm \<Longrightarrow> pc = I_Swap \<and> (\<exists>i. rm = Rm_Id i)"
proof -
  have "own_effect e s s' \<and> (\<forall>rm. pc' = I_Unlink rm \<longrightarrow> pc = I_Swap \<and> (\<exists>i. rm = Rm_Id i))"
  proof (cases "(X, e, pc, s)" rule: ins_step.cases)
    case (2 X e s)
    then show ?thesis
      using assms(1) by (auto simp: own_effect_def Let_def split: if_splits repl_key.splits option.splits)
  qed (use assms in \<open>auto simp: own_effect_def split: if_splits\<close>)
  then show "own_effect e s s'" "pc' = I_Unlink rm \<Longrightarrow> pc = I_Swap \<and> (\<exists>i. rm = Rm_Id i)" by blast+
qed

lemma own_effect_maps:
  assumes "inj_on ev_id U" "maps_ok U s" "e \<in> U" "own_effect e s s'"
  shows "maps_ok U s'"
  using assms(4) unfolding own_effect_def
  using assms(2) maps_ok_put [OF assms(1-3)] maps_ok_drop [OF assms(2)] maps_ok_swap [OF assms(2,3)] maps_ok_op [OF assms(1-3)]
  by (elim disjE conjE exE) simp_all

lemma rm_step_maps:
  assumes "inj_on ev_id U" "maps_ok U s" "\<forall>d. rm_on rm = Some d \<longrightarrow> d \<in> U" "rm_step X rm s = (rm', s')"
  shows "maps_ok U s' \<and> (\<forall>d. rm_on rm' = Some d \<longrightarrow> d \<in> U)"
proof (cases "(X, rm, s)" rule: rm_step.cases)
  case (1 X i s1)
  have "d \<in> U" if "by_id s i = Some d" for d
    using that assms(2) by (auto simp: maps_ok_def stored_def ran_def)
  then show ?thesis using 1 assms(2,4) maps_ok_drop [OF assms(2), of i] by (auto split: option.splits)
next
  case (5 X d op ops s1)
  then show ?thesis using assms(3,4) maps_ok_op(2) [OF assms(1,2), of d op] by auto
qed (use assms in auto)

text \<open>A step of a removal unlinks its event, deletes it at a place, or leaves both.\<close>

lemma rm_step_cases:
  assumes "rm_step X rm s = (rm', s')"
  obtains (found) i b where "rm = Rm_Id i" "by_id s i = Some b" "rm' = Rm_Mem b" "s' = s\<lparr>by_id := (by_id s)(i := None)\<rparr>"
  | (delete) b op ops where "rm = Rm_Sec b (op # ops)" "rm' = Rm_Sec b ops" "s' = del_op b op s"
  | (other) "by_id s' = by_id s" "present s' = present s" "rm_on rm' = rm_on rm \<or> rm_on rm' = None"
      "rm_on rm' = rm_on rm \<and> rm_ops X rm' = rm_ops X rm \<or> rm_ops X rm' = [] \<and> rm_ops X rm = []"
proof (cases rm)
  case (Rm_Id i)
  show ?thesis
  proof (cases "by_id s i")
    case None
    then show ?thesis using assms Rm_Id by (intro other) auto
  next
    case (Some b)
    then show ?thesis using assms Rm_Id by (intro found [of i b]) simp_all
  qed
next
  case (Rm_Sec b ops)
  show ?thesis
  proof (cases ops)
    case Nil
    then show ?thesis using assms Rm_Sec by (intro other) auto
  next
    case (Cons op ops')
    then show ?thesis using assms Rm_Sec by (intro delete [of b op ops']) simp_all
  qed
qed (rule other; use assms in auto)+

text \<open>A step of \<open>insert\<close> is a step of its removal or an own one.\<close>

lemma ins_step_cases:
  assumes "ins_step X e pc s = (pc', s')"
  obtains (removal) rm rm' where "pc = I_Unlink rm" "pc' = I_Unlink rm'" "rm_step X rm s = (rm', s')"
  | (unlinked) r where "pc = I_Unlink (Rm_End r)" "pc' = I_Put r" "s' = s"
  | (own) "\<And>rm. pc \<noteq> I_Unlink rm"
proof (cases "\<exists>rm. pc = I_Unlink rm")
  case True
  then obtain rm where "pc = I_Unlink rm" by blast
  then show ?thesis using assms removal unlinked by (cases rm) (auto split: prod.splits)
qed (use own in blast)

lemma ins_step_maps:
  assumes "inj_on ev_id U" "maps_ok U s" "thread_in U (T_Insert e pc)" "ins_step X e pc s = (pc', s')"
  shows "maps_ok U s' \<and> thread_in U (T_Insert e pc')"
  using assms(4)
proof (cases rule: ins_step_cases)
  case (removal rm rm')
  then have "\<forall>d. rm_on rm = Some d \<longrightarrow> d \<in> U" using assms(3) by (simp add: thread_in_insert)
  from rm_step_maps [OF assms(1,2) this removal(3)] show ?thesis
    using removal(2) assms(3) by (simp add: thread_in_insert)
next
  case (unlinked r)
  then show ?thesis using assms(2,3) by (simp add: thread_in_insert)
next
  case own
  have e: "e \<in> U" using assms(3) by (simp add: thread_in_insert)
  note eff = ins_step_effect [OF assms(4) own]
  have "thread_in U (T_Insert e pc')"
    unfolding thread_in_insert using e eff(2) by fastforce
  then show ?thesis using own_effect_maps [OF assms(1,2) e eff(1)] by blast
qed

lemma structure_update:
  assumes "structure_ok U c" "solo ((cc_threads c)(t \<mapsto> th))" "thread_in U th" "maps_ok U s"
  shows "structure_ok U (c\<lparr>cc_index := s, cc_threads := (cc_threads c)(t \<mapsto> th)\<rparr>)"
proof -
  have "x = th \<or> x \<in> ran (cc_threads c)" if "x \<in> ran ((cc_threads c)(t \<mapsto> th))" for x
    using that by (auto simp: ran_def split: if_splits)
  then show ?thesis using assms unfolding structure_ok_def by auto
qed

lemma structure_okD:
  assumes "structure_ok U c"
  shows "solo (cc_threads c)" "maps_ok U (cc_index c)" "cc_threads c t = Some th \<Longrightarrow> thread_in U th"
  using assms by (auto simp: structure_ok_def ran_def)

lemma structure_step:
  assumes "inj_on ev_id U" "structure_ok U c" "conc_step X c c'"
  shows "structure_ok U c'"
  using assms(3)
proof cases
  case (insert t e pc pc' s')
  note d = structure_okD [OF assms(2)]
  from ins_step_maps [OF assms(1) d(2) d(3) [OF insert(2)] insert(4)]
  show ?thesis
    unfolding insert(1) using structure_update [OF assms(2) solo_update(1) [OF d(1) insert(2)]] by blast
next
  case (evict t rm rm' s')
  note d = structure_okD [OF assms(2)]
  have "\<forall>d. rm_on rm = Some d \<longrightarrow> d \<in> U" using d(3) [OF evict(2)] by (simp add: thread_in_def)
  from rm_step_maps [OF assms(1) d(2) this evict(3)]
  have "maps_ok U s'" "thread_in U (T_Evict rm')" by (simp_all add: thread_in_def)
  then show ?thesis
    unfolding evict(1) using structure_update [OF assms(2) solo_update(2) [OF d(1) evict(2)]] by blast
qed

section \<open>Every event stays in its phase\<close>

definition event_ok :: "'x ext_scheme \<Rightarrow> conc \<Rightarrow> ins_pc \<Rightarrow> event \<Rightarrow> bool" where
  "event_ok X c pc d \<longleftrightarrow>
     phase X d pc (live c d) (present (cc_index c) d) (left_of X c d) \<and>
     (live c d \<or> pre_put pc \<longrightarrow> \<not> unlinking c d)"

lemma live_update: "live (c\<lparr>cc_index := s, cc_threads := T\<rparr>) d \<longleftrightarrow> by_id s (ev_id d) = Some d"
  by (simp add: live_def)

text \<open>What a step of thread \<open>t\<close> may do to an event \<open>d\<close> without leaving its phase.\<close>

lemma event_ok_same:
  assumes "cc_threads c t = Some th" "event_ok X c pc d"
    and "by_id s (ev_id d) = by_id (cc_index c) (ev_id d)" "present s d = present (cc_index c) d"
    and "th_on th' d \<Longrightarrow> th_on th d" "th_left X th' d = th_left X th d"
  shows "event_ok X (c\<lparr>cc_index := s, cc_threads := (cc_threads c)(t \<mapsto> th')\<rparr>) pc d"
  using assms
  by (auto simp: event_ok_def live_def views_update unlinking_split [OF assms(1)] left_split [OF assms(1)])

lemma event_ok_unlinked:
  assumes "cc_threads c t = Some th" "event_ok X c pc d" "live c d" "\<not> th_on th d"
    and "by_id s (ev_id d) = None" "present s d = present (cc_index c) d"
    and "th_left X th' d = places d (sec_ops X d)"
  shows "event_ok X (c\<lparr>cc_index := s, cc_threads := (cc_threads c)(t \<mapsto> th')\<rparr>) pc d"
proof -
  have "\<not> pre_put pc" using assms(2,3) phase_unborn [of pc X d] by (auto simp: event_ok_def)
  then show ?thesis
    using assms(2,3,5-7) phase_unlinked [of X d pc]
    by (simp add: event_ok_def live_def views_update left_split [OF assms(1)] th_off(2) [OF assms(4)])
qed

lemma event_ok_deleted:
  assumes "cc_threads c t = Some th" "event_ok X c pc d" "th_on th d"
    and "by_id s (ev_id d) = by_id (cc_index c) (ev_id d)" "present s d = present (cc_index c) d - {k}"
    and "th_left X th d = insert k Q" "th_left X th' d = Q"
  shows "event_ok X (c\<lparr>cc_index := s, cc_threads := (cc_threads c)(t \<mapsto> th')\<rparr>) pc d"
proof -
  have "\<not> live c d" "\<not> pre_put pc"
    using assms(2,3) unlinking_split [OF assms(1)] by (auto simp: event_ok_def)
  then show ?thesis
    using assms(2,4-7) phase_deleted [of X d pc "present (cc_index c) d" k Q "rest_left X (cc_threads c) t d"]
    by (simp add: event_ok_def live_def views_update left_split [OF assms(1)])
qed

text \<open>A step of a removal.\<close>

lemma removal_keeps:
  assumes "inj_on ev_id U" "structure_ok U c" "cc_threads c t = Some th"
    and rm: "th_rm th = Some rm" "th_rm th' = Some rm'" "rm_step X rm (cc_index c) = (rm', s')"
    and d: "d \<in> U" "event_ok X c pc d"
  shows "event_ok X (c\<lparr>cc_index := s', cc_threads := (cc_threads c)(t \<mapsto> th')\<rparr>) pc d"
proof -
  have on: "th_on th b \<longleftrightarrow> rm_on rm = Some b" "th_on th' b \<longleftrightarrow> rm_on rm' = Some b" for b
    using rm(1,2) by (simp_all add: th_on_def)
  have lft: "th_left X th b = (if rm_on rm = Some b then places b (rm_ops X rm) else {})"
      "th_left X th' b = (if rm_on rm' = Some b then places b (rm_ops X rm') else {})" for b
    using rm(1,2) by (simp_all add: th_left_def on)
  have maps: "maps_ok U (cc_index c)" "\<And>b. rm_on rm = Some b \<Longrightarrow> b \<in> U"
    using structure_okD(2,3) [OF assms(2)] assms(3) on(1) by (auto simp: thread_in_def)
  then have wf: "places_wf U (cc_index c)" by (simp add: maps_ok_def)
  note same = event_ok_same [OF assms(3) d(2)]
  from rm(3) show ?thesis
  proof (cases rule: rm_step_cases)
    case (found i b)
    note b = by_id_live [OF maps(1) found(2)]
    show ?thesis
    proof (cases "d = b")
      case True
      then show ?thesis
        using found b by (intro event_ok_unlinked [OF assms(3) d(2)]) (simp_all add: on lft)
    next
      case False
      then have "ev_id d \<noteq> i" using b(1,2) d(1) inj_onD [OF assms(1)] by blast
      then show ?thesis using found False by (intro same) (simp_all add: on lft)
    qed
  next
    case (delete b op ops)
    note pres = present_del(1) [OF assms(1) wf maps(2), of b op]
    show ?thesis
    proof (cases "d = b")
      case True
      then show ?thesis
        using delete pres by (intro event_ok_deleted [OF assms(3) d(2)]) (simp_all add: on lft)
    next
      case False
      then show ?thesis using delete pres by (intro same) (simp_all add: on lft)
    qed
  next
    case other
    then show ?thesis by (intro same) (auto simp: on lft)
  qed
qed

text \<open>A step of \<open>insert\<close> outside a removal: the other events, and its own.\<close>

lemma own_step_others:
  assumes "inj_on ev_id U" "structure_ok U c" "cc_threads c t = Some (T_Insert e pc)" "\<And>rm. pc \<noteq> I_Unlink rm"
    and "ins_step X e pc (cc_index c) = (pc', s')" "d \<in> U" "d \<noteq> e" "event_ok X c p d"
  shows "event_ok X (c\<lparr>cc_index := s', cc_threads := (cc_threads c)(t \<mapsto> T_Insert e pc')\<rparr>) p d"
proof -
  have e: "e \<in> U" using structure_okD(3) [OF assms(2,3)] by (simp add: thread_in_insert)
  have wf: "places_wf U (cc_index c)" using structure_okD(2) [OF assms(2)] by (simp add: maps_ok_def)
  have ne: "ev_id d \<noteq> ev_id e" using assms(1,6,7) e by (auto dest: inj_onD)
  note eff = ins_step_effect [OF assms(5,4)]
  have "by_id s' (ev_id d) = by_id (cc_index c) (ev_id d) \<and> present s' d = present (cc_index c) d"
    using eff(1) ne assms(7) present_add(1) [OF assms(1) wf e] present_del(1) [OF assms(1) wf e]
    unfolding own_effect_def by (elim disjE conjE exE) simp_all
  moreover have "\<not> th_on (T_Insert e pc) d" using assms(4) by (auto simp: th_on_def th_rm_insert split: ins_pc.splits)
  moreover have "\<not> th_on (T_Insert e pc') d"
    using eff(2) by (fastforce simp: th_on_def th_rm_insert split: ins_pc.splits)
  ultimately show ?thesis
    using assms(8) by (simp add: event_ok_def live_def views_update unlinking_split [OF assms(3)]
        left_split [OF assms(3)] th_off(2))
qed

lemma phase_own:
  assumes ph: "phase X e pc L (present s e) R" "L \<or> pre_put pc \<longrightarrow> \<not> N"
    and st: "ins_step X e pc s = (pc', s')" "\<And>rm. pc \<noteq> I_Unlink rm"
    and bi: "by_id s (ev_id e) = (if L then Some e else None)"
    and add: "\<And>op. present (add_op e op s) e = insert (place_of e op) (present s e)"
    and del: "\<And>op. present (del_op e op s) e = present s e - {place_of e op}"
  shows "phase X e pc' (by_id s' (ev_id e) = Some e) (present s' e) R \<and>
    (by_id s' (ev_id e) = Some e \<or> pre_put pc' \<longrightarrow> \<not> N)"
proof (cases pc)
  case I_Swap
  then have unborn: "\<not> L" "present s e = {}" "\<not> N" using ph by auto
  have "by_id s' = by_id s \<and> present s' = present s \<and> (pre_put pc' \<or> (\<exists>out. pc' = I_Done out))"
    using st(1) unfolding I_Swap by (auto simp: Let_def split: if_splits repl_key.splits option.splits)
  then show ?thesis using unborn bi phase_unborn [of pc' X e] by auto
next
  case (I_Index r ops)
  show ?thesis
  proof (cases ops)
    case Nil
    then show ?thesis using ph st(1) bi I_Index by (cases L) auto
  next
    case (Cons op ops')
    obtain don where don: "sec_ops X e = don @ op # ops'" "present s e \<subseteq> places e don"
        "L \<longrightarrow> present s e = places e don"
      using ph(1) I_Index Cons by auto
    have "pc' = I_Index r ops'" "s' = add_op e op s" using st(1) I_Index Cons by auto
    then show ?thesis
      using don ph(2) bi by (auto simp: add intro!: exI [of _ "don @ [op]"])
  qed
next
  case (I_Orphan ops)
  then show ?thesis using ph st(1) bi by (cases ops) (auto simp: del)
next
  case (I_Clean ops)
  then show ?thesis using ph st(1) bi by (cases ops) (auto simp: del)
qed (use ph st bi in \<open>cases L; auto split: if_splits\<close>)+

lemma own_step_own:
  assumes "inj_on ev_id U" "structure_ok U c" "cc_threads c t = Some (T_Insert e pc)" "\<And>rm. pc \<noteq> I_Unlink rm"
    and "ins_step X e pc (cc_index c) = (pc', s')" "event_ok X c pc e"
  shows "event_ok X (c\<lparr>cc_index := s', cc_threads := (cc_threads c)(t \<mapsto> T_Insert e pc')\<rparr>) pc' e"
proof -
  have e: "e \<in> U" using structure_okD(3) [OF assms(2,3)] by (simp add: thread_in_insert)
  have maps: "maps_ok U (cc_index c)" "places_wf U (cc_index c)"
    using structure_okD(2) [OF assms(2)] by (simp_all add: maps_ok_def)
  have off: "\<not> th_on (T_Insert e pc) e" "\<not> th_on (T_Insert e pc') e"
    using assms(4) ins_step_effect(2) [OF assms(5,4)]
    by (fastforce simp: th_on_def th_rm_insert split: ins_pc.splits)+
  have "phase X e pc' (by_id s' (ev_id e) = Some e) (present s' e) (left_of X c e) \<and>
      (by_id s' (ev_id e) = Some e \<or> pre_put pc' \<longrightarrow> \<not> unlinking c e)"
    using assms(6) present_add(1) [OF assms(1) maps(2) e] present_del(1) [OF assms(1) maps(2) e]
    by (intro phase_own [OF _ _ assms(5,4) by_id_same [OF assms(1) maps(1) e]]) (simp_all add: event_ok_def)
  then show ?thesis
    using off by (simp add: event_ok_def live_def views_update unlinking_split [OF assms(3)]
        left_split [OF assms(3)] th_off(2))
qed

text \<open>Together: every event stays in the phase of its thread.\<close>

definition events_ok :: "'x ext_scheme \<Rightarrow> event set \<Rightarrow> conc \<Rightarrow> bool" where
  "events_ok X U c \<longleftrightarrow> (\<forall>d \<in> U. event_ok X c (pc_of c d) d)"

lemma event_ok_unborn: "pre_put p \<Longrightarrow> pre_put q \<Longrightarrow> event_ok X c p d \<longleftrightarrow> event_ok X c q d"
  by (simp add: event_ok_def phase_unborn)

lemma events_step:
  assumes "inj_on ev_id U" "structure_ok U c" "conc_step X c c'" "events_ok X U c"
  shows "events_ok X U c'"
  using assms(3)
proof cases
  case (evict t rm rm' s')
  show ?thesis
    using assms(4) removal_keeps [OF assms(1,2) evict(2) _ _ evict(3), of "T_Evict rm'"]
    by (simp add: events_ok_def evict(1) pc_of_evict [OF evict(2)])
next
  case (insert t e pc pc' s')
  note solo = structure_okD(1) [OF assms(2)]
  note pc' = pc_of_insert [OF solo insert(2)]
  have pc: "pc_of c e = pc" by (rule pc_of_thread [OF solo insert(2)])
  have e: "e \<in> U" using structure_okD(3) [OF assms(2) insert(2)] by (simp add: thread_in_insert)
  have ok: "event_ok X c (pc_of c d) d" if "d \<in> U" for d using that assms(4) by (simp add: events_ok_def)
  have "event_ok X c' (if d = e then pc' else pc_of c d) d" if d: "d \<in> U" for d
    using insert(4)
  proof (cases rule: ins_step_cases)
    case (removal rm rm')
    have "event_ok X c' (pc_of c d) d"
      unfolding insert(1) removal
      using removal_keeps [OF assms(1,2) insert(2) _ _ removal(3) d ok [OF d]] removal(1) by simp
    then show ?thesis using removal pc event_ok_unborn [of "I_Unlink rm" "I_Unlink rm'" X c' d] by (auto split: if_splits)
  next
    case (unlinked r)
    have "unlinking c' d = unlinking c d" "left_of X c' d = left_of X c d"
      unfolding insert(1) views_update unlinking_split [OF insert(2)] left_split [OF insert(2)]
      by (simp_all add: unlinked(1,2) th_left_def th_on_def)
    then have "event_ok X c' (pc_of c d) d"
      using ok [OF d] unlinked(3) by (simp add: event_ok_def live_def insert(1))
    then show ?thesis using unlinked pc event_ok_unborn [of "I_Unlink (Rm_End r)" "I_Put r" X c' d] by (auto split: if_splits)
  next
    case own
    then show ?thesis
      using own_step_own [OF assms(1,2) insert(2) _ insert(4)] own_step_others [OF assms(1,2) insert(2) _ insert(4) d]
        ok [OF d] ok [OF e] pc by (simp add: insert(1))
  qed
  then show ?thesis by (simp add: events_ok_def insert(1) pc')
qed

end
