(* ===== verification/Concurrent_Winners.thy ===== *)
theory Concurrent_Winners
  imports Concurrent_Invariant
begin

text \<open>
  The replaceable index under concurrent inserts and evictions: in every interleaving a stored
  replaceable event is the one its key names, once no thread is at work on it.
\<close>

section \<open>Stored replaceable events are winners\<close>

text \<open>
  Except between \<open>by_id.insert\<close> and the check after it, a stored replaceable event is the one that
  \<open>by_replaceable\<close> names, or a thread that holds its entry is about to remove it.
\<close>

fun unconfirmed :: "ins_pc \<Rightarrow> bool" where
  "unconfirmed (I_Check1 r) = True"
| "unconfirmed I_Undo = True"
| "unconfirmed I_Remove = True"
| "unconfirmed pc = False"

definition doomed :: "conc \<Rightarrow> event \<Rightarrow> bool" where
  "doomed c d \<longleftrightarrow>
     (\<exists>t f. cc_threads c t = Some (T_Insert f (I_Unlink (Rm_Id (ev_id d)))) \<and> replacement_key f = replacement_key d)"

definition winner :: "conc \<Rightarrow> event \<Rightarrow> bool" where
  "winner c d \<longleftrightarrow> by_replaceable (cc_index c) (replacement_key d) = Some (ev_id d)"

definition winners_ok :: "event set \<Rightarrow> conc \<Rightarrow> bool" where
  "winners_ok U c \<longleftrightarrow>
     (\<forall>d \<in> U. is_replaceable d \<and> live c d \<and> \<not> unconfirmed (pc_of c d) \<longrightarrow> winner c d \<or> doomed c d)"

lemma doomed_locked: "doomed c d \<Longrightarrow> locked c (replacement_key d)"
  by (auto simp: doomed_def locked_def)

lemma still_winner_iff:
  "is_replaceable e \<Longrightarrow> is_still_winner s e \<longleftrightarrow> by_replaceable s (replacement_key e) = Some (ev_id e)"
  using replacement_key_None [of e]
  by (auto simp: is_still_winner_def split: repl_key.splits option.splits)

lemma rm_step_frame:
  assumes "rm_step X rm s = (rm', s')"
  shows "by_replaceable s' = by_replaceable s" "tombstones s' = tombstones s"
    "by_id s' j = Some d \<Longrightarrow> by_id s j = Some d \<and> rm \<noteq> Rm_Id j" "by_id s j = Some d \<Longrightarrow> rm \<noteq> Rm_Id j \<Longrightarrow> by_id s' j = Some d"
  using assms by (cases "(X, rm, s)" rule: rm_step.cases; auto split: option.splits if_splits)+

lemma swap_effect:
  assumes "ins_step X e I_Swap s = (pc', s')" "is_replaceable e"
  shows "s' = s \<and> pc' = I_Done LostRace \<and>
      (\<exists>i old. by_replaceable s (replacement_key e) = Some i \<and> by_id s i = Some old \<and> \<not> incoming_wins e old) \<or>
    s' = s\<lparr>by_replaceable := (by_replaceable s)(replacement_key e \<mapsto> ev_id e)\<rparr> \<and>
      pc' = (case by_replaceable s (replacement_key e) of Some i \<Rightarrow> I_Unlink (Rm_Id i) | None \<Rightarrow> I_Put None)"
  using assms replacement_key_None [of e]
  by (auto simp: Let_def split: if_splits repl_key.splits option.splits)

text \<open>Steps of \<open>insert\<close> that are neither the swap nor part of a removal.\<close>

lemma own_frame:
  assumes "ins_step X e pc s = (pc', s')" "\<And>rm. pc \<noteq> I_Unlink rm" "is_replaceable e \<Longrightarrow> pc \<noteq> I_Swap"
  shows "by_replaceable s' = by_replaceable s" "tombstones s' = tombstones s"
    "j \<noteq> ev_id e \<Longrightarrow> by_id s' j = by_id s j"
  using assms by (cases "(X, e, pc, s)" rule: ins_step.cases; auto split: if_splits)+

lemma own_confirms:
  assumes "ins_step X e pc s = (pc', s')" "\<And>rm. pc \<noteq> I_Unlink rm" "pc \<noteq> I_Swap" "is_replaceable e"
    and "pre_put pc \<Longrightarrow> by_id s (ev_id e) = None" "by_id s' (ev_id e) = Some e" "\<not> unconfirmed pc'"
  shows "by_id s (ev_id e) = Some e \<and> \<not> unconfirmed pc \<or> by_replaceable s (replacement_key e) = Some (ev_id e)"
  using assms still_winner_iff [OF assms(4), of s]
  by (cases "(X, e, pc, s)" rule: ins_step.cases) (auto split: if_splits)

lemma doomed_kept:
  assumes "cc_threads c t = Some (T_Insert e pc)" "doomed c d" "\<And>rm. pc = I_Unlink rm \<Longrightarrow> rm \<noteq> Rm_Id (ev_id d)"
  shows "doomed (c\<lparr>cc_index := s, cc_threads := (cc_threads c)(t \<mapsto> th)\<rparr>) d"
proof -
  obtain u f where u: "cc_threads c u = Some (T_Insert f (I_Unlink (Rm_Id (ev_id d))))"
      "replacement_key f = replacement_key d"
    using assms(2) unfolding doomed_def by blast
  then have "u \<noteq> t" using assms(1,3) by auto
  then show ?thesis unfolding doomed_def using u by (intro exI [of _ u] exI [of _ f]) simp
qed

text \<open>The swap of \<open>e\<close> dooms the event that held its key; others are not concerned.\<close>

lemma winner_swap:
  assumes "cc_threads c t = Some (T_Insert e I_Swap)" "is_replaceable e" "\<not> locked c (replacement_key e)"
    and "ins_step X e I_Swap (cc_index c) = (pc', s')" "winner c d \<or> doomed c d"
    and "c' = c\<lparr>cc_index := s', cc_threads := (cc_threads c)(t \<mapsto> T_Insert e pc')\<rparr>"
  shows "winner c' d \<or> doomed c' d"
proof (cases "replacement_key d = replacement_key e \<and> s' \<noteq> cc_index c")
  case True
  then have "winner c d" using assms(3,5) doomed_locked by metis
  then have "pc' = I_Unlink (Rm_Id (ev_id d))"
    using swap_effect [OF assms(4,2)] True by (auto simp: winner_def)
  then have "cc_threads c' t = Some (T_Insert e (I_Unlink (Rm_Id (ev_id d))))" by (simp add: assms(6))
  then have "doomed c' d" using True unfolding doomed_def by metis
  then show ?thesis by blast
next
  case False
  then have "by_replaceable s' (replacement_key d) = by_replaceable (cc_index c) (replacement_key d)"
    using swap_effect [OF assms(4,2)] by auto
  then show ?thesis
    using assms(5) doomed_kept [OF assms(1), of d] by (auto simp: winner_def assms(6))
qed

lemma winners_step_insert:
  assumes "inj_on ev_id U" "structure_ok U c" "events_ok X U c" "winners_ok U c"
    and t: "cc_threads c t = Some (T_Insert e pc)" and st: "ins_step X e pc (cc_index c) = (pc', s')"
    and free: "is_replaceable e \<and> needs_key pc \<longrightarrow> \<not> locked c (replacement_key e)"
    and c': "c' = c\<lparr>cc_index := s', cc_threads := (cc_threads c)(t \<mapsto> T_Insert e pc')\<rparr>"
    and d: "d \<in> U" "is_replaceable d" "live c' d" "\<not> unconfirmed (pc_of c' d)"
  shows "winner c' d \<or> doomed c' d"
proof -
  note solo = structure_okD(1) [OF assms(2)]
  have pc: "pc_of c e = pc" "pc_of c' d = (if d = e then pc' else pc_of c d)"
    by (rule pc_of_thread [OF solo t], simp add: c' pc_of_insert [OF solo t])
  have e: "e \<in> U" using structure_okD(3) [OF assms(2) t] by (simp add: thread_in_insert)
  have unborn: "by_id (cc_index c) (ev_id e) = None" if "pre_put pc"
    using assms(3) e pc(1) that phase_unborn [OF that, of X e] by_id_same [OF assms(1) structure_okD(2) [OF assms(2)] e]
    by (auto simp: events_ok_def event_ok_def)
  have old: "winner c d \<or> doomed c d" if "live c d" "d \<noteq> e \<or> \<not> unconfirmed pc"
    using assms(4) d pc that by (auto simp: winners_ok_def split: if_splits)
  have keep: "winner c' d \<or> doomed c' d"
    if "winner c d \<or> doomed c d" "by_replaceable s' = by_replaceable (cc_index c)" "pc \<noteq> I_Unlink (Rm_Id (ev_id d))"
    using that doomed_kept [OF t, of d] by (auto simp: winner_def c')
  from st show ?thesis
  proof (cases rule: ins_step_cases)
    case (removal rm rm')
    note fr = rm_step_frame [OF removal(3)]
    have "live c d" "rm \<noteq> Rm_Id (ev_id d)" using d(3) fr(3) by (auto simp: live_def c')
    then show ?thesis using old keep fr(1) removal(1) by simp
  next
    case (unlinked r)
    then have "live c d" using d(3) by (simp add: live_def c')
    then show ?thesis using old keep unlinked by simp
  next
    case own
    show ?thesis
    proof (cases "pc = I_Swap \<and> is_replaceable e")
      case True
      then have "by_id s' = by_id (cc_index c)" using swap_effect [of X e "cc_index c" pc' s'] st by auto
      then have "live c d" using d(3) by (simp add: live_def c')
      then show ?thesis using winner_swap [of c t e X pc' s' d c'] old True t st free c' by simp
    next
      case False
      note fr = own_frame [OF st own]
      have "winner c d \<or> doomed c d"
      proof (cases "d = e")
        case True
        then show ?thesis
          using own_confirms [OF st own] False d unborn old pc by (auto simp: live_def c' winner_def)
      next
        case ne: False
        then have "ev_id d \<noteq> ev_id e" using d(1) e assms(1) by (auto dest: inj_onD)
        then have "by_id s' (ev_id d) = by_id (cc_index c) (ev_id d)" using fr(3) [of "ev_id d"] False by blast
        then show ?thesis using old ne d(3) by (simp add: live_def c')
      qed
      then show ?thesis using keep own fr(1) False by blast
    qed
  qed
qed

lemma winners_step:
  assumes "inj_on ev_id U" "structure_ok U c" "conc_step X c c'" "events_ok X U c" "winners_ok U c"
  shows "winners_ok U c'"
  using assms(3)
proof cases
  case (evict t rm rm' s')
  have "((cc_threads c)(t \<mapsto> T_Evict rm')) u = Some (T_Insert f q) \<longleftrightarrow> cc_threads c u = Some (T_Insert f q)" for u f q
    using evict(2) by auto
  then have "doomed c' d = doomed c d" for d by (simp add: doomed_def evict(1))
  moreover have "live c d" if "live c' d" for d
    using that rm_step_frame(3) [OF evict(3), of "ev_id d" d] by (simp add: live_def evict(1))
  moreover have "winner c' d = winner c d" "pc_of c' d = pc_of c d" for d
    using rm_step_frame(1) [OF evict(3)] by (simp_all add: winner_def evict(1) pc_of_evict [OF evict(2)])
  ultimately show ?thesis using assms(5) by (simp add: winners_ok_def)
next
  case (insert t e pc pc' s')
  from winners_step_insert [OF assms(1,2,4,5) insert(2,4,3,1)] show ?thesis
    unfolding winners_ok_def by blast
qed

end
