(* ===== verification/Concurrent_Outcome.thy ===== *)
theory Concurrent_Outcome
  imports Concurrent_Winners
begin

text \<open>
  The outcome of concurrent inserts: the invariants hold along every run, and without evictions no
  replacement key is lost and every other event is stored.
\<close>

section \<open>The replaceable index in a step\<close>

fun claimed :: "ins_pc \<Rightarrow> bool" where
  "claimed (I_Unlink rm) = True"
| "claimed (I_Put r) = True"
| "claimed pc = False"

lemma claimed_unborn: "claimed pc \<Longrightarrow> pre_put pc"
  by (cases pc) simp_all

lemma insert_replaceable:
  assumes "ins_step X e pc s = (pc', s')"
  shows "by_replaceable s' = by_replaceable s \<or>
    (pc = I_Swap \<and> is_replaceable e \<and> claimed pc' \<and>
     s' = s\<lparr>by_replaceable := (by_replaceable s)(replacement_key e \<mapsto> ev_id e)\<rparr>)"
  using assms
proof (cases rule: ins_step_cases)
  case own
  show ?thesis
  proof (cases "pc = I_Swap \<and> is_replaceable e")
    case True
    then show ?thesis using swap_effect [of X e s pc' s'] assms by (auto split: option.splits)
  next
    case False
    then show ?thesis using own_frame(1) [OF assms own] by blast
  qed
qed (auto dest: rm_step_frame(1))

lemma insert_tombstones:
  assumes "ins_step X e pc s = (pc', s')"
  shows "tombstones s' = tombstones s"
  using assms
proof (cases rule: ins_step_cases)
  case own
  show ?thesis
  proof (cases "pc = I_Swap \<and> is_replaceable e")
    case True
    then show ?thesis using swap_effect [of X e s pc' s'] assms by auto
  next
    case False
    then show ?thesis using own_frame(2) [OF assms own] by blast
  qed
qed (auto dest: rm_step_frame(2))

section \<open>Threads that claim or give up a key\<close>

definition unlinks_ok :: "event set \<Rightarrow> conc \<Rightarrow> bool" where
  "unlinks_ok U c \<longleftrightarrow>
     (\<forall>t f rm. cc_threads c t = Some (T_Insert f (I_Unlink rm)) \<longrightarrow>
        is_replaceable f \<and> winner c f \<and>
        (\<forall>i. rm = Rm_Id i \<longrightarrow>
           (\<exists>g \<in> U. ev_id g = i \<and> is_replaceable g \<and> replacement_key g = replacement_key f)))"

definition losers_ok :: "conc \<Rightarrow> bool" where
  "losers_ok c \<longleftrightarrow>
     (\<forall>t e pc. cc_threads c t = Some (T_Insert e pc) \<longrightarrow> pc = I_Undo \<or> pc = I_Remove \<longrightarrow>
        is_replaceable e \<and> \<not> winner c e)"

definition deleted_ok :: "conc \<Rightarrow> bool" where
  "deleted_ok c \<longleftrightarrow>
     (\<forall>t e. cc_threads c t = Some (T_Insert e (I_Done Deleted)) \<longrightarrow>
        tombs_contains (tombstones (cc_index c)) (ev_id e))"

text \<open>Who wins a key changes only by a swap, on a free key, and the swapping thread wins.\<close>

lemma winner_step:
  assumes "conc_step X c c'"
  shows "winner c' f = winner c f \<or>
    (\<exists>t e pc'. cc_threads c t = Some (T_Insert e I_Swap) \<and> cc_threads c' t = Some (T_Insert e pc') \<and>
       claimed pc' \<and> is_replaceable e \<and> replacement_key e = replacement_key f \<and>
       \<not> locked c (replacement_key f) \<and> winner c' e)"
  using assms
proof cases
  case (evict t rm rm' s')
  then show ?thesis using rm_step_frame(1) [OF evict(3)] by (simp add: winner_def)
next
  case (insert t e pc pc' s')
  show ?thesis
  proof (cases "winner c' f = winner c f")
    case False
    then have "by_replaceable s' (replacement_key f) \<noteq> by_replaceable (cc_index c) (replacement_key f)"
      by (auto simp: winner_def insert(1))
    with insert_replaceable [OF insert(4)]
    have sw: "pc = I_Swap" "is_replaceable e" "claimed pc'" "replacement_key e = replacement_key f"
        "by_replaceable s' (replacement_key e) = Some (ev_id e)"
      by (auto split: if_splits)
    then have "winner c' e" "cc_threads c' t = Some (T_Insert e pc')" "\<not> locked c (replacement_key f)"
      using insert(3) by (simp_all add: winner_def insert(1))
    then show ?thesis using sw insert(2) by blast
  qed blast
qed

lemma same_event:
  "inj_on ev_id U \<Longrightarrow> d \<in> U \<Longrightarrow> e \<in> U \<Longrightarrow> winner c d \<Longrightarrow> winner c e \<Longrightarrow> replacement_key d = replacement_key e \<Longrightarrow> d = e"
  by (auto simp: winner_def dest: inj_onD)

lemma winner_kept:
  assumes "inj_on ev_id U" "structure_ok U c" "conc_step X c c'" "cc_threads c t = Some (T_Insert f p)"
  shows "p \<noteq> I_Swap \<Longrightarrow> winner c' f \<Longrightarrow> winner c f" "p = I_Unlink rm \<Longrightarrow> winner c f \<Longrightarrow> winner c' f"
proof -
  note st = structure_okD [OF assms(2)]
  have f: "f \<in> U" using st(3) [OF assms(4)] by (simp add: thread_in_insert)
  show "winner c f" if p: "p \<noteq> I_Swap" "winner c' f"
  proof (rule ccontr)
    assume "\<not> winner c f"
    then obtain u e where e: "cc_threads c u = Some (T_Insert e I_Swap)" "replacement_key e = replacement_key f" "winner c' e"
      using winner_step [OF assms(3), of f] p(2) by blast
    have "e \<in> U" using st(3) [OF e(1)] by (simp add: thread_in_insert)
    then have "e = f" using same_event [OF assms(1) _ f e(3) p(2) e(2)] by blast
    then show False using st(1) e(1) assms(4) p(1) unfolding solo_def by (metis option.inject thread.inject(1))
  qed
  show "winner c' f" if p: "p = I_Unlink rm" "winner c f"
  proof -
    have "locked c (replacement_key f)" using assms(4) p(1) by (auto simp: locked_def)
    then show ?thesis using winner_step [OF assms(3), of f] p(2) by blast
  qed
qed

text \<open>Where a thread is after a step of another one, and after its own.\<close>

lemma thread_step:
  assumes "conc_step X c c'" "cc_threads c' t = Some (T_Insert f q)"
  obtains (other) "cc_threads c t = Some (T_Insert f q)"
  | (own) p s' where "cc_threads c t = Some (T_Insert f p)" "ins_step X f p (cc_index c) = (q, s')" "cc_index c' = s'"
      "is_replaceable f \<and> needs_key p \<longrightarrow> \<not> locked c (replacement_key f)"
  using assms(1)
proof cases
  case (insert u e pc pc' s')
  then show ?thesis using assms(2) other own by (auto split: if_splits)
next
  case (evict u rm rm' s')
  then show ?thesis using assms(2) other by (auto split: if_splits)
qed

lemma thread_stays:
  "conc_step X c c' \<Longrightarrow> cc_threads c t = Some (T_Insert e p) \<Longrightarrow> \<exists>q. cc_threads c' t = Some (T_Insert e q)"
  by (elim conc_step.cases) auto

lemma tombstones_step: "conc_step X c c' \<Longrightarrow> tombstones (cc_index c') = tombstones (cc_index c)"
  by (auto elim!: conc_step.cases dest: insert_tombstones rm_step_frame(2))

lemma deleted_step:
  assumes "conc_step X c c'" "deleted_ok c"
  shows "deleted_ok c'"
  unfolding deleted_ok_def
proof (intro allI impI)
  fix t e
  assume t: "cc_threads c' t = Some (T_Insert e (I_Done Deleted))"
  show "tombs_contains (tombstones (cc_index c')) (ev_id e)"
    using assms(1) t
  proof (cases rule: thread_step)
    case other
    then show ?thesis using assms(2) tombstones_step [OF assms(1)] by (simp add: deleted_ok_def)
  next
    case (own p s')
    then have "p = I_Start \<and> tombs_contains (tombstones (cc_index c)) (ev_id e) \<or> p = I_Done Deleted"
      by (cases "(X, e, p, cc_index c)" rule: ins_step.cases)
        (auto simp: Let_def split: if_splits repl_key.splits option.splits removal.splits prod.splits)
    then show ?thesis using own(1) assms(2) tombstones_step [OF assms(1)] by (auto simp: deleted_ok_def)
  qed
qed

lemma losers_step:
  assumes "inj_on ev_id U" "structure_ok U c" "conc_step X c c'" "losers_ok c"
  shows "losers_ok c'"
  unfolding losers_ok_def
proof (intro allI impI)
  fix t e q
  assume t: "cc_threads c' t = Some (T_Insert e q)" and q: "q = I_Undo \<or> q = I_Remove"
  show "is_replaceable e \<and> \<not> winner c' e"
    using assms(3) t
  proof (cases rule: thread_step)
    case other
    then have "is_replaceable e \<and> \<not> winner c e" using assms(4) q unfolding losers_ok_def by blast
    moreover have "q \<noteq> I_Swap" using q by auto
    ultimately show ?thesis using winner_kept(1) [OF assms(1-3) other] by blast
  next
    case (own p s')
    have "p \<noteq> I_Swap \<and> is_replaceable e \<and> \<not> is_still_winner (cc_index c) e"
      using own(2) q
      by (cases "(X, e, p, cc_index c)" rule: ins_step.cases)
        (auto simp: Let_def split: if_splits repl_key.splits option.splits removal.splits prod.splits)
    then show ?thesis
      using winner_kept(1) [OF assms(1-3) own(1)] still_winner_iff [of e "cc_index c"] by (auto simp: winner_def)
  qed
qed

lemma unlinks_step:
  assumes "inj_on ev_id U" "structure_ok U c" "conc_step X c c'" "unlinks_ok U c"
  shows "unlinks_ok U c'"
  unfolding unlinks_ok_def
proof (intro allI impI)
  fix t f rm
  assume t: "cc_threads c' t = Some (T_Insert f (I_Unlink rm))"
  let ?ok = "\<lambda>rm. \<forall>i. rm = Rm_Id i \<longrightarrow>
    (\<exists>g \<in> U. ev_id g = i \<and> is_replaceable g \<and> replacement_key g = replacement_key f)"
  show "is_replaceable f \<and> winner c' f \<and> ?ok rm"
    using assms(3) t
  proof (cases rule: thread_step)
    case other
    then have "is_replaceable f \<and> winner c f \<and> ?ok rm" using assms(4) by (simp add: unlinks_ok_def)
    then show ?thesis using winner_kept(2) [OF assms(1-3) other] by blast
  next
    case (own p s')
    from own(2) show ?thesis
    proof (cases rule: ins_step_cases)
      case (removal rm0 rm1)
      then have "rm \<noteq> Rm_Id i" for i
        by (cases "(X, rm0, cc_index c)" rule: rm_step.cases) (auto split: option.splits)
      moreover have "is_replaceable f \<and> winner c f" using own(1) assms(4) removal(1) by (simp add: unlinks_ok_def)
      ultimately show ?thesis using winner_kept(2) [OF assms(1-3) own(1) removal(1)] by blast
    next
      case own': own
      have sw: "p = I_Swap" using ins_step_effect(2) [OF own(2) own'] by blast
      have r: "is_replaceable f"
      proof (rule ccontr)
        assume "\<not> is_replaceable f"
        then show False using own(2) sw by simp
      qed
      have "s' = (cc_index c)\<lparr>by_replaceable := (by_replaceable (cc_index c))(replacement_key f \<mapsto> ev_id f)\<rparr> \<and>
          by_replaceable (cc_index c) (replacement_key f) \<noteq> None \<and>
          rm = Rm_Id (the (by_replaceable (cc_index c) (replacement_key f)))"
        using swap_effect [OF own(2) [unfolded sw] r] by (auto split: option.splits)
      moreover have "maps_ok U (cc_index c)" by (rule structure_okD(2) [OF assms(2)])
      ultimately show ?thesis using r own(3) by (auto simp: maps_ok_def winner_def)
    qed simp
  qed
qed

section \<open>Without evictions nothing is lost\<close>

definition no_evictions :: "conc \<Rightarrow> bool" where
  "no_evictions c \<longleftrightarrow> (\<forall>t rm. cc_threads c t \<noteq> Some (T_Evict rm))"

lemma no_evictions_step: "conc_step X c c' \<Longrightarrow> no_evictions c \<Longrightarrow> no_evictions c'"
  by (auto simp: no_evictions_def elim!: conc_step.cases split: if_splits)

lemma live_lost:
  assumes "inj_on ev_id U" "structure_ok U c" "conc_step X c c'" "no_evictions c"
    and "d \<in> U" "live c d" "\<not> live c' d"
  obtains (unlinked) t f where "cc_threads c t = Some (T_Insert f (I_Unlink (Rm_Id (ev_id d))))"
  | (given_up) t p where "cc_threads c t = Some (T_Insert d p)" "p = I_Undo \<or> p = I_Remove"
  using assms(3)
proof cases
  case (evict t rm rm' s')
  then show ?thesis using assms(4) by (simp add: no_evictions_def)
next
  case (insert t e pc pc' s')
  have by_id: "by_id (cc_index c) (ev_id d) = Some d" "by_id s' (ev_id d) \<noteq> Some d"
    using assms(6,7) by (simp_all add: live_def insert(1))
  from insert(4) show ?thesis
  proof (cases rule: ins_step_cases)
    case (removal rm rm')
    then have "rm = Rm_Id (ev_id d)" using rm_step_frame(4) [OF removal(3)] by_id by blast
    then show ?thesis using unlinked insert(2) removal(1) by blast
  next
    case own
    have nsw: "pc \<noteq> I_Swap"
    proof
      assume "pc = I_Swap"
      then have "by_id s' = by_id (cc_index c)"
        using insert(4) by (auto simp: Let_def split: if_splits repl_key.splits option.splits)
      then show False using by_id by simp
    qed
    then have "ev_id d = ev_id e" using own_frame(3) [OF insert(4) own, of "ev_id d"] by_id by metis
    moreover have "e \<in> U" using structure_okD(3) [OF assms(2) insert(2)] by (simp add: thread_in_insert)
    ultimately have "d = e" using assms(1,5) by (auto dest: inj_onD)
    then have "pc = I_Undo \<or> pc = I_Remove"
      using insert(4) by_id own nsw by (cases "(X, e, pc, cc_index c)" rule: ins_step.cases) (auto split: if_splits)
    then show ?thesis using given_up insert(2) \<open>d = e\<close> by blast
  qed (use by_id in blast)
qed

text \<open>The invariants that a run keeps.\<close>

definition run_ok :: "'x ext_scheme \<Rightarrow> event set \<Rightarrow> conc \<Rightarrow> bool" where
  "run_ok X U c \<longleftrightarrow>
     structure_ok U c \<and> events_ok X U c \<and> winners_ok U c \<and> unlinks_ok U c \<and> losers_ok c \<and> deleted_ok c"

lemma run_ok_step:
  assumes "inj_on ev_id U" "run_ok X U c" "conc_step X c c'"
  shows "run_ok X U c'"
proof -
  have ok: "structure_ok U c" "events_ok X U c" "winners_ok U c" "unlinks_ok U c" "losers_ok c" "deleted_ok c"
    using assms(2) by (simp_all add: run_ok_def)
  show ?thesis
    unfolding run_ok_def
    using structure_step [OF assms(1) ok(1) assms(3)] events_step [OF assms(1) ok(1) assms(3) ok(2)]
      winners_step [OF assms(1) ok(1) assms(3) ok(2,3)] unlinks_step [OF assms(1) ok(1) assms(3) ok(4)]
      losers_step [OF assms(1) ok(1) assms(3) ok(5)] deleted_step [OF assms(3) ok(6)]
    by blast
qed

text \<open>A live event that wins its key, or has no key, stays live.\<close>

lemma live_kept:
  assumes "inj_on ev_id U" "run_ok X U c" "conc_step X c c'" "no_evictions c"
    and "d \<in> U" "live c d" "is_replaceable d \<longrightarrow> winner c d"
  shows "live c' d"
proof (rule ccontr)
  assume lost: "\<not> live c' d"
  have ok: "structure_ok U c" "events_ok X U c" "unlinks_ok U c" "losers_ok c"
    using assms(2) by (simp_all add: run_ok_def)
  from assms(1) ok(1) assms(3-6) lost show False
  proof (cases rule: live_lost)
    case (unlinked t f)
    then obtain g where g: "is_replaceable f" "winner c f" "g \<in> U" "ev_id g = ev_id d" "is_replaceable g"
        "replacement_key g = replacement_key f"
      using ok(3) unfolding unlinks_ok_def by blast
    then have "g = d" using assms(1,5) by (auto dest: inj_onD)
    moreover have f: "f \<in> U" using structure_okD(3) [OF ok(1) unlinked] by (simp add: thread_in_insert)
    ultimately have "f = d" using same_event [OF assms(1) f assms(5) g(2)] g assms(7) by simp
    moreover have "\<not> live c f"
      using ok(2) f pc_of_thread [OF structure_okD(1) [OF ok(1)] unlinked] by (auto simp: events_ok_def event_ok_def)
    ultimately show ?thesis using assms(6) by simp
  next
    case (given_up t p)
    then show ?thesis using ok(4) assms(7) unfolding losers_ok_def by blast
  qed
qed

fun past_swap :: "ins_pc \<Rightarrow> bool" where
  "past_swap I_Start = False"
| "past_swap I_Swap = False"
| "past_swap (I_Done out) = (out \<noteq> Deleted)"
| "past_swap pc = True"

definition key_held :: "event set \<Rightarrow> conc \<Rightarrow> repl_key \<Rightarrow> bool" where
  "key_held U c k \<longleftrightarrow>
     (\<exists>d \<in> U. is_replaceable d \<and> replacement_key d = k \<and> winner c d \<and> (live c d \<or> claimed (pc_of c d)))"

definition nothing_lost :: "event set \<Rightarrow> conc \<Rightarrow> bool" where
  "nothing_lost U c \<longleftrightarrow>
     (\<forall>t e pc. cc_threads c t = Some (T_Insert e pc) \<longrightarrow> past_swap pc \<longrightarrow>
        (if is_replaceable e then key_held U c (replacement_key e) else claimed pc \<or> live c e))"

text \<open>What an insert does to its own event, as far as it matters here.\<close>

lemma claim_step:
  assumes "ins_step X e pc s = (pc', s')" "claimed pc"
  shows "claimed pc' \<or> by_id s' (ev_id e) = Some e"
  using assms(1)
proof (cases rule: ins_step_cases)
  case own
  then show ?thesis using assms by (cases pc) auto
qed (use assms(2) in auto)

lemma key_held_step:
  assumes "inj_on ev_id U" "run_ok X U c" "conc_step X c c'" "no_evictions c" "key_held U c k"
  shows "key_held U c' k"
proof -
  have st: "structure_ok U c" "structure_ok U c'"
    using assms(2) run_ok_step [OF assms(1-3)] by (simp_all add: run_ok_def)
  note pc = pc_of_thread [OF structure_okD(1) [OF st(1)]] and pc' = pc_of_thread [OF structure_okD(1) [OF st(2)]]
  obtain d where d: "d \<in> U" "is_replaceable d" "replacement_key d = k" "winner c d" "live c d \<or> claimed (pc_of c d)"
    using assms(5) unfolding key_held_def by blast
  consider "winner c' d" | t e q where "cc_threads c' t = Some (T_Insert e q)" "claimed q" "is_replaceable e"
      "replacement_key e = k" "winner c' e"
    using winner_step [OF assms(3), of d] d(3,4) by blast
  then show ?thesis
  proof cases
    case 1
    have "live c' d \<or> claimed (pc_of c' d)"
    proof (cases "live c d")
      case True
      then show ?thesis using live_kept [OF assms(1-4) d(1)] d(4) by blast
    next
      case False
      then have cl: "claimed (pc_of c d)" using d(5) by blast
      then obtain t p where t: "cc_threads c t = Some (T_Insert d p)" unfolding pc_of_def by (auto split: if_splits)
      then obtain q where q: "cc_threads c' t = Some (T_Insert d q)"
        using thread_stays [OF assms(3)] by blast
      from assms(3) q show ?thesis
      proof (cases rule: thread_step)
        case other
        then show ?thesis using cl pc pc' [OF q] by simp
      next
        case (own p s')
        then show ?thesis using claim_step [OF own(2)] cl pc [OF own(1)] pc' [OF q] by (auto simp: live_def)
      qed
    qed
    then show ?thesis using 1 d unfolding key_held_def by blast
  next
    case (2 t e q)
    have "e \<in> U" using structure_okD(3) [OF st(2) 2(1)] by (simp add: thread_in_insert)
    then show ?thesis using 2 pc' [OF 2(1)] unfolding key_held_def by metis
  qed
qed

lemma swap_held:
  assumes "structure_ok U c" "structure_ok U c'" "conc_step X c c'"
    and "ins_step X e I_Swap (cc_index c) = (q, cc_index c')" "is_replaceable e" "inj_on ev_id U"
    and "cc_threads c' t = Some (T_Insert e q)" "past_swap q"
  shows "key_held U c' (replacement_key e)"
proof -
  have e: "e \<in> U" using structure_okD(3) [OF assms(2,7)] by (simp add: thread_in_insert)
  have pc: "pc_of c' e = q" by (rule pc_of_thread [OF structure_okD(1) [OF assms(2)] assms(7)])
  from swap_effect [OF assms(4,5)] show ?thesis
  proof (elim disjE conjE exE)
    fix i old
    assume a: "cc_index c' = cc_index c" "by_replaceable (cc_index c) (replacement_key e) = Some i"
      "by_id (cc_index c) i = Some old"
    note maps = structure_okD(2) [OF assms(1)]
    obtain g where g: "g \<in> U" "ev_id g = i" "is_replaceable g" "replacement_key g = replacement_key e"
      using maps a(2) unfolding maps_ok_def by blast
    then have "g = old" using by_id_live(1,2) [OF maps a(3)] assms(6) by (auto dest: inj_onD)
    then have "winner c' g" "live c' g" using g a by (simp_all add: winner_def live_def)
    then show ?thesis using g unfolding key_held_def by blast
  next
    assume a: "cc_index c' = (cc_index c)\<lparr>by_replaceable := (by_replaceable (cc_index c))(replacement_key e \<mapsto> ev_id e)\<rparr>"
      "q = (case by_replaceable (cc_index c) (replacement_key e) of Some i \<Rightarrow> I_Unlink (Rm_Id i) | None \<Rightarrow> I_Put None)"
    then have "winner c' e" "claimed (pc_of c' e)" by (simp_all add: winner_def pc split: option.splits)
    then show ?thesis using e assms(5) unfolding key_held_def by blast
  qed
qed

lemma nothing_lost_step:
  assumes "inj_on ev_id U" "run_ok X U c" "conc_step X c c'" "no_evictions c" "nothing_lost U c"
  shows "nothing_lost U c'"
  unfolding nothing_lost_def
proof (intro allI impI)
  fix t e q
  assume t: "cc_threads c' t = Some (T_Insert e q)" and q: "past_swap q"
  have st: "structure_ok U c" "structure_ok U c'"
    using assms(2) run_ok_step [OF assms(1-3)] by (simp_all add: run_ok_def)
  have e: "e \<in> U" using structure_okD(3) [OF st(2) t] by (simp add: thread_in_insert)
  have old: "if is_replaceable e then key_held U c' (replacement_key e) else claimed p \<or> live c' e"
    if p: "cc_threads c t = Some (T_Insert e p)" "past_swap p" for p
  proof -
    have "if is_replaceable e then key_held U c (replacement_key e) else claimed p \<or> live c e"
      using p assms(5) unfolding nothing_lost_def by blast
    then show ?thesis
      using key_held_step [OF assms(1-4)] live_kept [OF assms(1-4) e] by (auto split: if_splits)
  qed
  show "if is_replaceable e then key_held U c' (replacement_key e) else claimed q \<or> live c' e"
    using assms(3) t
  proof (cases rule: thread_step)
    case other
    then show ?thesis using old q by blast
  next
    case (own p s')
    consider "past_swap p" | "p = I_Swap"
      using own(2) q by (cases p) (auto split: if_splits insert_outcome.splits)
    then show ?thesis
    proof cases
      case 1
      then show ?thesis using old [OF own(1)] claim_step [OF own(2)] own(3) by (auto simp: live_def split: if_splits)
    next
      case 2
      show ?thesis
      proof (cases "is_replaceable e")
        case True
        then show ?thesis using swap_held [OF st assms(3) _ True assms(1) t q] own 2 by simp
      next
        case False
        then show ?thesis using own(2) 2 by auto
      qed
    qed
  qed
qed

section \<open>Runs\<close>

text \<open>
  The start of a run: a consistent index, inserts of distinct events that are not stored, and
  evictions of any ids.
\<close>

definition fresh_start :: "'x ext_scheme \<Rightarrow> event set \<Rightarrow> conc \<Rightarrow> bool" where
  "fresh_start X U c \<longleftrightarrow>
     index_inv X U (cc_index c) \<and> solo (cc_threads c) \<and>
     (\<forall>t th. cc_threads c t = Some th \<longrightarrow>
        (\<exists>e \<in> U. th = T_Insert e I_Start \<and> e \<notin> stored (cc_index c)) \<or> (\<exists>i. th = T_Evict (Rm_Id i)))"

lemma fresh_run_ok:
  assumes "fresh_start X U c"
  shows "run_ok X U c" "nothing_lost U c"
proof -
  let ?s = "cc_index c"
  have inv: "index_core X U ?s" "repl_ok U ?s" using assms by (simp_all add: fresh_start_def index_inv_def)
  have th: "(\<exists>e \<in> U. th = T_Insert e I_Start \<and> e \<notin> stored ?s) \<or> (\<exists>i. th = T_Evict (Rm_Id i))"
    if "cc_threads c t = Some th" for t th using that assms unfolding fresh_start_def by blast
  have solo: "solo (cc_threads c)" using assms by (simp add: fresh_start_def)
  note core = index_core_facts [OF inv(1)]
  have places: "places_wf U ?s" "\<And>e. e \<in> U \<Longrightarrow> present ?s e = (if e \<in> stored ?s then places e (sec_ops X e) else {})"
    using core(4) sec_all_present [OF core(3)] by blast+
  have off: "\<not> th_on th e" if "cc_threads c t = Some th" for t th e
    using th [OF that] by (auto simp: th_on_def)
  have live: "live c e \<longleftrightarrow> e \<in> stored ?s" for e by (simp add: live_def stored_iff [OF inv(1)])
  have pcs: "pc_of c e = I_Start \<and> e \<notin> stored ?s \<or> pc_of c e = I_Done LostRace" for e
  proof (cases "\<exists>t p. cc_threads c t = Some (T_Insert e p)")
    case True
    then obtain t p where t: "cc_threads c t = Some (T_Insert e p)" by blast
    then show ?thesis using th [OF t] pc_of_thread [OF solo t] by auto
  qed (auto simp: pc_of_def)
  have "thread_in U x" if "cc_threads c t = Some x" for t x
    unfolding thread_in_def using th [OF that] off [OF that] by auto
  then have "\<forall>x \<in> ran (cc_threads c). thread_in U x" by (auto simp: ran_def)
  moreover have "maps_ok U ?s" using inv places(1) by (simp add: maps_ok_def index_core_def repl_ok_def)
  ultimately have "structure_ok U c" using solo by (simp add: structure_ok_def)
  moreover have "events_ok X U c"
    unfolding events_ok_def
  proof
    fix d assume d: "d \<in> U"
    have "\<not> unlinking c d" using off by (auto simp: unlinking_def)
    then show "event_ok X c (pc_of c d) d"
      using pcs [of d] live places(2) [OF d] by (auto simp: event_ok_def)
  qed
  moreover have "winners_ok U c" using inv(2) live by (auto simp: winners_ok_def repl_ok_def winner_def)
  moreover have "unlinks_ok U c" "losers_ok c" "deleted_ok c" "nothing_lost U c"
    using th by (fastforce simp: unlinks_ok_def losers_ok_def deleted_ok_def nothing_lost_def)+
  ultimately show "run_ok X U c" "nothing_lost U c" by (simp_all add: run_ok_def)
qed

lemma run_invariant:
  assumes "conc_run X c0 c" "inj_on ev_id U" "fresh_start X U c0"
  shows "run_ok X U c \<and> tombstones (cc_index c) = tombstones (cc_index c0) \<and>
    (no_evictions c0 \<longrightarrow> no_evictions c \<and> nothing_lost U c)"
  using assms(1)
proof induction
  case start
  then show ?case using fresh_run_ok [OF assms(3)] by blast
next
  case (step c c')
  then show ?case
    using run_ok_step [OF assms(2) _ step.hyps(2)] tombstones_step [OF step.hyps(2)]
      no_evictions_step [OF step.hyps(2)] nothing_lost_step [OF assms(2) _ step.hyps(2)]
    by simp
qed

lemma run_threads:
  assumes "conc_run X c0 c" "cc_threads c0 t = Some (T_Insert e p)"
  shows "\<exists>q. cc_threads c t = Some (T_Insert e q)"
  using assms
proof induction
  case (step c c')
  then show ?case using thread_stays [OF step.hyps(2)] by blast
qed blast

section \<open>When all threads are done\<close>

lemma quiescent_insert:
  assumes "quiescent c" "cc_threads c t = Some (T_Insert e p)"
  obtains out where "p = I_Done out"
proof -
  have "thread_done (T_Insert e p)" using assms by (auto simp: quiescent_def ran_def)
  then show thesis using that by (cases p) auto
qed

lemma quiescent_pc:
  assumes "quiescent c" "solo (cc_threads c)"
  shows "\<exists>out. pc_of c e = I_Done out"
proof (cases "\<exists>t p. cc_threads c t = Some (T_Insert e p)")
  case True
  then obtain t p where t: "cc_threads c t = Some (T_Insert e p)" by blast
  then show ?thesis using quiescent_insert [OF assms(1) t] pc_of_thread [OF assms(2) t] by blast
qed (simp add: pc_of_def)

lemma settled_secondary:
  assumes "structure_ok U c" "events_ok X U c" "quiescent c"
  shows "sec_all X (cc_index c) (stored (cc_index c))" "stored (cc_index c) \<subseteq> U"
    "e \<in> stored (cc_index c) \<longleftrightarrow> live c e"
proof -
  note maps = structure_okD(2) [OF assms(1)]
  show sub: "stored (cc_index c) \<subseteq> U" using maps by (simp add: maps_ok_def)
  show live: "e \<in> stored (cc_index c) \<longleftrightarrow> live c e" for e
    using maps by (simp add: maps_ok_def stored_def live_def keyed_ran_iff)
  have rm: "\<exists>r. rm = Rm_End r" if "cc_threads c t = Some th" "th_rm th = Some rm" for t th rm
  proof -
    have "thread_done th" using that(1) assms(3) by (auto simp: quiescent_def ran_def)
    then show ?thesis using that(2) by (cases th rule: thread_done.cases) (auto simp: th_rm_insert split: ins_pc.splits)
  qed
  have "\<not> th_on th e" if "cc_threads c t = Some th" for t th e
    unfolding th_on_def using rm [OF that] by auto
  then have left: "left_of X c e = {}" for e by (auto simp: left_of_def th_left_def)
  have "present (cc_index c) e = (if e \<in> stored (cc_index c) then places e (sec_ops X e) else {})" if "e \<in> U" for e
    using assms(2) that quiescent_pc [OF assms(3) structure_okD(1) [OF assms(1)], of e] left [of e] live [of e]
    by (auto simp: events_ok_def event_ok_def)
  moreover have "places_wf U (cc_index c)" using maps by (simp add: maps_ok_def)
  ultimately show "sec_all X (cc_index c) (stored (cc_index c))" using sec_all_present [OF sub] by blast
qed

lemma settled_index:
  assumes "run_ok X U c" "quiescent c"
  shows "sec_all X (cc_index c) (stored (cc_index c))" "repl_ok U (cc_index c)" "stored (cc_index c) \<subseteq> U"
    "e \<in> stored (cc_index c) \<longleftrightarrow> live c e"
proof -
  have ok: "structure_ok U c" "events_ok X U c" "winners_ok U c" using assms(1) by (simp_all add: run_ok_def)
  note settled = settled_secondary [OF ok(1,2) assms(2)]
  show "sec_all X (cc_index c) (stored (cc_index c))" "stored (cc_index c) \<subseteq> U" "e \<in> stored (cc_index c) \<longleftrightarrow> live c e"
    using settled by blast+
  have "\<not> doomed c e" for e
  proof
    assume "doomed c e"
    then obtain t f where "cc_threads c t = Some (T_Insert f (I_Unlink (Rm_Id (ev_id e))))"
      unfolding doomed_def by blast
    from quiescent_insert [OF assms(2) this] show False by blast
  qed
  moreover have "\<not> unconfirmed (pc_of c e)" for e
    using quiescent_pc [OF assms(2) structure_okD(1) [OF ok(1)], of e] by auto
  ultimately have "by_replaceable (cc_index c) (replacement_key e) = Some (ev_id e)"
    if "e \<in> stored (cc_index c)" "is_replaceable e" for e
    using ok(3) that settled unfolding winners_ok_def winner_def by blast
  then show "repl_ok U (cc_index c)" using structure_okD(2) [OF ok(1)] by (simp add: repl_ok_def maps_ok_def)
qed

lemma settled_nothing_lost:
  assumes "run_ok X U c" "quiescent c" "nothing_lost U c"
    and "cc_threads c t = Some (T_Insert e p)" "\<not> tombs_contains (tombstones (cc_index c)) (ev_id e)"
  shows "if is_replaceable e
    then \<exists>d \<in> stored (cc_index c). is_replaceable d \<and> replacement_key d = replacement_key e
    else e \<in> stored (cc_index c)"
proof -
  note live = settled_index(4) [OF assms(1,2)]
  have solo: "solo (cc_threads c)" using assms(1) by (simp add: run_ok_def structure_ok_def)
  obtain out where p: "p = I_Done out" using quiescent_insert [OF assms(2,4)] by blast
  have "out \<noteq> Deleted" using assms(1,4,5) p by (auto simp: run_ok_def deleted_ok_def)
  then have held: "if is_replaceable e then key_held U c (replacement_key e) else live c e"
    using assms(3,4) p unfolding nothing_lost_def by fastforce
  show ?thesis
  proof (cases "is_replaceable e")
    case True
    then obtain d where d: "is_replaceable d" "replacement_key d = replacement_key e" "live c d \<or> claimed (pc_of c d)"
      using held unfolding key_held_def by auto
    have "\<not> claimed (pc_of c d)" using quiescent_pc [OF assms(2) solo, of d] by auto
    then show ?thesis using True d live by auto
  next
    case False
    then show ?thesis using held live by simp
  qed
qed

end
