(* ===== verification/Concurrent_Properties.thy ===== *)
theory Concurrent_Properties
  imports Concurrent_Outcome Sample_Inputs
begin

text \<open>
  Properties of concurrent inserts: alone, the steps of an insert are the sequential operation; in
  every interleaving the indexes settle in a consistent state; and two races that the checks inside
  \<open>insert\<close> do not catch.
\<close>

section \<open>Schedules\<close>

text \<open>A thread may run several steps while no other thread holds an entry.\<close>

definition others_free :: "nat \<Rightarrow> conc \<Rightarrow> bool" where
  "others_free t c \<longleftrightarrow> (\<forall>u e rm. u \<noteq> t \<longrightarrow> cc_threads c u \<noteq> Some (T_Insert e (I_Unlink rm)))"

definition set_thread :: "nat \<Rightarrow> event \<Rightarrow> ins_pc \<times> event_index \<Rightarrow> conc \<Rightarrow> conc" where
  "set_thread t e p c = c\<lparr>cc_index := snd p, cc_threads := (cc_threads c)(t \<mapsto> T_Insert e (fst p))\<rparr>"

lemma run_thread:
  assumes "conc_run X c0 c" "cc_threads c t = Some (T_Insert e pc)" "others_free t c"
    and "ends_in X e (pc, cc_index c) q"
  shows "conc_run X c0 (set_thread t e q c)"
proof -
  have "conc_run X c0 (set_thread t e (ins_run X e n (pc, cc_index c)) c)" for n
  proof (induction n)
    case 0
    have "set_thread t e (pc, cc_index c) c = c" using assms(2) by (simp add: set_thread_def map_upd_triv)
    then show ?case using assms(1) by (simp add: ins_run_def)
  next
    case (Suc n)
    let ?p = "ins_run X e n (pc, cc_index c)"
    let ?c = "set_thread t e ?p c"
    have free: "is_replaceable e \<and> needs_key (fst ?p) \<longrightarrow> \<not> locked ?c (replacement_key e)"
      using assms(3) by (auto simp: locked_def others_free_def set_thread_def split: if_splits)
    have "conc_step X ?c (?c\<lparr>cc_index := snd (ins_step X e (fst ?p) (snd ?p)),
        cc_threads := (cc_threads ?c)(t \<mapsto> T_Insert e (fst (ins_step X e (fst ?p) (snd ?p))))\<rparr>)"
      using free by (intro conc_step.insert [where pc = "fst ?p"]) (simp_all add: set_thread_def)
    from conc_run.step [OF Suc this] show ?case by (simp add: set_thread_def ins_run_def)
  qed
  then show ?thesis using assms(4) by (auto simp: ends_in_def)
qed

text \<open>Two inserts into an empty index.\<close>

definition two_inserts :: "event \<Rightarrow> event \<Rightarrow> conc" where
  "two_inserts a b =
     \<lparr>cc_index = index_new, cc_threads = [0 \<mapsto> T_Insert a I_Start, 1 \<mapsto> T_Insert b I_Start]\<rparr>"

lemma ran_two: "x \<noteq> y \<Longrightarrow> ran [x \<mapsto> p, y \<mapsto> q] = {p, q}"
  by (auto simp: ran_def)

lemma empty_index [simp]:
  "by_id index_new = Map.empty" "by_replaceable index_new = Map.empty" "event_count index_new = 0"
  "memory_bytes index_new = 0" "tombs_contains (tombstones index_new) i = False"
  by (simp_all add: index_new_def tombs_contains_def tombs_new_def)

section \<open>One thread\<close>

text \<open>
  An insert that runs without interference is atomic: its steps, from the tombstone check to the
  final checks, end, and compute exactly the outcome and the index of the sequential operation.
\<close>

theorem insert_alone_is_atomic:
  "\<exists>n. ins_run X e n (I_Start, s) = (I_Done (fst (index_insert X e s)), snd (index_insert X e s))"
  using ends_in_insert [of X e s] by (simp add: ends_in_def)

section \<open>Many threads\<close>

text \<open>
  C13. Concurrent inserts of distinct new events, with evictions at any point, settle in a consistent
  index whatever the interleaving: once all threads are done, every secondary index holds exactly
  the stored events under their keys, and a stored replaceable event is the only one with its key
  and the one its key names. Without evictions nothing is lost: every event that is not
  replaceable is stored, and for every replaceable one exactly one event with its key is.
\<close>

theorem concurrent_inserts_settle:
  assumes "inj_on ev_id U" "fresh_start X U c0" "conc_run X c0 c" "quiescent c"
  shows "sec_all X (cc_index c) (stored (cc_index c)) \<and> repl_ok U (cc_index c) \<and>
    (no_evictions c0 \<longrightarrow>
      (\<forall>t e. cc_threads c0 t = Some (T_Insert e I_Start) \<longrightarrow>
         \<not> tombs_contains (tombstones (cc_index c0)) (ev_id e) \<longrightarrow>
         (if is_replaceable e
          then \<exists>!d. d \<in> stored (cc_index c) \<and> is_replaceable d \<and> replacement_key d = replacement_key e
          else e \<in> stored (cc_index c))))"
proof -
  have inv: "run_ok X U c" "tombstones (cc_index c) = tombstones (cc_index c0)"
    "no_evictions c0 \<Longrightarrow> nothing_lost U c"
    using run_invariant [OF assms(3,1,2)] by blast+
  note settled = settled_index [OF inv(1) assms(4)]
  have unique: "d = d'" if "d \<in> stored (cc_index c)" "d' \<in> stored (cc_index c)" "is_replaceable d" "is_replaceable d'"
      "replacement_key d = replacement_key d'" for d d'
  proof -
    have "ev_id d = ev_id d'" using settled(2) that unfolding repl_ok_def by (metis option.inject)
    then show ?thesis using settled(3) that(1,2) assms(1) by (meson inj_onD subsetD)
  qed
  have "if is_replaceable e
      then \<exists>!d. d \<in> stored (cc_index c) \<and> is_replaceable d \<and> replacement_key d = replacement_key e
      else e \<in> stored (cc_index c)"
    if t: "no_evictions c0" "cc_threads c0 t = Some (T_Insert e I_Start)"
      "\<not> tombs_contains (tombstones (cc_index c0)) (ev_id e)" for t e
  proof -
    obtain q where q: "cc_threads c t = Some (T_Insert e q)" using run_threads [OF assms(3) t(2)] by blast
    have nt: "\<not> tombs_contains (tombstones (cc_index c)) (ev_id e)" using t(3) inv(2) by simp
    from settled_nothing_lost [OF inv(1) assms(4) inv(3) [OF t(1)] q nt]
    show ?thesis using unique by (auto split: if_splits)
  qed
  then show ?thesis using settled(1,2) by blast
qed

lemma two_inserts_done:
  "\<exists>c. conc_run X (two_inserts a b) c \<and> quiescent c"
proof -
  let ?c0 = "two_inserts a b"
  obtain out s1 where s1: "index_insert X a index_new = (out, s1)" by fastforce
  define c1 where "c1 = set_thread 0 a (I_Done out, s1) ?c0"
  have run1: "conc_run X ?c0 c1"
    unfolding c1_def using ends_in_insert [of X a index_new] s1
    by (intro run_thread [OF conc_run.start]) (simp_all add: two_inserts_def others_free_def)
  obtain out' s2 where s2: "index_insert X b s1 = (out', s2)" by fastforce
  have "conc_run X ?c0 (set_thread 1 b (I_Done out', s2) c1)"
    using ends_in_insert [of X b s1] s2
    by (intro run_thread [OF run1]) (simp_all add: two_inserts_def others_free_def set_thread_def c1_def)
  moreover have "quiescent (set_thread 1 b (I_Done out', s2) c1)"
    by (auto simp: quiescent_def set_thread_def two_inserts_def c1_def ran_def split: if_splits)
  ultimately show ?thesis by blast
qed

lemma two_inserts_fresh:
  assumes "{a, b} \<subseteq> U" "a \<noteq> b"
  shows "fresh_start X U (two_inserts a b)"
  using assms index_inv_new [of X U]
  by (auto simp: fresh_start_def two_inserts_def solo_def stored_def split: if_splits)

theorem concurrent_inserts_settle_witness:
  "\<exists>c. conc_run sample_ext (two_inserts sample_old sample_new) c \<and> quiescent c \<and>
     (\<exists>!d. d \<in> stored (cc_index c) \<and> is_replaceable d \<and> replacement_key d = replacement_key sample_old)"
proof -
  let ?c0 = "two_inserts sample_old sample_new"
  obtain c where c: "conc_run sample_ext ?c0 c" "quiescent c" using two_inserts_done by blast
  have "sample_old \<noteq> sample_new" by (simp add: sample_old_def sample_new_def)
  then have fresh: "fresh_start sample_ext (set sample_events) ?c0" by (intro two_inserts_fresh) simp_all
  have "is_replaceable sample_old" by (simp add: kind_defs sample_old_def)
  moreover have "no_evictions ?c0" "cc_threads ?c0 0 = Some (T_Insert sample_old I_Start)"
    "\<not> tombs_contains (tombstones (cc_index ?c0)) (ev_id sample_old)"
    by (simp_all add: no_evictions_def two_inserts_def)
  ultimately show ?thesis
    using concurrent_inserts_settle [OF sample_inj fresh c] c by force
qed

section \<open>Races\<close>

lemma swap_alone:
  assumes "is_replaceable b"
  shows "ends_in X b (I_Start, index_new)
    (I_Put None, index_new\<lparr>by_replaceable := [replacement_key b \<mapsto> ev_id b]\<rparr>)"
  using assms replacement_key_None [of b]
  by (auto simp: Let_def ends_in_refl split: repl_key.splits intro!: ends_in_head)

text \<open>
  C33. A race loses the newer of two versions of a replaceable event: the newer one registers its id
  under the key; before it enters the primary map the older one comes, finds no event under that
  id, takes the key over and is stored; the newer one then finds that it no longer wins the key,
  withdraws and is answered as the loser. In the end only the older version is stored.
\<close>

theorem concurrent_newer_version_lost:
  assumes "is_replaceable a" "is_replaceable b" "replacement_key a = replacement_key b" "ev_id a \<noteq> ev_id b"
    and "incoming_wins b a"
  shows "\<exists>c. conc_run X (two_inserts a b) c \<and> quiescent c \<and> stored (cc_index c) = {a} \<and>
    cc_threads c 1 = Some (T_Insert b (I_Done LostRace))"
proof -
  let ?k = "replacement_key b"
  let ?c0 = "two_inserts a b"
  let ?s1 = "index_new\<lparr>by_replaceable := [?k \<mapsto> ev_id b]\<rparr>"
  define c1 where "c1 = set_thread 1 b (I_Put None, ?s1) ?c0"
  have "conc_run X ?c0 c1"
    unfolding c1_def using swap_alone [OF assms(2)]
    by (intro run_thread [OF conc_run.start]) (simp_all add: two_inserts_def others_free_def)
  moreover obtain out s2 where s2: "index_insert X a ?s1 = (out, s2)" by fastforce
  define c2 where "c2 = set_thread 0 a (I_Done out, s2) c1"
  ultimately have run2: "conc_run X ?c0 c2"
    unfolding c2_def using ends_in_insert [of X a ?s1] s2
    by (intro run_thread) (auto simp: two_inserts_def others_free_def set_thread_def c1_def)
  have s2': "by_id s2 = [ev_id a \<mapsto> a]" "by_replaceable s2 = [?k \<mapsto> ev_id a]"
    using s2 assms(1,3) replacement_key_None [of a]
    by (auto simp: index_insert_def swap_replaceable_def internal_remove_def is_still_winner_def Let_def add_secondary_def
        split: repl_key.splits if_splits)
  have tail: "insert_tail X b None s2 = (LostRace, s2)"
    using s2' assms(2,4) still_winner_iff [OF assms(2)] by (simp add: insert_tail_def fun_upd_twist)
  define c3 where "c3 = set_thread 1 b (I_Done LostRace, s2) c2"
  have "conc_run X ?c0 c3"
    unfolding c3_def using ends_in_tail [of X b None s2] tail run2
    by (intro run_thread) (auto simp: two_inserts_def others_free_def set_thread_def c1_def c2_def)
  moreover have "quiescent c3" "stored (cc_index c3) = {a}" "cc_threads c3 1 = Some (T_Insert b (I_Done LostRace))"
    using s2' by (auto simp: c3_def c2_def c1_def two_inserts_def set_thread_def quiescent_def ran_def stored_def split: if_splits)
  ultimately show ?thesis by blast
qed

lemma sample_versions:
  "is_replaceable sample_old" "is_replaceable sample_new" "replacement_key sample_old = replacement_key sample_new"
  "ev_id sample_old \<noteq> ev_id sample_new" "incoming_wins sample_new sample_old"
  by (simp_all add: kind_defs replacement_key_def incoming_wins_def sample_old_def sample_new_def)

theorem concurrent_newer_version_lost_witness:
  "\<exists>c. conc_run sample_ext (two_inserts sample_old sample_new) c \<and> quiescent c \<and>
     stored (cc_index c) = {sample_old}"
  using concurrent_newer_version_lost [OF sample_versions, of sample_ext] by blast

lemma put_alone:
  assumes "is_replaceable a"
  shows "ends_in X a (I_Start, index_new)
    (I_Check1 None, index_new\<lparr>by_replaceable := [replacement_key a \<mapsto> ev_id a], by_id := [ev_id a \<mapsto> a]\<rparr>)"
  using assms replacement_key_None [of a]
  by (auto simp: Let_def ends_in_refl split: repl_key.splits
      intro!: ends_in_head ends_in_step [where pc = "I_Put r" for r])

text \<open>
  A race makes the counters wrong for good: an older version enters the primary map; before its
  first check the newer version removes it again, and takes its size and its one off the counters,
  to which they were never added; the older one then withdraws. In the end one event is stored and
  the counter says none, and the memory counter is short by the size of the older version, which
  wraps around when that is the larger one.
\<close>

theorem concurrent_counters_drift:
  assumes "is_replaceable a" "is_replaceable b" "replacement_key a = replacement_key b" "ev_id a \<noteq> ev_id b"
    and "incoming_wins b a"
  shows "\<exists>c. conc_run X (two_inserts a b) c \<and> quiescent c \<and> stored (cc_index c) = {b} \<and>
    event_count (cc_index c) = 0 \<and>
    memory_bytes (cc_index c) = of_nat (length (ev_raw b)) - of_nat (length (ev_raw a))"
proof -
  let ?k = "replacement_key b"
  let ?c0 = "two_inserts a b"
  let ?s1 = "index_new\<lparr>by_replaceable := [?k \<mapsto> ev_id a], by_id := [ev_id a \<mapsto> a]\<rparr>"
  define c1 where "c1 = set_thread 0 a (I_Check1 None, ?s1) ?c0"
  have run1: "conc_run X ?c0 c1"
    unfolding c1_def using put_alone [OF assms(1)] assms(3)
    by (intro run_thread [OF conc_run.start]) (simp_all add: two_inserts_def others_free_def)
  obtain out s2 where s2: "index_insert X b ?s1 = (out, s2)" by fastforce
  define c2 where "c2 = set_thread 1 b (I_Done out, s2) c1"
  have run2: "conc_run X ?c0 c2"
    unfolding c2_def using ends_in_insert [of X b ?s1] s2
    by (intro run_thread [OF run1]) (simp_all add: two_inserts_def others_free_def set_thread_def c1_def)
  have s2': "by_id s2 = [ev_id b \<mapsto> b]" "by_replaceable s2 = [?k \<mapsto> ev_id b]" "event_count s2 = 0"
      "memory_bytes s2 = of_nat (length (ev_raw b)) - of_nat (length (ev_raw a))"
    using s2 assms replacement_key_None [of b]
    by (auto simp: index_insert_def swap_replaceable_def internal_remove_def is_still_winner_def Let_def
        add_secondary_def cleanup_secondary_indexes_def split: repl_key.splits if_splits)
  have same: "s2\<lparr>by_id := [ev_id b \<mapsto> b]\<rparr> = s2" unfolding s2'(1) [symmetric] by simp
  have "ends_in X a (I_Check1 None, s2) (I_Done LostRace, s2)"
    using s2' assms(1,3,4) still_winner_iff [OF assms(1), of s2]
    by (auto simp: ends_in_refl same intro!: ends_in_steps)
  then have "conc_run X ?c0 (set_thread 0 a (I_Done LostRace, s2) c2)"
    by (intro run_thread [OF run2]) (simp_all add: two_inserts_def others_free_def set_thread_def c1_def c2_def)
  moreover have "quiescent (set_thread 0 a (I_Done LostRace, s2) c2)"
    by (auto simp: c2_def c1_def two_inserts_def set_thread_def quiescent_def ran_def split: if_splits)
  ultimately show ?thesis
    using s2' by (intro exI conjI) (assumption, assumption, auto simp: set_thread_def stored_def)
qed

theorem concurrent_counters_drift_witness:
  "\<exists>c. conc_run sample_ext (two_inserts sample_old sample_new) c \<and> quiescent c \<and>
     stored (cc_index c) = {sample_new} \<and> event_count (cc_index c) = 0"
  using concurrent_counters_drift [OF sample_versions, of sample_ext] by blast

end
