(* ===== verification/Concurrent_Deletion.thy ===== *)
theory Concurrent_Deletion
  imports Concurrent_Properties
begin

text \<open>
  Deletions next to concurrent inserts and evictions (\<open>delete_by_id\<close> in
  \<^verbatim>\<open>src/src/store/index.rs\<close>): each access to the primary map, the counters, the replaceable index,
  a secondary index or the tombstones is one step.
\<close>

section \<open>Steps\<close>

text \<open>\<open>internal_remove\<close> with the replaceable index, then the tombstone.\<close>

datatype del_pc =
  D_Id bytes
| D_Mem bytes event
| D_Cnt bytes event
| D_Key bytes event
| D_Sec bytes event "sec_op list"
| D_Tomb bytes "event option"
| D_Done "event option"

fun del_step :: "'x ext_scheme \<Rightarrow> del_pc \<Rightarrow> event_index \<Rightarrow> del_pc \<times> event_index" where
  "del_step X (D_Id i) s =
     (case by_id s i of
        None \<Rightarrow> (D_Tomb i None, s)
      | Some e \<Rightarrow> (D_Mem i e, s\<lparr>by_id := (by_id s)(i := None)\<rparr>))"
| "del_step X (D_Mem i e) s = (D_Cnt i e, s\<lparr>memory_bytes := memory_bytes s - of_nat (length (ev_raw e))\<rparr>)"
| "del_step X (D_Cnt i e) s = (D_Key i e, s\<lparr>event_count := event_count s - 1\<rparr>)"
| "del_step X (D_Key i e) s =
     (D_Sec i e (sec_ops X e),
      if is_replaceable e then s\<lparr>by_replaceable := (by_replaceable s)(replacement_key e := None)\<rparr> else s)"
| "del_step X (D_Sec i e []) s = (D_Tomb i (Some e), s)"
| "del_step X (D_Sec i e (op # ops)) s = (D_Sec i e ops, del_op e op s)"
| "del_step X (D_Tomb i r) s = (D_Done r, s\<lparr>tombstones := tombs_insert (tombstones s) i\<rparr>)"
| "del_step X (D_Done r) s = (D_Done r, s)"

record del_conc =
  dc_conc :: conc
  dc_deletes :: "nat \<rightharpoonup> del_pc"

text \<open>Removing the entry of a key waits for the insert that holds it.\<close>

fun del_waits :: "del_pc \<Rightarrow> conc \<Rightarrow> bool" where
  "del_waits (D_Key i e) c \<longleftrightarrow> is_replaceable e \<and> locked c (replacement_key e)"
| "del_waits pc c \<longleftrightarrow> False"

inductive del_conc_step :: "'x ext_scheme \<Rightarrow> del_conc \<Rightarrow> del_conc \<Rightarrow> bool" for X where
  other: "conc_step X (dc_conc c) c' \<Longrightarrow> del_conc_step X c (c\<lparr>dc_conc := c'\<rparr>)"
| delete: "dc_deletes c t = Some pc \<Longrightarrow> \<not> del_waits pc (dc_conc c) \<Longrightarrow>
    del_step X pc (cc_index (dc_conc c)) = (pc', s') \<Longrightarrow>
    del_conc_step X c (c\<lparr>dc_conc := (dc_conc c)\<lparr>cc_index := s'\<rparr>, dc_deletes := (dc_deletes c)(t \<mapsto> pc')\<rparr>)"

definition del_quiescent :: "del_conc \<Rightarrow> bool" where
  "del_quiescent c \<longleftrightarrow> quiescent (dc_conc c) \<and> (\<forall>pc \<in> ran (dc_deletes c). \<exists>r. pc = D_Done r)"

section \<open>Schedules\<close>

definition del_run :: "'x ext_scheme \<Rightarrow> del_pc \<times> event_index \<Rightarrow> del_pc \<times> event_index \<Rightarrow> bool" where
  "del_run X = (\<lambda>p q. q = del_step X (fst p) (snd p))\<^sup>*\<^sup>*"

lemma del_run_refl: "del_run X p p"
  by (simp add: del_run_def)

lemma del_run_step: "del_run X (del_step X pc s) q \<Longrightarrow> del_run X (pc, s) q"
  unfolding del_run_def by (rule converse_rtranclp_into_rtranclp) simp_all

lemma del_run_sec:
  "del_run X (D_Tomb i (Some e), fold (del_op e) ops s) q \<Longrightarrow> del_run X (D_Sec i e ops, s) q"
  by (induction ops arbitrary: s) (auto intro: del_run_step)

text \<open>Alone, the steps are \<open>delete_by_id\<close>.\<close>

lemmas del_run_steps =
  del_run_step [where pc = "D_Id i" for i] del_run_step [where pc = "D_Mem i e" for i e]
  del_run_step [where pc = "D_Cnt i e" for i e] del_run_step [where pc = "D_Key i e" for i e]
  del_run_step [where pc = "D_Tomb i r" for i r]

lemma del_run_alone: "del_run X (D_Id i, s) (D_Done (fst (delete_by_id X i s)), snd (delete_by_id X i s))"
  by (cases "by_id s i")
    (auto simp: delete_by_id_def internal_remove_def fold_sec_ops Let_def del_run_refl
      intro!: del_run_steps del_run_sec)

definition set_delete :: "nat \<Rightarrow> del_pc \<times> event_index \<Rightarrow> del_conc \<Rightarrow> del_conc" where
  "set_delete t p c = c\<lparr>dc_conc := (dc_conc c)\<lparr>cc_index := snd p\<rparr>, dc_deletes := (dc_deletes c)(t \<mapsto> fst p)\<rparr>"

lemma run_delete:
  assumes "(del_conc_step X)\<^sup>*\<^sup>* c0 c" "dc_deletes c t = Some pc" "\<And>k. \<not> locked (dc_conc c) k"
    and "del_run X (pc, cc_index (dc_conc c)) q"
  shows "(del_conc_step X)\<^sup>*\<^sup>* c0 (set_delete t q c)"
  using assms(4) unfolding del_run_def
proof (induction rule: rtranclp_induct)
  case base
  have "set_delete t (pc, cc_index (dc_conc c)) c = c" using assms(2) by (simp add: set_delete_def map_upd_triv)
  then show ?case using assms(1) by simp
next
  case (step p q)
  have free: "\<not> del_waits pc' (dc_conc (set_delete t p c))" for pc'
    using assms(3) by (cases pc') (simp_all add: set_delete_def locked_def)
  have "del_conc_step X (set_delete t p c) (set_delete t q c)"
    using del_conc_step.delete [of "set_delete t p c" t "fst p" X "fst q" "snd q", OF _ free] step.hyps(2)
    by (simp add: set_delete_def)
  with step.IH show ?case by (rule rtranclp.rtrancl_into_rtrancl)
qed

lemma run_others:
  assumes "(del_conc_step X)\<^sup>*\<^sup>* c0 c" "conc_run X (dc_conc c) c'"
  shows "(del_conc_step X)\<^sup>*\<^sup>* c0 (c\<lparr>dc_conc := c'\<rparr>)"
  using assms(2)
proof (induction rule: conc_run.induct)
  case (step c1 c2)
  have "del_conc_step X (c\<lparr>dc_conc := c1\<rparr>) (c\<lparr>dc_conc := c2\<rparr>)"
    using del_conc_step.other [of X "c\<lparr>dc_conc := c1\<rparr>" c2] step.hyps(2) by simp
  with step.IH show ?case by (rule rtranclp.rtrancl_into_rtrancl)
qed (simp add: assms(1))

lemma run_insert:
  assumes "(del_conc_step X)\<^sup>*\<^sup>* c0 c" "cc_threads (dc_conc c) t = Some (T_Insert e pc)" "others_free t (dc_conc c)"
    and "ends_in X e (pc, cc_index (dc_conc c)) q"
  shows "(del_conc_step X)\<^sup>*\<^sup>* c0 (c\<lparr>dc_conc := set_thread t e q (dc_conc c)\<rparr>)"
  by (rule run_others [OF assms(1) run_thread [OF conc_run.start assms(2-4)]])

text \<open>An insert and a deletion.\<close>

definition insert_and_delete :: "event_index \<Rightarrow> event \<Rightarrow> bytes \<Rightarrow> del_conc" where
  "insert_and_delete s e i =
     \<lparr>dc_conc = \<lparr>cc_index = s, cc_threads = [0 \<mapsto> T_Insert e I_Start]\<rparr>, dc_deletes = [0 \<mapsto> D_Id i]\<rparr>"

text \<open>The states of these two threads.\<close>

definition del_state :: "event \<Rightarrow> ins_pc \<Rightarrow> del_pc \<Rightarrow> event_index \<Rightarrow> del_conc" where
  "del_state e pc d s =
     \<lparr>dc_conc = \<lparr>cc_index = s, cc_threads = [0 \<mapsto> T_Insert e pc]\<rparr>, dc_deletes = [0 \<mapsto> d]\<rparr>"

lemma del_state_start: "insert_and_delete s e i = del_state e I_Start (D_Id i) s"
  by (simp add: del_state_def insert_and_delete_def)

lemma del_state_insert:
  assumes "(del_conc_step X)\<^sup>*\<^sup>* c0 (del_state e pc d s)" "ends_in X e (pc, s) (pc', s')"
  shows "(del_conc_step X)\<^sup>*\<^sup>* c0 (del_state e pc' d s')"
  using run_insert [OF assms(1), of 0 e pc "(pc', s')"] assms(2)
  by (simp add: del_state_def set_thread_def others_free_def)

lemma del_state_delete:
  assumes "(del_conc_step X)\<^sup>*\<^sup>* c0 (del_state e pc d s)" "del_run X (d, s) (d', s')" "\<And>rm. pc \<noteq> I_Unlink rm"
  shows "(del_conc_step X)\<^sup>*\<^sup>* c0 (del_state e pc d' s')"
  using run_delete [OF assms(1), of 0 d "(d', s')"] assms(2,3)
  by (simp add: del_state_def set_delete_def locked_def split: if_splits)

lemma del_state_done [simp]:
  "del_quiescent (del_state e (I_Done out) (D_Done r) s)" "cc_index (dc_conc (del_state e pc d s)) = s"
  "cc_threads (dc_conc (del_state e pc d s)) 0 = Some (T_Insert e pc)"
  by (simp_all add: del_quiescent_def del_state_def quiescent_def ran_def)

section \<open>A deletion as a removal\<close>

text \<open>
  For the primary map and the secondary indexes a deletion does the steps of an eviction. The
  threads and the deletions together are the threads of a run without deletions, but for the
  steps on the replaceable index and on the tombstones.
\<close>

fun del_view :: "'x ext_scheme \<Rightarrow> del_pc \<Rightarrow> removal" where
  "del_view X (D_Id i) = Rm_Id i"
| "del_view X (D_Mem i e) = Rm_Mem e"
| "del_view X (D_Cnt i e) = Rm_Cnt e"
| "del_view X (D_Key i e) = Rm_Sec e (sec_ops X e)"
| "del_view X (D_Sec i e ops) = Rm_Sec e ops"
| "del_view X (D_Tomb i r) = Rm_End r"
| "del_view X (D_Done r) = Rm_End r"

definition conc_view :: "'x ext_scheme \<Rightarrow> del_conc \<Rightarrow> conc" where
  "conc_view X c = \<lparr>cc_index = cc_index (dc_conc c),
     cc_threads = (\<lambda>n. if even n then cc_threads (dc_conc c) (n div 2)
                       else map_option (\<lambda>pc. T_Evict (del_view X pc)) (dc_deletes c (n div 2)))\<rparr>"

lemma view_index [simp]: "cc_index (conc_view X c) = cc_index (dc_conc c)"
  by (simp add: conc_view_def)

lemma view_threads:
  "cc_threads (conc_view X c) (2 * t) = cc_threads (dc_conc c) t"
  "cc_threads (conc_view X c) (2 * t + 1) = map_option (\<lambda>pc. T_Evict (del_view X pc)) (dc_deletes c t)"
  by (simp_all add: conc_view_def)

lemma view_update_thread:
  "conc_view X (c\<lparr>dc_conc := (dc_conc c)\<lparr>cc_index := s, cc_threads := (cc_threads (dc_conc c))(t \<mapsto> th)\<rparr>\<rparr>) =
     (conc_view X c)\<lparr>cc_index := s, cc_threads := (cc_threads (conc_view X c))(2 * t \<mapsto> th)\<rparr>"
  by (auto simp: conc_view_def fun_eq_iff)

lemma view_update_delete:
  "conc_view X (c\<lparr>dc_conc := (dc_conc c)\<lparr>cc_index := s\<rparr>, dc_deletes := (dc_deletes c)(t \<mapsto> pc)\<rparr>) =
     (conc_view X c)\<lparr>cc_index := s, cc_threads := (cc_threads (conc_view X c))(2 * t + 1 \<mapsto> T_Evict (del_view X pc))\<rparr>"
  by (auto simp: conc_view_def fun_eq_iff elim: oddE)

lemma view_locked: "locked (conc_view X c) k \<longleftrightarrow> locked (dc_conc c) k"
proof
  assume "locked (conc_view X c) k"
  then show "locked (dc_conc c) k" by (auto simp: locked_def conc_view_def split: if_splits)
next
  assume "locked (dc_conc c) k"
  then show "locked (conc_view X c) k" unfolding locked_def using view_threads(1) by metis
qed

text \<open>The steps that only this view does not have.\<close>

fun hidden_step :: "del_pc \<Rightarrow> bool" where
  "hidden_step (D_Key i e) = True"
| "hidden_step (D_Tomb i r) = True"
| "hidden_step pc = False"

lemma del_step_view:
  assumes "del_step X pc s = (pc', s')"
  shows "if hidden_step pc
    then del_view X pc' = del_view X pc \<and> by_replaceable s' \<subseteq>\<^sub>m by_replaceable s \<and>
      s' = s\<lparr>by_replaceable := by_replaceable s', tombstones := tombstones s'\<rparr>
    else rm_step X (del_view X pc) s = (del_view X pc', s')"
  using assms
  by (cases "(X, pc, s)" rule: del_step.cases) (auto simp: map_le_def split: option.splits if_splits)

lemma place_get_keys: "place_get (s\<lparr>by_replaceable := m, tombstones := t\<rparr>) k = place_get s k"
  by (cases k) simp_all

lemma hidden_ok:
  assumes "structure_ok U c" "events_ok X U c" "by_replaceable s \<subseteq>\<^sub>m by_replaceable (cc_index c)"
    and "s = (cc_index c)\<lparr>by_replaceable := by_replaceable s, tombstones := tombstones s\<rparr>"
  shows "structure_ok U (c\<lparr>cc_index := s\<rparr>)" "events_ok X U (c\<lparr>cc_index := s\<rparr>)"
proof -
  have keys: "by_replaceable (cc_index c) k = Some i" if "by_replaceable s k = Some i" for k i
    using assms(3) that by (metis domI map_le_def)
  obtain m t where "s = (cc_index c)\<lparr>by_replaceable := m, tombstones := t\<rparr>" using assms(4) by blast
  then have same: "by_id s = by_id (cc_index c)" "present s = present (cc_index c)" "places_wf U s = places_wf U (cc_index c)"
    by (simp_all add: present_def places_wf_def fun_eq_iff place_get_keys)
  have views: "pc_of (c\<lparr>cc_index := s\<rparr>) d = pc_of c d" "unlinking (c\<lparr>cc_index := s\<rparr>) d = unlinking c d"
      "left_of X (c\<lparr>cc_index := s\<rparr>) d = left_of X c d" "live (c\<lparr>cc_index := s\<rparr>) d = live c d"
      "present (cc_index (c\<lparr>cc_index := s\<rparr>)) d = present (cc_index c) d" for d
    using same by (simp_all add: pc_of_def unlinking_def left_of_def live_def)
  show "structure_ok U (c\<lparr>cc_index := s\<rparr>)"
    using assms(1) same keys by (simp add: structure_ok_def maps_ok_def stored_def)
  show "events_ok X U (c\<lparr>cc_index := s\<rparr>)"
    using assms(2) unfolding events_ok_def event_ok_def by (simp only: views)
qed

lemma view_step:
  assumes "inj_on ev_id U" "del_conc_step X c c'" "structure_ok U (conc_view X c)" "events_ok X U (conc_view X c)"
  shows "structure_ok U (conc_view X c') \<and> events_ok X U (conc_view X c')"
proof -
  have moved: ?thesis if "conc_step X (conc_view X c) (conc_view X c')"
    using structure_step [OF assms(1,3) that] events_step [OF assms(1,3) that assms(4)] by blast
  show ?thesis
    using assms(2)
  proof cases
    case (other c1)
    from other(2) show ?thesis
    proof cases
      case (insert t e pc pc' s')
      then show ?thesis
        using conc_step.insert [of "conc_view X c" "2 * t" e pc X pc' s']
        by (intro moved) (simp add: other(1) view_update_thread view_threads view_locked)
    next
      case (evict t rm rm' s')
      then show ?thesis
        using conc_step.evict [of "conc_view X c" "2 * t" rm X rm' s']
        by (intro moved) (simp add: other(1) view_update_thread view_threads)
    qed
  next
    case (delete t pc pc' s')
    have thread: "cc_threads (conc_view X c) (2 * t + 1) = Some (T_Evict (del_view X pc))"
      unfolding view_threads using delete(2) by simp
    note c' = delete(1) [unfolded, THEN arg_cong, of "conc_view X", unfolded view_update_delete]
    show ?thesis
    proof (cases "hidden_step pc")
      case True
      then have same: "del_view X pc' = del_view X pc" "by_replaceable s' \<subseteq>\<^sub>m by_replaceable (cc_index (conc_view X c))"
          "s' = (cc_index (conc_view X c))\<lparr>by_replaceable := by_replaceable s', tombstones := tombstones s'\<rparr>"
        using del_step_view [OF delete(4)] by simp_all
      have "conc_view X c' = (conc_view X c)\<lparr>cc_index := s'\<rparr>"
        unfolding c' same(1) using thread by (simp add: map_upd_triv)
      then show ?thesis using hidden_ok [OF assms(3,4) same(2,3)] by simp
    next
      case False
      then have "rm_step X (del_view X pc) (cc_index (conc_view X c)) = (del_view X pc', s')"
        using del_step_view [OF delete(4)] by simp
      from conc_step.evict [OF thread this] show ?thesis by (intro moved) (simp add: c')
    qed
  qed
qed

text \<open>The invariant of a run with deletions, at every point of it.\<close>

lemma del_conc_run_ok:
  assumes "inj_on ev_id U" "fresh_start X U (dc_conc c0)" "\<forall>pc \<in> ran (dc_deletes c0). \<exists>i. pc = D_Id i"
    and "(del_conc_step X)\<^sup>*\<^sup>* c0 c"
  shows "structure_ok U (conc_view X c)" "events_ok X U (conc_view X c)"
proof -
  have "solo (cc_threads (conc_view X c0))"
    using assms(2) unfolding fresh_start_def solo_def conc_view_def by (auto split: if_splits elim!: evenE)
  moreover have "(\<exists>e \<in> U. th = T_Insert e I_Start \<and> e \<notin> stored (cc_index (dc_conc c0))) \<or> (\<exists>i. th = T_Evict (Rm_Id i))"
    if "cc_threads (conc_view X c0) t = Some th" for t th
    using that assms(2,3) unfolding fresh_start_def conc_view_def by (fastforce simp: ran_def split: if_splits)
  ultimately have "fresh_start X U (conc_view X c0)" using assms(2) by (simp add: fresh_start_def)
  from fresh_run_ok(1) [OF this]
  have "structure_ok U (conc_view X c0) \<and> events_ok X U (conc_view X c0)" by (simp add: run_ok_def)
  with assms(4) have "structure_ok U (conc_view X c) \<and> events_ok X U (conc_view X c)"
  proof (induction rule: rtranclp_induct)
    case (step c1 c2)
    then show ?case using view_step [OF assms(1) step.hyps(2)] by blast
  qed simp
  then show "structure_ok U (conc_view X c)" "events_ok X U (conc_view X c)" by blast+
qed

text \<open>
  C17. Deletions do not spoil the indexes: when inserts of distinct events that are not stored at the
  start, evictions and deletions interleave in any way and all of them are done, every secondary
  index holds exactly the stored events under their keys.
\<close>

theorem concurrent_deletions_settle:
  assumes "inj_on ev_id U" "fresh_start X U (dc_conc c0)" "\<forall>pc \<in> ran (dc_deletes c0). \<exists>i. pc = D_Id i"
    and "(del_conc_step X)\<^sup>*\<^sup>* c0 c" "del_quiescent c"
  shows "sec_all X (cc_index (dc_conc c)) (stored (cc_index (dc_conc c))) \<and> stored (cc_index (dc_conc c)) \<subseteq> U"
proof -
  have "quiescent (conc_view X c)"
    using assms(5) by (fastforce simp: del_quiescent_def quiescent_def conc_view_def ran_def split: if_splits)
  from settled_secondary [OF del_conc_run_ok [OF assms(1-4)] this] show ?thesis by simp
qed

theorem concurrent_deletions_settle_witness:
  "\<exists>c. (del_conc_step sample_ext)\<^sup>*\<^sup>* (insert_and_delete index_new sample_note (ev_id sample_note)) c \<and> del_quiescent c \<and>
     sec_all sample_ext (cc_index (dc_conc c)) (stored (cc_index (dc_conc c)))"
proof -
  let ?c0 = "insert_and_delete index_new sample_note (ev_id sample_note)"
  have fresh: "fresh_start sample_ext (set sample_events) (dc_conc ?c0)" "\<forall>pc \<in> ran (dc_deletes ?c0). \<exists>i. pc = D_Id i"
    using index_inv_new [of sample_ext "set sample_events"]
    by (auto simp: fresh_start_def insert_and_delete_def solo_def stored_def ran_def split: if_splits)
  have "(del_conc_step sample_ext)\<^sup>*\<^sup>* ?c0 (del_state sample_note I_Start (D_Id (ev_id sample_note)) index_new)"
    by (simp add: del_state_start)
  from del_state_delete [OF del_state_insert [OF this ends_in_insert] del_run_alone]
  obtain out r s where c: "(del_conc_step sample_ext)\<^sup>*\<^sup>* ?c0 (del_state sample_note (I_Done out) (D_Done r) s)" by blast
  from concurrent_deletions_settle [OF sample_inj fresh c] c show ?thesis by force
qed

section \<open>Races\<close>

lemma one_tombstone: "tombs_contains (tombs_insert tombs_new i) j \<longleftrightarrow> j = i"
  using tombs_contains_iff [OF tombs_inv_insert [OF tombs_inv_new]] tombs_insert_self [OF tombs_inv_new]
    tombs_insert_subset [OF tombs_inv_new, of i] by (auto simp: tombs_new_def)

text \<open>An insert behind its tombstone check, into an index without other events.\<close>

lemma swap_and_put:
  assumes "by_id s = Map.empty" "by_replaceable s = Map.empty"
  shows "\<exists>s'. ends_in X e (I_Swap, s) (I_Done (Inserted None), s') \<and> by_id s' = [ev_id e \<mapsto> e] \<and>
    tombstones s' = tombstones s"
proof -
  let ?s = "if is_replaceable e then s\<lparr>by_replaceable := [replacement_key e \<mapsto> ev_id e]\<rparr> else s"
  have "ends_in X e (I_Put None, ?s) q \<Longrightarrow> ends_in X e (I_Swap, s) q" for q
    using assms replacement_key_None [of e] by (auto simp: Let_def split: repl_key.splits intro!: ends_in_head)
  from this [OF ends_in_tail]
  have run: "ends_in X e (I_Swap, s) (I_Done (fst (insert_tail X e None ?s)), snd (insert_tail X e None ?s))" .
  moreover have "fst (insert_tail X e None ?s) = Inserted None \<and> by_id (snd (insert_tail X e None ?s)) = [ev_id e \<mapsto> e] \<and>
      tombstones (snd (insert_tail X e None ?s)) = tombstones s"
    using assms by (auto simp: insert_tail_def is_still_winner_def add_secondary_def Let_def split: repl_key.splits)
  ultimately show ?thesis by metis
qed

text \<open>
  A race stores a deleted event: an insert passes its tombstone check; the deletion of the event
  then finds nothing to remove and leaves its tombstone; the insert goes on and succeeds. In the
  end the event is stored and has a tombstone, which nothing will enforce.
\<close>

theorem concurrent_deletion_outrun:
  "\<exists>c s. (del_conc_step X)\<^sup>*\<^sup>* (insert_and_delete index_new e (ev_id e)) c \<and> del_quiescent c \<and>
     s = cc_index (dc_conc c) \<and> stored s = {e} \<and> tombs_contains (tombstones s) (ev_id e) \<and>
     cc_threads (dc_conc c) 0 = Some (T_Insert e (I_Done (Inserted None)))"
proof -
  let ?c0 = "insert_and_delete index_new e (ev_id e)"
  let ?s = "snd (delete_by_id X (ev_id e) index_new)"
  have s: "by_id ?s = Map.empty" "by_replaceable ?s = Map.empty" "tombs_contains (tombstones ?s) (ev_id e)"
    by (simp_all add: delete_by_id_def internal_remove_def index_new_def one_tombstone)
  obtain s' where s': "ends_in X e (I_Swap, ?s) (I_Done (Inserted None), s')" "by_id s' = [ev_id e \<mapsto> e]"
      "tombstones s' = tombstones ?s"
    using swap_and_put [OF s(1,2), of X e] by blast
  have "(del_conc_step X)\<^sup>*\<^sup>* ?c0 (del_state e I_Start (D_Id (ev_id e)) index_new)"
    by (simp add: del_state_start)
  moreover have "ends_in X e (I_Start, index_new) (I_Swap, index_new)"
    by (auto simp: ends_in_refl intro: ends_in_step)
  ultimately have "(del_conc_step X)\<^sup>*\<^sup>* ?c0 (del_state e I_Swap (D_Id (ev_id e)) index_new)"
    by (rule del_state_insert)
  from del_state_insert [OF del_state_delete [OF this del_run_alone] s'(1)]
  have "(del_conc_step X)\<^sup>*\<^sup>* ?c0
      (del_state e (I_Done (Inserted None)) (D_Done (fst (delete_by_id X (ev_id e) index_new))) s')" by simp
  moreover have "stored s' = {e}" using s'(2) by (simp add: stored_def)
  moreover have "tombs_contains (tombstones s') (ev_id e)" using s(3) unfolding s'(3) .
  ultimately show ?thesis by (intro exI conjI) (assumption, simp_all)
qed

text \<open>A version of a replaceable event whose key is free, or whose entry is of an event that is gone.\<close>

lemma insert_free_key:
  assumes "is_replaceable e" "by_id s (ev_id e) = None" "\<not> tombs_contains (tombstones s) (ev_id e)"
    and "\<And>i. by_replaceable s (replacement_key e) = Some i \<Longrightarrow> by_id s i = None"
  shows "\<exists>s'. index_insert X e s = (Inserted None, s') \<and> by_id s' = (by_id s)(ev_id e \<mapsto> e) \<and>
    by_replaceable s' = (by_replaceable s)(replacement_key e \<mapsto> ev_id e) \<and> tombstones s' = tombstones s"
proof -
  let ?s = "s\<lparr>by_replaceable := (by_replaceable s)(replacement_key e \<mapsto> ev_id e)\<rparr>"
  have gone: "internal_remove X i True t = (None, t)" if "by_id t i = None" for i t
    using that by (simp add: internal_remove_def)
  have swap: "swap_replaceable X e s = Some (None, ?s)"
    using assms(1,4) replacement_key_None [of e]
    by (cases "replacement_key e"; cases "by_replaceable s (replacement_key e)")
      (simp_all add: swap_replaceable_def gone Let_def)
  have "fst (insert_tail X e None ?s) = Inserted None \<and> by_id (snd (insert_tail X e None ?s)) = (by_id s)(ev_id e \<mapsto> e) \<and>
      by_replaceable (snd (insert_tail X e None ?s)) = by_replaceable ?s \<and> tombstones (snd (insert_tail X e None ?s)) = tombstones s"
    using assms(2) by (simp add: insert_tail_def is_still_winner_def add_secondary_def Let_def split: repl_key.split)
  then show ?thesis using swap assms(3) by (simp add: index_insert_tail prod_eq_iff)
qed

text \<open>
  C34. A race frees the slot of a stored event: the deletion of the old version of a replaceable event
  takes it out of the primary map; before it comes to the replaceable index a newer version is
  stored and takes the key over; the deletion then removes the key, which is the newer version's.
  From then on any version, however old, is stored next to it.
\<close>

theorem concurrent_deletion_frees_slot:
  assumes "is_replaceable a" "is_replaceable b" "replacement_key a = replacement_key b" "ev_id a \<noteq> ev_id b"
    and "index_insert X a index_new = (r, s0)"
    and "is_replaceable d" "replacement_key d = replacement_key b" "ev_id d \<notin> {ev_id a, ev_id b}"
  shows "\<exists>c s s'. (del_conc_step X)\<^sup>*\<^sup>* (insert_and_delete s0 b (ev_id a)) c \<and> del_quiescent c \<and>
     s = cc_index (dc_conc c) \<and> stored s = {b} \<and> by_replaceable s (replacement_key b) = None \<and>
     index_insert X d s = (Inserted None, s') \<and> stored s' = {b, d}"
proof -
  let ?k = "replacement_key b"
  let ?c0 = "insert_and_delete s0 b (ev_id a)"
  have s0: "by_id s0 = [ev_id a \<mapsto> a]" "by_replaceable s0 = [?k \<mapsto> ev_id a]" "tombstones s0 = tombs_new"
    using insert_free_key [OF assms(1), of index_new X] assms(3,5) by (auto simp: index_new_def tombs_contains_def tombs_new_def)
  let ?s1 = "s0\<lparr>by_id := Map.empty\<rparr>"
  have "(del_conc_step X)\<^sup>*\<^sup>* ?c0 (del_state b I_Start (D_Id (ev_id a)) s0)" by (simp add: del_state_start)
  moreover have "del_run X (D_Id (ev_id a), s0) (D_Mem (ev_id a) a, ?s1)"
    using s0 by (intro del_run_step) (simp add: del_run_refl)
  ultimately have run1: "(del_conc_step X)\<^sup>*\<^sup>* ?c0 (del_state b I_Start (D_Mem (ev_id a) a) ?s1)"
    by (rule del_state_delete) simp
  obtain s2 where s2: "index_insert X b ?s1 = (Inserted None, s2)" "by_id s2 = [ev_id b \<mapsto> b]"
      "by_replaceable s2 = [?k \<mapsto> ev_id b]" "tombstones s2 = tombs_new"
    using insert_free_key [OF assms(2), of ?s1 X] s0 by (auto simp: tombs_contains_def tombs_new_def)
  have run2: "(del_conc_step X)\<^sup>*\<^sup>* ?c0 (del_state b (I_Done (Inserted None)) (D_Mem (ev_id a) a) s2)"
    using del_state_insert [OF run1 ends_in_insert] s2(1) by simp
  define s3 where "s3 = cleanup_secondary_indexes X a (s2\<lparr>memory_bytes := memory_bytes s2 - of_nat (length (ev_raw a)),
      event_count := event_count s2 - 1, by_replaceable := (by_replaceable s2)(?k := None)\<rparr>)"
  define s4 where "s4 = s3\<lparr>tombstones := tombs_insert (tombstones s3) (ev_id a)\<rparr>"
  have "del_run X (D_Mem (ev_id a) a, s2) (D_Done (Some a), s4)"
    using assms(1,3)
    by (auto simp: s4_def s3_def fold_sec_ops del_run_refl intro!: del_run_steps del_run_sec)
  from del_state_delete [OF run2 this]
  have run4: "(del_conc_step X)\<^sup>*\<^sup>* ?c0 (del_state b (I_Done (Inserted None)) (D_Done (Some a)) s4)" by simp
  have s4: "by_id s4 = [ev_id b \<mapsto> b]" "by_replaceable s4 = Map.empty" "tombstones s4 = tombs_insert tombs_new (ev_id a)"
    using s2 by (simp_all add: s4_def s3_def cleanup_secondary_indexes_def)
  have "\<not> tombs_contains (tombstones s4) (ev_id d)"
    using assms(8) by (simp add: s4 one_tombstone)
  then obtain s5 where s5: "index_insert X d s4 = (Inserted None, s5)" "by_id s5 = [ev_id b \<mapsto> b, ev_id d \<mapsto> d]"
    using insert_free_key [OF assms(6), of s4 X] s4 assms(8) by auto
  have "stored s4 = {b}" "stored s5 = {b, d}" using s4(1) s5(2) assms(8) by (auto simp: stored_def)
  with run4 s4(2) s5(1) show ?thesis
    by (intro exI [of _ "del_state b (I_Done (Inserted None)) (D_Done (Some a)) s4"] exI [of _ s4] exI [of _ s5])
      simp
qed

theorem concurrent_deletion_frees_slot_witness:
  "\<exists>s0 c d. index_insert sample_ext sample_old index_new = (Inserted None, s0) \<and>
     (del_conc_step sample_ext)\<^sup>*\<^sup>* (insert_and_delete s0 sample_new (ev_id sample_old)) c \<and> del_quiescent c \<and>
     stored (snd (index_insert sample_ext d (cc_index (dc_conc c)))) = {sample_new, d} \<and>
     incoming_wins sample_new d \<and> replacement_key d = replacement_key sample_new"
proof -
  let ?d = "sample_old\<lparr>ev_id := replicate 32 9\<rparr>"
  obtain s0 where s0: "index_insert sample_ext sample_old index_new = (Inserted None, s0)"
    using insert_free_key [OF sample_versions(1), of index_new sample_ext] by auto
  have d: "is_replaceable ?d" "replacement_key ?d = replacement_key sample_new"
      "ev_id ?d \<notin> {ev_id sample_old, ev_id sample_new}" "incoming_wins sample_new ?d"
    by (simp_all add: kind_defs replacement_key_def incoming_wins_def sample_old_def sample_new_def)
  from concurrent_deletion_frees_slot [OF sample_versions(1-4) s0 d(1-3)] s0 d(2,4)
  show ?thesis by fastforce
qed

end
