(* ===== verification/Concurrent_Queries.thy ===== *)
theory Concurrent_Queries
  imports Concurrent_Deletion Index_Properties
begin

text \<open>
  Queries next to concurrent inserts, evictions and deletions. A query of \<^verbatim>\<open>src/src/store/index.rs\<close>
  takes the lock of one ordered set and copies its result, so it is one access to one place; it may
  come at any point of a run.
\<close>

section \<open>Queries as reads of a place\<close>

definition place_read :: "event_index \<Rightarrow> place \<Rightarrow> nat \<Rightarrow> event list" where
  "place_read s k n = map er_event (take n (place_get s k))"

lemma query_reads:
  "query_by_pubkey s pk n = place_read s (K_Pubkey (tag_id_hash pk)) n"
  "query_by_kind s kind n = place_read s (K_Kind kind) n"
  "query_by_e_tag s i n = place_read s (K_E (tag_id_hash i)) n"
  "query_by_p_tag s i n = place_read s (K_P (tag_id_hash i)) n"
  "query_by_tag s letter v n = place_read s (K_Other (letter, v)) n"
  by (simp_all add: query_by_pubkey_def query_by_kind_def query_by_e_tag_def query_by_p_tag_def query_by_tag_def
      place_read_def idx_get_def other_get_def split: option.splits)

lemma place_content:
  assumes "places_wf U s"
  shows "newest_first {e \<in> U. k \<in> present s e} (map er_event (place_get s k))"
proof -
  have set: "set (place_get s k) \<subseteq> eref_new ` U" and sorted: "sorted_wrt er_less (place_get s k)"
    using assms by (simp_all add: places_wf_def)
  have "map eref_new (map er_event (place_get s k)) = place_get s k"
    using set by (auto intro!: map_idI)
  moreover have "set (map er_event (place_get s k)) = {e \<in> U. k \<in> present s e}"
    using set by (force simp: present_def)
  ultimately show ?thesis using sorted by (simp add: newest_first_def)
qed

lemma place_answers:
  assumes "places_wf U s"
  shows "answers {e \<in> U. k \<in> present s e} n (place_read s k n)"
  using answersI [OF place_content [OF assms]] by (simp add: place_read_def take_map)

lemma place_answers_since:
  assumes "places_wf U s"
  shows "answers {e \<in> {e \<in> U. K_Pubkey (tag_id_hash pk) \<in> present s e}. since \<le> ev_created_at e} n
    (query_by_pubkey_since s pk since n)"
proof -
  let ?rs = "place_get s (K_Pubkey (tag_id_hash pk))"
  have sorted: "sorted_wrt er_less ?rs" and set: "set ?rs \<subseteq> eref_new ` U"
    using assms unfolding places_wf_def by blast+
  have "query_by_pubkey_since s pk since n = take n (map er_event (filter (\<lambda>r. since \<le> er_created_at r) ?rs))"
    using takeWhile_newest [OF sorted, of since]
    by (simp add: query_by_pubkey_since_def idx_get_def take_map split: option.splits)
  also have "map er_event (filter (\<lambda>r. since \<le> er_created_at r) ?rs) =
      filter (\<lambda>e. since \<le> ev_created_at e) (map er_event ?rs)"
    using set by (auto simp: filter_map comp_def intro!: arg_cong [of _ _ "map er_event"] filter_cong)
  finally show ?thesis
    using answersI [OF newest_first_filter [OF place_content [OF assms, of "K_Pubkey (tag_id_hash pk)"],
          of "\<lambda>e. since \<le> ev_created_at e"], of n] by simp
qed

section \<open>Events in flight\<close>

text \<open>Stored events that no thread is still inserting, and events that a query may meet.\<close>

definition inserting :: "del_conc \<Rightarrow> event \<Rightarrow> bool" where
  "inserting c e \<longleftrightarrow> (\<exists>t pc. cc_threads (dc_conc c) t = Some (T_Insert e pc) \<and> (\<forall>out. pc \<noteq> I_Done out))"

definition removing :: "'x ext_scheme \<Rightarrow> del_conc \<Rightarrow> event \<Rightarrow> bool" where
  "removing X c e \<longleftrightarrow>
     (\<exists>t th. cc_threads (dc_conc c) t = Some th \<and> th_on th e) \<or>
     (\<exists>t pc. dc_deletes c t = Some pc \<and> rm_on (del_view X pc) = Some e)"

definition settled_events :: "del_conc \<Rightarrow> event set" where
  "settled_events c = {e \<in> stored (cc_index (dc_conc c)). \<not> inserting c e}"

definition visible_events :: "'x ext_scheme \<Rightarrow> event set \<Rightarrow> del_conc \<Rightarrow> event set" where
  "visible_events X U c =
     {e \<in> U. e \<in> stored (cc_index (dc_conc c)) \<or> inserting c e \<or> removing X c e}"

lemma view_insert_thread:
  "(\<exists>n. cc_threads (conc_view X c) n = Some (T_Insert e pc)) \<longleftrightarrow>
   (\<exists>t. cc_threads (dc_conc c) t = Some (T_Insert e pc))"
proof
  assume "\<exists>n. cc_threads (conc_view X c) n = Some (T_Insert e pc)"
  then show "\<exists>t. cc_threads (dc_conc c) t = Some (T_Insert e pc)" by (auto simp: conc_view_def split: if_splits)
next
  assume "\<exists>t. cc_threads (dc_conc c) t = Some (T_Insert e pc)"
  then show "\<exists>n. cc_threads (conc_view X c) n = Some (T_Insert e pc)" using view_threads(1) by metis
qed

lemma inserting_pc:
  assumes "solo (cc_threads (conc_view X c))"
  shows "inserting c e \<longleftrightarrow> (\<forall>out. pc_of (conc_view X c) e \<noteq> I_Done out)"
proof (cases "\<exists>n pc. cc_threads (conc_view X c) n = Some (T_Insert e pc)")
  case True
  then obtain n pc where n: "cc_threads (conc_view X c) n = Some (T_Insert e pc)" by blast
  have "pc' = pc" if "cc_threads (dc_conc c) t = Some (T_Insert e pc')" for t pc'
    using that n assms view_threads(1) [of X c t] unfolding solo_def by (metis option.inject thread.inject(1))
  moreover have "\<exists>t. cc_threads (dc_conc c) t = Some (T_Insert e pc)" using n view_insert_thread by blast
  ultimately show ?thesis using pc_of_thread [OF assms n] unfolding inserting_def by metis
next
  case False
  then have "\<not> inserting c e" unfolding inserting_def using view_insert_thread [of X c e] by blast
  then show ?thesis using False by (simp add: pc_of_def)
qed

lemma removing_view: "removing X c e \<longleftrightarrow> unlinking (conc_view X c) e"
proof
  assume "removing X c e"
  then consider t th where "cc_threads (dc_conc c) t = Some th" "th_on th e"
    | t pc where "dc_deletes c t = Some pc" "rm_on (del_view X pc) = Some e"
    unfolding removing_def by blast
  then show "unlinking (conc_view X c) e"
  proof cases
    case 1
    then show ?thesis using view_threads(1) [of X c t] unfolding unlinking_def by metis
  next
    case 2
    then have "cc_threads (conc_view X c) (2 * t + 1) = Some (T_Evict (del_view X pc))" "th_on (T_Evict (del_view X pc)) e"
      by (simp_all only: view_threads(2) option.map th_on_simps)
    then show ?thesis unfolding unlinking_def by blast
  qed
next
  assume "unlinking (conc_view X c) e"
  then show "removing X c e"
    by (fastforce simp: unlinking_def removing_def conc_view_def split: if_splits)
qed

section \<open>Where events in flight are\<close>

text \<open>The cleaning loops of an insert visit places of its event only.\<close>

fun loops_in :: "'x ext_scheme \<Rightarrow> event \<Rightarrow> ins_pc \<Rightarrow> bool" where
  "loops_in X e (I_Orphan ops) \<longleftrightarrow> set ops \<subseteq> set (sec_ops X e)"
| "loops_in X e (I_Clean ops) \<longleftrightarrow> set ops \<subseteq> set (sec_ops X e)"
| "loops_in X e pc \<longleftrightarrow> True"

definition loops_ok :: "'x ext_scheme \<Rightarrow> conc \<Rightarrow> bool" where
  "loops_ok X c \<longleftrightarrow> (\<forall>t e pc. cc_threads c t = Some (T_Insert e pc) \<longrightarrow> loops_in X e pc)"

lemma loops_in_step: "ins_step X e pc s = (pc', s') \<Longrightarrow> loops_in X e pc \<Longrightarrow> loops_in X e pc'"
  by (induction X e pc s rule: ins_step.induct)
    (auto simp: Let_def split: if_splits option.splits repl_key.splits removal.splits prod.splits)

lemma loops_ok_step: "conc_step X c c' \<Longrightarrow> loops_ok X c \<Longrightarrow> loops_ok X c'"
  by (induction rule: conc_step.induct) (auto simp: loops_ok_def dest: loops_in_step)

lemma loops_ok_run:
  assumes "(del_conc_step X)\<^sup>*\<^sup>* c0 c" "fresh_start X U (dc_conc c0)"
  shows "loops_ok X (dc_conc c)"
  using assms(1)
proof (induction rule: rtranclp_induct)
  case base
  have "pc = I_Start" if "cc_threads (dc_conc c0) t = Some (T_Insert e pc)" for t e pc
    using that assms(2) unfolding fresh_start_def by (fastforce simp: ran_def)
  then show ?case unfolding loops_ok_def by (metis loops_in.simps(3))
next
  case (step c1 c2)
  from step.hyps(2) step.IH show ?case
  proof (induction rule: del_conc_step.induct)
    case (other c c')
    then show ?case using loops_ok_step by simp
  next
    case (delete c t pc pc' s')
    then show ?case by (simp add: loops_ok_def)
  qed
qed

lemma phase_places:
  assumes "phase X e pc L P R" "loops_in X e pc"
  shows "P \<subseteq> places e (sec_ops X e)" "pc = I_Done out \<Longrightarrow> L \<Longrightarrow> P = places e (sec_ops X e)"
    "pc = I_Done out \<Longrightarrow> \<not> L \<Longrightarrow> P \<subseteq> R"
proof -
  show "P \<subseteq> places e (sec_ops X e)"
    using assms by (cases pc) (force simp: places_def)+
qed (use assms in auto)

lemma left_of_unlinking: "left_of X c e \<noteq> {} \<Longrightarrow> unlinking c e"
  by (auto simp: left_of_def th_left_def unlinking_def split: if_splits)

lemma present_between:
  assumes "inj_on ev_id U" "fresh_start X U (dc_conc c0)" "\<forall>pc \<in> ran (dc_deletes c0). \<exists>i. pc = D_Id i"
    and "(del_conc_step X)\<^sup>*\<^sup>* c0 c"
  shows "{e \<in> settled_events c. k \<in> places e (sec_ops X e)} \<subseteq> {e \<in> U. k \<in> present (cc_index (dc_conc c)) e}"
    and "{e \<in> U. k \<in> present (cc_index (dc_conc c)) e} \<subseteq> {e \<in> visible_events X U c. k \<in> places e (sec_ops X e)}"
    and "places_wf U (cc_index (dc_conc c))"
proof -
  let ?v = "conc_view X c" and ?s = "cc_index (dc_conc c)"
  note ok = del_conc_run_ok [OF assms]
  note maps = structure_okD(2) [OF ok(1)] and solo = structure_okD(1) [OF ok(1)]
  show "places_wf U ?s" using maps by (simp add: maps_ok_def)
  have sub: "stored ?s \<subseteq> U" and live: "e \<in> stored ?s \<longleftrightarrow> live ?v e" for e
    using maps by (simp_all add: maps_ok_def stored_def live_def keyed_ran_iff)
  have ph: "phase X e (pc_of ?v e) (live ?v e) (present ?s e) (left_of X ?v e)" if "e \<in> U" for e
    using ok(2) that by (simp add: events_ok_def event_ok_def)
  have loops: "loops_in X e (pc_of ?v e)" for e
  proof (cases "\<exists>n pc. cc_threads ?v n = Some (T_Insert e pc)")
    case True
    then obtain n pc where n: "cc_threads ?v n = Some (T_Insert e pc)" by blast
    then obtain t where "cc_threads (dc_conc c) t = Some (T_Insert e pc)" using view_insert_thread by blast
    then show ?thesis
      using loops_ok_run [OF assms(4,2)] pc_of_thread [OF solo n] by (simp add: loops_ok_def)
  qed (simp add: pc_of_def)
  note pl = phase_places [OF ph loops]
  show "{e \<in> settled_events c. k \<in> places e (sec_ops X e)} \<subseteq> {e \<in> U. k \<in> present ?s e}"
    using sub pl(2) live inserting_pc [OF solo] unfolding settled_events_def by blast
  have "e \<in> visible_events X U c" if e: "e \<in> U" and k: "k \<in> present ?s e" for e
  proof (rule ccontr)
    assume no: "e \<notin> visible_events X U c"
    then obtain out where "pc_of ?v e = I_Done out" "\<not> live ?v e" "\<not> unlinking ?v e"
      using e live inserting_pc [OF solo] removing_view unfolding visible_events_def by blast
    then show False using pl(3) [OF e] k left_of_unlinking by blast
  qed
  then show "{e \<in> U. k \<in> present ?s e} \<subseteq> {e \<in> visible_events X U c. k \<in> places e (sec_ops X e)}"
    using pl(1) by blast
qed

section \<open>What a query sees\<close>

text \<open>An answer from a set between two others.\<close>

definition answers_between :: "event set \<Rightarrow> event set \<Rightarrow> nat \<Rightarrow> event list \<Rightarrow> bool" where
  "answers_between lo hi n es \<longleftrightarrow> (\<exists>E. lo \<subseteq> E \<and> E \<subseteq> hi \<and> answers E n es)"

lemma read_between:
  assumes "inj_on ev_id U" "fresh_start X U (dc_conc c0)" "\<forall>pc \<in> ran (dc_deletes c0). \<exists>i. pc = D_Id i"
    and "(del_conc_step X)\<^sup>*\<^sup>* c0 c"
  shows "answers_between {e \<in> settled_events c. k \<in> places e (sec_ops X e)}
    {e \<in> visible_events X U c. k \<in> places e (sec_ops X e)} n (place_read (cc_index (dc_conc c)) k n)"
  unfolding answers_between_def
  by (rule exI, rule conjI [OF present_between(1) [OF assms] conjI [OF present_between(2) [OF assms]]])
    (rule place_answers [OF present_between(3) [OF assms]])

lemma since_between:
  assumes "inj_on ev_id U" "fresh_start X U (dc_conc c0)" "\<forall>pc \<in> ran (dc_deletes c0). \<exists>i. pc = D_Id i"
    and "(del_conc_step X)\<^sup>*\<^sup>* c0 c"
  shows "answers_between {e \<in> settled_events c. tag_id_hash (ev_pubkey e) = tag_id_hash pk \<and> since \<le> ev_created_at e}
    {e \<in> visible_events X U c. tag_id_hash (ev_pubkey e) = tag_id_hash pk \<and> since \<le> ev_created_at e} n
    (query_by_pubkey_since (cc_index (dc_conc c)) pk since n)"
proof -
  let ?k = "K_Pubkey (tag_id_hash pk)" and ?s = "cc_index (dc_conc c)"
  have "{e \<in> settled_events c. tag_id_hash (ev_pubkey e) = tag_id_hash pk} \<subseteq> {e \<in> U. ?k \<in> present ?s e}"
    "{e \<in> U. ?k \<in> present ?s e} \<subseteq> {e \<in> visible_events X U c. tag_id_hash (ev_pubkey e) = tag_id_hash pk}"
    using present_between(1,2) [OF assms, of ?k] by (simp_all add: eq_commute [of "tag_id_hash pk"])
  then show ?thesis
    using place_answers_since [OF present_between(3) [OF assms], of pk since n]
    unfolding answers_between_def
    by (intro exI [of _ "{e \<in> {e \<in> U. ?k \<in> present ?s e}. since \<le> ev_created_at e}"] conjI) auto
qed

text \<open>
  C18. At any point of a run in which inserts of distinct events that are not stored at its start,
  evictions and deletions interleave, each query answers, newest first and within its limit, from a set of events with its
  key that contains every stored event whose insert is done, and only events that are stored, being
  inserted or being removed.
\<close>

theorem concurrent_query_sees:
  assumes "inj_on ev_id U" "fresh_start X U (dc_conc c0)" "\<forall>pc \<in> ran (dc_deletes c0). \<exists>i. pc = D_Id i"
    and "(del_conc_step X)\<^sup>*\<^sup>* c0 c" and "s = cc_index (dc_conc c)"
  shows "answers_between {e \<in> settled_events c. ev_kind e = kind} {e \<in> visible_events X U c. ev_kind e = kind} n
      (query_by_kind s kind n) \<and>
    answers_between {e \<in> settled_events c. tag_id_hash (ev_pubkey e) = tag_id_hash pk}
      {e \<in> visible_events X U c. tag_id_hash (ev_pubkey e) = tag_id_hash pk} n (query_by_pubkey s pk n) \<and>
    answers_between {e \<in> settled_events c. tag_id_hash (ev_pubkey e) = tag_id_hash pk \<and> since \<le> ev_created_at e}
      {e \<in> visible_events X U c. tag_id_hash (ev_pubkey e) = tag_id_hash pk \<and> since \<le> ev_created_at e} n
      (query_by_pubkey_since s pk since n) \<and>
    answers_between {e \<in> settled_events c. tag_id_hash i \<in> e_keys X e}
      {e \<in> visible_events X U c. tag_id_hash i \<in> e_keys X e} n (query_by_e_tag s i n) \<and>
    answers_between {e \<in> settled_events c. tag_id_hash i \<in> p_keys X e}
      {e \<in> visible_events X U c. tag_id_hash i \<in> p_keys X e} n (query_by_p_tag s i n) \<and>
    answers_between {e \<in> settled_events c. (letter, v) \<in> other_keys e}
      {e \<in> visible_events X U c. (letter, v) \<in> other_keys e} n (query_by_tag s letter v n)"
proof -
  note r = read_between [OF assms(1-4)]
  show ?thesis
    using r [of "K_Kind kind" n] r [of "K_Pubkey (tag_id_hash pk)" n] r [of "K_E (tag_id_hash i)" n]
      r [of "K_P (tag_id_hash i)" n] r [of "K_Other (letter, v)" n] since_between [OF assms(1-4), of pk since n]
    unfolding assms(5) query_reads in_places by (simp add: eq_commute [of kind] eq_commute [of "tag_id_hash pk"])
qed

text \<open>The note has been inserted; the deletion of it has not begun.\<close>

definition noted :: del_conc where
  "noted = del_state sample_note (I_Done (fst (index_insert sample_ext sample_note index_new)))
     (D_Id (ev_id sample_note)) (snd (index_insert sample_ext sample_note index_new))"

lemma noted_run: "(del_conc_step sample_ext)\<^sup>*\<^sup>* (insert_and_delete index_new sample_note (ev_id sample_note)) noted"
  unfolding noted_def by (rule del_state_insert [OF _ ends_in_insert]) (simp add: del_state_start)

lemma noted_start:
  "fresh_start sample_ext (set sample_events) (dc_conc (insert_and_delete index_new sample_note (ev_id sample_note)))"
  "\<forall>pc \<in> ran (dc_deletes (insert_and_delete index_new sample_note (ev_id sample_note))). \<exists>i. pc = D_Id i"
  using index_inv_new [of sample_ext "set sample_events"]
  by (auto simp: fresh_start_def insert_and_delete_def solo_def stored_def ran_def split: if_splits)

lemma noted_settled: "sample_note \<in> settled_events noted"
proof -
  have "stored (snd (index_insert sample_ext sample_note index_new)) = {sample_note}"
    using sample_index_note by (simp add: insert_all_def)
  moreover have "\<not> inserting noted sample_note"
    by (auto simp: inserting_def noted_def del_state_def split: if_splits)
  ultimately show ?thesis by (simp add: settled_events_def noted_def)
qed

theorem concurrent_query_sees_witness:
  "sample_note \<in> set (query_by_kind (cc_index (dc_conc noted)) 1 10)"
proof -
  have between: "answers_between {e \<in> settled_events noted. ev_kind e = 1}
      {e \<in> visible_events sample_ext (set sample_events) noted. ev_kind e = 1} 10
      (query_by_kind (cc_index (dc_conc noted)) 1 10)"
    using concurrent_query_sees [OF sample_inj noted_start noted_run refl] by blast
  obtain E where E: "sample_note \<in> E" "E \<subseteq> set sample_events" "answers E 10 (query_by_kind (cc_index (dc_conc noted)) 1 10)"
  proof -
    have "ev_kind sample_note = 1" by (simp add: sample_note_def)
    then show thesis
      using that noted_settled between unfolding answers_between_def visible_events_def by blast
  qed
  have "card E \<le> length sample_events" by (rule order_trans [OF card_mono [OF _ E(2)] card_length]) simp
  then have "card E \<le> 10" by (simp add: sample_events_def)
  then show ?thesis using answers_complete [OF E(3)] finite_subset [OF E(2)] E(1) by simp
qed

section \<open>An eviction and a second publication\<close>





lemma del_all_frame [simp]: "by_id (fold (del_op e) ops s) = by_id s"
  by (induction ops arbitrary: s) simp_all





end
