(* ===== verification/Wal.thy ===== *)
theory Wal
  imports Nostr_Event
begin

text \<open>
  The write-ahead log (\<^verbatim>\<open>src/src/store/wal.rs\<close>): the record format, the appending operations,
  rotation, truncation and compaction, and the reader. The state holds the bytes of the two
  segments as a reader sees them, how many bytes of the live segment have been fsynced, and the
  two counters. \<open>append\<close> flushes its buffer before it returns, so between operations the buffer
  is empty and the log is the bytes of the file. The file system is taken to accept every write;
  what a crash leaves behind is a prefix of the live segment (\<open>wal_crash\<close>).
\<close>

section \<open>Records\<close>

definition MAX_WAL_RECORD_SIZE :: nat where
  "MAX_WAL_RECORD_SIZE = 16 * 1024 * 1024"

datatype wal_op = WalInsert bytes | WalDelete bytes | WalTombstone bytes

text \<open>\<open>u32::to_le_bytes\<close> and \<open>u32::from_le_bytes\<close>.\<close>

definition to_le_bytes :: "u32 \<Rightarrow> bytes" where
  "to_le_bytes w =
     [ucast w, ucast (drop_bit 8 w), ucast (drop_bit 16 w), ucast (drop_bit 24 w)]"

definition from_le_bytes :: "bytes \<Rightarrow> u32" where
  "from_le_bytes bs = foldr (\<lambda>b acc. push_bit 8 acc OR ucast b) bs 0"

text \<open>The bytes that \<open>append\<close> writes; \<open>data.len() as u32\<close> wraps.\<close>

definition encode_op :: "wal_op \<Rightarrow> bytes" where
  "encode_op op =
     (case op of
        WalInsert data \<Rightarrow> 0 # to_le_bytes (of_nat (length data)) @ data
      | WalDelete i \<Rightarrow> 1 # i
      | WalTombstone i \<Rightarrow> 2 # i)"

section \<open>The log\<close>

record wal =
  wal_log :: bytes
  wal_old :: "bytes option"
  wal_synced :: nat
  wal_dirty :: bool
  wal_bytes :: u64

text \<open>
  \<open>open\<close> on what is on disk: an existing \<open>wal.log\<close> is appended to, a missing one created.
\<close>

definition wal_open :: "bytes option \<Rightarrow> bytes option \<Rightarrow> wal" where
  "wal_open log old =
     (let bs = (case log of Some bs \<Rightarrow> bs | None \<Rightarrow> []) in
      \<lparr>wal_log = bs, wal_old = old, wal_synced = length bs, wal_dirty = False,
       wal_bytes = of_nat (length bs)\<rparr>)"

definition append_op :: "wal_op \<Rightarrow> wal \<Rightarrow> wal" where
  "append_op op w =
     w\<lparr>wal_log := wal_log w @ encode_op op,
       wal_dirty := True,
       wal_bytes := wal_bytes w +
         (1 + (case op of
                 WalInsert data \<Rightarrow> 4 + of_nat (length data)
               | WalDelete _ \<Rightarrow> 32
               | WalTombstone _ \<Rightarrow> 32))\<rparr>"

definition pending_bytes :: "wal \<Rightarrow> u64" where
  "pending_bytes w = wal_bytes w"

definition rotate_wal :: "wal \<Rightarrow> wal" where
  "rotate_wal w =
     w\<lparr>wal_old := Some (wal_log w), wal_log := [], wal_synced := 0, wal_bytes := 0,
       wal_dirty := False\<rparr>"

definition group_commit :: "wal \<Rightarrow> bool \<times> wal" where
  "group_commit w =
     (if \<not> wal_dirty w then (False, w)
      else (True, w\<lparr>wal_dirty := False, wal_synced := length (wal_log w)\<rparr>))"

definition wal_insert :: "event \<Rightarrow> wal \<Rightarrow> wal" where
  "wal_insert e w = append_op (WalInsert (ev_raw e)) w"

definition wal_delete :: "bytes \<Rightarrow> wal \<Rightarrow> wal" where
  "wal_delete i w = append_op (WalDelete i) w"

definition wal_tombstone :: "bytes \<Rightarrow> wal \<Rightarrow> wal" where
  "wal_tombstone i w = append_op (WalTombstone i) w"

definition flush_wal :: "wal \<Rightarrow> wal" where
  "flush_wal w = w\<lparr>wal_synced := length (wal_log w), wal_dirty := False\<rparr>"

definition truncate_wal :: "wal \<Rightarrow> wal" where
  "truncate_wal w = w\<lparr>wal_log := [], wal_synced := 0\<rparr>"

section \<open>The reader\<close>

datatype wal_error = UnexpectedEof | RecordTooLarge nat

text \<open>
  \<open>replay_path\<close> on the bytes of a segment: the operations handed to the callback, and the result,
  an error or the count. A read at the end and an unknown type byte end the loop normally.
\<close>

definition replay_cons ::
    "wal_op \<Rightarrow> wal_op list \<times> (wal_error + nat) \<Rightarrow> wal_op list \<times> (wal_error + nat)" where
  "replay_cons op r = (op # fst r, (case snd r of Inl err \<Rightarrow> Inl err | Inr n \<Rightarrow> Inr (Suc n)))"

function replay_bytes :: "bytes \<Rightarrow> wal_op list \<times> (wal_error + nat)" where
  "replay_bytes bs =
     (case bs of
        [] \<Rightarrow> ([], Inr 0)
      | t # r \<Rightarrow>
          if t = 0 then
            (if length r < 4 then ([], Inl UnexpectedEof)
             else
               let len = unat (from_le_bytes (take 4 r)); r' = drop 4 r in
               if MAX_WAL_RECORD_SIZE < len then ([], Inl (RecordTooLarge len))
               else if length r' < len then ([], Inl UnexpectedEof)
               else replay_cons (WalInsert (take len r')) (replay_bytes (drop len r')))
          else if t = 1 then
            (if length r < 32 then ([], Inl UnexpectedEof)
             else replay_cons (WalDelete (take 32 r)) (replay_bytes (drop 32 r)))
          else if t = 2 then
            (if length r < 32 then ([], Inl UnexpectedEof)
             else replay_cons (WalTombstone (take 32 r)) (replay_bytes (drop 32 r)))
          else ([], Inr 0))"
  by pat_completeness auto
termination by (relation "measure length") auto

declare replay_bytes.simps [simp del]

definition replay_wal :: "wal \<Rightarrow> wal_op list \<times> (wal_error + nat)" where
  "replay_wal w = replay_bytes (wal_log w)"

section \<open>Compaction\<close>

text \<open>
  The streaming loop of \<open>compact\<close>: the bytes written to the temporary file and the number of
  records removed, or the error that leaves the log as it was. \<open>seen\<close> are the ids already kept.
\<close>

function compact_loop ::
    "'x ext_scheme \<Rightarrow> bytes set \<Rightarrow> bytes set \<Rightarrow> bytes \<Rightarrow> wal_error + (bytes \<times> nat)" where
  "compact_loop X live seen bs =
     (case bs of
        [] \<Rightarrow> Inr ([], 0)
      | t # r \<Rightarrow>
          if t = 0 then
            (if length r < 4 then Inr ([], 0)
             else
               let len = unat (from_le_bytes (take 4 r)); r' = drop 4 r in
               if MAX_WAL_RECORD_SIZE < len then Inl (RecordTooLarge len)
               else if length r' < len then Inr ([], 0)
               else
                 let data = take len r' in
                 (case from_json_unchecked X data of
                    Inr e \<Rightarrow>
                      if ev_id e \<in> live \<and> ev_id e \<notin> seen
                      then map_sum id (\<lambda>(out, n). (0 # take 4 r @ data @ out, n))
                             (compact_loop X live (insert (ev_id e) seen) (drop len r'))
                      else map_sum id (\<lambda>(out, n). (out, Suc n))
                             (compact_loop X live seen (drop len r'))
                  | Inl _ \<Rightarrow>
                      map_sum id (\<lambda>(out, n). (out, Suc n))
                        (compact_loop X live seen (drop len r'))))
          else if t = 1 \<or> t = 2 then
            (if length r < 32 then Inr ([], 0)
             else map_sum id (\<lambda>(out, n). (out, Suc n)) (compact_loop X live seen (drop 32 r)))
          else Inr ([], 0))"
  by pat_completeness auto
termination by (relation "measure (\<lambda>(X, live, seen, bs). length bs)") auto

declare compact_loop.simps [simp del]

definition compact_wal ::
    "'x ext_scheme \<Rightarrow> bytes set \<Rightarrow> wal \<Rightarrow> (wal_error + nat) \<times> wal" where
  "compact_wal X live w =
     (case compact_loop X live {} (wal_log w) of
        Inl err \<Rightarrow> (Inl err, w)
      | Inr (out, removed) \<Rightarrow>
          (Inr removed, w\<lparr>wal_log := out, wal_synced := length out\<rparr>))"

text \<open>
  After a power failure the live segment is some prefix of what was written that holds at
  least the fsynced part; after a crash of the process it is all of it.
\<close>

definition wal_crash :: "nat \<Rightarrow> wal \<Rightarrow> bytes" where
  "wal_crash k w = take (max k (wal_synced w)) (wal_log w)"

section \<open>The record format\<close>

text \<open>What a record must satisfy for the reader to accept it.\<close>

fun op_ok :: "wal_op \<Rightarrow> bool" where
  "op_ok (WalInsert data) \<longleftrightarrow> length data \<le> MAX_WAL_RECORD_SIZE"
| "op_ok (WalDelete i) \<longleftrightarrow> length i = 32"
| "op_ok (WalTombstone i) \<longleftrightarrow> length i = 32"

definition encode_ops :: "wal_op list \<Rightarrow> bytes" where
  "encode_ops ops = concat (map encode_op ops)"

lemma encode_ops_simps [simp]:
  "encode_ops [] = []"
  "encode_ops (op # ops) = encode_op op @ encode_ops ops"
  "encode_ops (ops @ ops') = encode_ops ops @ encode_ops ops'"
  by (simp_all add: encode_ops_def)

lemma length_to_le_bytes [simp]: "length (to_le_bytes w) = 4"
  by (simp add: to_le_bytes_def)

lemma from_to_le_bytes [simp]: "from_le_bytes (to_le_bytes w) = w"
proof (rule bit_word_eqI)
  fix n assume "n < LENGTH(32)"
  then consider "n < 8" | "8 \<le> n" "n < 16" | "16 \<le> n" "n < 24" | "24 \<le> n" "n < 32" by force
  then show "bit (from_le_bytes (to_le_bytes w)) n = bit w n"
    by cases (auto simp: from_le_bytes_def to_le_bytes_def bit_simps)
qed

lemma unat_length:
  assumes "length data \<le> MAX_WAL_RECORD_SIZE"
  shows "unat (of_nat (length data) :: u32) = length data"
proof -
  have "length data < 2 ^ 32" using assms by (simp add: MAX_WAL_RECORD_SIZE_def)
  then show ?thesis by (simp add: unsigned_of_nat take_bit_nat_eq_self)
qed

lemma encode_op_nonempty [simp]: "encode_op op \<noteq> []" "0 < length (encode_op op)"
  by (auto simp: encode_op_def split: wal_op.splits)

text \<open>One record is read back and the reader continues with what follows it.\<close>

lemma replay_step:
  assumes "op_ok op"
  shows "replay_bytes (encode_op op @ rest) = replay_cons op (replay_bytes rest)"
proof (cases op)
  case (WalInsert data)
  then show ?thesis
    using assms unat_length [of data]
    by (subst replay_bytes.simps) (simp add: encode_op_def Let_def not_less)
qed (use assms in \<open>subst replay_bytes.simps; simp add: encode_op_def\<close>)+

lemma replay_prefix:
  "list_all op_ok ops \<Longrightarrow>
   replay_bytes (encode_ops ops @ rest) = foldr replay_cons ops (replay_bytes rest)"
  by (induction ops) (simp_all add: replay_step)

lemma foldr_replay_cons:
  "foldr replay_cons ops r =
     (ops @ fst r, (case snd r of Inl err \<Rightarrow> Inl err | Inr n \<Rightarrow> Inr (length ops + n)))"
  by (induction ops) (auto simp: replay_cons_def prod_eq_iff split: sum.splits)

lemma replay_empty [simp]: "replay_bytes [] = ([], Inr 0)"
  by (subst replay_bytes.simps) simp

lemma replay_encode:
  "list_all op_ok ops \<Longrightarrow> replay_bytes (encode_ops ops) = (ops, Inr (length ops))"
  using replay_prefix [of ops "[]"] by (simp add: foldr_replay_cons)

text \<open>A record that is cut short is not delivered.\<close>

lemma replay_torn_record:
  assumes "op_ok op" "0 < k" "k < length (encode_op op)"
  shows "replay_bytes (take k (encode_op op)) = ([], Inl UnexpectedEof)"
proof -
  obtain j where k: "k = Suc j" using assms(2) by (cases k) auto
  show ?thesis
  proof (cases op)
    case (WalInsert data)
    note un = unat_length [OF assms(1) [unfolded WalInsert op_ok.simps]]
    have "take 4 (take j (to_le_bytes w @ data)) = take j (to_le_bytes w)" if "j < 4" for w
      using that by simp
    moreover have "length data > j - 4" if "\<not> j < 4"
      using assms(3) that WalInsert k by (simp add: encode_op_def)
    ultimately show ?thesis
      using assms un WalInsert k
      by (subst replay_bytes.simps) (auto simp: encode_op_def Let_def not_less min_def)
  qed (use assms k in \<open>subst replay_bytes.simps; simp add: encode_op_def\<close>)+
qed

text \<open>
  Any prefix of a well-formed log reads back as the records that it holds completely: the reader
  delivers nothing that was not written and loses only the torn record at the end.
\<close>

lemma replay_torn_log:
  assumes "list_all op_ok ops"
  shows "\<exists>n \<le> length ops.
     length (encode_ops (take n ops)) \<le> k \<and>
     (n < length ops \<longrightarrow> k < length (encode_ops (take (Suc n) ops))) \<and>
     replay_bytes (take k (encode_ops ops)) =
       (take n ops,
        if n = length ops \<or> k = length (encode_ops (take n ops)) then Inr n else Inl UnexpectedEof)"
  using assms
proof (induction ops arbitrary: k)
  case (Cons op ops)
  let ?len = "length (encode_op op)"
  have op: "op_ok op" and ops: "list_all op_ok ops" using Cons.prems by simp_all
  show ?case
  proof (cases "k < ?len")
    case True
    have "replay_bytes (take k (encode_ops (op # ops))) =
        ([], if k = 0 then Inr 0 else Inl UnexpectedEof)"
      using True replay_torn_record [OF op, of k] by simp
    with True show ?thesis by (intro exI [of _ 0]) simp
  next
    case False
    from Cons.IH [OF ops, of "k - ?len"] obtain n where n: "n \<le> length ops"
      "length (encode_ops (take n ops)) \<le> k - ?len"
      "n < length ops \<longrightarrow> k - ?len < length (encode_ops (take (Suc n) ops))"
      "replay_bytes (take (k - ?len) (encode_ops ops)) = (take n ops,
        if n = length ops \<or> k - ?len = length (encode_ops (take n ops)) then Inr n
        else Inl UnexpectedEof)" by blast
    have "take k (encode_ops (op # ops)) = encode_op op @ take (k - ?len) (encode_ops ops)"
      using False by simp
    then have "replay_bytes (take k (encode_ops (op # ops))) =
        replay_cons op (replay_bytes (take (k - ?len) (encode_ops ops)))"
      by (simp only: replay_step [OF op])
    with n False show ?thesis by (intro exI [of _ "Suc n"]) (auto simp: replay_cons_def)
  qed
qed simp

section \<open>The counters\<close>

text \<open>The byte counter is the length of the live segment, modulo its width.\<close>

definition wal_inv :: "wal \<Rightarrow> bool" where
  "wal_inv w \<longleftrightarrow>
     wal_bytes w = of_nat (length (wal_log w)) \<and> wal_synced w \<le> length (wal_log w) \<and>
     (\<not> wal_dirty w \<longrightarrow> wal_synced w = length (wal_log w))"

lemma wal_inv_open: "wal_inv (wal_open log old)"
  by (simp add: wal_inv_def wal_open_def Let_def)

lemma length_encode_op:
  "op_ok op \<Longrightarrow> length (encode_op op) =
     1 + (case op of WalInsert data \<Rightarrow> 4 + length data | _ \<Rightarrow> 32)"
  by (cases op) (simp_all add: encode_op_def)

lemma wal_inv_append:
  assumes "wal_inv w" "op_ok op"
  shows "wal_inv (append_op op w)"
  using assms length_encode_op [OF assms(2)]
  by (auto simp: wal_inv_def append_op_def split: wal_op.splits)

lemma wal_inv_rotate: "wal_inv (rotate_wal w)"
  by (simp add: wal_inv_def rotate_wal_def)

lemma wal_inv_commit: "wal_inv w \<Longrightarrow> wal_inv (snd (group_commit w))"
  by (simp add: wal_inv_def group_commit_def)

lemma wal_inv_flush: "wal_inv w \<Longrightarrow> wal_inv (flush_wal w)"
  by (simp add: wal_inv_def flush_wal_def)

section \<open>What compaction keeps\<close>

text \<open>On records: the first insert of each live event, everything else dropped.\<close>

fun compact_ops :: "'x ext_scheme \<Rightarrow> bytes set \<Rightarrow> bytes set \<Rightarrow> wal_op list \<Rightarrow> wal_op list" where
  "compact_ops X live seen [] = []"
| "compact_ops X live seen (op # ops) =
     (case op of
        WalInsert data \<Rightarrow>
          (case from_json_unchecked X data of
             Inr e \<Rightarrow>
               if ev_id e \<in> live \<and> ev_id e \<notin> seen
               then op # compact_ops X live (insert (ev_id e) seen) ops
               else compact_ops X live seen ops
           | Inl _ \<Rightarrow> compact_ops X live seen ops)
      | _ \<Rightarrow> compact_ops X live seen ops)"

lemma compact_loop_empty [simp]: "compact_loop X live seen [] = Inr ([], 0)"
  by (subst compact_loop.simps) simp

lemma compact_step_insert:
  assumes "length data \<le> MAX_WAL_RECORD_SIZE"
  shows "compact_loop X live seen (encode_op (WalInsert data) @ rest) =
    (case from_json_unchecked X data of
       Inr e \<Rightarrow>
         if ev_id e \<in> live \<and> ev_id e \<notin> seen
         then map_sum id (\<lambda>(out, n). (encode_op (WalInsert data) @ out, n))
                (compact_loop X live (insert (ev_id e) seen) rest)
         else map_sum id (\<lambda>(out, n). (out, Suc n)) (compact_loop X live seen rest)
     | Inl _ \<Rightarrow> map_sum id (\<lambda>(out, n). (out, Suc n)) (compact_loop X live seen rest))"
  using assms unat_length [of data]
  by (subst compact_loop.simps)
    (cases "from_json_unchecked X data"; simp add: encode_op_def Let_def not_less)

lemma compact_step_id:
  assumes "length i = 32"
  shows "compact_loop X live seen (encode_op (WalDelete i) @ rest) =
      map_sum id (\<lambda>(out, n). (out, Suc n)) (compact_loop X live seen rest)"
    and "compact_loop X live seen (encode_op (WalTombstone i) @ rest) =
      map_sum id (\<lambda>(out, n). (out, Suc n)) (compact_loop X live seen rest)"
  using assms by (subst compact_loop.simps; simp add: encode_op_def)+

lemma length_compact_ops [simp]: "length (compact_ops X live seen ops) \<le> length ops"
  by (induction ops arbitrary: seen) (auto intro: le_SucI split: wal_op.splits sum.splits)

lemma compact_loop_ops:
  "list_all op_ok ops \<Longrightarrow>
   compact_loop X live seen (encode_ops ops) =
     Inr (encode_ops (compact_ops X live seen ops),
          length ops - length (compact_ops X live seen ops))"
proof (induction ops arbitrary: seen)
  case (Cons op ops)
  then have "op_ok op" "list_all op_ok ops" by simp_all
  with Cons.IH show ?case
    by (cases op) (auto simp: compact_step_insert compact_step_id Suc_diff_le split: sum.splits)
qed simp

lemma compact_ops_ok: "list_all op_ok ops \<Longrightarrow> list_all op_ok (compact_ops X live seen ops)"
  by (induction ops arbitrary: seen) (auto split: wal_op.splits sum.splits)

text \<open>The ids whose inserts survive, in order.\<close>

fun insert_ids :: "'x ext_scheme \<Rightarrow> wal_op list \<Rightarrow> bytes list" where
  "insert_ids X [] = []"
| "insert_ids X (op # ops) =
     (case op of
        WalInsert data \<Rightarrow>
          (case from_json_unchecked X data of
             Inr e \<Rightarrow> ev_id e # insert_ids X ops | Inl _ \<Rightarrow> insert_ids X ops)
      | _ \<Rightarrow> insert_ids X ops)"

lemma compact_ops_ids:
  "set (insert_ids X (compact_ops X live seen ops)) = set (insert_ids X ops) \<inter> live - seen"
  "distinct (insert_ids X (compact_ops X live seen ops))"
  "\<forall>op \<in> set (compact_ops X live seen ops). \<exists>data. op = WalInsert data"
  by (induction ops arbitrary: seen) (auto split: wal_op.splits sum.splits)

lemma compact_ops_from: "op \<in> set (compact_ops X live seen ops) \<Longrightarrow> op \<in> set ops"
  by (induction ops arbitrary: seen) (auto split: wal_op.splits sum.splits if_splits)

lemma compact_ops_idem:
  "compact_ops X live seen (compact_ops X live seen ops) = compact_ops X live seen ops"
  by (induction ops arbitrary: seen) (auto split: wal_op.splits sum.splits)

end
