(* ===== verification/Wal_Properties.thy ===== *)
theory Wal_Properties
  imports Wal Sample_Inputs
begin

text \<open>
  Properties of the write-ahead log: what is appended is read back, a crash loses only records
  that were not yet committed, the byte counter is exact, and what compaction keeps.
\<close>

lemma append_all_log:
  "wal_log (fold append_op ops w) = wal_log w @ encode_ops ops"
  by (induction ops arbitrary: w) (simp_all add: append_op_def)

lemma append_all_synced: "wal_synced (fold append_op ops w) = wal_synced w"
  by (induction ops arbitrary: w) (simp_all add: append_op_def)

lemma append_all_dirty: "wal_dirty (fold append_op ops w) \<longleftrightarrow> wal_dirty w \<or> ops \<noteq> []"
  by (induction ops arbitrary: w) (auto simp: append_op_def)

text \<open>A log cut behind some of its records still holds these.\<close>

lemma replay_torn_beyond:
  assumes "list_all op_ok (ops @ later)" "length (encode_ops ops) \<le> k"
  shows "\<exists>n r. length ops \<le> n \<and> n \<le> length (ops @ later) \<and> r \<in> {Inr n, Inl UnexpectedEof} \<and>
    replay_bytes (take k (encode_ops (ops @ later))) = (take n (ops @ later), r)"
proof -
  from replay_torn_log [OF assms(1), of k] obtain n where n: "n \<le> length (ops @ later)"
    "n < length (ops @ later) \<longrightarrow> k < length (encode_ops (take (Suc n) (ops @ later)))"
    "replay_bytes (take k (encode_ops (ops @ later))) = (take n (ops @ later),
       if n = length (ops @ later) \<or> k = length (encode_ops (take n (ops @ later))) then Inr n
       else Inl UnexpectedEof)" by blast
  have "length ops \<le> n"
  proof (rule ccontr)
    assume less: "\<not> length ops \<le> n"
    then have "take (Suc n) (ops @ later) = take (Suc n) ops" by simp
    moreover have "length (encode_ops (take (Suc n) ops)) \<le> length (encode_ops ops)"
      by (metis append_take_drop_id encode_ops_simps(3) le_add1 length_append)
    ultimately show False using n(2) less assms(2) by simp
  qed
  then show ?thesis using n(1,3) by (auto split: if_splits)
qed

section \<open>Durability\<close>

text \<open>
  C30. The log reads back as written: opened on a fresh directory, a log to which records have been
  appended replays exactly these records, in order, and reports their number.
\<close>

theorem wal_round_trip:
  assumes "list_all op_ok ops"
  shows "replay_wal (fold append_op ops (wal_open None old)) = (ops, Inr (length ops))"
  using replay_encode [OF assms] by (simp add: replay_wal_def append_all_log wal_open_def)

theorem wal_round_trip_witness:
  "replay_wal (fold append_op
       [WalInsert [1, 2], WalDelete (replicate 32 0), WalTombstone (replicate 32 1)]
       (wal_open None None)) =
     ([WalInsert [1, 2], WalDelete (replicate 32 0), WalTombstone (replicate 32 1)], Inr 3)"
proof -
  have "list_all op_ok [WalInsert [1, 2], WalDelete (replicate 32 0), WalTombstone (replicate 32 1)]"
    by (simp add: MAX_WAL_RECORD_SIZE_def)
  from wal_round_trip [OF this, of None] show ?thesis by simp
qed

text \<open>
  A committed record survives a power failure: whatever part of the bytes written after a group
  commit reaches the disk, the segment replays as a prefix of the appended records that holds at
  least all the committed ones; only a torn record at its end makes the reader report an error.
\<close>

theorem committed_records_survive:
  assumes "list_all op_ok (ops @ later)"
    and "w = snd (group_commit (fold append_op ops (wal_open None old)))"
  shows "\<exists>n r. length ops \<le> n \<and> n \<le> length (ops @ later) \<and> r \<in> {Inr n, Inl UnexpectedEof} \<and>
    replay_bytes (wal_crash k (fold append_op later w)) = (take n (ops @ later), r)"
proof -
  have log: "wal_log w = encode_ops ops"
    by (simp add: assms(2) group_commit_def append_all_log wal_open_def)
  have syn: "wal_synced w = length (encode_ops ops)"
    by (simp add: assms(2) group_commit_def append_all_log append_all_synced append_all_dirty
        wal_open_def)
  have "wal_crash k (fold append_op later w) = take (max k (length (encode_ops ops))) (encode_ops (ops @ later))"
    by (simp add: wal_crash_def append_all_log append_all_synced log syn)
  then show ?thesis
    using replay_torn_beyond [OF assms(1), of "max k (length (encode_ops ops))"] by simp
qed

theorem committed_records_survive_witness:
  "\<exists>n r. 1 \<le> n \<and> n \<le> 2 \<and> r \<in> {Inr n, Inl UnexpectedEof} \<and>
    replay_bytes (wal_crash 9 (fold append_op [WalDelete (replicate 32 0)]
      (snd (group_commit (fold append_op [WalInsert [1, 2]] (wal_open None None)))))) =
    (take n [WalInsert [1, 2], WalDelete (replicate 32 0)], r)"
  using committed_records_survive [OF _ refl, of "[WalInsert [1, 2]]" "[WalDelete (replicate 32 0)]" 9 None]
  by (simp add: MAX_WAL_RECORD_SIZE_def numeral_2_eq_2)

section \<open>The byte counter\<close>

text \<open>The log in the course of appends, commits, flushes and rotations.\<close>

inductive wal_reach :: "wal \<Rightarrow> bool" where
  opened: "wal_reach (wal_open log old)"
| append: "wal_reach w \<Longrightarrow> op_ok op \<Longrightarrow> wal_reach (append_op op w)"
| commit: "wal_reach w \<Longrightarrow> wal_reach (snd (group_commit w))"
| flush: "wal_reach w \<Longrightarrow> wal_reach (flush_wal w)"
| rotate: "wal_reach w \<Longrightarrow> wal_reach (rotate_wal w)"

text \<open>
  However the log is appended to, committed, flushed and rotated, \<open>pending_bytes\<close>, on which the
  checkpoint triggers, is the length of the live segment (modulo its width), and a log that is not
  marked dirty is completely on disk.
\<close>

theorem wal_reachable_inv:
  assumes "wal_reach w"
  shows "pending_bytes w = of_nat (length (wal_log w)) \<and>
    (\<not> wal_dirty w \<longrightarrow> wal_crash k w = wal_log w)"
proof -
  from assms have "wal_inv w"
    by induction (simp_all add: wal_inv_open wal_inv_append wal_inv_commit wal_inv_flush wal_inv_rotate)
  then show ?thesis by (auto simp: wal_inv_def pending_bytes_def wal_crash_def)
qed

theorem wal_reachable_inv_witness:
  "pending_bytes (append_op (WalDelete (replicate 32 0)) (wal_open None None)) = 33"
proof -
  have "wal_reach (append_op (WalDelete (replicate 32 0)) (wal_open None None))"
    by (intro wal_reach.intros) simp
  from wal_reachable_inv [OF this, of 0] show ?thesis
    by (simp add: append_op_def wal_open_def encode_op_def)
qed

text \<open>
  \<open>truncate\<close> empties the segment and leaves the counter: the log then holds no byte while
  \<open>pending_bytes\<close> still reports what it held before, though its comment promises the bytes since
  the last rotate or truncate.
\<close>

lemma truncate_keeps_pending_bytes:
  "wal_log (truncate_wal w) = [] \<and> pending_bytes (truncate_wal w) = pending_bytes w"
  by (simp add: truncate_wal_def pending_bytes_def)

section \<open>Compaction\<close>

text \<open>
  Compaction keeps a live event's first insert and nothing else: the compacted log replays
  without error as a selection of the old records, all inserts, whose ids are the live ids that
  the log inserts, each once; the answer is the number of records dropped.
\<close>

theorem compact_wal_keeps_live:
  assumes "list_all op_ok ops" "wal_log w = encode_ops ops"
  shows "\<exists>kept. set kept \<subseteq> set ops \<and> (\<forall>op \<in> set kept. \<exists>data. op = WalInsert data) \<and>
    distinct (insert_ids X kept) \<and> set (insert_ids X kept) = set (insert_ids X ops) \<inter> live \<and>
    fst (compact_wal X live w) = Inr (length ops - length kept) \<and>
    replay_wal (snd (compact_wal X live w)) = (kept, Inr (length kept))"
proof (intro exI conjI)
  let ?kept = "compact_ops X live {} ops"
  show "set ?kept \<subseteq> set ops" using compact_ops_from by blast
  show "\<forall>op \<in> set ?kept. \<exists>data. op = WalInsert data" by (rule compact_ops_ids(3))
  show "distinct (insert_ids X ?kept)" by (rule compact_ops_ids(2))
  show "set (insert_ids X ?kept) = set (insert_ids X ops) \<inter> live"
    using compact_ops_ids(1) [of X live "{}" ops] by simp
  note loop = compact_loop_ops [OF assms(1), of X live "{}"]
  show "fst (compact_wal X live w) = Inr (length ops - length ?kept)"
    by (simp add: compact_wal_def assms(2) loop)
  show "replay_wal (snd (compact_wal X live w)) = (?kept, Inr (length ?kept))"
    using replay_encode [OF compact_ops_ok [OF assms(1)]]
    by (simp add: compact_wal_def replay_wal_def assms(2) loop)
qed

theorem compact_wal_keeps_live_witness:
  "\<exists>kept. set (insert_ids sample_ext kept) = {ev_id sample_note} \<and>
     replay_wal (snd (compact_wal sample_ext {ev_id sample_note}
       (fold append_op [WalInsert (ev_raw sample_note), WalInsert (ev_raw sample_old)]
          (wal_open None None)))) = (kept, Inr (length kept))"
proof -
  let ?ops = "[WalInsert (ev_raw sample_note), WalInsert (ev_raw sample_old)]"
  have ok: "list_all op_ok ?ops"
    by (simp add: sample_note_def sample_old_def MAX_WAL_RECORD_SIZE_def)
  have log: "wal_log (fold append_op ?ops (wal_open None None)) = encode_ops ?ops"
    by (simp only: append_all_log) (simp add: wal_open_def)
  have "set (insert_ids sample_ext ?ops) \<inter> {ev_id sample_note} = {ev_id sample_note}"
    using sample_parses [OF sample_member(1)] sample_parses [OF sample_member(2)]
    by auto
  then show ?thesis
    using compact_wal_keeps_live [OF ok log, of sample_ext "{ev_id sample_note}"] by metis
qed

end
