(* ===== verification/Buf_Writer.thy ===== *)
theory Buf_Writer
  imports Memlay_Prelude "HOL-Library.Sublist"
begin

text \<open>
  \<open>std::io::BufWriter\<close> over a file whose writes may fail, as the log and the snapshot use it. An
  operation is given the number of bytes that the file still takes, its \<open>room\<close>: a write that needs
  more writes what fits and fails, as on a full disk. Since an operation stops at its first error,
  this covers every way in which its writes can fail.
\<close>

section \<open>Failing actions\<close>

text \<open>An action works on the room and a state; \<open>and_then\<close> is the sequencing of \<^verbatim>\<open>?\<close>.\<close>

type_synonym 's action = "nat \<times> 's \<Rightarrow> bool \<times> (nat \<times> 's)"

definition and_then :: "'s action \<Rightarrow> 's action \<Rightarrow> 's action" where
  "and_then f g p = (let (ok, q) = f p in if ok then g q else (False, q))"

section \<open>The writer\<close>

record buf_writer =
  bw_file :: bytes
  bw_buf :: bytes

definition BUF_CAPACITY :: nat where
  "BUF_CAPACITY = 8192"

text \<open>What has been handed to the writer: the bytes in the file and those still in the buffer.\<close>

definition bw_all :: "buf_writer \<Rightarrow> bytes" where
  "bw_all b = bw_file b @ bw_buf b"

text \<open>\<open>File::write_all\<close>, past the buffer.\<close>

definition direct_write :: "bytes \<Rightarrow> buf_writer action" where
  "direct_write data p =
     (let (room, b) = p
      in (length data \<le> room, room - length data, b\<lparr>bw_file := bw_file b @ take room data\<rparr>))"

text \<open>\<open>flush_buf\<close>: what could not be written stays in the buffer.\<close>

definition flush_buf :: "buf_writer action" where
  "flush_buf p =
     (let (room, b) = p
      in (length (bw_buf b) \<le> room, room - length (bw_buf b),
          b\<lparr>bw_file := bw_file b @ take room (bw_buf b), bw_buf := drop room (bw_buf b)\<rparr>))"

definition buffer :: "bytes \<Rightarrow> buf_writer action" where
  "buffer data p = (True, fst p, (snd p)\<lparr>bw_buf := bw_buf (snd p) @ data\<rparr>)"

text \<open>\<open>write_all\<close> and its slow path, which writes large data past the buffer.\<close>

definition write_all_cold :: "bytes \<Rightarrow> buf_writer action" where
  "write_all_cold data p =
     and_then
       (if BUF_CAPACITY - length (bw_buf (snd p)) < length data then flush_buf else (\<lambda>q. (True, q)))
       (if BUF_CAPACITY \<le> length data then direct_write data else buffer data) p"

definition write_all :: "bytes \<Rightarrow> buf_writer action" where
  "write_all data p =
     (if length data < BUF_CAPACITY - length (bw_buf (snd p)) then buffer data p
      else write_all_cold data p)"

fun write_each :: "bytes list \<Rightarrow> buf_writer action" where
  "write_each [] p = (True, p)"
| "write_each (d # ds) p = and_then (write_all d) (write_each ds) p"

lemma write_each_append: "write_each (ds @ es) p = and_then (write_each ds) (write_each es) p"
  by (induction ds arbitrary: p) (simp_all add: and_then_def case_prod_beta' Let_def)

lemmas bw_defs = and_then_def direct_write_def flush_buf_def buffer_def write_all_cold_def
  write_all_def bw_all_def

section \<open>Writes that succeed\<close>

text \<open>With room for everything, the bytes arrive in order and the room shrinks by what was written.\<close>

lemma write_all_room:
  assumes "length (bw_buf b) + length data \<le> room"
  shows "\<exists>b'. write_all data (room, b) = (True, room - (length (bw_file b') - length (bw_file b)), b') \<and>
    bw_all b' = bw_all b @ data \<and> prefix (bw_file b) (bw_file b')"
proof -
  have "bw_buf b = []" if "BUF_CAPACITY \<le> BUF_CAPACITY - length (bw_buf b)"
    using that by (cases "bw_buf b") (auto simp: BUF_CAPACITY_def)
  then show ?thesis using assms by (auto simp: bw_defs Let_def)
qed

lemma write_each_room:
  assumes "length (bw_buf b) + length (concat ds) \<le> room"
  shows "\<exists>b'. write_each ds (room, b) = (True, room - (length (bw_file b') - length (bw_file b)), b') \<and>
    bw_all b' = bw_all b @ concat ds \<and> prefix (bw_file b) (bw_file b')"
  using assms
proof (induction ds arbitrary: room b)
  case (Cons d ds)
  obtain b1 where b1: "write_all d (room, b) = (True, room - (length (bw_file b1) - length (bw_file b)), b1)"
      "bw_all b1 = bw_all b @ d" "prefix (bw_file b) (bw_file b1)"
    using write_all_room [of b d room] Cons.prems by auto
  have "length (bw_all b1) = length (bw_all b) + length d" using b1(2) by simp
  then have "length (bw_buf b1) + length (concat ds) \<le> room - (length (bw_file b1) - length (bw_file b))"
    using Cons.prems prefix_length_le [OF b1(3)] by (simp add: bw_all_def)
  from Cons.IH [OF this] obtain b2 where b2:
      "write_each ds (room - (length (bw_file b1) - length (bw_file b)), b1) =
        (True, room - (length (bw_file b1) - length (bw_file b)) - (length (bw_file b2) - length (bw_file b1)), b2)"
      "bw_all b2 = bw_all b1 @ concat ds" "prefix (bw_file b1) (bw_file b2)" by blast
  have "prefix (bw_file b) (bw_file b2)" using b1(3) b2(3) by (rule prefix_order.trans)
  then show ?case
    using b1 b2 prefix_length_le [OF b1(3)] prefix_length_le [OF b2(3)]
    by (intro exI [of _ b2]) (simp add: and_then_def)
qed simp

definition write_flush :: "bytes list \<Rightarrow> buf_writer action" where
  "write_flush ds = and_then (write_each ds) flush_buf"

lemma write_flush_room:
  assumes "length (bw_buf b) + length (concat ds) \<le> room"
  shows "\<exists>r b'. write_flush ds (room, b) = (True, r, b') \<and>
    bw_file b' = bw_all b @ concat ds \<and> bw_buf b' = []"
proof -
  obtain b1 where b1: "write_each ds (room, b) = (True, room - (length (bw_file b1) - length (bw_file b)), b1)"
      "bw_all b1 = bw_all b @ concat ds" "prefix (bw_file b) (bw_file b1)"
    using write_each_room [OF assms] by blast
  have "length (bw_all b1) = length (bw_all b) + length (concat ds)" using b1(2) by simp
  then have "length (bw_buf b1) \<le> room - (length (bw_file b1) - length (bw_file b))"
    using assms prefix_length_le [OF b1(3)] by (simp add: bw_all_def)
  then show ?thesis
    using b1 by (simp add: write_flush_def and_then_def flush_buf_def bw_all_def)
qed

section \<open>Writes that fail\<close>

text \<open>Data that fits into the buffer is buffered, and only the flush at the end can fail.\<close>

lemma write_each_small:
  assumes "length (bw_buf b) + length (concat ds) < BUF_CAPACITY"
  shows "write_each ds (room, b) = (True, room, b\<lparr>bw_buf := bw_buf b @ concat ds\<rparr>)"
  using assms
proof (induction ds arbitrary: b)
  case (Cons d ds)
  then have "write_all d (room, b) = (True, room, b\<lparr>bw_buf := bw_buf b @ d\<rparr>)"
    by (simp add: bw_defs)
  then show ?case using Cons by (simp add: and_then_def)
qed simp

lemma write_flush_small:
  assumes "length (bw_buf b) + length (concat ds) < BUF_CAPACITY"
  shows "write_flush ds (room, b) =
    (let all = bw_buf b @ concat ds
     in (length all \<le> room, room - length all,
         b\<lparr>bw_file := bw_file b @ take room all, bw_buf := drop room all\<rparr>))"
  using write_each_small [OF assms, of room]
  by (simp add: write_flush_def and_then_def flush_buf_def Let_def)

text \<open>Data of the buffer's size goes past it, behind what is in it.\<close>

lemma write_all_large:
  assumes "BUF_CAPACITY \<le> length data" "bw_buf b \<noteq> []"
  shows "write_all data (room, b) = and_then flush_buf (direct_write data) (room, b)"
proof -
  have "BUF_CAPACITY - length (bw_buf b) < length data"
    using assms by (cases "bw_buf b") (auto simp: BUF_CAPACITY_def)
  then show ?thesis using assms by (simp add: write_all_def write_all_cold_def)
qed

text \<open>A write that reports success has handed over its data, whatever the room.\<close>

lemma write_all_success:
  assumes "write_all data (room, b) = (True, r, b')"
  shows "bw_all b' = bw_all b @ data"
proof -
  have "bw_buf b = []" if "BUF_CAPACITY \<le> BUF_CAPACITY - length (bw_buf b)"
    using that by (cases "bw_buf b") (auto simp: BUF_CAPACITY_def)
  then show ?thesis using assms by (auto simp: bw_defs Let_def split: if_splits)
qed

lemma write_each_success:
  "write_each ds (room, b) = (True, r, b') \<Longrightarrow> bw_all b' = bw_all b @ concat ds"
proof (induction ds arbitrary: room b)
  case (Cons d ds)
  obtain ok room1 b1 where one: "write_all d (room, b) = (ok, room1, b1)" by (metis prod.exhaust)
  with Cons.prems have "ok" "write_each ds (room1, b1) = (True, r, b')"
    by (auto simp: and_then_def split: if_splits)
  then show ?case using Cons.IH write_all_success one by fastforce
qed simp

lemma write_flush_all:
  assumes "write_flush ds (room, b) = (True, r, b')"
  shows "bw_all b' = bw_all b @ concat ds"
proof -
  obtain ok room1 b1 where one: "write_each ds (room, b) = (ok, room1, b1)" by (metis prod.exhaust)
  with assms have "ok" "bw_all b' = bw_all b1"
    by (auto simp: write_flush_def and_then_def flush_buf_def bw_all_def split: if_splits)
  then show ?thesis using write_each_success one by fastforce
qed

text \<open>A flush that reports success leaves nothing behind.\<close>

lemma write_flush_success:
  assumes "write_flush ds (room, b) = (True, r, b')"
  shows "bw_buf b' = []"
  using assms
  by (auto simp: write_flush_def and_then_def flush_buf_def Let_def split: prod.splits if_splits)

end
