(* ===== verification/Wal_File.thy ===== *)
theory Wal_File
  imports Wal Buf_Writer
begin

text \<open>
  The write-ahead log (\<^verbatim>\<open>src/src/store/wal.rs\<close>) over file operations that may fail: the operations
  that the store uses, on the buffered writer of the log file and the names of the files. What an
  operation finds of the file system is an argument; every \<^verbatim>\<open>?\<close> of the source is a branch.
\<close>

section \<open>The log file\<close>

datatype io_error = E_Dir | E_Create | E_Write | E_Sync | E_Rename | E_Open

text \<open>
  \<open>wf_moved\<close>: the file that the handle writes to is called \<open>wal.log.old\<close> and there is no \<open>wal.log\<close>;
  otherwise it is \<open>wal.log\<close>, and \<open>wf_old\<close> is the \<open>wal.log.old\<close> next to it.
\<close>

record wal_file =
  wf_writer :: buf_writer
  wf_moved :: bool
  wf_old :: "bytes option"
  wf_synced :: nat
  wf_dirty :: bool
  wf_bytes :: u64

definition wal_file_open :: "bytes option \<Rightarrow> bytes option \<Rightarrow> wal_file" where
  "wal_file_open log old =
     (let bs = (case log of Some bs \<Rightarrow> bs | None \<Rightarrow> []) in
      \<lparr>wf_writer = \<lparr>bw_file = bs, bw_buf = []\<rparr>, wf_moved = False, wf_old = old,
       wf_synced = length bs, wf_dirty = False, wf_bytes = of_nat (length bs)\<rparr>)"

text \<open>What a new process finds: a crash loses the buffer.\<close>

definition log_on_disk :: "wal_file \<Rightarrow> bytes option" where
  "log_on_disk w = (if wf_moved w then None else Some (bw_file (wf_writer w)))"

definition old_on_disk :: "wal_file \<Rightarrow> bytes option" where
  "old_on_disk w = (if wf_moved w then Some (bw_file (wf_writer w)) else wf_old w)"

section \<open>Operations\<close>

text \<open>The writes of \<open>append\<close>, in order.\<close>

definition op_chunks :: "wal_op \<Rightarrow> bytes list" where
  "op_chunks op =
     (case op of
        WalInsert data \<Rightarrow> [[0], to_le_bytes (of_nat (length data)), data]
      | WalDelete i \<Rightarrow> [[1], i]
      | WalTombstone i \<Rightarrow> [[2], i])"

definition append_io :: "nat \<Rightarrow> wal_op \<Rightarrow> wal_file \<Rightarrow> bool \<times> wal_file" where
  "append_io room op w =
     (let (ok, _, b) = write_flush (op_chunks op) (room, wf_writer w);
          w1 = w\<lparr>wf_writer := b\<rparr>
      in if \<not> ok then (False, w1)
         else (True,
           w1\<lparr>wf_dirty := True,
              wf_bytes := wf_bytes w1 +
                (1 + (case op of
                        WalInsert data \<Rightarrow> 4 + of_nat (length data)
                      | WalDelete _ \<Rightarrow> 32
                      | WalTombstone _ \<Rightarrow> 32))\<rparr>))"

text \<open>Flush and fsync, which \<open>rotate\<close>, \<open>group_commit\<close> and \<open>flush\<close> begin with.\<close>

definition flush_sync :: "nat \<Rightarrow> bool \<Rightarrow> wal_file \<Rightarrow> io_error option \<times> wal_file" where
  "flush_sync room sync w =
     (let (ok, _, b) = flush_buf (room, wf_writer w);
          w1 = w\<lparr>wf_writer := b\<rparr>
      in if \<not> ok then (Some E_Write, w1)
         else if \<not> sync then (Some E_Sync, w1)
         else (None, w1\<lparr>wf_synced := length (bw_file b)\<rparr>))"

definition group_commit_io :: "nat \<Rightarrow> bool \<Rightarrow> wal_file \<Rightarrow> (io_error + bool) \<times> wal_file" where
  "group_commit_io room sync w =
     (if \<not> wf_dirty w then (Inr False, w)
      else
        (case flush_sync room sync (w\<lparr>wf_dirty := False\<rparr>) of
           (Some err, w1) \<Rightarrow> (Inl err, w1)
         | (None, w1) \<Rightarrow> (Inr True, w1)))"

definition flush_io :: "nat \<Rightarrow> bool \<Rightarrow> wal_file \<Rightarrow> io_error option \<times> wal_file" where
  "flush_io room sync w =
     (case flush_sync room sync w of
        (Some err, w1) \<Rightarrow> (Some err, w1)
      | (None, w1) \<Rightarrow> (None, w1\<lparr>wf_dirty := False\<rparr>))"

record rotate_env =
  ro_room :: nat
  ro_sync :: bool
  ro_rename :: bool
  ro_open :: bool

text \<open>
  The rename needs a \<open>wal.log\<close>. It replaces the \<open>wal.log.old\<close> there was, and the handle goes with
  the file until the new one is open.
\<close>

definition rotate_io :: "rotate_env \<Rightarrow> wal_file \<Rightarrow> io_error option \<times> wal_file" where
  "rotate_io io w =
     (case flush_sync (ro_room io) (ro_sync io) w of
        (Some err, w1) \<Rightarrow> (Some err, w1)
      | (None, w1) \<Rightarrow>
          if \<not> ro_rename io \<or> wf_moved w1 then (Some E_Rename, w1)
          else if \<not> ro_open io then (Some E_Open, w1\<lparr>wf_moved := True, wf_old := None\<rparr>)
          else
            (None, w1\<lparr>wf_writer := \<lparr>bw_file = [], bw_buf = []\<rparr>, wf_old := Some (bw_file (wf_writer w1)),
                      wf_synced := 0, wf_bytes := 0, wf_dirty := False\<rparr>))"

section \<open>When nothing fails\<close>

text \<open>Between operations that succeed the buffer is empty, and the log is the one without failures.\<close>

definition settled :: "wal_file \<Rightarrow> bool" where
  "settled w \<longleftrightarrow> bw_buf (wf_writer w) = []"

definition wal_of :: "wal_file \<Rightarrow> wal" where
  "wal_of w =
     \<lparr>wal_log = bw_file (wf_writer w), wal_old = wf_old w, wal_synced = wf_synced w,
      wal_dirty = wf_dirty w, wal_bytes = wf_bytes w\<rparr>"

lemma concat_op_chunks [simp]: "concat (op_chunks op) = encode_op op"
  by (cases op) (simp_all add: op_chunks_def encode_op_def)

lemma append_io_room:
  assumes "length (bw_buf (wf_writer w)) + length (encode_op op) \<le> room"
  shows "\<exists>w'. append_io room op w = (True, w') \<and> bw_buf (wf_writer w') = [] \<and>
    bw_file (wf_writer w') = bw_all (wf_writer w) @ encode_op op \<and> wf_moved w' = wf_moved w \<and> wf_old w' = wf_old w"
  using write_flush_room [of "wf_writer w" "op_chunks op" room] assms
  by (auto simp: append_io_def)

lemma append_io_refines:
  assumes "settled w" "length (encode_op op) \<le> room"
  shows "fst (append_io room op w)" "settled (snd (append_io room op w))"
    "wal_of (snd (append_io room op w)) = append_op op (wal_of w)"
proof -
  have len: "length (bw_buf (wf_writer w)) + length (concat (op_chunks op)) \<le> room"
    using assms by (simp add: settled_def)
  obtain r b where b: "write_flush (op_chunks op) (room, wf_writer w) = (True, r, b)"
      "bw_file b = bw_file (wf_writer w) @ encode_op op" "bw_buf b = []"
    using write_flush_room [OF len] assms(1) by (auto simp: settled_def bw_all_def)
  then show "fst (append_io room op w)" "settled (snd (append_io room op w))"
    "wal_of (snd (append_io room op w)) = append_op op (wal_of w)"
    using assms(1) by (simp_all add: append_io_def settled_def wal_of_def append_op_def)
qed

lemma flush_sync_settled:
  assumes "settled w"
  shows "flush_sync room sync w = (if sync then (None, w\<lparr>wf_synced := length (bw_file (wf_writer w))\<rparr>) else (Some E_Sync, w))"
  using assms by (simp add: flush_sync_def flush_buf_def settled_def)

lemma group_commit_io_refines:
  assumes "settled w"
  shows "group_commit_io room True w = (Inr (fst (group_commit (wal_of w))), snd (group_commit_io room True w))"
    "settled (snd (group_commit_io room True w))"
    "wal_of (snd (group_commit_io room True w)) = snd (group_commit (wal_of w))"
  using assms flush_sync_settled [of "w\<lparr>wf_dirty := False\<rparr>" room True]
  by (auto simp: group_commit_io_def group_commit_def settled_def wal_of_def)

lemma flush_io_refines:
  assumes "settled w"
  shows "fst (flush_io room True w) = None" "settled (snd (flush_io room True w))"
    "wal_of (snd (flush_io room True w)) = flush_wal (wal_of w)"
  using assms flush_sync_settled [OF assms, of room True]
  by (auto simp: flush_io_def flush_wal_def settled_def wal_of_def)

lemma rotate_io_refines:
  assumes "settled w" "\<not> wf_moved w" "ro_sync io" "ro_rename io" "ro_open io"
  shows "fst (rotate_io io w) = None" "settled (snd (rotate_io io w))"
    "wal_of (snd (rotate_io io w)) = rotate_wal (wal_of w)"
  using assms flush_sync_settled [OF assms(1), of "ro_room io" "ro_sync io"]
  by (auto simp: rotate_io_def rotate_wal_def settled_def wal_of_def)

end
