(* ===== verification/Wal_File_Properties.thy ===== *)
theory Wal_File_Properties
  imports Wal_File Wal_Properties
begin

text \<open>
  What the log holds after writes to it have failed: small records are completed by a later
  append, the rest of a torn large record is taken from the records behind it, and a group commit
  that failed is not repeated.
\<close>

text \<open>A sequence of appends, each with the room it finds, and whether they succeed.\<close>

fun append_each :: "(nat \<times> wal_op) list \<Rightarrow> wal_file \<Rightarrow> bool list \<times> wal_file" where
  "append_each [] w = ([], w)"
| "append_each ((room, op) # later) w =
     (let (ok, w1) = append_io room op w; (oks, w2) = append_each later w1 in (ok # oks, w2))"

lemma append_each_Cons:
  "snd (append_each ((room, op) # later) w) = snd (append_each later (snd (append_io room op w)))"
  "fst (append_each ((room, op) # later) w) =
     fst (append_io room op w) # fst (append_each later (snd (append_io room op w)))"
  by (simp_all add: case_prod_beta' Let_def)

declare append_each.simps(2) [simp del] append_each_Cons [simp]

lemma append_each_ample:
  assumes "settled w" "\<forall>(room, op) \<in> set later. length (encode_op op) \<le> room"
  shows "settled (snd (append_each later w))" "list_all id (fst (append_each later w))"
    "bw_file (wf_writer (snd (append_each later w))) = bw_file (wf_writer w) @ encode_ops (map snd later)"
proof -
  have "settled (snd (append_each later w)) \<and> list_all id (fst (append_each later w)) \<and>
      bw_file (wf_writer (snd (append_each later w))) = bw_file (wf_writer w) @ encode_ops (map snd later)"
    using assms
  proof (induction later arbitrary: w)
    case (Cons a later)
    obtain room op where a: "a = (room, op)" by fastforce
    have "settled (snd (append_io room op w)) \<and> fst (append_io room op w) \<and>
        bw_file (wf_writer (snd (append_io room op w))) = bw_file (wf_writer w) @ encode_op op"
      using append_io_room [of w op room] Cons.prems a by (auto simp: settled_def bw_all_def)
    then show ?case using Cons.IH [of "snd (append_io room op w)"] Cons.prems a by simp
  qed simp
  then show "settled (snd (append_each later w))" "list_all id (fst (append_each later w))"
    "bw_file (wf_writer (snd (append_each later w))) = bw_file (wf_writer w) @ encode_ops (map snd later)" by auto
qed

section \<open>Small records\<close>

lemma append_io_small:
  assumes "length (bw_buf (wf_writer w)) + length (encode_op op) < BUF_CAPACITY"
  shows "bw_all (wf_writer (snd (append_io room op w))) = bw_all (wf_writer w) @ encode_op op"
    "length (bw_buf (wf_writer (snd (append_io room op w)))) \<le> length (bw_buf (wf_writer w)) + length (encode_op op)"
    "prefix (bw_file (wf_writer w)) (bw_file (wf_writer (snd (append_io room op w))))"
  using assms write_flush_small [of "wf_writer w" "op_chunks op" room]
  by (auto simp: append_io_def bw_all_def Let_def simp del: take_append drop_append)

lemma append_each_small:
  assumes "length (bw_buf (wf_writer w)) + length (encode_ops (map snd later)) < BUF_CAPACITY"
  shows "bw_all (wf_writer (snd (append_each later w))) = bw_all (wf_writer w) @ encode_ops (map snd later) \<and>
    length (bw_buf (wf_writer (snd (append_each later w)))) \<le> length (bw_buf (wf_writer w)) + length (encode_ops (map snd later)) \<and>
    prefix (bw_file (wf_writer w)) (bw_file (wf_writer (snd (append_each later w))))"
  using assms
proof (induction later arbitrary: w)
  case (Cons a later)
  obtain room op where a: "a = (room, op)" by fastforce
  note small = append_io_small [of w op room]
  show ?case
    using Cons.IH [of "snd (append_io room op w)"] small Cons.prems a
    by (auto intro: prefix_order.trans)
qed simp

text \<open>
  C19. A full disk loses no record as long as all records since the buffer was last empty, encoded, are
  together smaller than the buffer of 8192 bytes: after appends of which any failed, at any byte, the
  file replays as a prefix of all the records; the rest is still in the buffer, and the next append
  that finds room brings out every record, the ones whose append failed included.
\<close>

theorem failed_appends_complete:
  assumes "settled w" "bw_file (wf_writer w) = encode_ops ops" "list_all op_ok (ops @ map snd later @ [op])"
    and "length (encode_ops (map snd later @ [op])) < BUF_CAPACITY" "length (encode_ops (map snd later @ [op])) \<le> room"
  shows "(\<exists>n \<ge> length ops. fst (replay_bytes (bw_file (wf_writer (snd (append_each later w))))) = take n (ops @ map snd later)) \<and>
    fst (append_io room op (snd (append_each later w))) \<and>
    replay_bytes (bw_file (wf_writer (snd (append_io room op (snd (append_each later w)))))) =
      (ops @ map snd later @ [op], Inr (length (ops @ map snd later @ [op])))"
proof (intro conjI)
  let ?b = "wf_writer (snd (append_each later w))"
  have all: "bw_all ?b = encode_ops (ops @ map snd later)"
    using append_each_small [of w later] assms(1,2,4) by (simp add: settled_def bw_all_def)
  have ok: "list_all op_ok (ops @ map snd later)" using assms(3) by simp
  have "bw_file ?b = take (length (bw_file ?b)) (encode_ops (ops @ map snd later))"
    unfolding all [symmetric] by (simp add: bw_all_def)
  moreover have "length (encode_ops ops) \<le> length (bw_file ?b)"
    using append_each_small [of w later] assms(1,2,4) by (auto simp: settled_def dest: prefix_length_le)
  ultimately show "\<exists>n \<ge> length ops. fst (replay_bytes (bw_file ?b)) = take n (ops @ map snd later)"
    using replay_torn_beyond [OF ok] by (metis fst_conv)
  have "length (bw_buf ?b) + length (encode_op op) \<le> room" using append_each_small [of w later] assms(1,4,5) by (auto simp: settled_def)
  from append_io_room [OF this] obtain w' where w': "append_io room op (snd (append_each later w)) = (True, w')"
      "bw_file (wf_writer w') = encode_ops (ops @ map snd later @ [op])"
    by (auto simp: all)
  then show "fst (append_io room op (snd (append_each later w)))"
    "replay_bytes (bw_file (wf_writer (snd (append_io room op (snd (append_each later w)))))) =
      (ops @ map snd later @ [op], Inr (length (ops @ map snd later @ [op])))"
    using replay_encode [OF assms(3)] by simp_all
qed

theorem failed_appends_complete_witness:
  "let full = snd (append_each [(3, WalInsert [1, 2]), (0, WalDelete (replicate 32 0))] (wal_file_open None None));
       op = WalTombstone (replicate 32 1)
   in fst (replay_bytes (bw_file (wf_writer full))) = [] \<and>
      replay_bytes (bw_file (wf_writer (snd (append_io 100 op full)))) =
        ([WalInsert [1, 2], WalDelete (replicate 32 0), op], Inr 3)"
proof -
  let ?later = "[(3 :: nat, WalInsert [1, 2]), (0, WalDelete (replicate 32 0))]" and ?op = "WalTombstone (replicate 32 1)"
  let ?full = "snd (append_each ?later (wal_file_open None None))"
  have "fst (replay_bytes (bw_file (wf_writer ?full))) = []" by code_simp
  moreover have "replay_bytes (bw_file (wf_writer (snd (append_io 100 ?op ?full)))) =
      ([] @ map snd ?later @ [?op], Inr (length ([] @ map snd ?later @ [?op])))"
    by (intro failed_appends_complete [THEN conjunct2, THEN conjunct2])
      (simp_all add: settled_def wal_file_open_def MAX_WAL_RECORD_SIZE_def BUF_CAPACITY_def encode_op_def)
  ultimately show ?thesis by (simp add: Let_def)
qed

section \<open>Large records\<close>

text \<open>
  A record of a full buffer's size or more is written past the buffer: its type and length are
  buffered, then flushed, and of the data what finds room reaches the file. The rest is gone.
\<close>

lemma append_io_large:
  assumes "settled w" "BUF_CAPACITY \<le> length data" "room < 5 + length data"
  shows "\<exists>w1. append_io room (WalInsert data) w = (False, w1) \<and>
    bw_all (wf_writer w1) = bw_file (wf_writer w) @ take (max 5 room) (encode_op (WalInsert data)) \<and>
    (5 \<le> room \<longrightarrow> settled w1)"
proof -
  let ?hd = "0 # to_le_bytes (of_nat (length data) :: u32)"
  let ?b = "(wf_writer w)\<lparr>bw_buf := ?hd\<rparr>"
  let ?header = "[[0], to_le_bytes (of_nat (length data))]"
  have "write_each ?header (room, wf_writer w) = (True, room, ?b)"
    using write_each_small [of "wf_writer w" ?header room] assms(1) by (simp add: settled_def BUF_CAPACITY_def)
  then have "write_each (op_chunks (WalInsert data)) (room, wf_writer w) = write_each [data] (room, ?b)"
    using write_each_append [of ?header "[data]" "(room, wf_writer w)"] by (simp add: op_chunks_def and_then_def)
  then have "write_each (op_chunks (WalInsert data)) (room, wf_writer w) =
      and_then (and_then flush_buf (direct_write data)) (write_each []) (room, ?b)"
    using assms(2) by (simp add: and_then_def write_all_large)
  then show ?thesis
    using assms(3) by (cases "5 \<le> room")
      (simp_all add: append_io_def settled_def write_flush_def bw_defs encode_op_def max_def take_Cons' drop_Cons' numeral_eq_Suc)
qed

text \<open>A record whose data is not all there.\<close>

lemma replay_short_record:
  assumes "length data \<le> MAX_WAL_RECORD_SIZE" "length r < length data"
  shows "replay_bytes (0 # to_le_bytes (of_nat (length data)) @ r) = ([], Inl UnexpectedEof)"
  using assms unat_length [OF assms(1)] by (subst replay_bytes.simps) (simp add: Let_def)

text \<open>
  An append that fails in the middle of a large record hides the records behind it: the length
  is in the log and the data is not all there, so the reader takes the records that follow for the
  missing data, though their appends succeed. Until they are as long as what is missing it reports
  a torn log and delivers none of them.
\<close>

theorem torn_append_hides_later:
  assumes "settled w" "bw_file (wf_writer w) = encode_ops ops" "list_all op_ok (ops @ [WalInsert data])"
    and "BUF_CAPACITY \<le> length data" "5 \<le> room" "room + length (encode_ops (map snd later)) < 5 + length data"
    and "\<forall>(n, op) \<in> set later. length (encode_op op) \<le> n"
    and "append_io room (WalInsert data) w = (ok, w1)"
  shows "\<not> ok \<and> list_all id (fst (append_each later w1)) \<and>
    replay_bytes (bw_file (wf_writer (snd (append_each later w1)))) = (ops, Inl UnexpectedEof)"
proof -
  obtain w' where "append_io room (WalInsert data) w = (False, w')"
      "bw_all (wf_writer w') = encode_ops ops @ take room (encode_op (WalInsert data))" "settled w'"
    using append_io_large [OF assms(1,4), of room] assms(2,5,6) by auto
  then have w1: "\<not> ok" "bw_file (wf_writer w1) = encode_ops ops @ take room (encode_op (WalInsert data))" "settled w1"
    using assms(8) by (simp_all add: settled_def bw_all_def)
  note behind = append_each_ample [OF w1(3) assms(7)]
  let ?rest = "take (room - 5) data @ encode_ops (map snd later)"
  have "bw_file (wf_writer (snd (append_each later w1))) =
      encode_ops ops @ 0 # to_le_bytes (of_nat (length data)) @ ?rest"
    using assms(5) by (simp add: behind(3) w1(2) encode_op_def take_Cons')
  moreover have "replay_bytes (0 # to_le_bytes (of_nat (length data)) @ ?rest) = ([], Inl UnexpectedEof)"
    using assms(3,5,6) by (intro replay_short_record) auto
  ultimately have "replay_bytes (bw_file (wf_writer (snd (append_each later w1)))) = (ops, Inl UnexpectedEof)"
    using assms(3) by (simp add: replay_prefix foldr_replay_cons)
  with w1(1) behind(2) show ?thesis by blast
qed

text \<open>Three quarters of a record of 8192 bytes, and then a deletion.\<close>

theorem torn_append_hides_later_witness:
  "\<exists>ok w1. append_io 6000 (WalInsert (replicate 8192 0)) (wal_file_open None None) = (ok, w1) \<and> \<not> ok \<and>
     list_all id (fst (append_each [(33, WalDelete (replicate 32 7))] w1)) \<and>
     replay_bytes (bw_file (wf_writer (snd (append_each [(33, WalDelete (replicate 32 7))] w1)))) =
       ([], Inl UnexpectedEof)"
proof -
  let ?op = "WalInsert (replicate 8192 0)" and ?w = "wal_file_open None None"
  obtain ok w1 where io: "append_io 6000 ?op ?w = (ok, w1)" by fastforce
  have "\<not> ok \<and> list_all id (fst (append_each [(33, WalDelete (replicate 32 7))] w1)) \<and>
      replay_bytes (bw_file (wf_writer (snd (append_each [(33, WalDelete (replicate 32 7))] w1)))) = ([], Inl UnexpectedEof)"
    by (rule torn_append_hides_later [OF _ _ _ _ _ _ _ io])
      (simp_all add: settled_def wal_file_open_def MAX_WAL_RECORD_SIZE_def BUF_CAPACITY_def encode_op_def)
  then show ?thesis using io by blast
qed

section \<open>Group commits\<close>

text \<open>
  The dirty flag is cleared before the flush and fsync, so a group commit that fails is not
  repeated: the next one finds nothing to do until another record is appended.
\<close>

lemma failed_commit_forgotten:
  assumes "group_commit_io room sync w = (Inl err, w1)"
  shows "group_commit_io room' sync' w1 = (Inr False, w1)" "wf_synced w1 = wf_synced w"
  using assms by (auto simp: group_commit_io_def flush_sync_def Let_def split: if_splits prod.splits option.splits)

end
