(* ===== verification/Event_Store.thy ===== *)
theory Event_Store
  imports Index_Queries Wal "HOL-Library.Signed_Division"
begin

text \<open>
  The event store (\<^verbatim>\<open>src/src/store/mod.rs\<close>): the index behind its budget, its eviction and its
  persistence. Statements that only log or count metrics have no counterpart. The process's memory
  (\<open>sysinfo\<close>), the iteration order of hash containers and the contents of the data directory at
  start are arguments; the directory is part of the state, so that a crash can be described by
  what it leaves on disk. Arithmetic on \<open>usize\<close> wraps, as it does in a release build.
\<close>

section \<open>Configuration and state\<close>

record store_config =
  max_bytes :: usize
  persistence_path :: "string option"
  use_wal :: bool

definition store_config_default :: store_config where
  "store_config_default = \<lparr>max_bytes = 0, persistence_path = None, use_wal = True\<rparr>"

text \<open>
  \<open>target_bytes total_mem percent\<close> is the floating-point product that the two constructors compute
  from the total memory \<open>sysinfo\<close> reports; it is an argument.
\<close>

definition from_target_ram_percent :: "(u64 \<Rightarrow> byte \<Rightarrow> usize) \<Rightarrow> u64 \<Rightarrow> byte \<Rightarrow> store_config" where
  "from_target_ram_percent target_bytes total_mem percent =
     (if percent = 0 then \<lparr>max_bytes = 0, persistence_path = None, use_wal = True\<rparr>
      else \<lparr>max_bytes = target_bytes total_mem percent, persistence_path = None, use_wal = True\<rparr>)"

definition with_persistence ::
    "(u64 \<Rightarrow> byte \<Rightarrow> usize) \<Rightarrow> u64 \<Rightarrow> byte \<Rightarrow> string \<Rightarrow> store_config" where
  "with_persistence target_bytes total_mem percent path =
     (if percent = 0 then \<lparr>max_bytes = 0, persistence_path = Some path, use_wal = True\<rparr>
      else \<lparr>max_bytes = target_bytes total_mem percent, persistence_path = Some path, use_wal = True\<rparr>)"

definition DEFAULT_AMPLIFICATION_MILLI :: u64 where
  "DEFAULT_AMPLIFICATION_MILLI = 4000"

definition MIN_AMPLIFICATION_SAMPLE_BYTES :: u64 where
  "MIN_AMPLIFICATION_SAMPLE_BYTES = 64 * 1024 * 1024"

definition MIN_CHECKPOINT_BYTES :: u64 where
  "MIN_CHECKPOINT_BYTES = 64 * 1024 * 1024"

text \<open>The data directory: \<open>wal.log\<close>, \<open>wal.log.old\<close> and \<open>events.jsonl\<close>.\<close>

record disk =
  d_log :: "bytes option"
  d_old :: "bytes option"
  d_snapshot :: "bytes option"

record event_store =
  st_index :: event_index
  st_config :: store_config
  interval_seconds :: usize
  consecutive_evictions :: usize
  st_wal :: "wal option"
  st_snapshot :: "bytes option"
  cached_rss_bytes :: u64
  amplification_milli :: u64

text \<open>\<open>open_ok\<close>: whether the log could be opened; if not, the store runs without one.\<close>

definition store_new :: "store_config \<Rightarrow> bool \<Rightarrow> u64 \<Rightarrow> disk \<Rightarrow> event_store" where
  "store_new cfg open_ok rss d =
     \<lparr>st_index = index_new, st_config = cfg, interval_seconds = 10, consecutive_evictions = 0,
      st_wal = (if persistence_path cfg \<noteq> None \<and> use_wal cfg \<and> open_ok
                then Some (wal_open (d_log d) (d_old d)) else None),
      st_snapshot = d_snapshot d, cached_rss_bytes = rss,
      amplification_milli = DEFAULT_AMPLIFICATION_MILLI\<rparr>"

text \<open>What is on disk: the directory that the next process opens.\<close>

definition disk_of :: "event_store \<Rightarrow> disk" where
  "disk_of st =
     \<lparr>d_log = map_option wal_log (st_wal st), d_old = Option.bind (st_wal st) wal_old,
      d_snapshot = st_snapshot st\<rparr>"

section \<open>Memory budget\<close>

definition clamp :: "int \<Rightarrow> int \<Rightarrow> int \<Rightarrow> int" where
  "clamp lo hi x = (if x < lo then lo else if hi < x then hi else x)"

text \<open>\<open>u64::saturating_mul\<close>.\<close>

definition saturating_mul :: "u64 \<Rightarrow> u64 \<Rightarrow> u64" where
  "saturating_mul a b =
     (if unat a * unat b < 2 ^ 64 then a * b else - 1)"

definition sample_amplification :: "u64 \<Rightarrow> event_store \<Rightarrow> event_store" where
  "sample_amplification rss st =
     (let payload = memory_bytes (st_index st) in
      if payload < MIN_AMPLIFICATION_SAMPLE_BYTES \<or> rss = 0 then st
      else
        let observed = clamp 1000 16000 (uint (saturating_mul rss 1000 div payload));
            previous = sint (amplification_milli st);
            smoothed = clamp 1000 16000 (previous + (observed - previous) sdiv 8)
        in st\<lparr>amplification_milli := word_of_int smoothed\<rparr>)"

text \<open>One turn of the background sampler.\<close>

definition sample_rss :: "u64 \<Rightarrow> event_store \<Rightarrow> event_store" where
  "sample_rss rss st = sample_amplification rss (st\<lparr>cached_rss_bytes := rss\<rparr>)"

definition payload_budget :: "event_store \<Rightarrow> usize" where
  "payload_budget st =
     (let mb = max_bytes (st_config st) in
      if mb = 0 then 0
      else (mb * 1000) div (max (amplification_milli st) 1000))"

section \<open>Eviction\<close>

definition EVICT_CHUNK :: nat where
  "EVICT_CHUNK = 100"

definition evict_chunk :: "'x ext_scheme \<Rightarrow> eref list \<Rightarrow> event_index \<Rightarrow> event_index" where
  "evict_chunk X rs s = fold (\<lambda>r s. snd (index_remove X (er_id r) s)) rs s"

text \<open>
  The loop over \<open>oldest.chunks(EVICT_CHUNK)\<close>: remove a chunk, then stop if enough is freed. The
  number is how many references were removed.
\<close>

function evict_chunks ::
    "'x ext_scheme \<Rightarrow> usize \<Rightarrow> bool \<Rightarrow> eref list \<Rightarrow> event_index \<Rightarrow> event_index \<times> nat" where
  "evict_chunks X target rss_ok rs s =
     (if rs = [] then (s, 0)
      else
        let chunk = take EVICT_CHUNK rs;
            s1 = evict_chunk X chunk s
        in if memory_bytes s1 \<le> target \<and> rss_ok then (s1, length chunk)
           else let (s2, n) = evict_chunks X target rss_ok (drop EVICT_CHUNK rs) s1
                in (s2, length chunk + n))"
  by pat_completeness auto
termination
  by (relation "measure (\<lambda>(X, target, rss_ok, rs, s). length rs)") (auto simp: EVICT_CHUNK_def)

declare evict_chunks.simps [simp del]

definition evict_interval :: "usize \<Rightarrow> usize \<Rightarrow> bool \<Rightarrow> usize" where
  "evict_interval current_mem budget rss_over =
     (if budget * 90 div 100 \<le> current_mem \<or> rss_over then 1
      else if budget * 70 div 100 \<le> current_mem then 2
      else 5)"

text \<open>\<open>None\<close> would be a panic of \<open>get_oldest\<close>.\<close>

definition maybe_evict :: "'x ext_scheme \<Rightarrow> event_store \<Rightarrow> event_store option" where
  "maybe_evict X st =
     (let current_mem = memory_bytes (st_index st); mb = max_bytes (st_config st) in
      if mb = 0 then Some (st\<lparr>consecutive_evictions := 0\<rparr>)
      else
        let process_mem = cached_rss_bytes st;
            budget = payload_budget st;
            st1 = st\<lparr>interval_seconds := evict_interval current_mem budget (mb \<le> process_mem)\<rparr>;
            target = budget * 90 div 100
        in if target < current_mem \<or> mb < process_mem then
             (case get_oldest (st_index st1) (if mb < process_mem then 5000 else 1000) of
                None \<Rightarrow> None
              | Some oldest \<Rightarrow>
                  let (s', removed) =
                        evict_chunks X target (process_mem \<le> mb) oldest (st_index st1);
                      st2 = st1\<lparr>st_index := s'\<rparr>
                  in Some (if 0 < removed
                           then st2\<lparr>consecutive_evictions := consecutive_evictions st2 + 1\<rparr>
                           else st2))
           else Some st1)"

section \<open>Deletion requests\<close>

definition store_contains :: "event_store \<Rightarrow> bytes \<Rightarrow> bool" where
  "store_contains st i \<longleftrightarrow> index_get (st_index st) i \<noteq> None"

definition record_deletion :: "bytes \<Rightarrow> event_store \<Rightarrow> event_store" where
  "record_deletion i st =
     (case st_wal st of Some w \<Rightarrow> st\<lparr>st_wal := Some (wal_tombstone i w)\<rparr> | None \<Rightarrow> st)"

definition store_is_tombstoned :: "event_store \<Rightarrow> bytes \<Rightarrow> bool" where
  "store_is_tombstoned st i = is_tombstoned (st_index st) i"

text \<open>Log, remove, and note the id if something was removed.\<close>

definition delete_logged ::
    "'x ext_scheme \<Rightarrow> bytes \<Rightarrow> deletion_outcome \<times> event_store \<Rightarrow> deletion_outcome \<times> event_store" where
  "delete_logged X i r =
     (let (out, st) = r;
          st1 = record_deletion i st;
          (removed, s) = delete_by_id X i (st_index st1);
          st2 = st1\<lparr>st_index := s\<rparr>
      in (case removed of
            Some _ \<Rightarrow> out\<lparr>deleted_ids := deleted_ids out @ [i]\<rparr> | None \<Rightarrow> out, st2))"

definition delete_id_step ::
    "'x ext_scheme \<Rightarrow> bytes \<Rightarrow> bytes \<Rightarrow> deletion_outcome \<times> event_store \<Rightarrow>
     deletion_outcome \<times> event_store" where
  "delete_id_step X author i r =
     (case index_get (st_index (snd r)) i of
        Some existing \<Rightarrow>
          if ev_pubkey existing = author then delete_logged X i r
          else ((fst r)\<lparr>skipped_foreign := skipped_foreign (fst r) + 1\<rparr>, snd r)
      | None \<Rightarrow> r)"

definition delete_coordinate_step ::
    "'x ext_scheme \<Rightarrow> bytes \<Rightarrow> u64 \<Rightarrow> coordinate \<Rightarrow> deletion_outcome \<times> event_store \<Rightarrow>
     deletion_outcome \<times> event_store" where
  "delete_coordinate_step X author until c r =
     (if co_pubkey c \<noteq> author
      then ((fst r)\<lparr>skipped_foreign := skipped_foreign (fst r) + 1\<rparr>, snd r)
      else
        let targets = coordinate_targets (st_index (snd r)) c until in
        if targets = [] then
          ((fst r)\<lparr>unknown_coordinates := unknown_coordinates (fst r) + 1\<rparr>, snd r)
        else fold (delete_logged X) targets r)"

text \<open>\<open>ord\<close> lists the ids of the request in the order of the hash set.\<close>

definition apply_deletion ::
    "'x ext_scheme \<Rightarrow> (bytes set \<Rightarrow> bytes list) \<Rightarrow> del_request \<Rightarrow> bytes \<Rightarrow> u64 \<Rightarrow>
     event_store \<Rightarrow> deletion_outcome \<times> event_store" where
  "apply_deletion X ord req author until st =
     fold (delete_coordinate_step X author until) (dr_coordinates req)
       (fold (delete_id_step X author) (ord (dr_ids req))
         (\<lparr>deleted_ids = [], skipped_foreign = 0, unknown_coordinates = 0\<rparr>, st))"

section \<open>Insertion\<close>

datatype insert_result =
  R_Ephemeral | R_Duplicate | R_Deleted | R_Stored event "event list"

text \<open>The log records of a successful insert: the event, then the deletion it replaced.\<close>

definition log_insert :: "event \<Rightarrow> event option \<Rightarrow> event_store \<Rightarrow> event_store" where
  "log_insert e replaced st =
     (case st_wal st of
        None \<Rightarrow> st
      | Some w \<Rightarrow>
          let w1 = wal_insert e w in
          st\<lparr>st_wal := Some (case replaced of Some old \<Rightarrow> wal_delete (ev_id old) w1 | None \<Rightarrow> w1)\<rparr>)"

definition store_insert :: "'x ext_scheme \<Rightarrow> event \<Rightarrow> event_store \<Rightarrow> insert_result \<times> event_store" where
  "store_insert X e st =
     (if is_ephemeral e then (R_Ephemeral, st)
      else
        let (outcome, s) = index_insert X e (st_index st);
            st1 = st\<lparr>st_index := s\<rparr>
        in (case outcome of
              Duplicate \<Rightarrow> (R_Duplicate, st1)
            | LostRace \<Rightarrow> (R_Duplicate, st1)
            | Deleted \<Rightarrow> (R_Deleted, st1)
            | Inserted replaced \<Rightarrow>
                (R_Stored e (case replaced of Some old \<Rightarrow> [old] | None \<Rightarrow> []),
                 log_insert e replaced st1)))"

definition batch_step ::
    "'x ext_scheme \<Rightarrow> event \<Rightarrow> (nat \<times> event list) \<times> event_store \<Rightarrow>
     (nat \<times> event list) \<times> event_store" where
  "batch_step X e r =
     (let ((inserted, replaced), st) = r in
      if is_ephemeral e then r
      else
        let (outcome, s) = index_insert X e (st_index st);
            st1 = st\<lparr>st_index := s\<rparr>
        in (case outcome of
              Inserted old \<Rightarrow>
                ((inserted + 1, replaced @ (case old of Some d \<Rightarrow> [d] | None \<Rightarrow> [])),
                 log_insert e old st1)
            | _ \<Rightarrow> ((inserted, replaced), st1)))"

definition insert_batch ::
    "'x ext_scheme \<Rightarrow> event list \<Rightarrow> event_store \<Rightarrow> (nat \<times> event list) \<times> event_store" where
  "insert_batch X es st = fold (batch_step X) es ((0, []), st)"

definition store_len :: "event_store \<Rightarrow> usize" where
  "store_len st = event_count (st_index st)"

definition store_is_empty :: "event_store \<Rightarrow> bool" where
  "store_is_empty st \<longleftrightarrow> store_len st = 0"

section \<open>Snapshots and checkpoints\<close>

definition snapshot_bytes :: "event list \<Rightarrow> bytes" where
  "snapshot_bytes es = concat (map (\<lambda>e. ev_raw e @ [10]) es)"

text \<open>The temporary file replaces \<open>events.jsonl\<close> in one rename.\<close>

definition write_snapshot :: "(bytes set \<Rightarrow> bytes list) \<Rightarrow> event_store \<Rightarrow> nat \<times> event_store" where
  "write_snapshot ord st =
     (let es = iter_all ord (st_index st)
      in (length es, st\<lparr>st_snapshot := Some (snapshot_bytes es)\<rparr>))"

definition save_to_disk :: "(bytes set \<Rightarrow> bytes list) \<Rightarrow> event_store \<Rightarrow> event_store" where
  "save_to_disk ord st =
     (case persistence_path (st_config st) of
        None \<Rightarrow> st
      | Some _ \<Rightarrow>
          (case st_wal st of
             Some w \<Rightarrow> st\<lparr>st_wal := Some (flush_wal w)\<rparr>
           | None \<Rightarrow> snd (write_snapshot ord st)))"

text \<open>The three steps of a checkpoint, each a point at which the process may die.\<close>

definition checkpoint_rotate :: "event_store \<Rightarrow> event_store" where
  "checkpoint_rotate st = st\<lparr>st_wal := map_option rotate_wal (st_wal st)\<rparr>"

definition checkpoint_remove :: "event_store \<Rightarrow> event_store" where
  "checkpoint_remove st = st\<lparr>st_wal := map_option (\<lambda>w. w\<lparr>wal_old := None\<rparr>) (st_wal st)\<rparr>"

definition checkpoint :: "(bytes set \<Rightarrow> bytes list) \<Rightarrow> event_store \<Rightarrow> event_store" where
  "checkpoint ord st =
     (case persistence_path (st_config st) of
        None \<Rightarrow> st
      | Some _ \<Rightarrow>
          (case st_wal st of
             None \<Rightarrow> snd (write_snapshot ord st)
           | Some _ \<Rightarrow>
               checkpoint_remove (snd (write_snapshot ord (checkpoint_rotate st)))))"

definition maybe_checkpoint :: "(bytes set \<Rightarrow> bytes list) \<Rightarrow> event_store \<Rightarrow> event_store" where
  "maybe_checkpoint ord st =
     (case st_wal st of
        None \<Rightarrow> save_to_disk ord st
      | Some w \<Rightarrow>
          let threshold = max MIN_CHECKPOINT_BYTES
                            (saturating_mul (memory_bytes (st_index st)) 2)
          in if threshold \<le> pending_bytes w then checkpoint ord st
             else st\<lparr>st_wal := Some (snd (group_commit w))\<rparr>)"

section \<open>Loading\<close>

text \<open>\<open>BufRead::lines\<close>: a line ends at a newline, and a carriage return before it goes too.\<close>

definition strip_cr :: "bytes \<Rightarrow> bytes" where
  "strip_cr l = (if l \<noteq> [] \<and> last l = 13 then butlast l else l)"

function buf_lines :: "bytes \<Rightarrow> bytes list" where
  "buf_lines bs =
     (if bs = [] then []
      else
        (case dropWhile (\<lambda>b. b \<noteq> 10) bs of
           [] \<Rightarrow> [bs]
         | _ # r \<Rightarrow> strip_cr (takeWhile (\<lambda>b. b \<noteq> 10) bs) # buf_lines r))"
  by pat_completeness auto
termination
proof (relation "measure length")
  fix bs r :: bytes and b
  assume "dropWhile (\<lambda>b. b \<noteq> 10) bs = b # r"
  then show "(r, bs) \<in> measure length"
    using length_dropWhile_le [of "\<lambda>b. b \<noteq> 10" bs] by simp
qed simp

declare buf_lines.simps [simp del]

text \<open>
  \<open>while memory > target\<close>: evict the oldest event. \<open>None\<close> stands for a loop that does not end,
  and for the panic of \<open>get_oldest\<close>.
\<close>

partial_function (option) load_evict ::
    "'x ext_scheme \<Rightarrow> usize \<Rightarrow> event_index \<Rightarrow> event_index option" where
  "load_evict X target s =
     (if target < memory_bytes s then
        (case get_oldest s 1 of
           None \<Rightarrow> None
         | Some rs \<Rightarrow>
             (case rs of
                [] \<Rightarrow> Some s
              | r # _ \<Rightarrow> load_evict X target (snd (index_remove X (er_id r) s))))
      else Some s)"

definition ingest :: "'x ext_scheme \<Rightarrow> usize \<Rightarrow> usize \<Rightarrow> event \<Rightarrow> event_index \<Rightarrow> event_index option" where
  "ingest X threshold target e s =
     (let s1 = snd (index_insert X e s) in
      if 0 < threshold \<and> threshold < memory_bytes s1 then load_evict X target s1 else Some s1)"

text \<open>The number counts the operations applied.\<close>

definition load_event ::
    "'x ext_scheme \<Rightarrow> usize \<Rightarrow> usize \<Rightarrow> bytes \<Rightarrow> event_index \<times> nat \<Rightarrow>
     (event_index \<times> nat) option" where
  "load_event X threshold target data r =
     (case from_json_unchecked X data of
        Inl _ \<Rightarrow> Some r
      | Inr e \<Rightarrow> map_option (\<lambda>s. (s, snd r + 1)) (ingest X threshold target e (fst r)))"

text \<open>Lines up to the first one that is not UTF-8; empty lines are skipped.\<close>

definition load_snapshot ::
    "'x ext_scheme \<Rightarrow> usize \<Rightarrow> usize \<Rightarrow> bytes option \<Rightarrow> event_index \<times> nat \<Rightarrow>
     (event_index \<times> nat) option" where
  "load_snapshot X threshold target snap r =
     (case snap of
        None \<Rightarrow> Some r
      | Some bs \<Rightarrow>
          fold_opt (load_event X threshold target)
            (filter (\<lambda>l. l \<noteq> []) (takeWhile utf8_valid (buf_lines bs))) r)"

definition replay_op ::
    "'x ext_scheme \<Rightarrow> usize \<Rightarrow> usize \<Rightarrow> wal_op \<Rightarrow> event_index \<times> nat \<Rightarrow>
     (event_index \<times> nat) option" where
  "replay_op X threshold target op r =
     (case op of
        WalInsert data \<Rightarrow> load_event X threshold target data r
      | WalDelete i \<Rightarrow> Some (snd (index_remove X i (fst r)), snd r + 1)
      | WalTombstone i \<Rightarrow>
          Some (snd (index_remove X i (index_tombstone i (fst r))), snd r + 1))"

definition load_segments ::
    "'x ext_scheme \<Rightarrow> usize \<Rightarrow> usize \<Rightarrow> wal option \<Rightarrow> event_index \<times> nat \<Rightarrow>
     (event_index \<times> nat) option" where
  "load_segments X threshold target wo r =
     (case wo of
        None \<Rightarrow> Some r
      | Some w \<Rightarrow>
          Option.bind
            (case wal_old w of
               Some bs \<Rightarrow> fold_opt (replay_op X threshold target) (fst (replay_bytes bs)) r
             | None \<Rightarrow> Some r)
            (fold_opt (replay_op X threshold target) (fst (replay_wal w))))"

text \<open>Everything on disk replayed: the snapshot, the rotated segment, the live one.\<close>

definition load_replay :: "'x ext_scheme \<Rightarrow> event_store \<Rightarrow> (event_index \<times> nat) option" where
  "load_replay X st =
     (let mb = max_bytes (st_config st);
          threshold = (if 0 < mb then mb * 90 div 100 else 0);
          target = (if 0 < mb then mb * 70 div 100 else 0)
      in Option.bind (load_snapshot X threshold target (st_snapshot st) (st_index st, 0))
           (load_segments X threshold target (st_wal st)))"

definition load_from_disk ::
    "'x ext_scheme \<Rightarrow> (bytes set \<Rightarrow> bytes list) \<Rightarrow> event_store \<Rightarrow> (nat \<times> event_store) option" where
  "load_from_disk X ord st =
     (case persistence_path (st_config st) of
        None \<Rightarrow> Some (0, st)
      | Some _ \<Rightarrow>
          (case load_replay X st of
             None \<Rightarrow> None
           | Some (s, applied) \<Rightarrow>
               let st1 = checkpoint_remove (st\<lparr>st_index := s\<rparr>)
               in Some (applied, if 0 < applied then checkpoint ord st1 else st1)))"

end
