(* ===== verification/Store_Invariant.thy ===== *)
theory Store_Invariant
  imports Event_Store
begin

text \<open>
  Correctness of the store's operations: the measured amplification stays in its range, eviction
  terminates and only ever takes the oldest events, a deletion request removes exactly the events
  it may remove, and every operation keeps the invariant of the index.
\<close>

section \<open>The amplification estimate\<close>

definition amp_ok :: "event_store \<Rightarrow> bool" where
  "amp_ok st \<longleftrightarrow> 1000 \<le> amplification_milli st \<and> amplification_milli st \<le> 16000"

lemma clamp_bounds: "lo \<le> hi \<Longrightarrow> lo \<le> clamp lo hi x" "lo \<le> hi \<Longrightarrow> clamp lo hi x \<le> hi"
  by (simp_all add: clamp_def)

lemma small_word:
  assumes "0 \<le> i" "i \<le> 16000"
  shows "uint (word_of_int i :: u64) = i"
proof -
  have "i mod 2 ^ 64 = i" using assms by (intro mod_pos_pos_trivial) auto
  then show ?thesis by (simp add: unsigned_of_int take_bit_eq_mod)
qed

lemma amp_new: "amp_ok (store_new cfg open_ok rss d)"
  by (simp add: amp_ok_def store_new_def DEFAULT_AMPLIFICATION_MILLI_def)

lemma amp_sample:
  assumes "amp_ok st"
  shows "amp_ok (sample_amplification rss st)"
proof -
  have "1000 \<le> (word_of_int (clamp 1000 16000 x) :: u64) \<and>
      (word_of_int (clamp 1000 16000 x) :: u64) \<le> 16000" for x
    using clamp_bounds [of 1000 16000 x] by (simp add: word_le_def small_word)
  then show ?thesis
    using assms by (simp add: amp_ok_def sample_amplification_def Let_def)
qed

lemma amp_sint:
  assumes "amp_ok st"
  shows "sint (amplification_milli st) = uint (amplification_milli st)"
    "1000 \<le> uint (amplification_milli st)" "uint (amplification_milli st) \<le> 16000"
proof -
  show b: "1000 \<le> uint (amplification_milli st)" "uint (amplification_milli st) \<le> 16000"
    using assms by (simp_all add: amp_ok_def word_le_def)
  then show "sint (amplification_milli st) = uint (amplification_milli st)"
    by (simp add: sint_uint signed_take_bit_int_eq_self)
qed

text \<open>Truncating division by eight moves a difference towards zero without crossing it.\<close>

lemma sdiv8:
  fixes d :: int
  shows "0 \<le> d \<Longrightarrow> 0 \<le> d sdiv 8 \<and> d sdiv 8 \<le> d" "d \<le> 0 \<Longrightarrow> d \<le> d sdiv 8 \<and> d sdiv 8 \<le> 0"
  by (auto simp: signed_divide_int_def sgn_if)

text \<open>The value observed by a sample, in thousandths.\<close>

definition observed_milli :: "u64 \<Rightarrow> event_store \<Rightarrow> int" where
  "observed_milli rss st =
     clamp 1000 16000 (uint (saturating_mul rss 1000 div memory_bytes (st_index st)))"

lemma sample_value:
  assumes "amp_ok st" "MIN_AMPLIFICATION_SAMPLE_BYTES \<le> memory_bytes (st_index st)" "rss \<noteq> 0"
  shows "uint (amplification_milli (sample_amplification rss st)) =
    uint (amplification_milli st) +
      (observed_milli rss st - uint (amplification_milli st)) sdiv 8"
proof -
  let ?p = "uint (amplification_milli st)" and ?o = "observed_milli rss st"
  have o: "1000 \<le> ?o" "?o \<le> 16000" by (simp_all add: observed_milli_def clamp_bounds)
  note p = amp_sint [OF assms(1)]
  have b: "1000 \<le> ?p + (?o - ?p) sdiv 8" "?p + (?o - ?p) sdiv 8 \<le> 16000"
    using sdiv8 [of "?o - ?p"] o p(2,3) by linarith+
  have "amplification_milli (sample_amplification rss st) =
      word_of_int (clamp 1000 16000 (?p + (?o - ?p) sdiv 8))"
    using leD [OF assms(2)] assms(3) p(1)
    unfolding sample_amplification_def Let_def observed_milli_def
    by (simp del: linorder_not_less)
  also have "clamp 1000 16000 (?p + (?o - ?p) sdiv 8) = ?p + (?o - ?p) sdiv 8"
    using b by (simp add: clamp_def)
  finally have "amplification_milli (sample_amplification rss st) =
      word_of_int (?p + (?o - ?p) sdiv 8)" .
  moreover have "uint (word_of_int (?p + (?o - ?p) sdiv 8) :: u64) = ?p + (?o - ?p) sdiv 8"
    using b by (intro small_word) linarith+
  ultimately show ?thesis by (simp only:)
qed

text \<open>
  A sample moves the estimate by an eighth of the distance: never past the observed value, and by
  at least one thousandth once the distance is eight.
\<close>

lemma sample_contracts:
  fixes p d :: int
  defines "q \<equiv> p + (d - p) sdiv 8"
  shows "\<bar>d - q\<bar> \<le> \<bar>d - p\<bar>" "8 \<le> \<bar>d - p\<bar> \<Longrightarrow> \<bar>d - q\<bar> < \<bar>d - p\<bar>"
  unfolding q_def by (auto simp: signed_divide_int_def sgn_if abs_if)

section \<open>Eviction\<close>

text \<open>
  What eviction may do: keep a subset of the events such that nothing that went is newer than
  anything that stayed.
\<close>

definition evicts_oldest :: "event set \<Rightarrow> event set \<Rightarrow> bool" where
  "evicts_oldest E E' \<longleftrightarrow>
     E' \<subseteq> E \<and> (\<forall>a \<in> E - E'. \<forall>b \<in> E'. ev_created_at a \<le> ev_created_at b)"

lemma evicts_oldest_refl [simp]: "evicts_oldest E E"
  by (simp add: evicts_oldest_def)

lemma evicts_oldest_trans:
  "evicts_oldest A B \<Longrightarrow> evicts_oldest B C \<Longrightarrow> evicts_oldest A C"
  unfolding evicts_oldest_def by (metis Diff_iff subsetD subset_trans)

lemma stored_remove:
  assumes "index_inv X U s" "e \<in> stored s"
  shows "stored (snd (index_remove X (ev_id e) s)) = stored s - {e}"
proof -
  have core: "index_core X U s" using assms by (simp add: index_inv_def)
  then have "by_id s (ev_id e) = Some e" using assms by (simp add: stored_iff)
  then show ?thesis
    by (simp add: stored_def index_remove_def ran_keyed_del [OF index_core_facts(2) [OF core]])
qed

lemma evict_chunk_stored:
  assumes "index_inv X U s" "set es \<subseteq> stored s" "distinct es"
  shows "stored (evict_chunk X (map eref_new es) s) = stored s - set es \<and>
         index_inv X U (evict_chunk X (map eref_new es) s)"
  using assms
proof (induction es arbitrary: s)
  case (Cons e es)
  let ?s = "snd (index_remove X (ev_id e) s)"
  have "stored ?s = stored s - {e}" using Cons.prems by (intro stored_remove) auto
  with Cons.IH [of ?s] Cons.prems index_remove_inv [OF Cons.prems(1), of "ev_id e"] show ?case
    by (auto simp: evict_chunk_def)
qed (simp add: evict_chunk_def)

text \<open>Removing a prefix of the oldest events is an eviction of the oldest.\<close>

lemma evicts_prefix:
  assumes "oldest_first E n es"
  shows "evicts_oldest E (E - set (take k es))"
proof -
  have o: "set es \<subseteq> E" "sorted_wrt (\<lambda>a b. ev_created_at a \<le> ev_created_at b) es"
    "\<forall>a \<in> set es. \<forall>b \<in> E - set es. ev_created_at a \<le> ev_created_at b"
    using assms by (auto simp: oldest_first_def)
  have "ev_created_at a \<le> ev_created_at b"
    if a: "a \<in> set (take k es)" and b: "b \<in> E" "b \<notin> set (take k es)" for a b
  proof (cases "b \<in> set es")
    case True
    then have "b \<in> set (drop k es)" using b(2) by (metis UnE append_take_drop_id set_append)
    moreover have "sorted_wrt (\<lambda>a b. ev_created_at a \<le> ev_created_at b) (take k es @ drop k es)"
      using o(2) by simp
    ultimately show ?thesis using a by (simp only: sorted_wrt_append)
  next
    case False
    then show ?thesis using o(3) a b(1) by (meson Diff_iff in_set_takeD)
  qed
  moreover have "set (take k es) \<subseteq> E" using o(1) by (meson in_set_takeD subset_iff)
  ultimately show ?thesis unfolding evicts_oldest_def by blast
qed

text \<open>Every run of the loop removes a prefix, all of it unless enough was freed.\<close>

definition evicted_prefix ::
    "'x ext_scheme \<Rightarrow> event set \<Rightarrow> usize \<Rightarrow> bool \<Rightarrow> event list \<Rightarrow> event_index \<Rightarrow>
     event_index \<times> nat \<Rightarrow> bool" where
  "evicted_prefix X U target rss_ok es s r \<longleftrightarrow>
     index_inv X U (fst r) \<and>
     stored (fst r) = stored s - set (take (snd r) es) \<and> snd r \<le> length es \<and>
     (snd r = length es \<or> (memory_bytes (fst r) \<le> target \<and> rss_ok))"

lemma evict_chunks_result:
  assumes "index_inv X U s" "set es \<subseteq> stored s" "distinct es"
  shows "evicted_prefix X U target rss_ok es s (evict_chunks X target rss_ok (map eref_new es) s)"
  using assms
proof (induction "length es" arbitrary: es s rule: less_induct)
  case less
  let ?c = "take EVICT_CHUNK es" and ?d = "drop EVICT_CHUNK es"
  let ?s = "evict_chunk X (map eref_new ?c) s"
  note unf = evict_chunks.simps [of X target rss_ok "map eref_new es" s]
  consider "es = []" | "es \<noteq> []" "memory_bytes ?s \<le> target \<and> rss_ok"
    | "es \<noteq> []" "\<not> (memory_bytes ?s \<le> target \<and> rss_ok)" by blast
  then show ?case
  proof cases
    case 1
    then show ?thesis using less.prems unfolding unf by (simp add: evicted_prefix_def)
  next
    case 2
    have c: "stored ?s = stored s - set ?c" "index_inv X U ?s"
      using evict_chunk_stored [of X U s ?c] less.prems by (auto dest: in_set_takeD)
    have "evict_chunks X target rss_ok (map eref_new es) s = (?s, length ?c)"
      using 2 unfolding unf by (simp add: Let_def take_map)
    then show ?thesis using c 2(2) by (simp add: evicted_prefix_def min_def)
  next
    case 3
    have c: "stored ?s = stored s - set ?c" "index_inv X U ?s"
      using evict_chunk_stored [of X U s ?c] less.prems by (auto dest: in_set_takeD)
    let ?r = "evict_chunks X target rss_ok (map eref_new ?d) ?s"
    have cd: "set es = set ?c \<union> set ?d" "set ?c \<inter> set ?d = {}" "distinct ?d"
      using less.prems(3) by (metis append_take_drop_id set_append distinct_append)+
    have "length ?d < length es" using 3 by (simp add: EVICT_CHUNK_def)
    moreover have "set ?d \<subseteq> stored ?s" using less.prems(2) cd c(1) by blast
    ultimately have ih: "evicted_prefix X U target rss_ok ?d ?s ?r"
      using less.hyps [of ?d ?s] c(2) cd(3) by blast
    have "evict_chunks X target rss_ok (map eref_new es) s = (fst ?r, length ?c + snd ?r)"
      using 3 unfolding unf by (auto simp: Let_def take_map drop_map case_prod_beta)
    moreover have "take (length ?c + snd ?r) es = ?c @ take (snd ?r) ?d"
      using ih by (cases "EVICT_CHUNK \<le> length es") (simp_all add: take_add min_def)
    ultimately show ?thesis using ih c(1) by (auto simp: evicted_prefix_def)
  qed
qed

lemma evict_chunks_spec:
  assumes inv: "index_inv X U s" and old: "oldest_first (stored s) m es"
    and eq: "evict_chunks X target rss_ok (map eref_new es) s = (s', n)"
  shows "index_inv X U s'" "evicts_oldest (stored s) (stored s')"
    "n = length es \<or> (memory_bytes s' \<le> target \<and> rss_ok)"
    "n = length es \<Longrightarrow> card (stored s - stored s') = min m (card (stored s))"
proof -
  have es: "set es \<subseteq> stored s" "distinct es" "length es = min m (card (stored s))"
    using old by (simp_all add: oldest_first_def)
  from evict_chunks_result [OF inv es(1,2), of target rss_ok]
  have k: "stored s' = stored s - set (take n es)" "index_inv X U s'"
      "n = length es \<or> (memory_bytes s' \<le> target \<and> rss_ok)"
    by (simp_all add: evicted_prefix_def eq)
  then show "index_inv X U s'" "n = length es \<or> (memory_bytes s' \<le> target \<and> rss_ok)" by simp_all
  show "evicts_oldest (stored s) (stored s')" unfolding k(1) by (rule evicts_prefix [OF old])
  show "card (stored s - stored s') = min m (card (stored s))" if "n = length es"
    using k(1) that es by (simp add: double_diff distinct_card)
qed

lemma get_oldest_erefs:
  assumes "index_inv X U s" "0 < n"
  obtains es where "get_oldest s n = Some (map eref_new es)" "oldest_first (stored s) n es"
proof -
  obtain rs where rs: "get_oldest s n = Some rs" "oldest_first (stored s) n (map er_event rs)"
      "\<forall>r \<in> set rs. r = eref_new (er_event r)"
    using get_oldest_correct [OF assms] by blast
  have "map eref_new (map er_event rs) = rs" using rs(3) by (auto intro!: map_idI)
  with rs that show ?thesis by metis
qed

lemma maybe_evict_spec:
  assumes "index_inv X U (st_index st)"
  shows "\<exists>st'. maybe_evict X st = Some st' \<and> index_inv X U (st_index st') \<and>
     evicts_oldest (stored (st_index st)) (stored (st_index st')) \<and>
     st_wal st' = st_wal st \<and> st_snapshot st' = st_snapshot st \<and> st_config st' = st_config st \<and>
     (max_bytes (st_config st) \<noteq> 0 \<longrightarrow>
        memory_bytes (st_index st') \<le> payload_budget st * 90 div 100 \<or>
        min 1000 (card (stored (st_index st))) \<le>
          card (stored (st_index st) - stored (st_index st')))"
proof -
  let ?n = "if max_bytes (st_config st) < cached_rss_bytes st then 5000 else 1000 :: nat"
  obtain es where es: "get_oldest (st_index st) ?n = Some (map eref_new es)"
      "oldest_first (stored (st_index st)) ?n es"
    by (rule get_oldest_erefs [OF assms, of ?n]) auto
  obtain s' n where c: "evict_chunks X (payload_budget st * 90 div 100)
      (cached_rss_bytes st \<le> max_bytes (st_config st)) (map eref_new es) (st_index st) = (s', n)"
    by (cases "evict_chunks X (payload_budget st * 90 div 100)
      (cached_rss_bytes st \<le> max_bytes (st_config st)) (map eref_new es) (st_index st)")
  note spec = evict_chunks_spec [OF assms es(2) c]
  have "min 1000 (card (stored (st_index st))) \<le> min ?n (card (stored (st_index st)))" by (simp add: min_def)
  then have freed: "memory_bytes s' \<le> payload_budget st * 90 div 100 \<or>
      min 1000 (card (stored (st_index st))) \<le> card (stored (st_index st) - stored s')"
    using spec(3,4) by auto
  show ?thesis
    using assms spec(1,2) c es(1) freed
    by (simp add: maybe_evict_def Let_def cong: if_cong) (auto simp: not_less)
qed

section \<open>Eviction while loading\<close>

text \<open>The loop ends, because every turn removes a stored event, and it ends below the target.\<close>

lemma load_evict_spec:
  assumes "index_inv X U s"
  shows "\<exists>s'. load_evict X target s = Some s' \<and> index_inv X U s' \<and>
     memory_bytes s' \<le> target \<and> evicts_oldest (stored s) (stored s') \<and> tombstones s' = tombstones s"
  using assms
proof (induction "card (stored s)" arbitrary: s rule: less_induct)
  case less
  have core: "index_core X U s" using less.prems by (simp add: index_inv_def)
  show ?case
  proof (cases "target < memory_bytes s")
    case False
    then have "load_evict X target s = Some s"
      by (subst load_evict.simps) (simp only: if_False)
    with False show ?thesis using less.prems by simp
  next
    case True
    obtain es where es: "get_oldest s 1 = Some (map eref_new es)" "oldest_first (stored s) 1 es"
      by (rule get_oldest_erefs [OF less.prems, of 1]) auto
    have "stored s \<noteq> {}"
      using True core by (auto simp: index_core_def payload_def)
    then have "0 < card (stored s)" using index_core_facts(1) [OF core] by (simp add: card_gt_0_iff)
    then have "length es = 1" using es(2) by (simp add: oldest_first_def min_def)
    then obtain e where e: "es = [e]" by (auto simp: length_Suc_conv)
    let ?s = "snd (index_remove X (ev_id e) s)"
    have mem: "e \<in> stored s" using es(2) by (simp add: e oldest_first_def)
    have st: "stored ?s = stored s - {e}" by (rule stored_remove [OF less.prems mem])
    have "card (stored ?s) < card (stored s)"
      using mem index_core_facts(1) [OF core] unfolding st by (intro card_Diff1_less)
    from less.hyps [OF this index_remove_inv [OF less.prems]] obtain s' where s':
      "load_evict X target ?s = Some s'" "index_inv X U s'" "memory_bytes s' \<le> target"
      "evicts_oldest (stored ?s) (stored s')" "tombstones s' = tombstones ?s" by blast
    have "evicts_oldest (stored s) (stored ?s)"
      using evicts_prefix [OF es(2), of 1] by (simp add: e st)
    with s' have "evicts_oldest (stored s) (stored s')" by (blast intro: evicts_oldest_trans)
    with s' True es(1) show ?thesis
      by (subst load_evict.simps) (simp add: e index_remove_def)
  qed
qed

lemma ingest_spec:
  assumes "inj_on ev_id U" "index_inv X U s" "e \<in> U"
  shows "\<exists>s'. ingest X threshold target e s = Some s' \<and> index_inv X U s'"
  using index_insert_inv [OF assms] load_evict_spec [of X U "snd (index_insert X e s)" target]
  by (auto simp: ingest_def Let_def)

section \<open>Deletion requests\<close>

text \<open>
  The events that a request of \<open>author\<close> may remove from the events \<open>E\<close>: the author's own
  events that an \<open>e\<close> tag names, and those an \<open>a\<close> tag of the author selects that are not newer
  than the request.
\<close>

definition id_targets :: "bytes \<Rightarrow> bytes set \<Rightarrow> event set \<Rightarrow> event set" where
  "id_targets author ids E = {e \<in> E. ev_id e \<in> ids \<and> ev_pubkey e = author}"

definition coord_targets :: "bytes \<Rightarrow> u64 \<Rightarrow> coordinate set \<Rightarrow> event set \<Rightarrow> event set" where
  "coord_targets author until cs E =
     {e \<in> E. \<exists>c \<in> cs. co_pubkey c = author \<and> replacement_key e = coordinate_key c \<and>
        ev_created_at e \<le> until}"

text \<open>
  The state of the walk: \<open>D\<close> are the events removed so far from the index \<open>s0\<close>. The removed ids
  are reported, in some order, and all of them are tombstoned as long as the cap is not reached.
\<close>

definition walked ::
    "'x ext_scheme \<Rightarrow> event set \<Rightarrow> event_index \<Rightarrow> event set \<Rightarrow>
     deletion_outcome \<times> event_store \<Rightarrow> bool" where
  "walked X U s0 D r \<longleftrightarrow>
     index_inv X U (st_index (snd r)) \<and> finite D \<and> D \<subseteq> stored s0 \<and>
     stored (st_index (snd r)) = stored s0 - D \<and>
     set (deleted_ids (fst r)) = ev_id ` D \<and> length (deleted_ids (fst r)) = card D \<and>
     ts_ids (tombstones (st_index (snd r))) \<subseteq> ts_ids (tombstones s0) \<union> ev_id ` D \<and>
     (card (ts_ids (tombstones s0)) + card D \<le> MAX_TOMBSTONES \<longrightarrow>
      ts_ids (tombstones (st_index (snd r))) = ts_ids (tombstones s0) \<union> ev_id ` D)"

lemma stored_delete:
  assumes "index_core X U s" "by_id s i = Some e"
  shows "stored (snd (delete_by_id X i s)) = stored s - {e}"
  using assms by (simp add: stored_def ran_keyed_del [OF index_core_facts(2) [OF assms(1)]])

lemma delete_logged_walked:
  assumes inj: "inj_on ev_id U" and w: "walked X U s0 D r"
    and e: "by_id (st_index (snd r)) i = Some e"
  shows "walked X U s0 (insert e D) (delete_logged X i r)"
proof -
  obtain out st where r: "r = (out, st)" by (cases r)
  let ?s = "st_index st"
  have inv: "index_inv X U ?s" using w by (simp add: walked_def r)
  note core = index_invD(1) [OF inv]
  have idx: "st_index (record_deletion i st) = ?s"
    by (simp add: record_deletion_def split: option.splits)
  have st: "stored (snd (delete_by_id X i ?s)) = stored ?s - {e}"
    using stored_delete [OF core] e by (simp add: r)
  have "delete_logged X i r = (out\<lparr>deleted_ids := deleted_ids out @ [i]\<rparr>,
      (record_deletion i st)\<lparr>st_index := snd (delete_by_id X i ?s)\<rparr>)"
    using e delete_by_id_result [of X i ?s]
    by (simp add: delete_logged_def r Let_def idx case_prod_beta)
  moreover have ei: "e \<in> stored ?s" "ev_id e = i"
    using e by_id_stored by_id_id [OF core] by (auto simp: r)
  moreover have "ts_ids (tombs_insert (tombstones ?s) i) = ts_ids (tombstones s0) \<union> ev_id ` insert e D"
    if room: "card (ts_ids (tombstones s0)) + card (insert e D) \<le> MAX_TOMBSTONES"
  proof -
    have "finite D" "e \<notin> D" using w ei by (auto simp: walked_def r)
    then have lt: "card (ts_ids (tombstones s0)) + card D < MAX_TOMBSTONES" using room by simp
    then have ts: "ts_ids (tombstones ?s) = ts_ids (tombstones s0) \<union> ev_id ` D"
      using w by (simp add: walked_def r)
    have "card (ts_ids (tombstones ?s)) < MAX_TOMBSTONES"
      using lt card_Un_le [of "ts_ids (tombstones s0)" "ev_id ` D"] card_image_le [OF \<open>finite D\<close>, of ev_id]
      unfolding ts by linarith
    from tombs_insert_room [OF index_core_facts(5) [OF core] this, of i] show ?thesis
      using ei(2) by (simp add: ts)
  qed
  moreover have "card (insert e D) = Suc (card D)" using w ei by (auto simp: walked_def r)
  moreover have "ts_ids (tombs_insert (tombstones ?s) i) \<subseteq> ts_ids (tombstones s0) \<union> ev_id ` insert e D"
    using tombs_insert_subset [OF index_core_facts(5) [OF core], of i] w ei
    by (auto simp: walked_def r)
  ultimately show ?thesis
    using w st delete_by_id_inv [OF inj inv, of i] by (auto simp: walked_def r)
qed

lemma delete_id_step_walked:
  assumes inj: "inj_on ev_id U" and w: "walked X U s0 D r"
  shows "walked X U s0 (D \<union> id_targets author {i} (stored s0)) (delete_id_step X author i r)"
proof -
  let ?s = "st_index (snd r)"
  have inv: "index_inv X U ?s" and st: "stored ?s = stored s0 - D" and D: "D \<subseteq> stored s0"
    using w by (auto simp: walked_def)
  note core = index_invD(1) [OF inv]
  have own: "by_id ?s i = Some e \<longleftrightarrow> e \<in> stored s0 \<and> e \<notin> D \<and> ev_id e = i" for e
    using st stored_iff [OF core, of e] by_id_id [OF core] by_id_stored [of ?s i e] by auto
  show ?thesis
  proof (cases "by_id ?s i")
    case None
    then have "id_targets author {i} (stored s0) \<subseteq> D" using own by (auto simp: id_targets_def)
    then show ?thesis using w None by (simp add: delete_id_step_def index_get_def Un_absorb2)
  next
    case (Some e)
    have uniq: "d = e" if "d \<in> stored s0" "d \<notin> D" "ev_id d = i" for d
      using own [of d] that Some by simp
    show ?thesis
    proof (cases "ev_pubkey e = author")
      case True
      have "D \<union> id_targets author {i} (stored s0) = insert e D"
        using uniq own [of e] Some True D by (auto simp: id_targets_def)
      then show ?thesis
        using delete_logged_walked [OF inj w Some] Some True
        by (simp add: delete_id_step_def index_get_def)
    next
      case False
      then have "id_targets author {i} (stored s0) \<subseteq> D" using uniq by (auto simp: id_targets_def)
      then show ?thesis
        using w Some False
        by (simp add: delete_id_step_def index_get_def Un_absorb2 walked_def)
    qed
  qed
qed

lemma coordinate_targets_single:
  "coordinate_targets s c until = [] \<or> (\<exists>i. coordinate_targets s c until = [i])"
  by (cases "by_replaceable s (coordinate_key c)") (simp_all add: coordinate_targets_def)

lemma delete_coordinate_step_walked:
  assumes inj: "inj_on ev_id U" and w: "walked X U s0 D r"
  shows "walked X U s0 (D \<union> coord_targets author until {c} (stored s0))
    (delete_coordinate_step X author until c r)"
proof -
  let ?s = "st_index (snd r)"
  have inv: "index_inv X U ?s" and st: "stored ?s = stored s0 - D" and D: "D \<subseteq> stored s0"
    using w by (auto simp: walked_def)
  note core = index_invD(1) [OF inv]
  have targets: "set (coordinate_targets ?s c until) = ev_id `
      {e \<in> stored s0 - D. replacement_key e = coordinate_key c \<and> ev_created_at e \<le> until}"
    using coordinate_targets_set [OF inj inv, of c until] by (simp add: st)
  consider "co_pubkey c \<noteq> author" | "co_pubkey c = author" "coordinate_targets ?s c until = []"
    | i where "co_pubkey c = author" "coordinate_targets ?s c until = [i]"
    using coordinate_targets_single [of ?s c until] by blast
  then show ?thesis
  proof cases
    case 1
    then show ?thesis
      using w by (simp add: delete_coordinate_step_def coord_targets_def walked_def)
  next
    case 2
    then have "coord_targets author until {c} (stored s0) \<subseteq> D"
      using targets by (auto simp: coord_targets_def)
    then show ?thesis
      using w 2 by (simp add: delete_coordinate_step_def Un_absorb2 walked_def)
  next
    case 3
    let ?T = "{e \<in> stored s0 - D. replacement_key e = coordinate_key c \<and> ev_created_at e \<le> until}"
    have img: "ev_id ` ?T = {i}" using targets 3 by simp
    then obtain e where e: "e \<in> stored s0 - D" "replacement_key e = coordinate_key c"
        "ev_created_at e \<le> until" "ev_id e = i"
      by blast
    have all: "ev_id d = i" if "d \<in> stored s0 - D" "replacement_key d = coordinate_key c"
        "ev_created_at d \<le> until" for d
      using img that by blast
    have "inj_on ev_id (stored s0 - D)" using stored_inj [OF core] by (simp add: st)
    then have "D \<union> coord_targets author until {c} (stored s0) = insert e D"
      using e all 3(1) D by (auto simp: coord_targets_def dest: inj_onD)
    moreover have "by_id ?s i = Some e" using e st stored_iff [OF core, of e] by auto
    ultimately show ?thesis
      using delete_logged_walked [OF inj w] 3 by (simp add: delete_coordinate_step_def)
  qed
qed

lemma delete_ids_walked:
  assumes "inj_on ev_id U" "walked X U s0 D r"
  shows "walked X U s0 (D \<union> id_targets author (set is) (stored s0))
    (fold (delete_id_step X author) is r)"
  using assms(2)
proof (induction "is" arbitrary: D r)
  case (Cons i "is")
  have "D \<union> id_targets author {i} (stored s0) \<union> id_targets author (set is) (stored s0) =
      D \<union> id_targets author (set (i # is)) (stored s0)"
    by (auto simp: id_targets_def)
  with Cons.IH [OF delete_id_step_walked [OF assms(1) Cons.prems, of author i]] show ?case
    by simp
qed (simp add: id_targets_def)

lemma delete_coordinates_walked:
  assumes "inj_on ev_id U" "walked X U s0 D r"
  shows "walked X U s0 (D \<union> coord_targets author until (set cs) (stored s0))
    (fold (delete_coordinate_step X author until) cs r)"
  using assms(2)
proof (induction cs arbitrary: D r)
  case (Cons c cs)
  have "D \<union> coord_targets author until {c} (stored s0) \<union>
        coord_targets author until (set cs) (stored s0) =
      D \<union> coord_targets author until (set (c # cs)) (stored s0)"
    by (auto simp: coord_targets_def)
  with Cons.IH [OF delete_coordinate_step_walked [OF assms(1) Cons.prems, of author until c]]
  show ?case by simp
qed (simp add: coord_targets_def)

lemma apply_deletion_walked:
  assumes "inj_on ev_id U" "index_inv X U (st_index st)" "enumerates ord" "finite (dr_ids req)"
  shows "walked X U (st_index st)
    (id_targets author (dr_ids req) (stored (st_index st)) \<union>
     coord_targets author until (set (dr_coordinates req)) (stored (st_index st)))
    (apply_deletion X ord req author until st)"
proof -
  let ?r = "(\<lparr>deleted_ids = [], skipped_foreign = 0, unknown_coordinates = 0\<rparr>, st)"
  have "walked X U (st_index st) {} ?r" using assms(2) by (simp add: walked_def)
  from delete_coordinates_walked [OF assms(1)
      delete_ids_walked [OF assms(1) this, of author "ord (dr_ids req)"],
      of author until "dr_coordinates req"]
  show ?thesis by (simp add: apply_deletion_def enumeratesD(2) [OF assms(3,4)])
qed

end
