(* ===== verification/Recovery.thy ===== *)
theory Recovery
  imports Store_Invariant Index_Slots "HOL-Library.Sublist"
begin

text \<open>
  Recovery: what a restart reads back from the snapshot and the log. A run of the store is
  described by the log records it writes (\<open>log_run\<close>); replaying them over a state that agrees with
  the start of the run ends in a state that agrees with its end, and replaying them once more over
  the end changes nothing. The two are one induction, on the slots of the store: a slot holds at
  most one event and is the replacement key of a replaceable event or the id of another one.
\<close>

section \<open>Replay that does not evict\<close>

definition replay1 :: "'x ext_scheme \<Rightarrow> wal_op \<Rightarrow> event_index \<Rightarrow> event_index" where
  "replay1 X op s =
     (case op of
        WalInsert data \<Rightarrow>
          (case from_json_unchecked X data of Inr e \<Rightarrow> snd (index_insert X e s) | Inl _ \<Rightarrow> s)
      | WalDelete i \<Rightarrow> snd (index_remove X i s)
      | WalTombstone i \<Rightarrow> snd (index_remove X i (index_tombstone i s)))"

text \<open>
  The loader evicts when the payload in memory passes a threshold, and 0 is none. All the events
  there are fit below it: then it does not evict.
\<close>

definition fits :: "event set \<Rightarrow> usize \<Rightarrow> bool" where
  "fits U threshold \<longleftrightarrow> threshold = 0 \<or> finite U \<and> payload U \<le> unat threshold"

lemma ingest_fits:
  assumes "inj_on ev_id U" "index_inv X U s" "e \<in> U" "fits U threshold"
  shows "ingest X threshold target e s = Some (snd (index_insert X e s))"
proof (cases "threshold = 0")
  case False
  let ?s = "snd (index_insert X e s)"
  have core: "index_core X U ?s"
    using index_insert_inv [OF assms(1-3)] by (simp add: index_inv_def)
  then have "payload (stored ?s) \<le> payload U"
    using assms(4) False index_core_facts(3) unfolding payload_def fits_def
    by (intro sum_mono2) auto
  then have "unat (of_nat (payload (stored ?s)) :: usize) \<le> unat threshold"
    using assms(4) False by (auto simp: fits_def unat_of_nat intro: le_trans [OF mod_less_eq_dividend])
  then have "\<not> threshold < memory_bytes ?s"
    using core by (simp add: index_core_def word_less_nat_alt)
  then show ?thesis by (simp add: ingest_def Let_def)
qed (simp add: ingest_def Let_def)

text \<open>A record that a run writes: the reader accepts it and its event is one of \<open>U\<close>.\<close>

definition op_sound :: "'x ext_scheme \<Rightarrow> event set \<Rightarrow> wal_op \<Rightarrow> bool" where
  "op_sound X U op \<longleftrightarrow>
     op_ok op \<and>
     (case op of WalInsert data \<Rightarrow> (\<exists>e \<in> U. from_json_unchecked X data = Inr e) | _ \<Rightarrow> True)"

lemma replay_op_fits:
  assumes "inj_on ev_id U" "index_inv X U s" "fits U threshold" "op_sound X U op"
  shows "replay_op X threshold target op (s, n) = Some (replay1 X op s, n + 1)"
    "index_inv X U (replay1 X op s)"
  using assms
  by (auto simp: op_sound_def replay_op_def replay1_def load_event_def ingest_fits index_insert_inv
      index_remove_inv index_tombstone_remove_inv split: wal_op.splits)

lemma replay_ops_fits:
  assumes "inj_on ev_id U" "fits U threshold"
  shows "index_inv X U s \<Longrightarrow> list_all (op_sound X U) ops \<Longrightarrow>
    fold_opt (replay_op X threshold target) ops (s, n) = Some (fold (replay1 X) ops s, n + length ops) \<and>
    index_inv X U (fold (replay1 X) ops s)"
proof (induction ops arbitrary: s n)
  case (Cons op ops)
  then show ?case
    using replay_op_fits [OF assms(1) Cons.prems(1) assms(2), of op] Cons.IH by simp
qed simp

lemma op_sound_ok: "list_all (op_sound X U) ops \<Longrightarrow> list_all op_ok ops"
  by (auto simp: op_sound_def elim: list.pred_mono_strong)

section \<open>Runs and the records they write\<close>

definition insert_records :: "event \<Rightarrow> event option \<Rightarrow> wal_op list" where
  "insert_records e r =
     WalInsert (ev_raw e) # (case r of Some d \<Rightarrow> [WalDelete (ev_id d)] | None \<Rightarrow> [])"

text \<open>
  \<open>log_run X U s0 ops s\<close>: from the index \<open>s0\<close> a run of inserts and deletions that writes the
  records \<open>ops\<close> has led to \<open>s\<close>. Inserts that are refused write nothing.
\<close>

inductive log_run ::
    "'x ext_scheme \<Rightarrow> event set \<Rightarrow> event_index \<Rightarrow> wal_op list \<Rightarrow> event_index \<Rightarrow> bool"
  for X U s0 where
  start: "log_run X U s0 [] s0"
| insert: "log_run X U s0 ops s \<Longrightarrow> e \<in> U \<Longrightarrow> index_insert X e s = (Inserted r, s') \<Longrightarrow>
    log_run X U s0 (ops @ insert_records e r) s'"
| refused: "log_run X U s0 ops s \<Longrightarrow> e \<in> U \<Longrightarrow> index_insert X e s = (r, s') \<Longrightarrow>
    \<nexists>d. r = Inserted d \<Longrightarrow> log_run X U s0 ops s'"
| delete: "log_run X U s0 ops s \<Longrightarrow> by_id s i = Some e \<Longrightarrow> delete_by_id X i s = (r, s') \<Longrightarrow>
    log_run X U s0 (ops @ [WalTombstone i]) s'"

text \<open>A run with evictions, which write nothing.\<close>

inductive lossy_run ::
    "'x ext_scheme \<Rightarrow> event set \<Rightarrow> event_index \<Rightarrow> wal_op list \<Rightarrow> event_index \<Rightarrow> bool"
  for X U s0 where
  start: "lossy_run X U s0 [] s0"
| insert: "lossy_run X U s0 ops s \<Longrightarrow> e \<in> U \<Longrightarrow> index_insert X e s = (Inserted r, s') \<Longrightarrow>
    lossy_run X U s0 (ops @ insert_records e r) s'"
| refused: "lossy_run X U s0 ops s \<Longrightarrow> e \<in> U \<Longrightarrow> index_insert X e s = (r, s') \<Longrightarrow>
    \<nexists>d. r = Inserted d \<Longrightarrow> lossy_run X U s0 ops s'"
| delete: "lossy_run X U s0 ops s \<Longrightarrow> by_id s i = Some e \<Longrightarrow> delete_by_id X i s = (r, s') \<Longrightarrow>
    lossy_run X U s0 (ops @ [WalTombstone i]) s'"
| evict: "lossy_run X U s0 ops s \<Longrightarrow> lossy_run X U s0 ops (snd (index_remove X i s))"

lemma log_run_lossy: "log_run X U s0 ops s \<Longrightarrow> lossy_run X U s0 ops s"
  by (induction rule: log_run.induct) (auto intro: lossy_run.intros)

lemma lossy_run_inv:
  assumes "lossy_run X U s0 ops s" "inj_on ev_id U" "index_inv X U s0"
  shows "index_inv X U s"
  using assms(1)
proof induction
  case start
  show ?case by (rule assms(3))
next
  case (insert ops s e r s')
  then show ?case using index_insert_inv [OF assms(2) insert.IH, of e] by simp
next
  case (refused ops s e r s')
  then show ?case using index_insert_inv [OF assms(2) refused.IH, of e] by simp
next
  case (delete ops s i e r s')
  then show ?case using delete_by_id_inv [OF assms(2) delete.IH, of i] by simp
next
  case (evict ops s i)
  show ?case by (rule index_remove_inv [OF evict.IH])
qed

lemmas log_run_inv = lossy_run_inv [OF log_run_lossy]

text \<open>
  An event that survives the files: parsing its bytes gives it back, and they are one line of
  UTF-8 that fits a log record.
\<close>

definition persistable :: "'x ext_scheme \<Rightarrow> event \<Rightarrow> bool" where
  "persistable X e \<longleftrightarrow>
     from_json_unchecked X (ev_raw e) = Inr e \<and> length (ev_id e) = 32 \<and>
     length (ev_raw e) \<le> MAX_WAL_RECORD_SIZE \<and> ev_raw e \<noteq> [] \<and> 10 \<notin> set (ev_raw e) \<and>
     last (ev_raw e) \<noteq> 13 \<and> utf8_valid (ev_raw e)"

section \<open>Replay simulates the run\<close>

text \<open>
  The recovered index \<open>t\<close> against the index \<open>s\<close> of the run: the tombstones of \<open>t\<close> are the most
  recent ones of \<open>s\<close>, and every slot agrees with the run or, for a slot in \<open>K\<close>, is already as
  in \<open>fin\<close>. With \<open>K\<close> empty this is recovery from the start of the run, with all slots in \<open>K\<close>
  and \<open>fin\<close> the end of the run it is replay over a newer snapshot.
\<close>

definition tracks ::
    "'x ext_scheme \<Rightarrow> event set \<Rightarrow> (repl_key + bytes) set \<Rightarrow> (bytes \<rightharpoonup> event) \<Rightarrow>
     event_index \<Rightarrow> event_index \<Rightarrow> bool" where
  "tracks X U K fin t s \<longleftrightarrow>
     index_inv X U t \<and> index_inv X U s \<and>
     suffix (ts_order (tombstones t)) (ts_order (tombstones s)) \<and>
     (\<forall>k. at_slot (by_id t) k = at_slot (by_id s) k \<or>
          (k \<in> K \<and> at_slot (by_id t) k = at_slot fin k))"

lemma tombs_suffix_ids:
  assumes "tombs_inv t" "tombs_inv u" "suffix (ts_order t) (ts_order u)"
  shows "ts_ids t \<subseteq> ts_ids u"
proof -
  have "ts_ids t = set (ts_order t)" "ts_ids u = set (ts_order u)"
    using assms(1,2) by (simp_all add: tombs_inv_def)
  then show ?thesis using set_mono_suffix [OF assms(3)] by simp
qed

lemma tombs_suffix_insert:
  assumes t: "tombs_inv t" and u: "tombs_inv u" and suf: "suffix (ts_order t) (ts_order u)"
    and new: "i \<notin> ts_ids u"
  shows "suffix (ts_order (tombs_insert t i)) (ts_order (tombs_insert u i))"
proof -
  have "i \<notin> ts_ids t" using tombs_suffix_ids [OF t u suf] new by blast
  note ins = tombs_insert_order(1) [OF t this] tombs_insert_order(1) [OF u new]
  obtain p where p: "ts_order u = p @ ts_order t" using suf by (auto simp: suffix_def)
  have len: "length (ts_order u) \<le> MAX_TOMBSTONES" using u by (simp add: tombs_inv_def)
  let ?k = "Suc (length (ts_order u)) - MAX_TOMBSTONES"
  show ?thesis
  proof (cases p)
    case Nil
    then show ?thesis using p by (simp add: ins)
  next
    case (Cons x xs)
    then have "ts_order (tombs_insert t i) = ts_order t @ [i]" and "?k \<le> length p"
      using len p by (auto simp: ins(1))
    then show ?thesis unfolding ins(2) by (simp add: p suffix_def)
  qed
qed

text \<open>An insert that one index accepts, on another one with fewer tombstones.\<close>

lemma insert_both:
  assumes inj: "inj_on ev_id U" and inv: "index_inv X U t" "index_inv X U s"
    and suf: "suffix (ts_order (tombstones t)) (ts_order (tombstones s))" and e: "e \<in> U"
    and ins: "index_insert X e s = (Inserted r, s')"
  obtains q t' where "index_insert X e t = (q, t')" "index_inv X U t'" "tombstones t' = tombstones t"
    "slot_step (by_id t) e q (by_id t')" "index_inv X U s'" "tombstones s' = tombstones s"
    "slot_step (by_id s) e (Inserted r) (by_id s')"
proof -
  have s: "index_inv X U s'" "tombstones s' = tombstones s"
      "spec_insert (ts_ids (tombstones s)) (by_id s) e (Inserted r) (by_id s')"
    using index_insert_refines [OF inj inv(2) e] by (simp_all add: insert_refines_def ins)
  from s(3) have live: "ev_id e \<notin> ts_ids (tombstones s)" by (cases rule: spec_insert.cases) auto
  have "tombs_inv (tombstones t)" "tombs_inv (tombstones s)" using inv by (auto simp: index_inv_def index_core_def)
  from tombs_suffix_ids [OF this suf] live have "ev_id e \<notin> ts_ids (tombstones t)" by blast
  moreover obtain q t' where q: "index_insert X e t = (q, t')" by fastforce
  moreover have t: "index_inv X U t'" "tombstones t' = tombstones t"
      "spec_insert (ts_ids (tombstones t)) (by_id t) e q (by_id t')"
    using index_insert_refines [OF inj inv(1) e] by (simp_all add: insert_refines_def q)
  ultimately show ?thesis
    using that insert_slot_step [OF inj inv(2) e live s(3)] insert_slot_step [OF inj inv(1) e _ t(3)] s(1,2) by blast
qed

text \<open>What the insert left behind is gone: the replay of its deletion finds nothing.\<close>

lemma replaced_absent:
  assumes inj: "inj_on ev_id U" and inv: "index_inv X U s" "index_inv X U t"
    and own: "at_slot (by_id t) (slot_of e) = {c}" "\<not> incoming_wins e c"
    and d: "rival (by_id s) e d" "incoming_wins e d"
  shows "by_id t (ev_id d) = None"
proof (rule ccontr)
  assume "by_id t (ev_id d) \<noteq> None"
  then obtain x where x: "by_id t (ev_id d) = Some x" by blast
  have "d \<in> U" "slot_of d = slot_of e"
    using d(1) index_core_facts(3) [OF index_invD(1) [OF inv(1)]] by (auto simp: rival_slot at_slot_def stored_def)
  moreover from stored_same_id [OF inj index_invD(1) [OF inv(2)] this(1) x] have "x = d" .
  ultimately have "d \<in> at_slot (by_id t) (slot_of e)" using x by (auto simp: at_slot_def intro: ranI)
  with own d(2) show False by auto
qed

text \<open>An insert that the run made is made again, unless the slot is already ahead.\<close>

lemma tracks_insert:
  assumes inj: "inj_on ev_id U" and tr: "tracks X U K fin t s" and e: "e \<in> U"
    and ins: "index_insert X e s = (Inserted r, s')"
  shows "tracks X U K fin (snd (index_insert X e t)) s'"
    and "r = Some d \<Longrightarrow> by_id (snd (index_insert X e t)) (ev_id d) = None"
proof -
  have inv: "index_inv X U t" "index_inv X U s" "suffix (ts_order (tombstones t)) (ts_order (tombstones s))"
    using tr by (auto simp: tracks_def)
  obtain q t' where q: "index_insert X e t = (q, t')"
      and t: "index_inv X U t'" "tombstones t' = tombstones t" and st: "slot_step (by_id t) e q (by_id t')"
      and s: "index_inv X U s'" "tombstones s' = tombstones s" and ss: "slot_step (by_id s) e (Inserted r) (by_id s')"
    by (rule insert_both [OF inj inv e ins])
  have own: "at_slot (by_id t') (slot_of e) = {e} \<or>
      (at_slot (by_id t') (slot_of e) = at_slot (by_id t) (slot_of e) \<and>
       (\<exists>c. at_slot (by_id t) (slot_of e) = {c} \<and> \<not> incoming_wins e c))"
    using st by (auto simp: slot_step_def split: if_splits)
  show "tracks X U K fin (snd (index_insert X e t)) s'"
    unfolding tracks_def q snd_conv
  proof (intro conjI allI)
    show "suffix (ts_order (tombstones t')) (ts_order (tombstones s'))"
      using inv(3) s(2) t(2) by simp
    fix k
    show "at_slot (by_id t') k = at_slot (by_id s') k \<or>
        (k \<in> K \<and> at_slot (by_id t') k = at_slot fin k)"
    proof (cases "k = slot_of e")
      case False
      then show ?thesis using ss st tr by (simp add: slot_step_def tracks_def)
    next
      case True
      have "\<not> (\<exists>c. at_slot (by_id s) (slot_of e) = {c} \<and> \<not> incoming_wins e c)"
        using ss by (cases r) (auto simp: slot_step_def rival_slot)
      then have "at_slot (by_id t') (slot_of e) = {e} \<or>
          (slot_of e \<in> K \<and> at_slot (by_id t') (slot_of e) = at_slot fin (slot_of e))"
        using own tr by (metis tracks_def)
      then show ?thesis using True ss by (auto simp: slot_step_def)
    qed
  qed (use s t in simp_all)
  obtain c where "at_slot (by_id t') (slot_of e) = {c}" "\<not> incoming_wins e c"
    using own incoming_wins_irrefl by metis
  then show "by_id (snd (index_insert X e t)) (ev_id d) = None" if "r = Some d"
    using replaced_absent [OF inj inv(2) t(1)] ss that by (simp add: q slot_step_def)
qed

text \<open>A refused insert changes nothing, and a deletion empties the slot on both sides.\<close>

lemma tracks_refused:
  assumes inj: "inj_on ev_id U" and tr: "tracks X U K fin t s" and e: "e \<in> U"
    and ins: "index_insert X e s = (r, s')" "\<nexists>d. r = Inserted d"
  shows "tracks X U K fin t s'"
proof -
  have inv: "index_inv X U s" using tr by (simp add: tracks_def)
  have s: "index_inv X U s'" "tombstones s' = tombstones s"
      "spec_insert (ts_ids (tombstones s)) (by_id s) e r (by_id s')"
    using index_insert_refines [OF inj inv e] by (simp_all add: insert_refines_def ins)
  from s(3) ins(2) have "by_id s' = by_id s" by (cases rule: spec_insert.cases) auto
  with tr s show ?thesis by (simp add: tracks_def)
qed

lemma tracks_delete:
  assumes inj: "inj_on ev_id U" and tr: "tracks X U K fin t s" and e: "by_id s i = Some e"
  shows "tracks X U K fin (snd (index_remove X i (index_tombstone i t))) (snd (delete_by_id X i s))"
proof -
  have inv: "index_inv X U t" "index_inv X U s" using tr by (auto simp: tracks_def)
  note core = index_invD(1) [OF inv(1)] index_invD(1) [OF inv(2)]
  let ?t = "snd (index_remove X i (index_tombstone i t))" and ?s = "snd (delete_by_id X i s)"
  have bi: "by_id ?t = (by_id t)(i := None)" "by_id ?s = (by_id s)(i := None)"
    "tombstones ?t = tombs_insert (tombstones t) i" "tombstones ?s = tombs_insert (tombstones s) i"
    by (simp_all add: index_remove_def index_tombstone_def)
  have "i \<notin> ts_ids (tombstones s)" using core(2) e by (auto simp: index_core_def)
  then have "suffix (ts_order (tombstones ?t)) (ts_order (tombstones ?s))"
    using tr index_core_facts(5) [OF core(1)] index_core_facts(5) [OF core(2)]
    unfolding bi by (intro tombs_suffix_insert) (simp_all add: tracks_def)
  moreover have "at_slot (by_id ?t) k = at_slot (by_id ?s) k \<or>
      (k \<in> K \<and> at_slot (by_id ?t) k = at_slot fin k)" for k
  proof (cases "at_slot (by_id t) k = at_slot (by_id s) k")
    case True
    then show ?thesis unfolding bi by (simp add: at_slot_remove [OF inv(1)] at_slot_remove [OF inv(2)])
  next
    case False
    then have fin: "k \<in> K" "at_slot (by_id t) k = at_slot fin k" using tr by (auto simp: tracks_def)
    show ?thesis
    proof (cases "\<exists>c \<in> at_slot (by_id t) k. ev_id c = i")
      case True
      then obtain c where c: "c \<in> at_slot (by_id t) k" "ev_id c = i" by blast
      have "e \<in> U" "c \<in> U" "ev_id e = i"
        using c e by_id_id [OF core(2) e] by_id_stored [OF e] index_core_facts(3) [OF core(1)]
          index_core_facts(3) [OF core(2)] by (auto simp: at_slot_def stored_def)
      then have "c = e" using inj_onD [OF inj, of c e] c(2) by simp
      then have "e \<in> at_slot (by_id s) k" using c(1) e by (auto simp: at_slot_def intro: ranI)
      from at_slot_single [OF inj inv(2) this] at_slot_single [OF inj inv(1) c(1)] \<open>c = e\<close> False
      show ?thesis by simp
    next
      case False
      then have "at_slot (by_id ?t) k = at_slot (by_id t) k"
        unfolding bi at_slot_remove [OF inv(1)] by auto
      with fin show ?thesis by simp
    qed
  qed
  ultimately show ?thesis
    using index_tombstone_remove_inv [OF inj inv(1), of i] delete_by_id_inv [OF inj inv(2), of i]
    unfolding tracks_def by blast
qed

lemma replay1_persistable:
  "persistable X e \<Longrightarrow> replay1 X (WalInsert (ev_raw e)) t = snd (index_insert X e t)"
  by (simp add: replay1_def persistable_def)

lemma index_remove_absent: "by_id t i = None \<Longrightarrow> snd (index_remove X i t) = t"
  by (simp add: index_remove_def internal_remove_absent)

lemma replay_records:
  assumes "persistable X e" "\<And>d. r = Some d \<Longrightarrow> by_id (snd (index_insert X e t)) (ev_id d) = None"
  shows "fold (replay1 X) (insert_records e r) t = snd (index_insert X e t)"
  using assms(2) replay1_persistable [OF assms(1), of t]
  by (cases r) (simp_all add: insert_records_def replay1_def [of X "WalDelete _"] index_remove_absent)

text \<open>The simulation: replaying the records of a run tracks the run.\<close>

lemma replay_tracks:
  assumes "log_run X U s0 ops s" and inj: "inj_on ev_id U" and pers: "\<forall>e \<in> U. persistable X e"
    and "tracks X U K fin t s0"
  shows "tracks X U K fin (fold (replay1 X) ops t) s"
  using assms(1)
proof induction
  case start
  then show ?case using assms(4) by simp
next
  case (insert ops s e r s')
  note one = tracks_insert [OF inj insert.IH insert.hyps(2,3)]
  from one(1) replay_records [OF pers [rule_format, OF insert.hyps(2)] one(2)] show ?case by simp
next
  case (refused ops s e r s')
  from tracks_refused [OF inj refused.IH refused.hyps(2,3,4)] show ?case .
next
  case (delete ops s i e r s')
  from tracks_delete [OF inj delete.IH delete.hyps(2)] delete.hyps(3) show ?case
    by (simp add: replay1_def)
qed

text \<open>From a state that agrees with the start, replay ends in one that agrees with the end.\<close>

lemma replay_recovers:
  assumes "log_run X U s0 ops s" "inj_on ev_id U" "\<forall>e \<in> U. persistable X e"
    and "index_inv X U s0" "index_inv X U t" "by_id t = by_id s0"
    and "suffix (ts_order (tombstones t)) (ts_order (tombstones s0))"
  shows "by_id (fold (replay1 X) ops t) = by_id s" "index_inv X U (fold (replay1 X) ops t)"
    "suffix (ts_order (tombstones (fold (replay1 X) ops t))) (ts_order (tombstones s))"
proof -
  have "tracks X U {} Map.empty t s0" using assms by (simp add: tracks_def)
  from replay_tracks [OF assms(1-3) this]
  have tr: "tracks X U {} Map.empty (fold (replay1 X) ops t) s" .
  then show "index_inv X U (fold (replay1 X) ops t)"
    "suffix (ts_order (tombstones (fold (replay1 X) ops t))) (ts_order (tombstones s))"
    by (simp_all add: tracks_def)
  show "by_id (fold (replay1 X) ops t) = by_id s"
    using tr by (intro at_slots_by_id [of X U]) (auto simp: tracks_def)
qed

text \<open>Over a state that already agrees with the end, replay changes nothing.\<close>

lemma replay_idempotent:
  assumes "log_run X U s0 ops s" "inj_on ev_id U" "\<forall>e \<in> U. persistable X e"
    and "index_inv X U s0" "index_inv X U t" "by_id t = by_id s"
    and "ts_order (tombstones t) = []"
  shows "by_id (fold (replay1 X) ops t) = by_id s" "index_inv X U (fold (replay1 X) ops t)"
    "suffix (ts_order (tombstones (fold (replay1 X) ops t))) (ts_order (tombstones s))"
proof -
  have "tracks X U UNIV (by_id s) t s0" using assms by (simp add: tracks_def)
  from replay_tracks [OF assms(1-3) this]
  have tr: "tracks X U UNIV (by_id s) (fold (replay1 X) ops t) s" .
  then show "index_inv X U (fold (replay1 X) ops t)"
    "suffix (ts_order (tombstones (fold (replay1 X) ops t))) (ts_order (tombstones s))"
    by (simp_all add: tracks_def)
  show "by_id (fold (replay1 X) ops t) = by_id s"
    using tr by (intro at_slots_by_id [of X U]) (auto simp: tracks_def)
qed

text \<open>
  A log that is cut anywhere replays to a state the run went through: a replacement whose second
  record is missing is already complete after the first.
\<close>

lemma replay_prefix_tracks:
  assumes "log_run X U s0 ops s" and inj: "inj_on ev_id U" and pers: "\<forall>e \<in> U. persistable X e"
    and "tracks X U K fin t s0" and "n \<le> length ops"
  shows "\<exists>ops' s'. log_run X U s0 ops' s' \<and> prefix ops' ops \<and> n \<le> length ops' \<and>
     length ops' \<le> Suc n \<and> tracks X U K fin (fold (replay1 X) (take n ops) t) s'"
  using assms(1,5)
proof (induction arbitrary: n)
  case start
  then show ?case using assms(4) by (auto intro: log_run.start)
next
  case (insert ops s e r s')
  show ?case
  proof (cases "n \<le> length ops")
    case True
    with insert.IH [OF True] show ?thesis using prefix_prefix by fastforce
  next
    case False
    let ?t = "fold (replay1 X) ops t"
    have tr: "tracks X U K fin ?t s"
      by (rule replay_tracks [OF insert.hyps(1) inj pers assms(4)])
    note e = insert.hyps(2) and pe = pers [rule_format, OF insert.hyps(2)]
    have cut: "fold (replay1 X) (take (n - length ops) (insert_records e r)) ?t =
        snd (index_insert X e ?t)"
    proof (cases "n - length ops = 1")
      case True
      then show ?thesis using replay1_persistable [OF pe] by (simp add: insert_records_def)
    next
      case two: False
      then have "take (n - length ops) (insert_records e r) = insert_records e r"
        using False insert.prems by (cases r) (auto simp: insert_records_def)
      then show ?thesis using replay_records [OF pe tracks_insert(2) [OF inj tr e insert.hyps(3)]] by simp
    qed
    have "length (insert_records e r) \<le> 2" by (simp add: insert_records_def split: option.splits)
    then have "length (ops @ insert_records e r) \<le> Suc n" using False by simp
    moreover have "fold (replay1 X) (take n (ops @ insert_records e r)) t = snd (index_insert X e ?t)"
      using False cut by simp
    ultimately show ?thesis
      using log_run.insert [OF insert.hyps(1,2,3)] tracks_insert(1) [OF inj tr e insert.hyps(3)]
        insert.prems by (intro exI [of _ "ops @ insert_records e r"] exI [of _ s']) simp
  qed
next
  case (refused ops s e r s')
  then show ?case by blast
next
  case (delete ops s i e r s')
  show ?case
  proof (cases "n \<le> length ops")
    case True
    with delete.IH [OF True] show ?thesis using prefix_prefix by fastforce
  next
    case False
    then have n: "take n (ops @ [WalTombstone i]) = ops @ [WalTombstone i]" "n = Suc (length ops)"
      using delete.prems by auto
    have run: "log_run X U s0 (ops @ [WalTombstone i]) s'"
      by (rule log_run.delete [OF delete.hyps])
    from replay_tracks [OF this inj pers assms(4)] run n show ?thesis
      by (intro exI [of _ "ops @ [WalTombstone i]"] exI [of _ s']) simp
  qed
qed

end
