(* ===== verification/Store_Logging.thy ===== *)
theory Store_Logging
  imports Store_Invariant
begin

text \<open>
  The contract between the operations on events and whatever must stay true of the store: all of
  them are made of two logged changes of the index, an insert and a deletion of a stored event. A
  property that both changes keep is kept by single and batch inserts and by deletion requests.
\<close>

locale logged_state =
  fixes X :: "'x ext_scheme" and U :: "event set" and P :: "event_store \<Rightarrow> bool"
  assumes keeps_insert:
    "P st \<Longrightarrow> e \<in> U \<Longrightarrow> index_insert X e (st_index st) = (r, s) \<Longrightarrow>
     P (case r of Inserted d \<Rightarrow> log_insert e d (st\<lparr>st_index := s\<rparr>) | _ \<Rightarrow> st\<lparr>st_index := s\<rparr>)"
    and keeps_delete:
    "P st \<Longrightarrow> by_id (st_index st) i = Some e \<Longrightarrow> delete_by_id X i (st_index st) = (q, s) \<Longrightarrow>
     P ((record_deletion i st)\<lparr>st_index := s\<rparr>)"
begin

lemma store_insert_keeps:
  assumes "P st" "e \<in> U"
  shows "P (snd (store_insert X e st))"
proof -
  obtain r s where r: "index_insert X e (st_index st) = (r, s)" by fastforce
  from keeps_insert [OF assms r] assms(1) show ?thesis
    by (auto simp: store_insert_def Let_def r split: insert_outcome.splits)
qed

lemma batch_step_keeps:
  assumes "P (snd r)" "e \<in> U"
  shows "P (snd (batch_step X e r))"
proof -
  obtain n es st where r: "r = ((n, es), st)" by (metis prod.exhaust)
  obtain q s where q: "index_insert X e (st_index st) = (q, s)" by fastforce
  from keeps_insert [OF _ assms(2) q] assms(1) show ?thesis
    by (auto simp: batch_step_def Let_def r q split: insert_outcome.splits)
qed

lemma insert_batch_keeps:
  assumes "P st" "set es \<subseteq> U"
  shows "P (snd (insert_batch X es st))"
proof -
  have "P (snd r) \<Longrightarrow> P (snd (fold (batch_step X) es r))" for r
    using assms(2) by (induction es arbitrary: r) (simp_all add: batch_step_keeps)
  then show ?thesis using assms(1) by (simp add: insert_batch_def)
qed

lemma delete_logged_keeps:
  assumes "P (snd r)" "by_id (st_index (snd r)) i = Some e"
  shows "P (snd (delete_logged X i r))"
proof -
  obtain q s where q: "delete_by_id X i (st_index (snd r)) = (q, s)" by fastforce
  have "st_index (record_deletion i st) = st_index st" for st
    by (simp add: record_deletion_def split: option.splits)
  then have "snd (delete_logged X i r) = (record_deletion i (snd r))\<lparr>st_index := s\<rparr>"
    using q by (simp add: delete_logged_def Let_def case_prod_beta)
  with keeps_delete [OF assms q] show ?thesis by simp
qed

lemma delete_id_step_keeps: "P (snd r) \<Longrightarrow> P (snd (delete_id_step X author i r))"
  using delete_logged_keeps [of r i]
  by (auto simp: delete_id_step_def index_get_def split: option.splits)

lemma delete_coordinate_step_keeps:
  assumes "P (snd r)"
  shows "P (snd (delete_coordinate_step X author until c r))"
proof (cases "\<exists>i. coordinate_targets (st_index (snd r)) c until = [i]")
  case True
  then obtain i where i: "coordinate_targets (st_index (snd r)) c until = [i]" by blast
  then have "i \<in> set (coordinate_targets (st_index (snd r)) c until)" by simp
  then obtain e where "by_id (st_index (snd r)) i = Some e"
    by (auto simp: coordinate_targets_def split: option.splits)
  then show ?thesis
    using assms delete_logged_keeps [OF assms, of i] i by (simp add: delete_coordinate_step_def)
next
  case False
  then show ?thesis
    using assms coordinate_targets_single [of "st_index (snd r)" c until]
    by (auto simp: delete_coordinate_step_def)
qed

lemma apply_deletion_keeps:
  assumes "P st"
  shows "P (snd (apply_deletion X ord req author until st))"
proof -
  have ids: "P (snd r) \<Longrightarrow> P (snd (fold (delete_id_step X author) is r))" for r "is"
    by (induction "is" arbitrary: r) (simp_all add: delete_id_step_keeps)
  have "P (snd r) \<Longrightarrow> P (snd (fold (delete_coordinate_step X author until) cs r))" for r cs
    by (induction cs arbitrary: r) (simp_all add: delete_coordinate_step_keeps)
  then show ?thesis using ids assms by (simp add: apply_deletion_def)
qed

end

section \<open>What the changes leave alone\<close>

lemma log_insert_frame [simp]:
  "st_index (log_insert e r st) = st_index st" "st_config (log_insert e r st) = st_config st"
  "st_snapshot (log_insert e r st) = st_snapshot st"
  "map_option wal_old (st_wal (log_insert e r st)) = map_option wal_old (st_wal st)"
  by (simp_all add: log_insert_def wal_insert_def wal_delete_def append_op_def Let_def split: option.splits)

lemma record_deletion_frame [simp]:
  "st_index (record_deletion i st) = st_index st" "st_config (record_deletion i st) = st_config st"
  "st_snapshot (record_deletion i st) = st_snapshot st"
  "map_option wal_old (st_wal (record_deletion i st)) = map_option wal_old (st_wal st)"
  by (simp_all add: record_deletion_def wal_tombstone_def append_op_def split: option.splits)

text \<open>The configuration, the snapshot and the rotated segment.\<close>

interpretation frame: logged_state X UNIV
  "\<lambda>st. (st_config st, st_snapshot st, map_option wal_old (st_wal st)) = fixed" for X fixed
  by unfold_locales (auto split: insert_outcome.splits)

lemmas operation_frame =
  frame.store_insert_keeps [OF refl UNIV_I] frame.insert_batch_keeps [OF refl subset_UNIV]
  frame.apply_deletion_keeps [OF refl]

text \<open>The invariant of the index.\<close>

interpretation indexed: logged_state X U
  "\<lambda>st. inj_on ev_id U \<longrightarrow> index_inv X U (st_index st)" for X U
proof unfold_locales
  fix st :: event_store and e r s
  assume "inj_on ev_id U \<longrightarrow> index_inv X U (st_index st)" "e \<in> U" "index_insert X e (st_index st) = (r, s)"
  then show "inj_on ev_id U \<longrightarrow> index_inv X U (st_index
      (case r of Inserted d \<Rightarrow> log_insert e d (st\<lparr>st_index := s\<rparr>) | _ \<Rightarrow> st\<lparr>st_index := s\<rparr>))"
    using index_insert_inv [of U X "st_index st" e] by (auto split: insert_outcome.splits)
next
  fix st :: event_store and i e q s
  assume "inj_on ev_id U \<longrightarrow> index_inv X U (st_index st)" "delete_by_id X i (st_index st) = (q, s)"
  then show "inj_on ev_id U \<longrightarrow> index_inv X U (st_index ((record_deletion i st)\<lparr>st_index := s\<rparr>))"
    using delete_by_id_inv [of U X "st_index st" i] by auto
qed

end
