(* ===== verification/Store_Recovery.thy ===== *)
theory Store_Recovery
  imports Recovery Store_Logging
begin

text \<open>
  Recovery at the level of the store: what \<open>load_from_disk\<close> of a new process reads back from the
  files that the operations of the old one left, at rest and at every point inside a checkpoint.
  Evictions are not logged, so an evicted event may come back; the results hold as long as nothing
  is evicted, which \<open>roomy\<close> guarantees for the loader.
\<close>

section \<open>Reading a snapshot\<close>

lemma buf_lines_line:
  assumes "10 \<notin> set l"
  shows "buf_lines (l @ 10 # r) = strip_cr l # buf_lines r"
proof -
  have "dropWhile (\<lambda>b. b \<noteq> 10) (l @ 10 # r) = 10 # r" "takeWhile (\<lambda>b. b \<noteq> 10) (l @ 10 # r) = l"
    using assms by (auto simp: dropWhile_append takeWhile_append)
  then show ?thesis by (subst buf_lines.simps) simp
qed

lemma buf_lines_snapshot:
  "\<forall>e \<in> set es. persistable X e \<Longrightarrow> buf_lines (snapshot_bytes es) = map ev_raw es"
proof (induction es)
  case (Cons e es)
  then have "10 \<notin> set (ev_raw e)" "strip_cr (ev_raw e) = ev_raw e"
    by (auto simp: persistable_def strip_cr_def)
  with Cons show ?case by (simp add: snapshot_bytes_def buf_lines_line)
qed (simp add: snapshot_bytes_def buf_lines.simps)

lemma load_events_fits:
  assumes "inj_on ev_id U" "fits U threshold"
  shows "index_inv X U s \<Longrightarrow> set es \<subseteq> U \<Longrightarrow> \<forall>e \<in> set es. persistable X e \<Longrightarrow>
    fold_opt (load_event X threshold target) (map ev_raw es) (s, n) =
      Some (insert_all X es s, n + length es) \<and> index_inv X U (insert_all X es s)"
proof (induction es arbitrary: s n)
  case (Cons e es)
  have "load_event X threshold target (ev_raw e) (s, n) = Some (snd (index_insert X e s), n + 1)"
    using Cons.prems ingest_fits [OF assms(1) Cons.prems(1) _ assms(2), of e]
    by (simp add: load_event_def persistable_def)
  moreover have "index_inv X U (snd (index_insert X e s))"
    using Cons.prems by (intro index_insert_inv [OF assms(1)]) auto
  ultimately show ?case using Cons by (simp add: insert_all_def)
qed (simp add: insert_all_def)

lemma load_snapshot_fits:
  assumes "inj_on ev_id U" "fits U threshold" "index_inv X U s" "set es \<subseteq> U"
    and "\<forall>e \<in> set es. persistable X e"
  shows "load_snapshot X threshold target (Some (snapshot_bytes es)) (s, n) =
    Some (insert_all X es s, n + length es)" "index_inv X U (insert_all X es s)"
proof -
  have "filter (\<lambda>l. l \<noteq> []) (takeWhile utf8_valid (map ev_raw es)) = map ev_raw es"
    using assms(5) by (induction es) (auto simp: persistable_def)
  then show "load_snapshot X threshold target (Some (snapshot_bytes es)) (s, n) =
      Some (insert_all X es s, n + length es)" "index_inv X U (insert_all X es s)"
    using load_events_fits [OF assms]
    by (simp_all add: load_snapshot_def buf_lines_snapshot [OF assms(5)])
qed

text \<open>Events with different slots do not get in each other's way, in any order.\<close>

lemma insert_fresh_slot:
  assumes inj: "inj_on ev_id U" and inv: "index_inv X U s" and e: "e \<in> U"
    and live: "ts_ids (tombstones s) = {}" and new: "slot_of e \<notin> slot_of ` stored s"
  shows "stored (snd (index_insert X e s)) = insert e (stored s)"
    "index_inv X U (snd (index_insert X e s))"
    "tombstones (snd (index_insert X e s)) = tombstones s"
proof -
  obtain r s' where ins: "index_insert X e s = (r, s')" by fastforce
  have ref: "index_inv X U s'" "tombstones s' = tombstones s"
      "spec_insert {} (by_id s) e r (by_id s')"
    using index_insert_refines [OF inj inv e] live by (simp_all add: insert_refines_def ins)
  have "slot_of d \<noteq> slot_of e" if "d \<in> stored s" for d using new that by (metis imageI)
  then have "at_slot (by_id s) (slot_of e) = {}" by (auto simp: at_slot_def stored_def)
  then have none: "\<nexists>d. rival (by_id s) e d" "by_id s (ev_id e) = None"
    using at_slot_stored [OF inj inv e] by (auto simp: rival_slot) fastforce
  from ref(3) none have "by_id s' = (by_id s)(ev_id e \<mapsto> e)"
    by (cases rule: spec_insert.cases) auto
  with none(2) ref show "stored (snd (index_insert X e s)) = insert e (stored s)"
    "index_inv X U (snd (index_insert X e s))"
    "tombstones (snd (index_insert X e s)) = tombstones s"
    by (simp_all add: ins stored_def ran_keyed_upd)
qed

lemma insert_all_stored:
  assumes inj: "inj_on ev_id U"
  shows "index_inv X U s \<Longrightarrow> set es \<subseteq> U \<Longrightarrow> ts_ids (tombstones s) = {} \<Longrightarrow>
    inj_on slot_of (stored s \<union> set es) \<Longrightarrow> distinct es \<Longrightarrow> set es \<inter> stored s = {} \<Longrightarrow>
    stored (insert_all X es s) = stored s \<union> set es \<and> index_inv X U (insert_all X es s) \<and>
    tombstones (insert_all X es s) = tombstones s"
proof (induction es arbitrary: s)
  case (Cons e es)
  let ?s = "snd (index_insert X e s)"
  have "slot_of e \<notin> slot_of ` stored s"
    using Cons.prems(4,6) by (auto dest: inj_onD)
  note step = insert_fresh_slot [OF inj Cons.prems(1) _ Cons.prems(3) this]
  have e: "e \<in> U" using Cons.prems by simp
  have eq: "stored s \<union> set (e # es) = stored ?s \<union> set es" using step(1) [OF e] by auto
  have "stored (insert_all X es ?s) = stored ?s \<union> set es \<and>
      index_inv X U (insert_all X es ?s) \<and> tombstones (insert_all X es ?s) = tombstones ?s"
    using Cons.prems step [OF e] eq by (intro Cons.IH) auto
  with step(3) [OF e] eq show ?case by (simp add: insert_all_def)
qed (simp add: insert_all_def)

text \<open>Loading a snapshot of an index gives its events back, with no tombstones.\<close>

lemma snapshot_restores:
  assumes inj: "inj_on ev_id U" and inv: "index_inv X U s" and es: "set es = stored s" "distinct es"
  shows "by_id (insert_all X es index_new) = by_id s" "index_inv X U (insert_all X es index_new)"
    "tombstones (insert_all X es index_new) = tombs_new"
proof -
  have new: "stored index_new = {}" "tombstones index_new = tombs_new"
    by (simp_all add: stored_def index_new_def)
  have "set es \<subseteq> U" using es(1) index_core_facts(3) [OF index_invD(1) [OF inv]] by simp
  moreover have "inj_on slot_of (stored index_new \<union> set es)"
    using slot_unique [OF inj inv] by (simp add: new es(1))
  ultimately have "stored (insert_all X es index_new) = stored index_new \<union> set es \<and>
      index_inv X U (insert_all X es index_new) \<and>
      tombstones (insert_all X es index_new) = tombstones index_new"
    using es(2) by (intro insert_all_stored [OF inj index_inv_new]) (simp_all add: new tombs_new_def)
  then show "index_inv X U (insert_all X es index_new)"
    "tombstones (insert_all X es index_new) = tombs_new"
    "by_id (insert_all X es index_new) = by_id s"
    using stored_by_id [OF _ inv] by (simp_all add: new es(1))
qed

section \<open>Files that describe a run\<close>

text \<open>
  The files of a store at rest: the snapshot \<open>es\<close> of an earlier index \<open>s0\<close> (none at first) and the
  records of the run since then.
\<close>

definition files_since :: "event_index \<Rightarrow> wal_op list \<Rightarrow> event_store \<Rightarrow> bool" where
  "files_since s0 ops st \<longleftrightarrow>
     (\<exists>w. st_wal st = Some w \<and> wal_old w = None \<and> wal_log w = encode_ops ops) \<and>
     (\<exists>es. set es = stored s0 \<and> distinct es \<and>
        (st_snapshot st = Some (snapshot_bytes es) \<or> st_snapshot st = None \<and> es = []))"

definition files_of ::
    "'x ext_scheme \<Rightarrow> event set \<Rightarrow> event_index \<Rightarrow> wal_op list \<Rightarrow> event_store \<Rightarrow> bool" where
  "files_of X U s0 ops st \<longleftrightarrow>
     index_inv X U s0 \<and> log_run X U s0 ops (st_index st) \<and> files_since s0 ops st"

definition unlimited :: "store_config \<Rightarrow> bool" where
  "unlimited cfg \<longleftrightarrow> max_bytes cfg = 0 \<and> persistence_path cfg \<noteq> None \<and> use_wal cfg"

text \<open>
  Persistence with a memory limit that the events of \<open>U\<close> together do not reach: they fit the
  threshold of the loader, 90 percent of the limit.
\<close>

definition roomy :: "event set \<Rightarrow> store_config \<Rightarrow> bool" where
  "roomy U cfg \<longleftrightarrow>
     persistence_path cfg \<noteq> None \<and> use_wal cfg \<and>
     (0 < max_bytes cfg \<longrightarrow> finite U \<and> payload U \<le> unat (max_bytes cfg * 90 div 100))"

lemma unlimited_roomy: "unlimited cfg \<Longrightarrow> roomy U cfg"
  by (simp add: unlimited_def roomy_def)

lemma roomy_fits: "roomy U cfg \<Longrightarrow> fits U (if 0 < max_bytes cfg then max_bytes cfg * 90 div 100 else 0)"
  by (simp add: roomy_def fits_def)

definition persisted :: "'x ext_scheme \<Rightarrow> event set \<Rightarrow> event_store \<Rightarrow> bool" where
  "persisted X U st \<longleftrightarrow> roomy U (st_config st) \<and> (\<exists>s0 ops. files_of X U s0 ops st)"

text \<open>Every record of a run is one that the reader accepts.\<close>

lemma lossy_run_sound:
  assumes "lossy_run X U s0 ops s" "inj_on ev_id U" "\<forall>e \<in> U. persistable X e" "index_inv X U s0"
  shows "list_all (op_sound X U) ops"
  using assms(1)
proof induction
  case (insert ops s e r s')
  have inv: "index_inv X U s" by (rule lossy_run_inv [OF insert.hyps(1) assms(2,4)])
  have "length (ev_id d) = 32" if "r = Some d" for d
  proof -
    have "d \<in> stored s"
      using index_insert_refines [OF assms(2) inv insert.hyps(2)] that insert.hyps(3)
      by (auto simp: insert_refines_def rival_def stored_def elim!: spec_insert.cases)
    then show ?thesis
      using assms(3) index_core_facts(3) [OF index_invD(1) [OF inv]] by (auto simp: persistable_def)
  qed
  then show ?case
    using insert.IH assms(3) insert.hyps(2)
    by (auto simp: op_sound_def insert_records_def persistable_def split: option.splits)
next
  case (delete ops s i e r s')
  note core = index_invD(1) [OF lossy_run_inv [OF delete.hyps(1) assms(2,4)]]
  have "e \<in> U" using by_id_stored [OF delete.hyps(2)] index_core_facts(3) [OF core] by blast
  then show ?case
    using delete.IH assms(3) by_id_id [OF core delete.hyps(2)]
    by (auto simp: op_sound_def persistable_def)
qed simp_all

lemmas log_run_sound = lossy_run_sound [OF log_run_lossy]

section \<open>Loading the files of a run\<close>

text \<open>What \<open>load_from_disk\<close> computes before its checkpoint, when it evicts nothing.\<close>

definition recovered :: "'x ext_scheme \<Rightarrow> event list \<Rightarrow> wal_op list \<Rightarrow> event_index" where
  "recovered X es ops = fold (replay1 X) ops (insert_all X es index_new)"

lemma recovered_run:
  assumes inj: "inj_on ev_id U" and pers: "\<forall>e \<in> U. persistable X e"
    and inv: "index_inv X U s0" and run: "log_run X U s0 ops s"
    and es: "set es = stored s0" "distinct es"
  shows "by_id (recovered X es ops) = by_id s" "index_inv X U (recovered X es ops)"
proof -
  note snap = snapshot_restores [OF inj inv es]
  show "by_id (recovered X es ops) = by_id s" "index_inv X U (recovered X es ops)"
    using replay_recovers [OF run inj pers inv snap(2,1)]
    by (simp_all add: recovered_def snap(3) tombs_new_def)
qed

lemma recovered_newer_snapshot:
  assumes inj: "inj_on ev_id U" and pers: "\<forall>e \<in> U. persistable X e"
    and inv: "index_inv X U s0" and run: "log_run X U s0 ops s"
    and es: "set es = stored s" "distinct es"
  shows "by_id (recovered X es ops) = by_id s" "index_inv X U (recovered X es ops)"
proof -
  note snap = snapshot_restores [OF inj log_run_inv [OF run inj inv] es]
  show "by_id (recovered X es ops) = by_id s" "index_inv X U (recovered X es ops)"
    using replay_idempotent [OF run inj pers inv snap(2,1)]
    by (simp_all add: recovered_def snap(3) tombs_new_def)
qed

text \<open>The number of operations applied is exact.\<close>

lemma load_files:
  assumes inj: "inj_on ev_id U" and fits: "fits U threshold" and es: "set es \<subseteq> U"
    and "\<forall>e \<in> set es. persistable X e" "list_all (op_sound X U) old" "list_all (op_sound X U) new"
    and "snap = Some (snapshot_bytes es) \<or> snap = None \<and> es = []"
    and "log_old = Some (encode_ops old) \<or> log_old = None \<and> old = []"
    and "fst (replay_bytes bs) = new"
  shows "Option.bind (load_snapshot X threshold target snap (index_new, 0))
      (load_segments X threshold target (Some (wal_open (Some bs) log_old))) =
    Some (recovered X es (old @ new), length es + length (old @ new))"
proof -
  let ?s = "insert_all X es index_new"
  note ld = load_snapshot_fits [OF inj fits index_inv_new es assms(4)]
  have snap: "load_snapshot X threshold target snap (index_new, 0) = Some (?s, length es)"
    using assms(7) ld(1) by (auto simp: load_snapshot_def insert_all_def)
  note first = replay_ops_fits [OF inj fits ld(2) assms(5)]
  have "(case log_old of
      Some bs \<Rightarrow> fold_opt (replay_op X threshold target) (fst (replay_bytes bs)) (?s, length es)
    | None \<Rightarrow> Some (?s, length es)) =
      Some (fold (replay1 X) old ?s, length es + length old)"
    using assms(8) first replay_encode [OF op_sound_ok [OF assms(5)]] by auto
  with snap show ?thesis
    using replay_ops_fits [OF inj fits first [THEN conjunct2] assms(6)] assms(9)
    by (simp add: load_segments_def wal_open_def replay_wal_def recovered_def Let_def)
qed

text \<open>A completed checkpoint leaves a snapshot of the index and an empty log.\<close>

lemma checkpoint_frame [simp]:
  "st_index (checkpoint ord st) = st_index st" "st_config (checkpoint ord st) = st_config st"
  by (simp_all add: checkpoint_def checkpoint_remove_def checkpoint_rotate_def write_snapshot_def
      Let_def split: option.splits)

lemma maybe_evict_frame:
  assumes "maybe_evict X st = Some st'"
  shows "st_config st' = st_config st" "st_wal st' = st_wal st" "st_snapshot st' = st_snapshot st"
  using assms
  by (auto simp: maybe_evict_def Let_def split: if_splits option.splits prod.splits)

lemma load_config: "load_from_disk X ord st = Some (n, st') \<Longrightarrow> st_config st' = st_config st"
  by (auto simp: load_from_disk_def checkpoint_remove_def Let_def split: option.splits if_splits)

lemma checkpoint_files:
  assumes ord: "enumerates ord" and inv: "index_inv X U (st_index st)"
    and "roomy U (st_config st)" "st_wal st = Some w"
  shows "files_of X U (st_index st) [] (checkpoint ord st)"
proof -
  have fin: "finite (dom (by_id (st_index st)))" and key: "keyed ev_id (by_id (st_index st))"
    using inv by (auto simp: index_inv_def index_core_def)
  obtain path where path: "persistence_path (st_config st) = Some path"
    using assms(3) by (auto simp: roomy_def)
  have "log_run X U (st_index st) [] (st_index st)" by (rule log_run.start)
  then show ?thesis
    using inv path assms(4) iter_all_set [OF ord fin] iter_all_distinct [OF ord fin key]
    by (auto simp: files_of_def files_since_def checkpoint_def checkpoint_remove_def checkpoint_rotate_def
        rotate_wal_def write_snapshot_def Let_def)
qed

text \<open>
  A store that starts on files with this content: it holds the recovered index, its log is empty
  and its snapshot is that index.
\<close>

lemma load_from_files:
  assumes inj: "inj_on ev_id U" and cfg: "roomy U cfg" and ord: "enumerates ord"
    and "\<forall>e \<in> set es. e \<in> U \<and> persistable X e" "list_all (op_sound X U) old" "list_all (op_sound X U) new"
    and "d_snapshot d = Some (snapshot_bytes es) \<or> d_snapshot d = None \<and> es = []"
    and "d_old d = Some (encode_ops old) \<or> d_old d = None \<and> old = []"
    and "d_log d = Some bs" "fst (replay_bytes bs) = new"
    and clean: "es = [] \<Longrightarrow> old @ new = [] \<Longrightarrow> bs = []"
    and inv: "index_inv X U (recovered X es (old @ new))"
  shows "\<exists>st'. load_from_disk X ord (store_new cfg True rss d) =
       Some (length es + length (old @ new), st') \<and>
     st_index st' = recovered X es (old @ new) \<and> persisted X U st'"
proof -
  let ?s = "recovered X es (old @ new)" and ?n = "length es + length (old @ new)"
  let ?st = "checkpoint_remove ((store_new cfg True rss d)\<lparr>st_index := ?s\<rparr>)"
  have wal: "st_wal (store_new cfg True rss d) = Some (wal_open (Some bs) (d_old d))"
    using cfg assms(9) by (simp add: store_new_def roomy_def)
  have sub: "set es \<subseteq> U" "\<forall>e \<in> set es. persistable X e" using assms(4) by auto
  have "load_replay X (store_new cfg True rss d) = Some (?s, ?n)"
    using load_files [OF inj roomy_fits [OF cfg] sub assms(5-8,10)] wal
    by (simp add: load_replay_def store_new_def Let_def)
  then have load: "load_from_disk X ord (store_new cfg True rss d) =
      Some (?n, if 0 < ?n then checkpoint ord ?st else ?st)"
    using cfg by (auto simp: load_from_disk_def roomy_def store_new_def Let_def)
  have st: "st_index ?st = ?s" "st_config ?st = cfg" "st_snapshot ?st = d_snapshot d"
    "st_wal ?st = Some ((wal_open (Some bs) (d_old d))\<lparr>wal_old := None\<rparr>)"
    using wal by (simp_all add: checkpoint_remove_def store_new_def)
  show ?thesis
  proof (cases "0 < ?n")
    case True
    have "files_of X U ?s [] (checkpoint ord ?st)"
      using checkpoint_files [OF ord, of X U ?st] inv cfg st by simp
    with load True st cfg show ?thesis by (auto simp: persisted_def)
  next
    case False
    then have "es = []" "old = []" "new = []" "bs = []" using clean by auto
    moreover have "log_run X U index_new [] index_new" by (rule log_run.start)
    ultimately have "files_of X U index_new [] ?st"
      using st assms(7) index_inv_new [of X U]
      by (auto simp: files_of_def files_since_def recovered_def insert_all_def wal_open_def Let_def stored_def
          index_new_def)
    with load False st cfg show ?thesis by (auto simp: persisted_def)
  qed
qed

section \<open>Every operation keeps the files in step\<close>

lemma persisted_new:
  assumes "roomy U cfg" "d_log d = None" "d_old d = None" "d_snapshot d = None"
  shows "persisted X U (store_new cfg True rss d)"
proof -
  have "log_run X U index_new [] index_new" by (rule log_run.start)
  then have "files_of X U index_new [] (store_new cfg True rss d)"
    using assms index_inv_new [of X U]
    by (simp add: files_of_def files_since_def store_new_def roomy_def wal_open_def stored_def index_new_def)
  moreover have "st_config (store_new cfg True rss d) = cfg" by (simp add: store_new_def)
  ultimately show ?thesis using assms(1) unfolding persisted_def by metis
qed

text \<open>The form in which every step is used: same snapshot, the log extended.\<close>

lemma files_extend:
  assumes "files_since s0 ops st" "st_snapshot st' = st_snapshot st"
    and "\<And>w. st_wal st = Some w \<Longrightarrow> \<exists>w'. st_wal st' = Some w' \<and> wal_old w' = wal_old w \<and>
           wal_log w' = wal_log w @ encode_ops rs"
  shows "files_since s0 (ops @ rs) st'"
proof -
  obtain w where w: "st_wal st = Some w" "wal_old w = None" "wal_log w = encode_ops ops"
    using assms(1) by (auto simp: files_since_def)
  with assms(3) [OF w(1)] assms(1,2) show ?thesis by (auto simp: files_since_def)
qed

lemma log_insert_files:
  assumes "st_wal st = Some w"
  shows "\<exists>w'. st_wal (log_insert e r st) = Some w' \<and> wal_old w' = wal_old w \<and>
    wal_log w' = wal_log w @ encode_ops (insert_records e r)"
  using assms
  by (auto simp: log_insert_def wal_insert_def wal_delete_def append_op_def insert_records_def Let_def
      split: option.splits)

lemma insert_files:
  assumes "files_since s0 ops st"
  shows "files_since s0 (ops @ insert_records e d) (log_insert e d (st\<lparr>st_index := s\<rparr>))"
    "files_since s0 ops (st\<lparr>st_index := s\<rparr>)"
  using assms log_insert_files [of "st\<lparr>st_index := s\<rparr>"]
  by (auto intro!: files_extend [OF assms]) (simp add: files_since_def)

text \<open>The two changes of the log, for any relation between the records and the index they lead to.\<close>

lemma insert_keeps_files:
  assumes "files_since s0 ops st" "\<And>d. r = Inserted d \<Longrightarrow> R (ops @ insert_records e d) s"
    and "\<nexists>d. r = Inserted d \<Longrightarrow> R ops s"
  shows "\<exists>ops'. R ops' s \<and> files_since s0 ops'
    (case r of Inserted d \<Rightarrow> log_insert e d (st\<lparr>st_index := s\<rparr>) | _ \<Rightarrow> st\<lparr>st_index := s\<rparr>)"
  using assms(2,3) insert_files [OF assms(1)] by (cases r) (fastforce simp del: append_assoc)+

lemma logged_insert_frame [simp]:
  "st_index (case r of Inserted d \<Rightarrow> log_insert e d (st\<lparr>st_index := s\<rparr>) | _ \<Rightarrow> st\<lparr>st_index := s\<rparr>) = s"
  "st_config (case r of Inserted d \<Rightarrow> log_insert e d (st\<lparr>st_index := s\<rparr>) | _ \<Rightarrow> st\<lparr>st_index := s\<rparr>) = st_config st"
  by (simp_all split: insert_outcome.split)

lemma record_deletion_files:
  "st_wal st = Some w \<Longrightarrow>
   \<exists>w'. st_wal (record_deletion i st) = Some w' \<and> wal_old w' = wal_old w \<and>
     wal_log w' = wal_log w @ encode_op (WalTombstone i)"
  by (simp add: record_deletion_def wal_tombstone_def append_op_def)

lemma delete_files:
  assumes "files_since s0 ops st"
  shows "files_since s0 (ops @ [WalTombstone i]) ((record_deletion i st)\<lparr>st_index := s\<rparr>)"
  using record_deletion_files [of st] by (intro files_extend [OF assms]) simp_all

interpretation files: logged_state X U "persisted X U" for X U
proof unfold_locales
  fix st :: event_store and e r s
  assume st: "persisted X U st" and e: "e \<in> U" and ins: "index_insert X e (st_index st) = (r, s)"
  then obtain s0 ops where f: "roomy U (st_config st)" "index_inv X U s0" "log_run X U s0 ops (st_index st)" "files_since s0 ops st"
    by (auto simp: persisted_def files_of_def)
  then show "persisted X U (case r of Inserted d \<Rightarrow> log_insert e d (st\<lparr>st_index := s\<rparr>) | _ \<Rightarrow> st\<lparr>st_index := s\<rparr>)"
    using insert_keeps_files [OF f(4), of r "log_run X U s0" e s] log_run.insert [OF f(3) e, of _ s]
      log_run.refused [OF f(3) e ins] ins
    unfolding persisted_def files_of_def logged_insert_frame by blast
next
  fix st :: event_store and i e q s
  assume st: "persisted X U st" and e: "by_id (st_index st) i = Some e" and del: "delete_by_id X i (st_index st) = (q, s)"
  then obtain s0 ops where f: "roomy U (st_config st)" "index_inv X U s0" "log_run X U s0 ops (st_index st)" "files_since s0 ops st"
    by (auto simp: persisted_def files_of_def)
  then show "persisted X U ((record_deletion i st)\<lparr>st_index := s\<rparr>)"
    using delete_files [OF f(4), of i s] log_run.delete [OF f(3) e del] by (auto simp: persisted_def files_of_def)
qed

lemma persisted_wal:
  assumes "persisted X U st"
  obtains s0 ops w es where "files_of X U s0 ops st" "roomy U (st_config st)"
    "st_wal st = Some w" "wal_old w = None" "wal_log w = encode_ops ops"
    "set es = stored s0" "distinct es"
    "st_snapshot st = Some (snapshot_bytes es) \<or> st_snapshot st = None \<and> es = []"
proof -
  obtain s0 ops where f: "files_of X U s0 ops st" "roomy U (st_config st)"
    using assms by (auto simp: persisted_def)
  then obtain w es where "st_wal st = Some w" "wal_old w = None" "wal_log w = encode_ops ops"
    "set es = stored s0" "distinct es"
    "st_snapshot st = Some (snapshot_bytes es) \<or> st_snapshot st = None \<and> es = []"
    unfolding files_of_def files_since_def by blast
  with f that show ?thesis by blast
qed

lemma persisted_inv:
  assumes "inj_on ev_id U" "persisted X U st"
  shows "index_inv X U (st_index st)"
  using assms(2) log_run_inv [OF _ assms(1)] by (auto simp: persisted_def files_of_def files_since_def)

lemma persisted_checkpoint:
  assumes "inj_on ev_id U" "enumerates ord" "persisted X U st"
  shows "persisted X U (checkpoint ord st)"
proof -
  obtain w where "st_wal st = Some w" by (rule persisted_wal [OF assms(3)])
  moreover have "roomy U (st_config st)" using assms(3) by (simp add: persisted_def)
  ultimately show ?thesis
    using checkpoint_files [OF assms(2) persisted_inv [OF assms(1,3)]] by (auto simp: persisted_def)
qed

text \<open>Operations that only move the fsync mark or the counters.\<close>

lemma persisted_same_files:
  assumes "persisted X U st" "st_wal st = Some w" "wal_log w' = wal_log w" "wal_old w' = wal_old w"
  shows "persisted X U (st\<lparr>st_wal := Some w'\<rparr>)"
  using assms unfolding persisted_def files_of_def files_since_def by force

lemma persisted_save:
  assumes "persisted X U st"
  shows "persisted X U (save_to_disk ord st)"
proof -
  obtain w where w: "st_wal st = Some w" by (rule persisted_wal [OF assms])
  then show ?thesis
    using assms persisted_same_files [OF assms w, of "flush_wal w"]
    by (simp add: save_to_disk_def flush_wal_def split: option.splits)
qed

lemma persisted_maybe_checkpoint:
  assumes "inj_on ev_id U" "enumerates ord" "persisted X U st"
  shows "persisted X U (maybe_checkpoint ord st)"
proof -
  obtain w where w: "st_wal st = Some w" by (rule persisted_wal [OF assms(3)])
  have "wal_log (snd (group_commit w)) = wal_log w" "wal_old (snd (group_commit w)) = wal_old w"
    by (simp_all add: group_commit_def)
  from persisted_same_files [OF assms(3) w this] persisted_checkpoint [OF assms] w show ?thesis
    by (simp add: maybe_checkpoint_def Let_def)
qed

section \<open>Recovery\<close>

text \<open>What a restart must give: a store with the same events, in step with its files again.\<close>

definition restarts_to ::
    "'x ext_scheme \<Rightarrow> event set \<Rightarrow> (bytes set \<Rightarrow> bytes list) \<Rightarrow> store_config \<Rightarrow> disk \<Rightarrow>
     (bytes \<rightharpoonup> event) \<Rightarrow> bool" where
  "restarts_to X U ord cfg d m \<longleftrightarrow>
     (\<forall>rss. \<exists>n st'. load_from_disk X ord (store_new cfg True rss d) = Some (n, st') \<and>
        by_id (st_index st') = m \<and> persisted X U st')"

lemma restart_from_files:
  assumes "inj_on ev_id U" "roomy U cfg" "enumerates ord"
    and "\<forall>e \<in> set es. e \<in> U \<and> persistable X e" "list_all (op_sound X U) old" "list_all (op_sound X U) new"
    and "d_snapshot d = Some (snapshot_bytes es) \<or> d_snapshot d = None \<and> es = []"
    and "d_old d = Some (encode_ops old) \<or> d_old d = None \<and> old = []"
    and "d_log d = Some bs" "fst (replay_bytes bs) = new"
    and "es = [] \<Longrightarrow> old @ new = [] \<Longrightarrow> bs = []"
    and "by_id (recovered X es (old @ new)) = m" "index_inv X U (recovered X es (old @ new))"
  shows "restarts_to X U ord cfg d m"
  unfolding restarts_to_def using load_from_files [OF assms(1-11,13)] assms(12) by metis

lemma restart_at_rest:
  assumes inj: "inj_on ev_id U" and pers: "\<forall>e \<in> U. persistable X e" and ord: "enumerates ord"
    and "persisted X U st"
  shows "restarts_to X U ord (st_config st) (disk_of st) (by_id (st_index st))"
proof -
  obtain s0 ops w es where f: "files_of X U s0 ops st" "roomy U (st_config st)"
    "st_wal st = Some w" "wal_old w = None" "wal_log w = encode_ops ops"
    and es: "set es = stored s0" "distinct es"
    "st_snapshot st = Some (snapshot_bytes es) \<or> st_snapshot st = None \<and> es = []"
    by (rule persisted_wal [OF assms(4)])
  have run: "log_run X U s0 ops (st_index st)" and inv: "index_inv X U s0"
    using f(1) by (auto simp: files_of_def files_since_def)
  note rec = recovered_run [OF inj pers inv run es(1,2)]
  have "\<forall>e \<in> set es. e \<in> U \<and> persistable X e"
    using pers es(1) index_core_facts(3) [OF index_invD(1) [OF inv]] by blast
  then show ?thesis
    using f es(3) rec log_run_sound [OF run inj pers inv]
      replay_encode [OF op_sound_ok [OF log_run_sound [OF run inj pers inv]]]
    by (intro restart_from_files [OF inj f(2) ord, of es X "[]" ops _ "encode_ops ops"])
      (simp_all add: disk_of_def)
qed

text \<open>Inside a checkpoint: after the rotation, and after the new snapshot.\<close>

lemma restart_after_rotate:
  assumes inj: "inj_on ev_id U" and pers: "\<forall>e \<in> U. persistable X e" and ord: "enumerates ord"
    and "persisted X U st"
  shows "restarts_to X U ord (st_config st) (disk_of (checkpoint_rotate st)) (by_id (st_index st))"
proof -
  obtain s0 ops w es where f: "files_of X U s0 ops st" "roomy U (st_config st)"
    "st_wal st = Some w" "wal_old w = None" "wal_log w = encode_ops ops"
    and es: "set es = stored s0" "distinct es"
    "st_snapshot st = Some (snapshot_bytes es) \<or> st_snapshot st = None \<and> es = []"
    by (rule persisted_wal [OF assms(4)])
  have run: "log_run X U s0 ops (st_index st)" and inv: "index_inv X U s0"
    using f(1) by (auto simp: files_of_def files_since_def)
  note rec = recovered_run [OF inj pers inv run es(1,2)]
  have "\<forall>e \<in> set es. e \<in> U \<and> persistable X e"
    using pers es(1) index_core_facts(3) [OF index_invD(1) [OF inv]] by blast
  then show ?thesis
    using f es(3) rec log_run_sound [OF run inj pers inv]
    by (intro restart_from_files [OF inj f(2) ord, of es X ops "[]" _ "[]"])
      (simp_all add: disk_of_def checkpoint_rotate_def rotate_wal_def)
qed

lemma restart_after_snapshot:
  assumes inj: "inj_on ev_id U" and pers: "\<forall>e \<in> U. persistable X e" and ord: "enumerates ord"
    and "persisted X U st"
  shows "restarts_to X U ord (st_config st)
    (disk_of (snd (write_snapshot ord (checkpoint_rotate st)))) (by_id (st_index st))"
proof -
  obtain s0 ops w where f: "files_of X U s0 ops st" "roomy U (st_config st)"
    "st_wal st = Some w" "wal_old w = None" "wal_log w = encode_ops ops"
    by (rule persisted_wal [OF assms(4)])
  have run: "log_run X U s0 ops (st_index st)" and inv: "index_inv X U s0"
    using f(1) by (auto simp: files_of_def files_since_def)
  note core = index_invD(1) [OF persisted_inv [OF inj assms(4)]]
  have fin: "finite (dom (by_id (st_index st)))" using core by (simp add: index_core_def)
  let ?es = "iter_all ord (st_index st)"
  have es: "set ?es = stored (st_index st)" "distinct ?es"
    using iter_all_set [OF ord fin] iter_all_distinct [OF ord fin index_core_facts(2) [OF core]]
    by simp_all
  note rec = recovered_newer_snapshot [OF inj pers inv run es]
  have "\<forall>e \<in> set ?es. e \<in> U \<and> persistable X e"
    using pers es(1) index_core_facts(3) [OF core] by blast
  then show ?thesis
    using f rec log_run_sound [OF run inj pers inv]
    by (intro restart_from_files [OF inj f(2) ord, of ?es X ops "[]" _ "[]"])
      (simp_all add: disk_of_def checkpoint_rotate_def rotate_wal_def write_snapshot_def Let_def)
qed

text \<open>
  After a power failure the live segment is cut at some byte. The restart reaches a state that the
  run went through, after at least all the records that are whole in the part that survived. It
  needs one whole record or a snapshot: otherwise the log is not reset.
\<close>

lemma restart_torn:
  assumes inj: "inj_on ev_id U" and pers: "\<forall>e \<in> U. persistable X e" and ord: "enumerates ord"
    and cfg: "roomy U (st_config st)" and files: "files_of X U s0 ops st"
    and some: "stored s0 \<noteq> {} \<or> (ops \<noteq> [] \<and> length (encode_op (hd ops)) \<le> k) \<or> k = 0"
  shows "\<exists>n ops' s'. n \<le> length ops \<and> (n < length ops \<longrightarrow> k < length (encode_ops (take (Suc n) ops))) \<and>
     n \<le> length ops' \<and> prefix ops' ops \<and> log_run X U s0 ops' s' \<and>
     restarts_to X U ord (st_config st)
       ((disk_of st)\<lparr>d_log := Some (take k (encode_ops ops))\<rparr>) (by_id s')"
proof -
  obtain w es where w: "st_wal st = Some w" "wal_old w = None" "wal_log w = encode_ops ops"
    and es: "set es = stored s0" "distinct es"
      "st_snapshot st = Some (snapshot_bytes es) \<or> st_snapshot st = None \<and> es = []"
    using files unfolding files_of_def files_since_def by blast
  have run: "log_run X U s0 ops (st_index st)" and inv: "index_inv X U s0"
    using files by (auto simp: files_of_def files_since_def)
  note sound = log_run_sound [OF run inj pers inv]
  let ?bs = "take k (encode_ops ops)"
  obtain n where n: "n \<le> length ops" "length (encode_ops (take n ops)) \<le> k"
      "n < length ops \<longrightarrow> k < length (encode_ops (take (Suc n) ops))"
      "fst (replay_bytes ?bs) = take n ops"
    using replay_torn_log [OF op_sound_ok [OF sound], of k] by (metis fst_conv)
  note snap = snapshot_restores [OF inj inv es(1,2)]
  have "tracks X U {} Map.empty (insert_all X es index_new) s0"
    using snap inv by (simp add: tracks_def tombs_new_def)
  from replay_prefix_tracks [OF run inj pers this n(1)] obtain ops' s' where
    r: "log_run X U s0 ops' s'" "prefix ops' ops" "n \<le> length ops'"
      "tracks X U {} Map.empty (recovered X es (take n ops)) s'"
    unfolding recovered_def by blast
  have id: "by_id (recovered X es (take n ops)) = by_id s'"
    "index_inv X U (recovered X es (take n ops))"
    using r(4) by (auto simp: tracks_def intro!: at_slots_by_id [of X U])
  have "\<forall>e \<in> set es. e \<in> U \<and> persistable X e"
    using pers es(1) index_core_facts(3) [OF index_invD(1) [OF inv]] by blast
  moreover have "?bs = []" if "es = []" "take n ops = []"
  proof -
    have "n = 0 \<or> ops = []" using that(2) by auto
    then show ?thesis using n(3) some that(1) es(1) by (cases ops) (auto simp: not_less)
  qed
  moreover have "list_all (op_sound X U) (take n ops)"
    using sound by (metis append_take_drop_id list_all_append)
  ultimately have "restarts_to X U ord (st_config st) ((disk_of st)\<lparr>d_log := Some ?bs\<rparr>) (by_id s')"
    using id n(4) w es(3)
    by (intro restart_from_files [OF inj cfg ord, of es X "[]" "take n ops" _ ?bs])
      (simp_all add: disk_of_def)
  with r n show ?thesis by blast
qed

end
