(* ===== verification/Store_Properties.thy ===== *)
theory Store_Properties
  imports Store_Recovery Index_Properties Wal_Properties
begin

text \<open>
  Properties of the store: its memory budget and eviction, what a deletion request removes, and
  that a restart brings back what was stored, also from the middle of a checkpoint and after a
  power failure.
\<close>

section \<open>Memory budget\<close>

text \<open>
  The amplification estimate stays between 1 and 16 (in thousandths) and each sample moves it
  from its old value towards the observed ratio of process memory to payload, never past it, and
  strictly closer unless it is within eight thousandths already.
\<close>

theorem amplification_tracks:
  assumes "amp_ok st" "MIN_AMPLIFICATION_SAMPLE_BYTES \<le> memory_bytes (st_index st)" "rss \<noteq> 0"
  shows "amp_ok (sample_amplification rss st) \<and>
    (let old = uint (amplification_milli st);
         new = uint (amplification_milli (sample_amplification rss st))
     in \<bar>observed_milli rss st - new\<bar> \<le> \<bar>observed_milli rss st - old\<bar> \<and>
        (8 \<le> \<bar>observed_milli rss st - old\<bar> \<longrightarrow>
           \<bar>observed_milli rss st - new\<bar> < \<bar>observed_milli rss st - old\<bar>))"
  using amp_sample [OF assms(1)] sample_value [OF assms]
    sample_contracts [of "observed_milli rss st" "uint (amplification_milli st)"]
  by (simp add: Let_def)

text \<open>A store whose index reports 64 MiB of payload.\<close>

definition sample_full :: event_store where
  "sample_full =
     (let st = store_new store_config_default True 0 \<lparr>d_log = None, d_old = None, d_snapshot = None\<rparr>
      in st\<lparr>st_index := (st_index st)\<lparr>memory_bytes := 64 * 1024 * 1024\<rparr>\<rparr>)"

theorem amplification_tracks_witness: "amp_ok (sample_amplification 500000000 sample_full)"
proof -
  have "amp_ok sample_full"
    by (simp add: sample_full_def amp_ok_def store_new_def DEFAULT_AMPLIFICATION_MILLI_def Let_def)
  moreover have "MIN_AMPLIFICATION_SAMPLE_BYTES \<le> memory_bytes (st_index sample_full)"
    by (simp add: sample_full_def MIN_AMPLIFICATION_SAMPLE_BYTES_def store_new_def Let_def)
  ultimately show ?thesis using amplification_tracks [of sample_full 500000000] by simp
qed

text \<open>
  The amplification over the life of a store: whatever the other tasks do to the index and the files
  between two samples, only the sampler writes it, from any measurement of the process.
\<close>

inductive amp_run :: "store_config \<Rightarrow> event_store \<Rightarrow> bool" for cfg where
  start: "amp_run cfg (store_new cfg open_ok rss d)"
| sample: "amp_run cfg st \<Longrightarrow> amp_run cfg (sample_rss rss st)"
| other: "amp_run cfg st \<Longrightarrow> st_config st' = st_config st \<Longrightarrow> amplification_milli st' = amplification_milli st \<Longrightarrow>
    amp_run cfg st'"

lemma amp_run_ok: "amp_run cfg st \<Longrightarrow> amp_ok st \<and> st_config st = cfg"
proof (induction rule: amp_run.induct)
  case (start open_ok rss d)
  then show ?case using amp_new by (simp add: store_new_def)
next
  case (sample st rss)
  then have "amp_ok (st\<lparr>cached_rss_bytes := rss\<rparr>)" by (simp add: amp_ok_def)
  from amp_sample [OF this, of rss] show ?case
    using sample by (simp add: sample_rss_def sample_amplification_def Let_def)
next
  case (other st st')
  then show ?case by (simp add: amp_ok_def)
qed

text \<open>
  C32. In every state of a store the payload budget derived from a memory limit is at most the limit and
  at least a sixteenth of it (rounded down), whatever the sampler has measured, as long as a thousand
  times the limit fits 64 bits, that is, up to about 18 petabytes; and even for an amplification that
  the sampler would never write it would be at most the limit.
\<close>

theorem payload_budget_bounds:
  assumes "amp_run cfg st" "unat (max_bytes cfg) * 1000 < 2 ^ 64"
  shows "unat (max_bytes cfg) div 16 \<le> unat (payload_budget st) \<and> payload_budget st \<le> max_bytes cfg \<and>
    (\<forall>a. payload_budget (st\<lparr>amplification_milli := a\<rparr>) \<le> max_bytes cfg)"
proof (intro conjI allI)
  have cfg: "st_config st = cfg" and ok: "amp_ok st" using amp_run_ok [OF assms(1)] by simp_all
  let ?m = "max_bytes cfg" and ?a = "unat (amplification_milli st)"
  have a: "1000 \<le> ?a" "?a \<le> 16000"
    using ok by (auto simp: amp_ok_def word_le_nat_alt)
  have mx: "max (amplification_milli st) 1000 = amplification_milli st"
    using ok by (simp add: amp_ok_def max_absorb1)
  have m: "unat (?m * 1000) = unat ?m * 1000"
    using assms(2) by (simp add: unat_word_ariths)
  have "unat (payload_budget st) = unat ?m * 1000 div ?a"
    using mx m by (simp add: payload_budget_def cfg Let_def unat_div)
  moreover have "unat ?m * 1000 div 16000 \<le> unat ?m * 1000 div ?a"
    using a by (intro div_le_mono2) auto
  ultimately show "unat ?m div 16 \<le> unat (payload_budget st)" by simp
  show upper: "payload_budget (st\<lparr>amplification_milli := a\<rparr>) \<le> ?m" for a
  proof -
    have "1000 \<le> unat (max a 1000)" by (simp add: max_def word_le_nat_alt)
    then have "unat ?m * 1000 div unat (max a 1000) \<le> unat ?m * 1000 div 1000" by (intro div_le_mono2) auto
    then have "unat (?m * 1000 div max a 1000) \<le> unat ?m" by (simp add: unat_div m)
    then show ?thesis by (simp add: payload_budget_def cfg Let_def word_le_nat_alt)
  qed
  from upper [of "amplification_milli st"] show "payload_budget st \<le> ?m" by simp
qed

theorem payload_budget_bounds_witness:
  "payload_budget (sample_rss 123 (store_new \<lparr>max_bytes = 8000, persistence_path = None, use_wal = True\<rparr> True 0
     \<lparr>d_log = None, d_old = None, d_snapshot = None\<rparr>)) \<le> 8000"
proof -
  have "amp_run \<lparr>max_bytes = 8000, persistence_path = None, use_wal = True\<rparr>
      (sample_rss 123 (store_new \<lparr>max_bytes = 8000, persistence_path = None, use_wal = True\<rparr> True 0
        \<lparr>d_log = None, d_old = None, d_snapshot = None\<rparr>))"
    by (intro amp_run.sample amp_run.start)
  from payload_budget_bounds [OF this] show ?thesis by simp
qed

section \<open>Eviction\<close>

text \<open>
  C28. A turn of the evictor never panics, keeps the index invariant and the files, and removes
  events from the old end only: nothing that went is newer than anything that stayed. Under a
  limit it brings the payload down to nine tenths of the budget or else frees at least a thousand
  events (all of them, if there are fewer).
\<close>

theorem maybe_evict_oldest:
  assumes "index_inv X U (st_index st)"
  shows "\<exists>st'. maybe_evict X st = Some st' \<and> index_inv X U (st_index st') \<and>
     disk_of st' = disk_of st \<and> stored (st_index st') \<subseteq> stored (st_index st) \<and>
     (\<forall>a \<in> stored (st_index st) - stored (st_index st'). \<forall>b \<in> stored (st_index st').
        ev_created_at a \<le> ev_created_at b) \<and>
     (max_bytes (st_config st) \<noteq> 0 \<longrightarrow>
        memory_bytes (st_index st') \<le> payload_budget st * 90 div 100 \<or>
        min 1000 (card (stored (st_index st))) \<le>
          card (stored (st_index st) - stored (st_index st')))"
proof -
  obtain st' where st': "maybe_evict X st = Some st'" "index_inv X U (st_index st')"
    "evicts_oldest (stored (st_index st)) (stored (st_index st'))" "st_wal st' = st_wal st"
    "st_snapshot st' = st_snapshot st"
    "max_bytes (st_config st) \<noteq> 0 \<longrightarrow>
        memory_bytes (st_index st') \<le> payload_budget st * 90 div 100 \<or>
        min 1000 (card (stored (st_index st))) \<le>
          card (stored (st_index st) - stored (st_index st'))"
    using maybe_evict_spec [OF assms] by blast
  show ?thesis
    by (rule exI [of _ st']) (use st' in \<open>simp add: evicts_oldest_def disk_of_def\<close>)
qed

theorem maybe_evict_oldest_witness:
  "\<exists>st'. maybe_evict sample_ext
     ((store_new \<lparr>max_bytes = 1, persistence_path = None, use_wal = True\<rparr> True 5
        \<lparr>d_log = None, d_old = None, d_snapshot = None\<rparr>)
        \<lparr>st_index := insert_all sample_ext [sample_note] index_new\<rparr>) = Some st'"
  using maybe_evict_oldest [of sample_ext "set sample_events"
      "(store_new \<lparr>max_bytes = 1, persistence_path = None, use_wal = True\<rparr> True 5
        \<lparr>d_log = None, d_old = None, d_snapshot = None\<rparr>)
        \<lparr>st_index := insert_all sample_ext [sample_note] index_new\<rparr>"]
    sample_index [of "[sample_note]"]
  by auto

section \<open>Deletion requests\<close>

text \<open>
  C7. A deletion request removes exactly the stored events it may: those of its author that an
  \<open>e\<close> tag names, whatever their time, and those of its author that an \<open>a\<close> tag selects that are not
  newer than the request. Their ids are reported, each once, and within the cap, all tombstoned; every other
  event stays, and the order in which the ids are visited does not matter.
\<close>

theorem apply_deletion_exact:
  assumes "inj_on ev_id U" "index_inv X U (st_index st)" "enumerates ord" "finite (dr_ids req)"
    and "D = {e \<in> stored (st_index st). ev_pubkey e = author \<and>
           (ev_id e \<in> dr_ids req \<or>
            ev_created_at e \<le> until \<and>
            (\<exists>c \<in> set (dr_coordinates req). co_pubkey c = author \<and> replacement_key e = coordinate_key c))}"
  shows "case apply_deletion X ord req author until st of (out, st') \<Rightarrow>
     index_inv X U (st_index st') \<and> stored (st_index st') = stored (st_index st) - D \<and>
     set (deleted_ids out) = ev_id ` D \<and> length (deleted_ids out) = card D \<and>
     (card (ts_ids (tombstones (st_index st))) + card D \<le> MAX_TOMBSTONES \<longrightarrow>
        ts_ids (tombstones (st_index st')) = ts_ids (tombstones (st_index st)) \<union> ev_id ` D)"
proof -
  have "D = id_targets author (dr_ids req) (stored (st_index st)) \<union>
      coord_targets author until (set (dr_coordinates req)) (stored (st_index st))"
    using replacement_key_coordinate(2) by (auto simp: assms(5) id_targets_def coord_targets_def)
  then show ?thesis
    using apply_deletion_walked [OF assms(1-4), of author until]
    by (simp add: walked_def case_prod_beta)
qed

definition sample_request :: del_request where
  "sample_request = \<lparr>dr_ids = {ev_id sample_note}, dr_coordinates = []\<rparr>"

theorem apply_deletion_exact_witness:
  "set (deleted_ids (fst (apply_deletion sample_ext sorted_list_of_set sample_request (replicate 32 7) 200
     ((store_new store_config_default True 0 \<lparr>d_log = None, d_old = None, d_snapshot = None\<rparr>)
        \<lparr>st_index := insert_all sample_ext [sample_note] index_new\<rparr>)))) = {ev_id sample_note}"
proof -
  let ?st = "(store_new store_config_default True 0 \<lparr>d_log = None, d_old = None, d_snapshot = None\<rparr>)
        \<lparr>st_index := insert_all sample_ext [sample_note] index_new\<rparr>"
  have inv: "index_inv sample_ext (set sample_events) (st_index ?st)"
    using sample_index [of "[sample_note]"] by simp
  have st: "stored (st_index ?st) = {sample_note}" by (simp add: sample_index_note del: fold.simps)
  have pk: "ev_pubkey sample_note = replicate 32 7" by (simp add: sample_note_def)
  have D: "{e \<in> stored (st_index ?st). ev_pubkey e = replicate 32 7 \<and>
           (ev_id e \<in> dr_ids sample_request \<or> ev_created_at e \<le> 200 \<and>
            (\<exists>c \<in> set (dr_coordinates sample_request). co_pubkey c = replicate 32 7 \<and>
               replacement_key e = coordinate_key c))} = {sample_note}"
    using st pk by (auto simp only: sample_request_def del_request.simps list.set)
  show ?thesis
    using apply_deletion_exact [OF sample_inj inv enumerates_sorted_list_of_set _ D [symmetric]]
    by (simp add: sample_request_def case_prod_beta)
qed

end
