(* ===== verification/Durability_Properties.thy ===== *)
theory Durability_Properties
  imports Store_Recovery Index_Properties
begin

text \<open>
  What a restart brings back: every run of the store leaves files from which the next process
  loads the same events, from the middle of a checkpoint as well and, after a power failure, an
  earlier state of the run; and the gaps in that guarantee.
\<close>

section \<open>Runs of a persistent store\<close>

text \<open>
  A store with a log, from an empty directory: inserts, batches, deletion requests, the sampler's
  turns, turns of the evictor that find nothing to evict, checkpoints, saves, and restarts. An
  eviction is not logged, so after one a restart need not bring back exactly what was stored.
\<close>

inductive store_run ::
    "'x ext_scheme \<Rightarrow> event set \<Rightarrow> (bytes set \<Rightarrow> bytes list) \<Rightarrow> store_config \<Rightarrow> event_store \<Rightarrow> bool"
  for X U ord cfg where
  start: "store_run X U ord cfg
    (store_new cfg True rss \<lparr>d_log = None, d_old = None, d_snapshot = None\<rparr>)"
| insert: "store_run X U ord cfg st \<Longrightarrow> e \<in> U \<Longrightarrow> store_insert X e st = (r, st') \<Longrightarrow>
    store_run X U ord cfg st'"
| batch: "store_run X U ord cfg st \<Longrightarrow> set es \<subseteq> U \<Longrightarrow> insert_batch X es st = (c, st') \<Longrightarrow>
    store_run X U ord cfg st'"
| deletion: "store_run X U ord cfg st \<Longrightarrow> apply_deletion X ord req author until st = (out, st') \<Longrightarrow>
    store_run X U ord cfg st'"
| evict: "store_run X U ord cfg st \<Longrightarrow> maybe_evict X st = Some st' \<Longrightarrow>
    st_index st' = st_index st \<Longrightarrow> store_run X U ord cfg st'"
| sample: "store_run X U ord cfg st \<Longrightarrow> store_run X U ord cfg (sample_rss rss st)"
| persist: "store_run X U ord cfg st \<Longrightarrow> store_run X U ord cfg (maybe_checkpoint ord st)"
| fold_log: "store_run X U ord cfg st \<Longrightarrow> store_run X U ord cfg (checkpoint ord st)"
| save: "store_run X U ord cfg st \<Longrightarrow> store_run X U ord cfg (save_to_disk ord st)"
| restart: "store_run X U ord cfg st \<Longrightarrow>
    load_from_disk X ord (store_new cfg True rss (disk_of st)) = Some (n, st') \<Longrightarrow>
    store_run X U ord cfg st'"

lemma persisted_frame:
  assumes "persisted X U st" "st_index st' = st_index st" "st_config st' = st_config st"
    and "st_wal st' = st_wal st" "st_snapshot st' = st_snapshot st"
  shows "persisted X U st'"
  using assms unfolding persisted_def files_of_def files_since_def by simp

lemma sample_rss_frame [frame_simps]:
  "st_index (sample_rss rss st) = st_index st" "st_config (sample_rss rss st) = st_config st"
  "st_wal (sample_rss rss st) = st_wal st" "st_snapshot (sample_rss rss st) = st_snapshot st"
  by (simp_all add: sample_rss_def sample_amplification_def Let_def)

lemma config_frame [frame_simps]:
  "st_config (snd (store_insert X e st)) = st_config st"
  "st_config (snd (insert_batch X es st)) = st_config st"
  "st_config (snd (apply_deletion X ord req author until st)) = st_config st"
  "st_config (save_to_disk ord st) = st_config st"
  "st_config (maybe_checkpoint ord st) = st_config st"
proof -
  show "st_config (snd (store_insert X e st)) = st_config st"
    "st_config (snd (insert_batch X es st)) = st_config st"
    "st_config (snd (apply_deletion X ord req author until st)) = st_config st"
    using operation_frame(1) [of X e st] operation_frame(2) [of X es st]
      operation_frame(3) [of X ord req author until st] by simp_all
  show save: "st_config (save_to_disk ord st) = st_config st"
    by (simp add: save_to_disk_def write_snapshot_def Let_def split: option.splits)
  then show "st_config (maybe_checkpoint ord st) = st_config st"
    by (simp add: maybe_checkpoint_def Let_def split: option.splits)
qed

lemma store_run_persisted:
  assumes "store_run X U ord cfg st" "inj_on ev_id U" "\<forall>e \<in> U. persistable X e" "enumerates ord"
    and cfg: "roomy U cfg"
  shows "persisted X U st \<and> st_config st = cfg"
  using assms(1)
proof induction
  case (start rss)
  have "persisted X U (store_new cfg True rss \<lparr>d_log = None, d_old = None, d_snapshot = None\<rparr>)"
    by (rule persisted_new [OF cfg]) simp_all
  moreover have "st_config (store_new cfg True rss d) = cfg" for d by (simp add: store_new_def)
  ultimately show ?case by simp
next
  case (insert st e r st')
  then show ?case using files.store_insert_keeps [of X U st e] config_frame(1) [of X e st] by simp
next
  case (batch st es c st')
  then show ?case using files.insert_batch_keeps [of X U st es] config_frame(2) [of X es st] by simp
next
  case (deletion st req author until out st')
  then show ?case
    using files.apply_deletion_keeps [of X U st ord req author until] config_frame(3) [of X ord req author until st]
    by simp
next
  case (evict st st')
  then show ?case using maybe_evict_frame [OF evict.hyps(2)] persisted_frame [of X U st st'] by simp
next
  case (sample st rss)
  then show ?case using persisted_frame [of X U st "sample_rss rss st"] by (simp add: frame_simps)
next
  case (persist st)
  then show ?case using persisted_maybe_checkpoint [OF assms(2,4), of X st] by (simp add: frame_simps)
next
  case (fold_log st)
  then show ?case using persisted_checkpoint [OF assms(2,4), of X st] by simp
next
  case (save st)
  then show ?case using persisted_save [of X U st ord] by (simp add: frame_simps)
next
  case (restart st rss n st')
  then have "restarts_to X U ord cfg (disk_of st) (by_id (st_index st))"
    using restart_at_rest [OF assms(2-4), of st] by auto
  then have "persisted X U st'"
    using restart.hyps(2) unfolding restarts_to_def by (metis option.inject prod.inject)
  moreover have "st_config st' = cfg"
    using load_config [OF restart.hyps(2)] by (simp add: store_new_def)
  ultimately show ?case by simp
qed

section \<open>Restarts\<close>

text \<open>
  C1. Nothing stored is lost by a crash of the process: from any state of a run, and from the points
  inside a checkpoint after the rotation of the log and after the new snapshot, the next process
  loads without error exactly the events that were stored. The run evicts nothing; persistence and
  the log are on; there is no memory limit, or all events ever offered fit 90 percent of it; no two
  of them have one id; and the JSON of each is one line that fits a record and parses again.
\<close>

theorem restart_restores:
  assumes "inj_on ev_id U" "\<forall>e \<in> U. persistable X e" "enumerates ord" "roomy U cfg"
    and "store_run X U ord cfg st"
    and "d \<in> {disk_of st, disk_of (checkpoint_rotate st),
              disk_of (snd (write_snapshot ord (checkpoint_rotate st)))}"
  shows "\<exists>n st'. load_from_disk X ord (store_new cfg True rss d) = Some (n, st') \<and>
    by_id (st_index st') = by_id (st_index st) \<and> index_inv X U (st_index st')"
proof -
  have p: "persisted X U st" "st_config st = cfg"
    using store_run_persisted [OF assms(5,1-4)] by auto
  have "restarts_to X U ord cfg d (by_id (st_index st))"
    using assms(6) restart_at_rest [OF assms(1-3) p(1)] restart_after_rotate [OF assms(1-3) p(1)]
      restart_after_snapshot [OF assms(1-3) p(1)]
    by (auto simp: p(2))
  then show ?thesis using persisted_inv [OF assms(1)] unfolding restarts_to_def by metis
qed

lemma sample_persistable: "\<forall>e \<in> set sample_events. persistable sample_ext e"
proof
  fix e assume e: "e \<in> set sample_events"
  have "ev_raw e \<noteq> [] \<and> length (ev_raw e) = 3 \<and> 10 \<notin> set (ev_raw e) \<and> last (ev_raw e) \<noteq> 13 \<and>
      utf8_valid (ev_raw e)"
    using e by (auto simp: sample_events_def sample_defs utf8_valid.simps)
  then show "persistable sample_ext e"
    using sample_parses [OF e] sample_lengths [OF e]
    by (simp add: persistable_def MAX_WAL_RECORD_SIZE_def)
qed

definition sample_config :: store_config where
  "sample_config = \<lparr>max_bytes = 0, persistence_path = Some ''data'', use_wal = True\<rparr>"

lemma sample_unlimited: "unlimited sample_config"
  by (simp add: unlimited_def sample_config_def)

lemmas sample_roomy = unlimited_roomy [OF sample_unlimited]

definition empty_disk :: disk where
  "empty_disk = \<lparr>d_log = None, d_old = None, d_snapshot = None\<rparr>"

definition sample_store :: event_store where
  "sample_store = snd (store_insert sample_ext sample_note (store_new sample_config True 0 empty_disk))"

lemma sample_run: "store_run sample_ext (set sample_events) sorted_list_of_set sample_config sample_store"
  unfolding sample_store_def
  by (rule store_run.insert [OF store_run.start [folded empty_disk_def] sample_member(1)])
    (rule surjective_pairing)

theorem restart_restores_witness:
  "\<exists>n st'. load_from_disk sample_ext sorted_list_of_set
       (store_new sample_config True 0 (disk_of (checkpoint_rotate sample_store))) = Some (n, st') \<and>
     by_id (st_index st') = by_id (st_index sample_store)"
  using restart_restores [OF sample_inj sample_persistable enumerates_sorted_list_of_set sample_roomy
      sample_run, of "disk_of (checkpoint_rotate sample_store)" 0]
  by auto


text \<open>
  C21. After a power failure the live segment is cut at some byte \<open>k\<close>. The next process then loads
  the events of an earlier state of the run since the last snapshot, one that is reached after at
  least all the records that are whole in the part that survived (a last replacement may be loaded
  before its delete record). It takes an event in the snapshot, or one whole record, or an empty
  segment: otherwise the torn log is not reset. As for a crash, the run evicts nothing, there is no
  memory limit or all events ever offered fit 90 percent of it, no two of them have one id, and the
  JSON of each is one line that fits a record and parses again.
\<close>

theorem power_failure_restores_prefix:
  assumes "inj_on ev_id U" "\<forall>e \<in> U. persistable X e" "enumerates ord"
    and "roomy U (st_config st)" "files_of X U s0 ops st"
    and "stored s0 \<noteq> {} \<or> (ops \<noteq> [] \<and> length (encode_op (hd ops)) \<le> k) \<or> k = 0"
  shows "\<exists>n ops' s'. n \<le> length ops \<and> (n < length ops \<longrightarrow> k < length (encode_ops (take (Suc n) ops))) \<and>
     n \<le> length ops' \<and> prefix ops' ops \<and> log_run X U s0 ops' s' \<and>
     (\<forall>rss. \<exists>c st'. load_from_disk X ord (store_new (st_config st) True rss
        ((disk_of st)\<lparr>d_log := Some (take k (encode_ops ops))\<rparr>)) = Some (c, st') \<and>
        by_id (st_index st') = by_id s')"
  using restart_torn [OF assms] unfolding restarts_to_def by blast

lemma insert_into_new:
  "fst (index_insert X e index_new) = Inserted None"
  "by_id (snd (index_insert X e index_new)) = [ev_id e \<mapsto> e]"
proof -
  obtain r s where ins: "index_insert X e index_new = (r, s)" by fastforce
  have "spec_insert {} Map.empty e r (by_id s)"
    using index_insert_refines [OF _ index_inv_new, of "{e}" e X] ins
    by (simp add: insert_refines_def index_new_def tombs_new_def)
  then show "fst (index_insert X e index_new) = Inserted None"
    "by_id (snd (index_insert X e index_new)) = [ev_id e \<mapsto> e]"
    using ins by (auto simp: rival_def elim!: spec_insertE)
qed

lemma sample_files:
  "files_of sample_ext (set sample_events) index_new [WalInsert (ev_raw sample_note)] sample_store"
proof -
  obtain s where ins: "index_insert sample_ext sample_note index_new = (Inserted None, s)"
    using insert_into_new(1) by (metis prod.collapse)
  have live: "\<not> is_ephemeral sample_note" by code_simp
  have st: "sample_store = log_insert sample_note None
      ((store_new sample_config True 0 empty_disk)\<lparr>st_index := s\<rparr>)"
    using live ins by (simp add: sample_store_def store_insert_def store_new_def)
  from log_run.insert [OF log_run.start sample_member(1) ins]
  have "log_run sample_ext (set sample_events) index_new [WalInsert (ev_raw sample_note)] s"
    by (simp add: insert_records_def)
  moreover have "stored index_new = {}" by (simp add: stored_def index_new_def)
  ultimately show ?thesis
    by (simp add: files_of_def files_since_def st log_insert_def store_new_def sample_config_def empty_disk_def
        wal_open_def wal_insert_def append_op_def Let_def index_inv_new)
qed

lemma files_of_insert:
  assumes "files_of X U s0 ops st" "e \<in> U" "\<not> is_ephemeral e" "index_insert X e (st_index st) = (Inserted r, s)"
  shows "files_of X U s0 (ops @ insert_records e r) (snd (store_insert X e st))"
  using assms log_run.insert [of X U s0 ops "st_index st" e r s]
  by (auto simp: files_of_def files_since_def store_insert_def log_insert_def Let_def insert_records_def
      wal_insert_def wal_delete_def append_op_def split: option.splits)

text \<open>Two events in the log, and a power failure in the middle of the second record.\<close>

definition two_records :: "wal_op list" where
  "two_records = [WalInsert (ev_raw sample_note), WalInsert (ev_raw sample_old)]"

lemma two_records_files:
  "files_of sample_ext (set sample_events) index_new two_records (snd (store_insert sample_ext sample_old sample_store))"
proof -
  let ?s = "st_index sample_store"
  have inv: "index_inv sample_ext (set sample_events) ?s"
    using store_run_persisted [OF sample_run sample_inj sample_persistable enumerates_sorted_list_of_set sample_roomy]
      persisted_inv [OF sample_inj] by blast
  have live: "\<not> is_ephemeral sample_note" by code_simp
  obtain s1 where s1: "index_insert sample_ext sample_note index_new = (Inserted None, s1)"
    using insert_into_new(1) by (metis prod.collapse)
  then have "?s = s1" using live
    by (simp add: sample_store_def store_insert_def store_new_def log_insert_def Let_def split: option.splits)
  with insert_into_new(2) [of sample_ext sample_note] s1 have held: "by_id ?s = [ev_id sample_note \<mapsto> sample_note]"
    by simp
  have tombs: "tombstones ?s = tombs_new"
    using index_insert_refines [OF sample_inj index_inv_new sample_member(1), of sample_ext] s1 \<open>?s = s1\<close>
    by (simp add: insert_refines_def index_new_def)
  have "sample_old \<in> set sample_events" by simp
  note ref = index_insert_refines [OF sample_inj inv this]
  obtain r s2 where i: "index_insert sample_ext sample_old ?s = (r, s2)" by fastforce
  have "spec_insert {} [ev_id sample_note \<mapsto> sample_note] sample_old r (by_id s2)"
    using ref by (simp add: insert_refines_def i tombs held) (simp add: tombs_new_def)
  moreover have "\<not> rival [ev_id sample_note \<mapsto> sample_note] sample_old d" for d
    by (auto simp: rival_def replacement_key_def sample_note_def sample_old_def kind_defs word_le_nat_alt)
  moreover have "ev_id sample_note \<noteq> ev_id sample_old" by (simp add: sample_note_def sample_old_def)
  ultimately have "r = Inserted None" by (auto elim!: spec_insertE)
  moreover have "\<not> is_ephemeral sample_old" "sample_old \<in> set sample_events" by code_simp+
  ultimately show ?thesis
    using files_of_insert [OF sample_files, of sample_old None s2] i by (simp add: two_records_def insert_records_def)
qed

theorem power_failure_restores_prefix_witness:
  "\<exists>ops' s' c st'. length (encode_ops two_records) = 16 \<and> 1 \<le> length ops' \<and> prefix ops' two_records \<and>
     log_run sample_ext (set sample_events) index_new ops' s' \<and>
     load_from_disk sample_ext sorted_list_of_set (store_new sample_config True 0
        ((disk_of (snd (store_insert sample_ext sample_old sample_store)))\<lparr>d_log := Some (take 12 (encode_ops two_records))\<rparr>)) =
       Some (c, st') \<and> by_id (st_index st') = by_id s'"
proof -
  let ?st = "snd (store_insert sample_ext sample_old sample_store)"
  have mem: "sample_old \<in> set sample_events" by simp
  have "store_run sample_ext (set sample_events) sorted_list_of_set sample_config ?st"
    by (rule store_run.insert [OF sample_run mem]) (rule surjective_pairing)
  then have cfg: "st_config ?st = sample_config"
    using store_run_persisted [OF _ sample_inj sample_persistable enumerates_sorted_list_of_set sample_roomy] by blast
  have len: "length (encode_op (WalInsert (ev_raw sample_note))) = 8" "length (encode_op (WalInsert (ev_raw sample_old))) = 8"
    by (simp_all add: encode_op_def sample_note_def sample_old_def)
  have room: "roomy (set sample_events) (st_config ?st)" by (simp add: cfg sample_roomy)
  obtain n ops' s' where r: "n < length two_records \<longrightarrow> 12 < length (encode_ops (take (Suc n) two_records))"
    "n \<le> length ops'" "prefix ops' two_records" "log_run sample_ext (set sample_events) index_new ops' s'"
    "\<forall>rss. \<exists>c st'. load_from_disk sample_ext sorted_list_of_set (store_new (st_config ?st) True rss
        ((disk_of ?st)\<lparr>d_log := Some (take 12 (encode_ops two_records))\<rparr>)) = Some (c, st') \<and>
        by_id (st_index st') = by_id s'"
    using power_failure_restores_prefix [OF sample_inj sample_persistable enumerates_sorted_list_of_set
      room two_records_files, of 12] len by (auto simp: two_records_def)
  have "1 \<le> length ops'" using r(1,2) len by (cases n) (auto simp: two_records_def)
  moreover have "length (encode_ops two_records) = 16" using len by (simp add: two_records_def)
  ultimately show ?thesis using r(3-5) unfolding cfg by blast
qed

section \<open>A checkpoint inside a deletion\<close>

text \<open>
  C35. A deletion and a checkpoint that interleave bring the event back. The deletion writes its record,
  the checkpoint rotates the log, writes a snapshot that still has the event and removes the rotated
  segment with the record, and the deletion then removes the event from memory and reports it as
  deleted: the next process loads it again.
\<close>

theorem deletion_lost_in_checkpoint:
  assumes "inj_on ev_id U" "\<forall>e \<in> U. persistable X e" "enumerates ord" "persisted X U st"
    and "e \<in> stored (st_index st)" "st1 = checkpoint ord (record_deletion (ev_id e) st)"
    and "delete_by_id X (ev_id e) (st_index st1) = (removed, s2)"
  shows "removed = Some e \<and> e \<notin> stored s2 \<and>
    (\<exists>n st'. load_from_disk X ord (store_new (st_config st) True rss (disk_of (st1\<lparr>st_index := s2\<rparr>))) = Some (n, st') \<and>
       e \<in> stored (st_index st'))"
proof -
  let ?d = "record_deletion (ev_id e) st"
  have inv: "index_inv X U (st_index st)" by (rule persisted_inv [OF assms(1,4)])
  note core = index_invD(1) [OF inv]
  have i: "by_id (st_index st) (ev_id e) = Some e" using assms(5) stored_iff [OF core] by simp
  obtain w where w: "st_wal st = Some w" by (rule persisted_wal [OF assms(4)])
  have frame: "st_index ?d = st_index st" "st_config ?d = st_config st" "st_wal ?d = Some (wal_tombstone (ev_id e) w)"
    using w by (simp_all add: record_deletion_def)
  have room: "roomy U (st_config st)" using assms(4) by (simp add: persisted_def)
  have st1: "st_index st1 = st_index st" "st_config st1 = st_config st" by (simp_all add: assms(6) frame)
  have "files_of X U (st_index st) [] st1"
    using checkpoint_files [OF assms(3), of X U ?d] inv room frame by (simp add: assms(6))
  then have "persisted X U st1" unfolding persisted_def st1(2) using room by blast
  from restart_at_rest [OF assms(1-3) this] obtain n st' where
    "load_from_disk X ord (store_new (st_config st) True rss (disk_of st1)) = Some (n, st')"
    "by_id (st_index st') = by_id (st_index st)"
    unfolding restarts_to_def st1 by metis
  moreover have "disk_of (st1\<lparr>st_index := s2\<rparr>) = disk_of st1" by (simp add: disk_of_def)
  moreover have "removed = Some e" "by_id s2 = (by_id (st_index st))(ev_id e := None)"
    using assms(7) delete_by_id_result [of X "ev_id e" "st_index st1"] delete_by_id_frame(1) [of X "ev_id e" "st_index st1"] i
    by (simp_all add: st1)
  moreover have "e \<notin> stored s2"
  proof
    assume "e \<in> stored s2"
    then obtain j where j: "by_id s2 j = Some e" by (auto simp: stored_def ran_def)
    then have "by_id (st_index st) j = Some e" "j \<noteq> ev_id e" using calculation by (auto split: if_splits)
    then show False using by_id_id [OF core] by blast
  qed
  ultimately show ?thesis using assms(5) by (auto simp: stored_def)
qed

theorem deletion_lost_in_checkpoint_witness:
  "\<exists>st1 s2 n st'. st1 = checkpoint sorted_list_of_set (record_deletion (ev_id sample_note) sample_store) \<and>
     delete_by_id sample_ext (ev_id sample_note) (st_index st1) = (Some sample_note, s2) \<and>
     load_from_disk sample_ext sorted_list_of_set
       (store_new sample_config True 0 (disk_of (st1\<lparr>st_index := s2\<rparr>))) = Some (n, st') \<and>
     sample_note \<in> stored (st_index st')"
proof -
  let ?st1 = "checkpoint sorted_list_of_set (record_deletion (ev_id sample_note) sample_store)"
  have p: "persisted sample_ext (set sample_events) sample_store" "st_config sample_store = sample_config"
    using store_run_persisted [OF sample_run sample_inj sample_persistable enumerates_sorted_list_of_set sample_roomy]
    by auto
  have live: "\<not> is_ephemeral sample_note" by code_simp
  obtain s1 where s1: "index_insert sample_ext sample_note index_new = (Inserted None, s1)"
    using insert_into_new(1) by (metis prod.collapse)
  have "st_index sample_store = s1"
    using live s1 by (simp add: sample_store_def store_insert_def store_new_def log_insert_def Let_def split: option.splits)
  then have mem: "sample_note \<in> stored (st_index sample_store)"
    using insert_into_new(2) [of sample_ext sample_note] s1 by (simp add: stored_def)
  obtain removed s2 where d: "delete_by_id sample_ext (ev_id sample_note) (st_index ?st1) = (removed, s2)" by fastforce
  from deletion_lost_in_checkpoint [OF sample_inj sample_persistable enumerates_sorted_list_of_set p(1) mem refl d, of 0]
  show ?thesis using d unfolding p(2) by blast
qed

section \<open>Limits of the guarantee\<close>

text \<open>
  Tombstones do not survive a checkpoint: the log that records them is folded into a snapshot
  of the stored events only, so the process that starts after a checkpoint holds the same events
  and refuses no id at all, as the module comment on deletions says.
\<close>

theorem checkpoint_forgets_tombstones:
  assumes "inj_on ev_id U" "\<forall>e \<in> U. persistable X e" "enumerates ord" "roomy U cfg"
    and "store_run X U ord cfg st"
  shows "\<exists>n st'. load_from_disk X ord (store_new cfg True rss (disk_of (checkpoint ord st))) = Some (n, st') \<and>
    by_id (st_index st') = by_id (st_index st) \<and> ts_ids (tombstones (st_index st')) = {}"
proof -
  have p: "persisted X U st" "st_config st = cfg"
    using store_run_persisted [OF assms(5,1-4)] by auto
  let ?c = "checkpoint ord st"
  obtain w where w: "st_wal st = Some w" by (rule persisted_wal [OF p(1)])
  have inv: "index_inv X U (st_index st)" by (rule persisted_inv [OF assms(1) p(1)])
  have "files_of X U (st_index st) [] ?c"
    using checkpoint_files [OF assms(3) inv _ w] assms(4) p(2) by simp
  then obtain w' es where f: "st_wal ?c = Some w'" "wal_old w' = None" "wal_log w' = []"
    "set es = stored (st_index st)" "distinct es"
    "st_snapshot ?c = Some (snapshot_bytes es) \<or> st_snapshot ?c = None \<and> es = []"
    by (auto simp: files_of_def files_since_def)
  note snap = snapshot_restores [OF assms(1) inv f(4,5)]
  have "\<forall>e \<in> set es. e \<in> U \<and> persistable X e"
    using assms(2) f(4) index_core_facts(3) [OF index_invD(1) [OF inv]] by blast
  from load_from_files [OF assms(1,4,3) this, of "[]" "[]" "disk_of ?c" "[]" rss] f snap show ?thesis
    by (auto simp: disk_of_def recovered_def tombs_new_def)
qed

theorem checkpoint_forgets_tombstones_witness:
  "\<exists>n st'. load_from_disk sample_ext sorted_list_of_set
      (store_new sample_config True 0 (disk_of (checkpoint sorted_list_of_set sample_store))) = Some (n, st') \<and>
    ts_ids (tombstones (st_index st')) = {}"
  using checkpoint_forgets_tombstones [OF sample_inj sample_persistable enumerates_sorted_list_of_set
      sample_roomy sample_run, of 0]
  by blast


lemma replay_single:
  "length (ev_raw e) \<le> MAX_WAL_RECORD_SIZE \<Longrightarrow>
   replay_bytes (encode_op (WalInsert (ev_raw e))) = ([WalInsert (ev_raw e)], Inr 1)"
  using replay_encode [of "[WalInsert (ev_raw e)]"] by simp

text \<open>
  An event whose JSON spans two lines is kept by the log and lost by the snapshot: replaying
  its log record stores it, but the snapshot that a checkpoint writes is read back line by line,
  and neither line parses.
\<close>

theorem multi_line_event_lost:
  assumes "unlimited cfg" "from_json_unchecked X (ev_raw e) = Inr e"
    and "length (ev_raw e) \<le> MAX_WAL_RECORD_SIZE" "ev_raw e = a @ 10 # b" "10 \<notin> set a" "10 \<notin> set b"
    and "json_event X (strip_cr a) = None" "json_event X (strip_cr b) = None"
  shows "load_replay X (store_new cfg True rss
        \<lparr>d_log = Some (encode_op (WalInsert (ev_raw e))), d_old = None, d_snapshot = None\<rparr>) =
      Some (snd (index_insert X e index_new), 1) \<and>
    load_replay X (store_new cfg True rss
        \<lparr>d_log = Some [], d_old = None, d_snapshot = Some (snapshot_bytes [e])\<rparr>) = Some (index_new, 0)"
proof
  show "load_replay X (store_new cfg True rss
        \<lparr>d_log = Some (encode_op (WalInsert (ev_raw e))), d_old = None, d_snapshot = None\<rparr>) =
      Some (snd (index_insert X e index_new), 1)"
    using assms(1,2) replay_single [OF assms(3)]
    by (simp add: load_replay_def load_segments_def load_snapshot_def store_new_def unlimited_def
        wal_open_def replay_wal_def replay_op_def load_event_def ingest_def Let_def)
  have none: "load_event X 0 0 l r = Some r" if "json_event X l = None" for l r
    using that by (simp add: load_event_def from_json_unchecked_def)
  have "buf_lines (snapshot_bytes [e]) = [strip_cr a, strip_cr b]"
    using buf_lines_line [OF assms(5), of "b @ [10]"] buf_lines_line [OF assms(6), of "[]"]
    by (simp add: snapshot_bytes_def assms(4) buf_lines.simps [of "[]"])
  then show "load_replay X (store_new cfg True rss
        \<lparr>d_log = Some [], d_old = None, d_snapshot = Some (snapshot_bytes [e])\<rparr>) = Some (index_new, 0)"
    using assms(1) none [OF assms(7)] none [OF assms(8)]
    by (simp add: load_replay_def load_segments_def load_snapshot_def store_new_def unlimited_def
        wal_open_def replay_wal_def Let_def)
qed

definition multi_line :: event where
  "multi_line = sample_note\<lparr>ev_raw := [123, 10, 125]\<rparr>"

definition multi_line_ext :: ext where
  "multi_line_ext =
     sample_ext\<lparr>json_event := (\<lambda>j. if j = [123, 10, 125] then Some (raw_of multi_line) else None)\<rparr>"

theorem multi_line_event_lost_witness:
  "load_replay multi_line_ext (store_new sample_config True 0
     \<lparr>d_log = Some [], d_old = None, d_snapshot = Some (snapshot_bytes [multi_line])\<rparr>) = Some (index_new, 0)"
proof -
  have "parse_hex_32 multi_line_ext = parse_hex_32 sample_ext"
    "parse_hex_64 multi_line_ext = parse_hex_64 sample_ext"
    by (simp_all add: parse_hex_32_def parse_hex_64_def multi_line_ext_def fun_eq_iff)
  then have "from_json_unchecked multi_line_ext (ev_raw multi_line) = Inr multi_line"
    using sample_parse_hex(1) [of "ev_id multi_line"] sample_parse_hex(1) [of "ev_pubkey multi_line"]
      sample_parse_hex(2) [of "ev_sig multi_line"]
    by (simp add: from_json_unchecked_def multi_line_ext_def raw_of_def multi_line_def sample_note_def
        tags_of_raw_def)
  from multi_line_event_lost [OF sample_unlimited this, of "[123]" "[125]" 0] show ?thesis
    by (simp add: multi_line_def multi_line_ext_def strip_cr_def MAX_WAL_RECORD_SIZE_def)
qed

text \<open>
  The loader removes the rotated log segment before the checkpoint that saves what it holds:
  for a directory left by a crash inside the first checkpoint, the event is loaded into memory, and
  at the point between the removal and the snapshot nothing on disk has it.
\<close>

theorem loader_drops_segment_early:
  assumes "unlimited cfg" "persistable X e"
  shows "\<exists>s. load_replay X (store_new cfg True rss
        \<lparr>d_log = Some [], d_old = Some (encode_op (WalInsert (ev_raw e))), d_snapshot = None\<rparr>) = Some (s, 1) \<and>
      by_id s = [ev_id e \<mapsto> e] \<and>
      disk_of (checkpoint_remove ((store_new cfg True rss
        \<lparr>d_log = Some [], d_old = Some (encode_op (WalInsert (ev_raw e))), d_snapshot = None\<rparr>)
          \<lparr>st_index := s\<rparr>)) = \<lparr>d_log = Some [], d_old = None, d_snapshot = None\<rparr>"
proof (intro exI conjI)
  show "by_id (snd (index_insert X e index_new)) = [ev_id e \<mapsto> e]" by (rule insert_into_new)
  show "load_replay X (store_new cfg True rss
        \<lparr>d_log = Some [], d_old = Some (encode_op (WalInsert (ev_raw e))), d_snapshot = None\<rparr>) =
      Some (snd (index_insert X e index_new), 1)"
    using assms replay_single [of e]
    by (simp add: load_replay_def load_segments_def load_snapshot_def store_new_def unlimited_def
        wal_open_def replay_wal_def replay_op_def load_event_def ingest_def persistable_def Let_def)
  show "disk_of (checkpoint_remove ((store_new cfg True rss
        \<lparr>d_log = Some [], d_old = Some (encode_op (WalInsert (ev_raw e))), d_snapshot = None\<rparr>)
          \<lparr>st_index := snd (index_insert X e index_new)\<rparr>)) =
      \<lparr>d_log = Some [], d_old = None, d_snapshot = None\<rparr>"
    using assms(1)
    by (simp add: disk_of_def checkpoint_remove_def store_new_def unlimited_def wal_open_def)
qed

theorem loader_drops_segment_early_witness:
  "\<exists>s. load_replay sample_ext (store_new sample_config True 0
        \<lparr>d_log = Some [], d_old = Some (encode_op (WalInsert (ev_raw sample_note))), d_snapshot = None\<rparr>) =
      Some (s, 1)"
proof -
  have "persistable sample_ext sample_note" using sample_persistable by simp
  from loader_drops_segment_early [OF sample_unlimited this, of 0] show ?thesis by blast
qed

end
