(* ===== verification/Eviction_Recovery.thy ===== *)
theory Eviction_Recovery
  imports Store_Recovery
begin

text \<open>
  Recovery of a store that evicts. Evictions are not logged: replaying the log brings evicted
  events back, and an event that was stored after a newer version had been evicted gives way to
  that version again. What is shown is that no stored event is lost to anything else.
\<close>

section \<open>The slots of the run are held\<close>

text \<open>\<open>holds t k S\<close>: slot \<open>k\<close> of \<open>t\<close> has an event that none in \<open>S\<close> replaces, if there is one in \<open>S\<close>.\<close>

definition holds :: "event_index \<Rightarrow> repl_key + bytes \<Rightarrow> event set \<Rightarrow> bool" where
  "holds t k S \<longleftrightarrow> (\<forall>c \<in> S. \<exists>d \<in> at_slot (by_id t) k. \<not> incoming_wins c d)"

text \<open>
  The recovered index \<open>t\<close> against the index \<open>s\<close> of the run, or for some slots already against the
  end \<open>fin\<close> of the run, from which the replay may have started.
\<close>

definition covers ::
    "'x ext_scheme \<Rightarrow> event set \<Rightarrow> (bytes \<rightharpoonup> event) \<Rightarrow> event_index \<Rightarrow> event_index \<Rightarrow> bool" where
  "covers X U fin t s \<longleftrightarrow>
     index_inv X U t \<and> index_inv X U s \<and>
     suffix (ts_order (tombstones t)) (ts_order (tombstones s)) \<and>
     (\<forall>k. holds t k (at_slot (by_id s) k) \<or> holds t k (at_slot fin k))"

lemma holds_same: "at_slot (by_id t') k = at_slot (by_id t) k \<Longrightarrow> holds t' k S = holds t k S"
  by (simp add: holds_def)

lemma covers_insert:
  assumes inj: "inj_on ev_id U" and cv: "covers X U fin t s" and e: "e \<in> U"
    and ins: "index_insert X e s = (Inserted r, s')"
  shows "covers X U fin (snd (index_insert X e t)) s'"
    and "r = Some d \<Longrightarrow> by_id (snd (index_insert X e t)) (ev_id d) = None"
proof -
  have inv: "index_inv X U t" "index_inv X U s" "suffix (ts_order (tombstones t)) (ts_order (tombstones s))"
    using cv by (auto simp: covers_def)
  obtain q t' where q: "index_insert X e t = (q, t')"
      and t: "index_inv X U t'" "tombstones t' = tombstones t" and st: "slot_step (by_id t) e q (by_id t')"
      and s: "index_inv X U s'" "tombstones s' = tombstones s" and ss: "slot_step (by_id s) e (Inserted r) (by_id s')"
    by (rule insert_both [OF inj inv e ins])
  obtain c where own: "at_slot (by_id t') (slot_of e) = {c}" "\<not> incoming_wins e c"
    using st incoming_wins_irrefl by (fastforce simp: slot_step_def split: if_splits)
  have "holds t' k (at_slot (by_id s') k) \<or> holds t' k (at_slot fin k)" for k
  proof (cases "k = slot_of e")
    case True
    then show ?thesis using own ss by (auto simp: holds_def slot_step_def)
  next
    case False
    then have "at_slot (by_id t') k = at_slot (by_id t) k" "at_slot (by_id s') k = at_slot (by_id s) k"
      using ss st by (simp_all add: slot_step_def)
    then show ?thesis using cv holds_same [of t' k t] by (simp add: covers_def)
  qed
  then show "covers X U fin (snd (index_insert X e t)) s'"
    using cv s t by (simp add: covers_def q)
  show "by_id (snd (index_insert X e t)) (ev_id d) = None" if r: "r = Some d"
    using replaced_absent [OF inj inv(2) t(1) own] ss r by (simp add: q slot_step_def)
qed

lemma covers_refused:
  assumes inj: "inj_on ev_id U" and cv: "covers X U fin t s" and e: "e \<in> U"
    and ins: "index_insert X e s = (r, s')" "\<nexists>d. r = Inserted d"
  shows "covers X U fin t s'"
proof -
  have inv: "index_inv X U s" using cv by (simp add: covers_def)
  have s: "index_inv X U s'" "tombstones s' = tombstones s"
      "spec_insert (ts_ids (tombstones s)) (by_id s) e r (by_id s')"
    using index_insert_refines [OF inj inv e] by (simp_all add: insert_refines_def ins)
  from s(3) ins(2) have "by_id s' = by_id s" by (cases rule: spec_insert.cases) auto
  with cv s show ?thesis by (simp add: covers_def)
qed

lemma covers_delete:
  assumes inj: "inj_on ev_id U" and cv: "covers X U fin t s" and e: "by_id s i = Some e"
  shows "covers X U fin (snd (index_remove X i (index_tombstone i t))) (snd (delete_by_id X i s))"
proof -
  have inv: "index_inv X U t" "index_inv X U s" using cv by (auto simp: covers_def)
  note core = index_invD(1) [OF inv(1)] index_invD(1) [OF inv(2)]
  let ?t = "snd (index_remove X i (index_tombstone i t))" and ?s = "snd (delete_by_id X i s)"
  have bi: "by_id ?t = (by_id t)(i := None)" "by_id ?s = (by_id s)(i := None)"
    "tombstones ?t = tombs_insert (tombstones t) i" "tombstones ?s = tombs_insert (tombstones s) i"
    by (simp_all add: index_remove_def index_tombstone_def)
  have "i \<notin> ts_ids (tombstones s)" using core(2) e by (auto simp: index_core_def)
  then have "suffix (ts_order (tombstones ?t)) (ts_order (tombstones ?s))"
    using cv index_core_facts(5) [OF core(1)] index_core_facts(5) [OF core(2)]
    unfolding bi by (intro tombs_suffix_insert) (simp_all add: covers_def)
  moreover have "holds ?t k (at_slot (by_id ?s) k) \<or> holds ?t k (at_slot fin k)" for k
  proof (cases "k = slot_of e")
    case True
    have "e \<in> at_slot (by_id s) k" using e True by (auto simp: at_slot_def intro: ranI)
    from at_slot_single [OF inj inv(2) this] have "at_slot (by_id ?s) k = {}"
      unfolding bi at_slot_remove [OF inv(2)] using by_id_id [OF core(2) e] by simp
    then show ?thesis by (simp add: holds_def)
  next
    case False
    have "ev_id c \<noteq> i" if "c \<in> at_slot (by_id t) k" for c
    proof
      assume c: "ev_id c = i"
      have "c \<in> U" "e \<in> U" using that by_id_stored [OF e] index_core_facts(3) [OF core(1)] index_core_facts(3) [OF core(2)]
        by (auto simp: at_slot_def stored_def)
      then have "c = e" using inj_onD [OF inj] c by_id_id [OF core(2) e] by metis
      then show False using that False by (simp add: at_slot_def)
    qed
    then have "at_slot (by_id ?t) k = at_slot (by_id t) k" unfolding bi at_slot_remove [OF inv(1)] by auto
    moreover have "at_slot (by_id ?s) k \<subseteq> at_slot (by_id s) k" unfolding bi at_slot_remove [OF inv(2)] by auto
    moreover have "holds t k (at_slot (by_id s) k) \<or> holds t k (at_slot fin k)" using cv by (simp add: covers_def)
    ultimately show ?thesis unfolding holds_def by blast
  qed
  ultimately show ?thesis
    using index_tombstone_remove_inv [OF inj inv(1), of i] delete_by_id_inv [OF inj inv(2), of i]
    unfolding covers_def by blast
qed

lemma covers_evict:
  assumes "covers X U fin t s"
  shows "covers X U fin t (snd (index_remove X i s))"
proof -
  have inv: "index_inv X U s" using assms by (simp add: covers_def)
  have bi: "by_id (snd (index_remove X i s)) = (by_id s)(i := None)"
    "tombstones (snd (index_remove X i s)) = tombstones s" by (simp_all add: index_remove_def)
  have "holds t k (at_slot (by_id s) k) \<Longrightarrow> holds t k (at_slot (by_id (snd (index_remove X i s))) k)" for k
    unfolding bi at_slot_remove [OF inv] by (auto simp: holds_def)
  then show ?thesis using assms index_remove_inv [OF inv, of i] by (auto simp: covers_def bi(2))
qed

text \<open>Replaying the records of a run with evictions covers the run.\<close>

lemma replay_covers:
  assumes "lossy_run X U s0 ops s" and inj: "inj_on ev_id U" and pers: "\<forall>e \<in> U. persistable X e"
    and "covers X U fin t s0"
  shows "covers X U fin (fold (replay1 X) ops t) s"
  using assms(1)
proof induction
  case start
  then show ?case using assms(4) by simp
next
  case (insert ops s e r s')
  note one = covers_insert [OF inj insert.IH insert.hyps(2,3)]
  from one(1) replay_records [OF pers [rule_format, OF insert.hyps(2)] one(2)] show ?case by simp
next
  case (refused ops s e r s')
  from covers_refused [OF inj refused.IH refused.hyps(2,3,4)] show ?case .
next
  case (delete ops s i e r s')
  from covers_delete [OF inj delete.IH delete.hyps(2)] delete.hyps(3) show ?case
    by (simp add: replay1_def)
next
  case (evict ops s i)
  show ?case by (rule covers_evict [OF evict.IH])
qed

section \<open>What a restart keeps\<close>

text \<open>Every event of \<open>S\<close> is in \<open>T\<close>, or a newer version of it is.\<close>

definition kept :: "event set \<Rightarrow> event set \<Rightarrow> bool" where
  "kept S T \<longleftrightarrow> (\<forall>c \<in> S. \<exists>d \<in> T. slot_of d = slot_of c \<and> (d = c \<or> incoming_wins d c))"

lemma covers_kept:
  assumes inj: "inj_on ev_id U" and cv: "covers X U (by_id s) t s"
  shows "kept (stored s) (stored t)"
  unfolding kept_def
proof
  fix c assume c: "c \<in> stored s"
  then have "c \<in> at_slot (by_id s) (slot_of c)" by (simp add: at_slot_def stored_def)
  moreover have "holds t (slot_of c) (at_slot (by_id s) (slot_of c))" using cv by (auto simp: covers_def)
  ultimately obtain d where d: "d \<in> at_slot (by_id t) (slot_of c)" "\<not> incoming_wins c d" by (auto simp: holds_def)
  have "d \<in> stored t" "slot_of d = slot_of c" using d(1) by (auto simp: at_slot_def stored_def)
  moreover have "c \<in> U" "d \<in> U"
    using c d(1) cv index_core_facts(3) [of X U s] index_core_facts(3) [of X U t]
    by (auto simp: covers_def index_inv_def at_slot_def stored_def)
  then have "d = c \<or> incoming_wins d c" using incoming_wins_total [OF d(2)] inj_onD [OF inj] by metis
  ultimately show "\<exists>d \<in> stored t. slot_of d = slot_of c \<and> (d = c \<or> incoming_wins d c)" by blast
qed

lemma holds_self: "holds t k (at_slot (by_id t) k)"
  unfolding holds_def using incoming_wins_irrefl by blast

lemma lossy_recovered:
  assumes inj: "inj_on ev_id U" and pers: "\<forall>e \<in> U. persistable X e" and inv: "index_inv X U s0"
    and run: "lossy_run X U s0 ops s" and es: "set es = stored s0 \<or> set es = stored s" "distinct es"
  shows "index_inv X U (recovered X es ops)" "kept (stored s) (stored (recovered X es ops))"
proof -
  let ?t = "insert_all X es index_new"
  have s: "index_inv X U s" by (rule lossy_run_inv [OF run inj inv])
  have t: "by_id ?t = by_id s0 \<or> by_id ?t = by_id s" "index_inv X U ?t" "tombstones ?t = tombs_new"
    using es snapshot_restores [OF inj inv _ es(2)] snapshot_restores [OF inj s _ es(2)] by blast+
  have "holds ?t k (at_slot (by_id s0) k) \<or> holds ?t k (at_slot (by_id s) k)" for k
    using t(1) holds_self [of ?t k] by metis
  then have "covers X U (by_id s) ?t s0" using t(2,3) inv by (simp add: covers_def tombs_new_def)
  from replay_covers [OF run inj pers this] have cv: "covers X U (by_id s) (recovered X es ops) s"
    by (simp add: recovered_def)
  then show "index_inv X U (recovered X es ops)" by (simp add: covers_def)
  show "kept (stored s) (stored (recovered X es ops))" by (rule covers_kept [OF inj cv])
qed

section \<open>Every operation keeps the files in step\<close>

definition lossy_files :: "'x ext_scheme \<Rightarrow> event set \<Rightarrow> event_store \<Rightarrow> bool" where
  "lossy_files X U st \<longleftrightarrow>
     roomy U (st_config st) \<and>
     (\<exists>s0 ops. index_inv X U s0 \<and> lossy_run X U s0 ops (st_index st) \<and> files_since s0 ops st)"

lemma persisted_lossy: "persisted X U st \<Longrightarrow> lossy_files X U st"
  unfolding persisted_def files_of_def lossy_files_def using log_run_lossy by blast

interpretation evicted: logged_state X U "lossy_files X U" for X U
proof unfold_locales
  fix st :: event_store and e r s
  assume st: "lossy_files X U st" and e: "e \<in> U" and ins: "index_insert X e (st_index st) = (r, s)"
  then obtain s0 ops where f: "roomy U (st_config st)" "index_inv X U s0" "lossy_run X U s0 ops (st_index st)" "files_since s0 ops st"
    by (auto simp: lossy_files_def)
  then show "lossy_files X U (case r of Inserted d \<Rightarrow> log_insert e d (st\<lparr>st_index := s\<rparr>) | _ \<Rightarrow> st\<lparr>st_index := s\<rparr>)"
    using insert_keeps_files [OF f(4), of r "lossy_run X U s0" e s] lossy_run.insert [OF f(3) e, of _ s]
      lossy_run.refused [OF f(3) e ins] ins
    unfolding lossy_files_def logged_insert_frame by blast
next
  fix st :: event_store and i e q s
  assume st: "lossy_files X U st" and e: "by_id (st_index st) i = Some e" and del: "delete_by_id X i (st_index st) = (q, s)"
  then obtain s0 ops where f: "roomy U (st_config st)" "index_inv X U s0" "lossy_run X U s0 ops (st_index st)" "files_since s0 ops st"
    by (auto simp: lossy_files_def)
  then show "lossy_files X U ((record_deletion i st)\<lparr>st_index := s\<rparr>)"
    using delete_files [OF f(4), of i s] lossy_run.delete [OF f(3) e del] by (auto simp: lossy_files_def)
qed

lemma lossy_files_inv: "inj_on ev_id U \<Longrightarrow> lossy_files X U st \<Longrightarrow> index_inv X U (st_index st)"
  using lossy_run_inv by (auto simp: lossy_files_def)

text \<open>A turn of the evictor removes events one after the other.\<close>

lemma evict_chunk_lossy: "lossy_run X U s0 ops s \<Longrightarrow> lossy_run X U s0 ops (evict_chunk X rs s)"
  unfolding evict_chunk_def by (induction rs arbitrary: s) (simp_all add: lossy_run.evict)

lemma evict_chunks_lossy:
  "lossy_run X U s0 ops s \<Longrightarrow> lossy_run X U s0 ops (fst (evict_chunks X target rss_ok rs s))"
proof (induction X target rss_ok rs s rule: evict_chunks.induct)
  case (1 X target rss_ok rs s)
  let ?s = "evict_chunk X (take EVICT_CHUNK rs) s"
  have "lossy_run X U s0 ops ?s" by (rule evict_chunk_lossy [OF "1.prems"])
  then show ?case
    using "1.IH" [OF _ refl refl] "1.prems" by (subst evict_chunks.simps) (simp add: Let_def case_prod_beta')
qed

lemma maybe_evict_lossy:
  assumes "lossy_files X U st" "maybe_evict X st = Some st'"
  shows "lossy_files X U st'"
proof -
  obtain s0 ops where f: "roomy U (st_config st)" "index_inv X U s0" "lossy_run X U s0 ops (st_index st)" "files_since s0 ops st"
    using assms(1) by (auto simp: lossy_files_def)
  have "lossy_run X U s0 ops (st_index st')"
    using assms(2) f(3) evict_chunks_lossy [OF f(3)]
    by (auto simp: maybe_evict_def Let_def case_prod_beta' split: if_splits option.splits)
  then show ?thesis using f maybe_evict_frame [OF assms(2)] by (auto simp: lossy_files_def files_since_def)
qed

lemma lossy_files_wal: "lossy_files X U st \<Longrightarrow> \<exists>w. st_wal st = Some w \<and> wal_old w = None"
  by (auto simp: lossy_files_def files_since_def)

lemma lossy_files_same:
  assumes "lossy_files X U st" "st_index st' = st_index st" "st_config st' = st_config st" "st_snapshot st' = st_snapshot st"
    and "\<And>w. st_wal st = Some w \<Longrightarrow> \<exists>w'. st_wal st' = Some w' \<and> wal_old w' = wal_old w \<and> wal_log w' = wal_log w"
  shows "lossy_files X U st'"
proof -
  have "files_since s0 ops st \<Longrightarrow> files_since s0 ops st'" for s0 ops
    using files_extend [of s0 ops st st' "[]"] assms(4,5) by simp
  then show ?thesis using assms(1-3) unfolding lossy_files_def by metis
qed

lemma lossy_checkpoint:
  assumes "inj_on ev_id U" "enumerates ord" "lossy_files X U st"
  shows "lossy_files X U (checkpoint ord st)"
proof -
  obtain w where w: "st_wal st = Some w" using lossy_files_wal [OF assms(3)] by blast
  have "roomy U (st_config st)" using assms(3) by (simp add: lossy_files_def)
  then show ?thesis
    using checkpoint_files [OF assms(2) lossy_files_inv [OF assms(1,3)] _ w]
    by (intro persisted_lossy) (auto simp: persisted_def)
qed

lemma lossy_save:
  assumes "lossy_files X U st"
  shows "lossy_files X U (save_to_disk ord st)"
proof -
  obtain w where "st_wal st = Some w" using lossy_files_wal [OF assms] by blast
  then show ?thesis
    using assms by (intro lossy_files_same [OF assms]) (auto simp: save_to_disk_def flush_wal_def split: option.splits)
qed

lemma lossy_maybe_checkpoint:
  assumes "inj_on ev_id U" "enumerates ord" "lossy_files X U st"
  shows "lossy_files X U (maybe_checkpoint ord st)"
proof -
  obtain w where w: "st_wal st = Some w" using lossy_files_wal [OF assms(3)] by blast
  have "lossy_files X U (st\<lparr>st_wal := Some (snd (group_commit w))\<rparr>)"
    using w by (intro lossy_files_same [OF assms(3)]) (auto simp: group_commit_def)
  then show ?thesis using lossy_checkpoint [OF assms] w by (simp add: maybe_checkpoint_def Let_def)
qed

section \<open>Restarts\<close>

definition restarts_with :: "'x ext_scheme \<Rightarrow> event set \<Rightarrow> (bytes set \<Rightarrow> bytes list) \<Rightarrow> store_config \<Rightarrow> disk \<Rightarrow>
    event set \<Rightarrow> bool" where
  "restarts_with X U ord cfg d S \<longleftrightarrow>
     (\<forall>rss. \<exists>n st'. load_from_disk X ord (store_new cfg True rss d) = Some (n, st') \<and>
        kept S (stored (st_index st')) \<and> persisted X U st')"

lemma lossy_restart:
  assumes inj: "inj_on ev_id U" and pers: "\<forall>e \<in> U. persistable X e" and ord: "enumerates ord"
    and st: "lossy_files X U st"
    and d: "d \<in> {disk_of st, disk_of (checkpoint_rotate st), disk_of (snd (write_snapshot ord (checkpoint_rotate st)))}"
  shows "restarts_with X U ord (st_config st) d (stored (st_index st))"
proof -
  obtain s0 ops w es where f: "roomy U (st_config st)" "index_inv X U s0" "lossy_run X U s0 ops (st_index st)"
      "st_wal st = Some w" "wal_old w = None" "wal_log w = encode_ops ops" and es: "set es = stored s0" "distinct es"
      "st_snapshot st = Some (snapshot_bytes es) \<or> st_snapshot st = None \<and> es = []"
    using st unfolding lossy_files_def files_since_def by blast
  note sound = lossy_run_sound [OF f(3) inj pers f(2)]
  note core = index_invD(1) [OF lossy_files_inv [OF inj st]]
  have fin: "finite (dom (by_id (st_index st)))" using core by (simp add: index_core_def)
  let ?es = "iter_all ord (st_index st)"
  have new: "set ?es = stored (st_index st)" "distinct ?es"
    using iter_all_set [OF ord fin] iter_all_distinct [OF ord fin index_core_facts(2) [OF core]] by simp_all
  have sub: "\<forall>e \<in> set es \<union> set ?es. e \<in> U \<and> persistable X e"
    using pers es(1) new(1) index_core_facts(3) [OF index_invD(1) [OF f(2)]] index_core_facts(3) [OF core] by blast
  have from_files: "restarts_with X U ord (st_config st) d (stored (st_index st))"
    if "set xs = stored s0 \<or> set xs = stored (st_index st)" "distinct xs" "set xs \<subseteq> set es \<union> set ?es"
      "d_snapshot d = Some (snapshot_bytes xs) \<or> d_snapshot d = None \<and> xs = []"
      "d_old d = Some (encode_ops old) \<or> d_old d = None \<and> old = []" "d_log d = Some (encode_ops live)" "ops = old @ live"
    for d xs old live
  proof -
    note rec = lossy_recovered [OF inj pers f(2,3) that(1,2)]
    have "list_all (op_sound X U) old" "list_all (op_sound X U) live" using sound that(7) by simp_all
    from load_from_files [OF inj f(1) ord _ this that(4-6)] replay_encode [OF op_sound_ok [OF this(2)]] rec sub that(3,7)
    show ?thesis unfolding restarts_with_def by (metis encode_ops_simps(1) append_is_Nil_conv fst_conv subsetD)
  qed
  have cases: "d = disk_of st \<or> d = disk_of (checkpoint_rotate st) \<or> d = disk_of (snd (write_snapshot ord (checkpoint_rotate st)))"
    using d by blast
  then show ?thesis
    using from_files [of es d "[]" ops] from_files [of es d ops "[]"] from_files [of ?es d ops "[]"] f(4-6) es new
    by (auto simp: disk_of_def checkpoint_rotate_def rotate_wal_def write_snapshot_def Let_def)
qed

end
