(* ===== verification/Eviction_Properties.thy ===== *)
theory Eviction_Properties
  imports Eviction_Recovery Durability_Properties
begin

text \<open>
  A persistent store that evicts: what a restart brings back, and how a deletion request misses an
  event that is in the files and not in memory.
\<close>

section \<open>Runs with evictions\<close>

inductive evicting_run ::
    "'x ext_scheme \<Rightarrow> event set \<Rightarrow> (bytes set \<Rightarrow> bytes list) \<Rightarrow> store_config \<Rightarrow> event_store \<Rightarrow> bool"
  for X U ord cfg where
  start: "store_run X U ord cfg st \<Longrightarrow> evicting_run X U ord cfg st"
| insert: "evicting_run X U ord cfg st \<Longrightarrow> e \<in> U \<Longrightarrow> store_insert X e st = (r, st') \<Longrightarrow>
    evicting_run X U ord cfg st'"
| batch: "evicting_run X U ord cfg st \<Longrightarrow> set es \<subseteq> U \<Longrightarrow> insert_batch X es st = (c, st') \<Longrightarrow>
    evicting_run X U ord cfg st'"
| deletion: "evicting_run X U ord cfg st \<Longrightarrow> apply_deletion X ord req author until st = (out, st') \<Longrightarrow>
    evicting_run X U ord cfg st'"
| evict: "evicting_run X U ord cfg st \<Longrightarrow> maybe_evict X st = Some st' \<Longrightarrow> evicting_run X U ord cfg st'"
| sample: "evicting_run X U ord cfg st \<Longrightarrow> evicting_run X U ord cfg (sample_rss rss st)"
| persist: "evicting_run X U ord cfg st \<Longrightarrow> evicting_run X U ord cfg (maybe_checkpoint ord st)"
| fold_log: "evicting_run X U ord cfg st \<Longrightarrow> evicting_run X U ord cfg (checkpoint ord st)"
| save: "evicting_run X U ord cfg st \<Longrightarrow> evicting_run X U ord cfg (save_to_disk ord st)"
| restart: "evicting_run X U ord cfg st \<Longrightarrow>
    load_from_disk X ord (store_new cfg True rss (disk_of st)) = Some (n, st') \<Longrightarrow>
    evicting_run X U ord cfg st'"

lemma evicting_run_files:
  assumes "evicting_run X U ord cfg st" and inj: "inj_on ev_id U" and pers: "\<forall>e \<in> U. persistable X e"
    and ord: "enumerates ord" and cfg: "roomy U cfg"
  shows "lossy_files X U st \<and> st_config st = cfg"
  using assms(1)
proof induction
  case (start st)
  then show ?case using store_run_persisted [OF start inj pers ord cfg] persisted_lossy by blast
next
  case (insert st e r st')
  then show ?case using evicted.store_insert_keeps [of X U st e] config_frame(1) [of X e st] by simp
next
  case (batch st es c st')
  then show ?case using evicted.insert_batch_keeps [of X U st es] config_frame(2) [of X es st] by simp
next
  case (deletion st req author until out st')
  then show ?case
    using evicted.apply_deletion_keeps [of X U st ord req author until] config_frame(3) [of X ord req author until st]
    by simp
next
  case (evict st st')
  then show ?case using maybe_evict_lossy [of X U st st'] maybe_evict_frame [OF evict.hyps(2)] by simp
next
  case (sample st rss)
  then show ?case using lossy_files_same [of X U st "sample_rss rss st"] by (simp add: frame_simps)
next
  case (persist st)
  then show ?case using lossy_maybe_checkpoint [OF inj ord, of X st] by (simp add: frame_simps)
next
  case (fold_log st)
  then show ?case using lossy_checkpoint [OF inj ord, of X st] by simp
next
  case (save st)
  then show ?case using lossy_save [of X U st ord] by (simp add: frame_simps)
next
  case (restart st rss n st')
  then have "restarts_with X U ord cfg (disk_of st) (stored (st_index st))"
    using lossy_restart [OF inj pers ord, of st "disk_of st"] by auto
  then have "persisted X U st'"
    using restart.hyps(2) unfolding restarts_with_def by (metis option.inject prod.inject)
  then show ?case using persisted_lossy load_config [OF restart.hyps(2)] by (auto simp: store_new_def)
qed

text \<open>
  C14. With evictions, which are not logged, a restart still loses nothing: from any state of a run,
  and from the points inside a checkpoint, the next process loads without error every event that
  was stored, or a version that wins against it. Persistence and the log are on; there is no memory
  limit, or all events ever offered fit 90 percent of it, so that the loader itself evicts none (the
  evictor does, on the smaller budget for payload bytes); no two of the events have one id; and
  the JSON of each is one line that fits a record and parses again.
\<close>

theorem restart_keeps_stored:
  assumes "inj_on ev_id U" "\<forall>e \<in> U. persistable X e" "enumerates ord" "roomy U cfg"
    and "evicting_run X U ord cfg st"
    and "d \<in> {disk_of st, disk_of (checkpoint_rotate st),
              disk_of (snd (write_snapshot ord (checkpoint_rotate st)))}"
  shows "\<exists>n st'. load_from_disk X ord (store_new cfg True rss d) = Some (n, st') \<and> index_inv X U (st_index st') \<and>
    (\<forall>c \<in> stored (st_index st). \<exists>e \<in> stored (st_index st').
       slot_of e = slot_of c \<and> (e = c \<or> incoming_wins e c))"
proof -
  have f: "lossy_files X U st" "st_config st = cfg"
    using evicting_run_files [OF assms(5,1-4)] by auto
  have "restarts_with X U ord cfg d (stored (st_index st))"
    using lossy_restart [OF assms(1-3) f(1) assms(6)] by (simp add: f(2))
  then show ?thesis using persisted_inv [OF assms(1)] unfolding restarts_with_def kept_def by metis
qed

text \<open>A limit of four bytes for a store of one event of three.\<close>

definition tight_config :: store_config where
  "tight_config = \<lparr>max_bytes = 4, persistence_path = Some ''data'', use_wal = True\<rparr>"

lemma tight_roomy: "roomy {sample_note} tight_config"
proof -
  have "payload {sample_note} = 3" by (simp add: payload_def sample_note_def)
  moreover have "unat (4 * 90 div 100 :: usize) = 3" by simp
  ultimately show ?thesis by (simp add: roomy_def tight_config_def)
qed

lemma tight_universe: "inj_on ev_id {sample_note}" "\<forall>e \<in> {sample_note}. persistable sample_ext e"
  using sample_persistable by simp_all

definition tight_store :: event_store where
  "tight_store = snd (store_insert sample_ext sample_note (store_new tight_config True 0 empty_disk))"

lemma tight_run: "store_run sample_ext {sample_note} sorted_list_of_set tight_config tight_store"
  unfolding tight_store_def
  by (rule store_run.insert [OF store_run.start [folded empty_disk_def]]) (simp, rule surjective_pairing)

lemma tight_stored: "by_id (st_index tight_store) = [ev_id sample_note \<mapsto> sample_note]" "amplification_milli tight_store = 4000"
proof -
  obtain s where ins: "index_insert sample_ext sample_note index_new = (Inserted None, s)"
    using insert_into_new(1) by (metis prod.collapse)
  have "\<not> is_ephemeral sample_note" by code_simp
  then have st: "tight_store = log_insert sample_note None ((store_new tight_config True 0 empty_disk)\<lparr>st_index := s\<rparr>)"
    using ins by (simp add: tight_store_def store_insert_def store_new_def)
  show "by_id (st_index tight_store) = [ev_id sample_note \<mapsto> sample_note]"
    using insert_into_new(2) [of sample_ext sample_note] ins by (simp add: st)
  show "amplification_milli tight_store = 4000"
    by (simp add: st log_insert_def store_new_def DEFAULT_AMPLIFICATION_MILLI_def Let_def split: option.splits)
qed

lemma tight_evicts: "\<exists>st. maybe_evict sample_ext tight_store = Some st \<and> by_id (st_index st) = Map.empty"
proof -
  have p: "persisted sample_ext {sample_note} tight_store" "st_config tight_store = tight_config"
    using store_run_persisted [OF tight_run tight_universe enumerates_sorted_list_of_set tight_roomy] by auto
  have stored: "stored (st_index tight_store) = {sample_note}" by (simp add: stored_def tight_stored)
  have budget: "payload_budget tight_store * 90 div 100 = 0" "max_bytes (st_config tight_store) \<noteq> 0"
    by (simp_all add: payload_budget_def p(2) tight_config_def tight_stored)
  obtain st where st: "maybe_evict sample_ext tight_store = Some st" "index_inv sample_ext {sample_note} (st_index st)"
      "memory_bytes (st_index st) \<le> 0 \<or>
        min 1000 (card (stored (st_index tight_store))) \<le> card (stored (st_index tight_store) - stored (st_index st))"
    using maybe_evict_spec [OF persisted_inv [OF tight_universe(1) p(1)]] budget by auto
  note core = index_invD(1) [OF st(2)]
  have "stored (st_index st) \<noteq> {sample_note}"
  proof
    assume all: "stored (st_index st) = {sample_note}"
    then have "memory_bytes (st_index st) = 3" using core by (simp add: index_core_def payload_def sample_note_def)
    then show False using st(3) all stored by simp
  qed
  then have "stored (st_index st) = {}" using index_core_facts(3) [OF core] by blast
  then have "by_id (st_index st) i = None" for i by (cases "by_id (st_index st) i") (auto simp: stored_def ran_def)
  then have "by_id (st_index st) = Map.empty" by (rule ext)
  with st(1) show ?thesis by blast
qed

theorem restart_keeps_stored_witness:
  "\<exists>st st1 n st'. maybe_evict sample_ext tight_store = Some st \<and> stored (st_index st) = {} \<and>
     st1 = snd (store_insert sample_ext sample_note st) \<and>
     load_from_disk sample_ext sorted_list_of_set (store_new tight_config True 0 (disk_of (checkpoint_rotate st1))) = Some (n, st') \<and>
     (\<forall>c \<in> stored (st_index st1). \<exists>e \<in> stored (st_index st').
        slot_of e = slot_of c \<and> (e = c \<or> incoming_wins e c))"
proof -
  obtain st where st: "maybe_evict sample_ext tight_store = Some st" "by_id (st_index st) = Map.empty"
    using tight_evicts by blast
  let ?st = "snd (store_insert sample_ext sample_note st)"
  have "evicting_run sample_ext {sample_note} sorted_list_of_set tight_config st"
    by (rule evicting_run.evict [OF evicting_run.start [OF tight_run] st(1)])
  then have "evicting_run sample_ext {sample_note} sorted_list_of_set tight_config ?st"
    by (rule evicting_run.insert) (simp, rule surjective_pairing)
  from restart_keeps_stored [OF tight_universe enumerates_sorted_list_of_set tight_roomy this,
      of "disk_of (checkpoint_rotate ?st)" 0]
  show ?thesis using st by (auto simp: stored_def)
qed

section \<open>Deletions of evicted events\<close>

text \<open>
  C37. A deletion request does not reach an event that was evicted: it is not in memory, so nothing
  is removed, no tombstone is left and nothing is logged; the next process loads the event from
  the files again.
\<close>

theorem evicted_event_escapes_deletion:
  assumes "inj_on ev_id U" "\<forall>e \<in> U. persistable X e" "enumerates ord" "roomy U cfg"
    and "store_run X U ord cfg st0" "by_id (st_index st0) (ev_id e) = Some e"
    and "maybe_evict X st0 = Some st" "by_id (st_index st) (ev_id e) = None"
    and "apply_deletion X ord \<lparr>dr_ids = {ev_id e}, dr_coordinates = []\<rparr> (ev_pubkey e) until st = (out, st')"
  shows "deleted_ids out = [] \<and> st' = st \<and>
    (\<exists>n st''. load_from_disk X ord (store_new cfg True rss (disk_of st')) = Some (n, st'') \<and>
       by_id (st_index st'') (ev_id e) = Some e)"
proof -
  have p: "persisted X U st0" "st_config st0 = cfg" using store_run_persisted [OF assms(5,1-4)] by auto
  have "set (ord {ev_id e}) = {ev_id e}" using assms(3) by (simp add: enumerates_def)
  then have "fold (delete_id_step X (ev_pubkey e)) (ord {ev_id e}) (o1, st) = (o1, st)" for o1
    using assms(8) by (intro fold_invariant [where P = "\<lambda>r. r = (o1, st)" and Q = "\<lambda>i. i = ev_id e"])
      (auto simp: delete_id_step_def index_get_def)
  then have same: "deleted_ids out = []" "st' = st" using assms(9) by (auto simp: apply_deletion_def)
  have "disk_of st = disk_of st0" using maybe_evict_frame [OF assms(7)] by (simp add: disk_of_def)
  then have "restarts_to X U ord cfg (disk_of st') (by_id (st_index st0))"
    using restart_at_rest [OF assms(1-3) p(1)] p(2) same(2) by simp
  then show ?thesis using same assms(6) unfolding restarts_to_def by metis
qed

theorem evicted_event_escapes_deletion_witness:
  "\<exists>st out st' n st''. maybe_evict sample_ext tight_store = Some st \<and> by_id (st_index st) (ev_id sample_note) = None \<and>
     apply_deletion sample_ext sorted_list_of_set \<lparr>dr_ids = {ev_id sample_note}, dr_coordinates = []\<rparr>
       (ev_pubkey sample_note) 200 st = (out, st') \<and> deleted_ids out = [] \<and>
     load_from_disk sample_ext sorted_list_of_set (store_new tight_config True 0 (disk_of st')) = Some (n, st'') \<and>
     by_id (st_index st'') (ev_id sample_note) = Some sample_note"
proof -
  obtain st where st: "maybe_evict sample_ext tight_store = Some st" "by_id (st_index st) = Map.empty"
    using tight_evicts by blast
  obtain out st' where d: "apply_deletion sample_ext sorted_list_of_set
      \<lparr>dr_ids = {ev_id sample_note}, dr_coordinates = []\<rparr> (ev_pubkey sample_note) 200 st = (out, st')" by fastforce
  have stored: "by_id (st_index tight_store) (ev_id sample_note) = Some sample_note"
    "by_id (st_index st) (ev_id sample_note) = None" using st(2) tight_stored by simp_all
  from evicted_event_escapes_deletion [OF tight_universe enumerates_sorted_list_of_set tight_roomy tight_run
      stored(1) st(1) stored(2) d, of 0] st(1) stored(2) d
  show ?thesis by blast
qed

end
