(* ===== verification/Store_Files.thy ===== *)
theory Store_Files
  imports Event_Store Wal_File
begin

text \<open>
  The persistence of the store (\<^verbatim>\<open>src/src/store/mod.rs\<close>) over file operations that may fail. The
  store is reduced to what persistence reads and writes: the index, the configuration, the log file
  and the snapshot. An error of the log is only reported, so the operations on events go on;
  \<open>checkpoint\<close> and \<open>save_to_disk\<close> stop at their first error.
\<close>

section \<open>State\<close>

record io_store =
  io_index :: event_index
  io_config :: store_config
  io_wal :: "wal_file option"
  io_snapshot :: "bytes option"

definition io_store_new :: "store_config \<Rightarrow> bool \<Rightarrow> disk \<Rightarrow> io_store" where
  "io_store_new cfg open_ok d =
     \<lparr>io_index = index_new, io_config = cfg,
      io_wal = (if persistence_path cfg \<noteq> None \<and> use_wal cfg \<and> open_ok
                then Some (wal_file_open (d_log d) (d_old d)) else None),
      io_snapshot = d_snapshot d\<rparr>"

text \<open>What a crash leaves behind.\<close>

definition io_dir :: "io_store \<Rightarrow> disk" where
  "io_dir st =
     \<lparr>d_log = Option.bind (io_wal st) log_on_disk, d_old = Option.bind (io_wal st) old_on_disk,
      d_snapshot = io_snapshot st\<rparr>"

section \<open>Events\<close>

text \<open>\<open>room op\<close> is the room that the log file has when the record \<open>op\<close> is written.\<close>

definition log_op_io :: "(wal_op \<Rightarrow> nat) \<Rightarrow> wal_op \<Rightarrow> io_store \<Rightarrow> io_store" where
  "log_op_io room op st =
     (case io_wal st of
        Some w \<Rightarrow> st\<lparr>io_wal := Some (snd (append_io (room op) op w))\<rparr> | None \<Rightarrow> st)"

definition log_insert_io :: "(wal_op \<Rightarrow> nat) \<Rightarrow> event \<Rightarrow> event option \<Rightarrow> io_store \<Rightarrow> io_store" where
  "log_insert_io room e replaced st =
     (let st1 = log_op_io room (WalInsert (ev_raw e)) st
      in (case replaced of Some old \<Rightarrow> log_op_io room (WalDelete (ev_id old)) st1 | None \<Rightarrow> st1))"

definition store_insert_io ::
    "'x ext_scheme \<Rightarrow> (wal_op \<Rightarrow> nat) \<Rightarrow> event \<Rightarrow> io_store \<Rightarrow> insert_result \<times> io_store" where
  "store_insert_io X room e st =
     (if is_ephemeral e then (R_Ephemeral, st)
      else
        let (outcome, s) = index_insert X e (io_index st);
            st1 = st\<lparr>io_index := s\<rparr>
        in (case outcome of
              Duplicate \<Rightarrow> (R_Duplicate, st1)
            | LostRace \<Rightarrow> (R_Duplicate, st1)
            | Deleted \<Rightarrow> (R_Deleted, st1)
            | Inserted replaced \<Rightarrow>
                (R_Stored e (case replaced of Some old \<Rightarrow> [old] | None \<Rightarrow> []),
                 log_insert_io room e replaced st1)))"

definition delete_logged_io ::
    "'x ext_scheme \<Rightarrow> (wal_op \<Rightarrow> nat) \<Rightarrow> bytes \<Rightarrow> deletion_outcome \<times> io_store \<Rightarrow> deletion_outcome \<times> io_store" where
  "delete_logged_io X room i r =
     (let (out, st) = r;
          st1 = log_op_io room (WalTombstone i) st;
          (removed, s) = delete_by_id X i (io_index st1);
          st2 = st1\<lparr>io_index := s\<rparr>
      in (case removed of
            Some _ \<Rightarrow> out\<lparr>deleted_ids := deleted_ids out @ [i]\<rparr> | None \<Rightarrow> out, st2))"

definition delete_id_step_io ::
    "'x ext_scheme \<Rightarrow> (wal_op \<Rightarrow> nat) \<Rightarrow> bytes \<Rightarrow> bytes \<Rightarrow> deletion_outcome \<times> io_store \<Rightarrow>
     deletion_outcome \<times> io_store" where
  "delete_id_step_io X room author i r =
     (case index_get (io_index (snd r)) i of
        Some existing \<Rightarrow>
          if ev_pubkey existing = author then delete_logged_io X room i r
          else ((fst r)\<lparr>skipped_foreign := skipped_foreign (fst r) + 1\<rparr>, snd r)
      | None \<Rightarrow> r)"

definition delete_coordinate_step_io ::
    "'x ext_scheme \<Rightarrow> (wal_op \<Rightarrow> nat) \<Rightarrow> bytes \<Rightarrow> u64 \<Rightarrow> coordinate \<Rightarrow> deletion_outcome \<times> io_store \<Rightarrow>
     deletion_outcome \<times> io_store" where
  "delete_coordinate_step_io X room author until c r =
     (if co_pubkey c \<noteq> author
      then ((fst r)\<lparr>skipped_foreign := skipped_foreign (fst r) + 1\<rparr>, snd r)
      else
        let targets = coordinate_targets (io_index (snd r)) c until in
        if targets = [] then
          ((fst r)\<lparr>unknown_coordinates := unknown_coordinates (fst r) + 1\<rparr>, snd r)
        else fold (delete_logged_io X room) targets r)"

definition apply_deletion_io ::
    "'x ext_scheme \<Rightarrow> (wal_op \<Rightarrow> nat) \<Rightarrow> (bytes set \<Rightarrow> bytes list) \<Rightarrow> del_request \<Rightarrow> bytes \<Rightarrow> u64 \<Rightarrow>
     io_store \<Rightarrow> deletion_outcome \<times> io_store" where
  "apply_deletion_io X room ord req author until st =
     fold (delete_coordinate_step_io X room author until) (dr_coordinates req)
       (fold (delete_id_step_io X room author) (ord (dr_ids req))
         (\<lparr>deleted_ids = [], skipped_foreign = 0, unknown_coordinates = 0\<rparr>, st))"

section \<open>Snapshots and checkpoints\<close>

record snapshot_env =
  sn_create :: bool
  sn_room :: nat
  sn_sync :: bool
  sn_rename :: bool

definition snapshot_chunks :: "event list \<Rightarrow> bytes list" where
  "snapshot_chunks es = concat (map (\<lambda>e. [ev_raw e, [10]]) es)"

text \<open>The temporary file is written through a buffer of its own; only the rename shows.\<close>

definition write_snapshot_io ::
    "(bytes set \<Rightarrow> bytes list) \<Rightarrow> snapshot_env \<Rightarrow> io_store \<Rightarrow> (io_error + nat) \<times> io_store" where
  "write_snapshot_io ord io st =
     (if \<not> sn_create io then (Inl E_Create, st)
      else
        let es = iter_all ord (io_index st);
            (ok, _, b) = write_flush (snapshot_chunks es) (sn_room io, \<lparr>bw_file = [], bw_buf = []\<rparr>)
        in if \<not> ok then (Inl E_Write, st)
           else if \<not> sn_sync io then (Inl E_Sync, st)
           else if \<not> sn_rename io then (Inl E_Rename, st)
           else (Inr (length es), st\<lparr>io_snapshot := Some (bw_file b)\<rparr>))"

record checkpoint_env =
  ck_dir :: bool
  ck_rotate :: rotate_env
  ck_snapshot :: snapshot_env
  ck_remove :: bool

text \<open>A failing removal of the rotated segment is only reported.\<close>

definition remove_old :: "bool \<Rightarrow> io_store \<Rightarrow> io_store" where
  "remove_old ok st =
     (if ok then st\<lparr>io_wal := map_option (\<lambda>w. w\<lparr>wf_old := None\<rparr>) (io_wal st)\<rparr> else st)"

definition checkpoint_io ::
    "(bytes set \<Rightarrow> bytes list) \<Rightarrow> checkpoint_env \<Rightarrow> io_store \<Rightarrow> io_error option \<times> io_store" where
  "checkpoint_io ord io st =
     (case persistence_path (io_config st) of
        None \<Rightarrow> (None, st)
      | Some _ \<Rightarrow>
          if \<not> ck_dir io then (Some E_Dir, st)
          else
            (case io_wal st of
               None \<Rightarrow>
                 (case write_snapshot_io ord (ck_snapshot io) st of
                    (Inl err, st1) \<Rightarrow> (Some err, st1) | (Inr _, st1) \<Rightarrow> (None, st1))
             | Some w \<Rightarrow>
                 (case rotate_io (ck_rotate io) w of
                    (Some err, w1) \<Rightarrow> (Some err, st\<lparr>io_wal := Some w1\<rparr>)
                  | (None, w1) \<Rightarrow>
                      (case write_snapshot_io ord (ck_snapshot io) (st\<lparr>io_wal := Some w1\<rparr>) of
                         (Inl err, st1) \<Rightarrow> (Some err, st1)
                       | (Inr _, st1) \<Rightarrow> (None, remove_old (ck_remove io) st1)))))"

record save_env =
  sv_dir :: bool
  sv_room :: nat
  sv_sync :: bool
  sv_snapshot :: snapshot_env

definition save_to_disk_io ::
    "(bytes set \<Rightarrow> bytes list) \<Rightarrow> save_env \<Rightarrow> io_store \<Rightarrow> io_error option \<times> io_store" where
  "save_to_disk_io ord io st =
     (case persistence_path (io_config st) of
        None \<Rightarrow> (None, st)
      | Some _ \<Rightarrow>
          if \<not> sv_dir io then (Some E_Dir, st)
          else
            (case io_wal st of
               Some w \<Rightarrow>
                 let (err, w1) = flush_io (sv_room io) (sv_sync io) w in (err, st\<lparr>io_wal := Some w1\<rparr>)
             | None \<Rightarrow>
                 (case write_snapshot_io ord (sv_snapshot io) st of
                    (Inl err, st1) \<Rightarrow> (Some err, st1) | (Inr _, st1) \<Rightarrow> (None, st1))))"

definition maybe_checkpoint_io ::
    "(bytes set \<Rightarrow> bytes list) \<Rightarrow> checkpoint_env \<Rightarrow> save_env \<Rightarrow> io_store \<Rightarrow> io_error option \<times> io_store" where
  "maybe_checkpoint_io ord ck sv st =
     (case io_wal st of
        None \<Rightarrow> save_to_disk_io ord sv st
      | Some w \<Rightarrow>
          let threshold = max MIN_CHECKPOINT_BYTES (saturating_mul (memory_bytes (io_index st)) 2)
          in if threshold \<le> wf_bytes w then checkpoint_io ord ck st
             else
               (case group_commit_io (sv_room sv) (sv_sync sv) w of
                  (Inl err, w1) \<Rightarrow> (Some err, st\<lparr>io_wal := Some w1\<rparr>)
                | (Inr _, w1) \<Rightarrow> (None, st\<lparr>io_wal := Some w1\<rparr>)))"

text \<open>
  One turn of the task that commits the log and of the one that persists the store: an error is
  reported and the task goes on.
\<close>

definition wal_sync_turn_io :: "nat \<Rightarrow> bool \<Rightarrow> io_store \<Rightarrow> io_store" where
  "wal_sync_turn_io room sync st =
     (case io_wal st of
        None \<Rightarrow> st
      | Some w \<Rightarrow>
          (case group_commit_io room sync w of
             (Inl _, w1) \<Rightarrow> st\<lparr>io_wal := Some w1\<rparr> | (Inr _, w1) \<Rightarrow> st\<lparr>io_wal := Some w1\<rparr>))"

definition persistence_turn_io ::
    "(bytes set \<Rightarrow> bytes list) \<Rightarrow> checkpoint_env \<Rightarrow> save_env \<Rightarrow> io_store \<Rightarrow> io_store" where
  "persistence_turn_io ord ck sv st =
     (case persistence_path (io_config st) of
        None \<Rightarrow> st
      | Some _ \<Rightarrow>
          (case maybe_checkpoint_io ord ck sv st of (None, st1) \<Rightarrow> st1 | (Some _, st1) \<Rightarrow> st1))"

text \<open>The end of \<open>main\<close>: a checkpoint, and a flush of the log if it fails.\<close>

definition shutdown_io ::
    "(bytes set \<Rightarrow> bytes list) \<Rightarrow> checkpoint_env \<Rightarrow> save_env \<Rightarrow> io_store \<Rightarrow> io_error option \<times> io_store" where
  "shutdown_io ord ck sv st =
     (if persistence_path (io_config st) = None then (None, st)
      else
        (case checkpoint_io ord ck st of
           (None, st1) \<Rightarrow> (None, st1) | (Some _, st1) \<Rightarrow> save_to_disk_io ord sv st1))"

section \<open>Loading\<close>

text \<open>
  How much of each file can be read: \<^term>\<open>None\<close> for all of it, \<open>Some k\<close> when reading fails after
  \<open>k\<close> lines of the snapshot or \<open>k\<close> bytes of a segment; a file that cannot be opened is \<open>Some 0\<close>.
\<close>

record load_env =
  ld_snapshot :: "nat option"
  ld_old :: "nat option"
  ld_log :: "nat option"
  ld_remove :: bool
  ld_checkpoint :: checkpoint_env

definition readable :: "nat option \<Rightarrow> 'a list \<Rightarrow> 'a list" where
  "readable k xs = (case k of None \<Rightarrow> xs | Some n \<Rightarrow> take n xs)"

definition load_snapshot_io ::
    "'x ext_scheme \<Rightarrow> usize \<Rightarrow> usize \<Rightarrow> nat option \<Rightarrow> bytes option \<Rightarrow> event_index \<times> nat \<Rightarrow>
     (event_index \<times> nat) option" where
  "load_snapshot_io X threshold target k snap r =
     (case snap of
        None \<Rightarrow> Some r
      | Some bs \<Rightarrow>
          fold_opt (load_event X threshold target)
            (filter (\<lambda>l. l \<noteq> []) (takeWhile utf8_valid (readable k (buf_lines bs)))) r)"

definition load_segments_io ::
    "'x ext_scheme \<Rightarrow> usize \<Rightarrow> usize \<Rightarrow> load_env \<Rightarrow> wal_file option \<Rightarrow> event_index \<times> nat \<Rightarrow>
     (event_index \<times> nat) option" where
  "load_segments_io X threshold target io wo r =
     (case wo of
        None \<Rightarrow> Some r
      | Some w \<Rightarrow>
          Option.bind
            (case wf_old w of
               Some bs \<Rightarrow>
                 fold_opt (replay_op X threshold target) (fst (replay_bytes (readable (ld_old io) bs))) r
             | None \<Rightarrow> Some r)
            (fold_opt (replay_op X threshold target)
              (fst (replay_bytes (readable (ld_log io) (bw_file (wf_writer w)))))))"

definition load_replay_io :: "'x ext_scheme \<Rightarrow> load_env \<Rightarrow> io_store \<Rightarrow> (event_index \<times> nat) option" where
  "load_replay_io X io st =
     (let mb = max_bytes (io_config st);
          threshold = (if 0 < mb then mb * 90 div 100 else 0);
          target = (if 0 < mb then mb * 70 div 100 else 0)
      in Option.bind
           (load_snapshot_io X threshold target (ld_snapshot io) (io_snapshot st) (io_index st, 0))
           (load_segments_io X threshold target io (io_wal st)))"

definition load_from_disk_io ::
    "'x ext_scheme \<Rightarrow> (bytes set \<Rightarrow> bytes list) \<Rightarrow> load_env \<Rightarrow> io_store \<Rightarrow> (nat \<times> io_store) option" where
  "load_from_disk_io X ord io st =
     (case persistence_path (io_config st) of
        None \<Rightarrow> Some (0, st)
      | Some _ \<Rightarrow>
          (case load_replay_io X io st of
             None \<Rightarrow> None
           | Some (s, applied) \<Rightarrow>
               let st1 = remove_old (ld_remove io) (st\<lparr>io_index := s\<rparr>)
               in Some (applied, if 0 < applied then snd (checkpoint_io ord (ld_checkpoint io) st1) else st1)))"

end
