(* ===== verification/Store_Files_Refinement.thy ===== *)
theory Store_Files_Refinement
  imports Store_Files Store_Recovery
begin

text \<open>
  The persistence over failing files against the one without failures: an operation whose file
  operations all succeed is the operation of \<^verbatim>\<open>Event_Store\<close>, and one whose log writes succeed does to
  the index and to the log what that operation does.
\<close>

section \<open>Abstraction\<close>

text \<open>The store without failures; the state of the evictor plays no part in persistence.\<close>

definition store_of :: "io_store \<Rightarrow> event_store" where
  "store_of st =
     \<lparr>st_index = io_index st, st_config = io_config st, interval_seconds = 10, consecutive_evictions = 0,
      st_wal = map_option wal_of (io_wal st), st_snapshot = io_snapshot st, cached_rss_bytes = 0,
      amplification_milli = DEFAULT_AMPLIFICATION_MILLI\<rparr>"

definition drained :: "io_store \<Rightarrow> bool" where
  "drained st \<longleftrightarrow> (\<forall>w. io_wal st = Some w \<longrightarrow> settled w)"

definition unmoved :: "io_store \<Rightarrow> bool" where
  "unmoved st \<longleftrightarrow> (\<forall>w. io_wal st = Some w \<longrightarrow> \<not> wf_moved w)"

lemma store_of_simps [simp]:
  "st_index (store_of st) = io_index st" "st_config (store_of st) = io_config st"
  "st_wal (store_of st) = map_option wal_of (io_wal st)" "st_snapshot (store_of st) = io_snapshot st"
  "store_of (st\<lparr>io_index := s\<rparr>) = (store_of st)\<lparr>st_index := s\<rparr>"
  "store_of (st\<lparr>io_snapshot := d\<rparr>) = (store_of st)\<lparr>st_snapshot := d\<rparr>"
  by (simp_all add: store_of_def)

lemma drained_simps [simp]:
  "drained (st\<lparr>io_index := s\<rparr>) = drained st" "drained (st\<lparr>io_snapshot := d\<rparr>) = drained st"
  "drained (st\<lparr>io_wal := Some w\<rparr>) = settled w" "drained (st\<lparr>io_wal := None\<rparr>)"
  by (simp_all add: drained_def)

lemma unmoved_simps [simp]:
  "unmoved (st\<lparr>io_index := s\<rparr>) = unmoved st" "unmoved (st\<lparr>io_snapshot := d\<rparr>) = unmoved st"
  "unmoved (st\<lparr>io_wal := Some w\<rparr>) \<longleftrightarrow> \<not> wf_moved w"
  by (simp_all add: unmoved_def)

lemma io_dir_unmoved: "unmoved st \<Longrightarrow> io_dir st = disk_of (store_of st)"
  by (cases "io_wal st") (simp_all add: io_dir_def disk_of_def unmoved_def log_on_disk_def old_on_disk_def wal_of_def)

section \<open>Operations on events\<close>

text \<open>Every record fits into the log file.\<close>

definition ample :: "(wal_op \<Rightarrow> nat) \<Rightarrow> bool" where
  "ample room \<longleftrightarrow> (\<forall>op. length (encode_op op) \<le> room op)"

text \<open>What the logging of an operation \<open>f\<close> must keep, and what it must amount to.\<close>

definition refines :: "(io_store \<Rightarrow> io_store) \<Rightarrow> (event_store \<Rightarrow> event_store) \<Rightarrow> bool" where
  "refines f g \<longleftrightarrow>
     (\<forall>st. drained st \<longrightarrow>
        store_of (f st) = g (store_of st) \<and> drained (f st) \<and>
        map_option wf_moved (io_wal (f st)) = map_option wf_moved (io_wal st))"

definition log_op :: "wal_op \<Rightarrow> event_store \<Rightarrow> event_store" where
  "log_op op st = st\<lparr>st_wal := map_option (append_op op) (st_wal st)\<rparr>"

lemma append_io_moved [simp]: "wf_moved (snd (append_io room op w)) = wf_moved w"
  by (simp add: append_io_def Let_def split: prod.splits)

lemma log_op_refines:
  assumes "ample room"
  shows "refines (log_op_io room op) (log_op op)"
proof -
  have "store_of (log_op_io room op st) = log_op op (store_of st) \<and> drained (log_op_io room op st) \<and>
      map_option wf_moved (io_wal (log_op_io room op st)) = map_option wf_moved (io_wal st)"
    if "drained st" for st
  proof (cases "io_wal st")
    case None
    then show ?thesis using that by (simp add: log_op_io_def log_op_def store_of_def)
  next
    case (Some w)
    then have w: "settled w" "length (encode_op op) \<le> room op"
      using that assms by (simp_all add: drained_def ample_def)
    from append_io_refines [OF w] show ?thesis
      by (simp add: log_op_io_def log_op_def Some) (simp add: store_of_def Some)
  qed
  then show ?thesis by (simp add: refines_def)
qed

lemma log_op_views [simp]:
  "st_index (log_op op st) = st_index st" "io_index (log_op_io room op io) = io_index io"
  "io_config (log_op_io room op io) = io_config io" "io_snapshot (log_op_io room op io) = io_snapshot io"
  by (simp_all add: log_op_def log_op_io_def split: option.splits)

lemma log_insert_ops:
  "log_insert e replaced st =
     (let st1 = log_op (WalInsert (ev_raw e)) st
      in (case replaced of Some old \<Rightarrow> log_op (WalDelete (ev_id old)) st1 | None \<Rightarrow> st1))"
  by (cases "st_wal st")
    (simp_all add: log_insert_def log_op_def wal_insert_def wal_delete_def Let_def split: option.splits)

lemma record_deletion_op: "record_deletion i st = log_op (WalTombstone i) st"
  by (cases "st_wal st") (simp_all add: record_deletion_def log_op_def wal_tombstone_def)

lemma log_insert_refines:
  assumes "ample room"
  shows "refines (log_insert_io room e replaced) (log_insert e replaced)"
  using log_op_refines [OF assms]
  by (cases replaced) (simp_all add: refines_def log_insert_io_def log_insert_ops Let_def)

text \<open>An insert, and the steps of a deletion request.\<close>

lemma store_insert_refines:
  assumes "ample room"
  shows "refines (\<lambda>st. snd (store_insert_io X room e st)) (\<lambda>st. snd (store_insert X e st))"
    "drained st \<Longrightarrow> fst (store_insert_io X room e st) = fst (store_insert X e (store_of st))"
  using log_insert_refines [OF assms]
  by (auto simp: refines_def store_insert_io_def store_insert_def Let_def split: prod.splits insert_outcome.splits)

definition refines_step ::
    "('a \<times> io_store \<Rightarrow> 'a \<times> io_store) \<Rightarrow> ('a \<times> event_store \<Rightarrow> 'a \<times> event_store) \<Rightarrow> bool" where
  "refines_step f g \<longleftrightarrow>
     (\<forall>out st. drained st \<longrightarrow>
        (case f (out, st) of (out', st') \<Rightarrow>
           g (out, store_of st) = (out', store_of st') \<and> drained st' \<and>
           map_option wf_moved (io_wal st') = map_option wf_moved (io_wal st)))"

lemma refines_stepI:
  assumes "\<And>out st out' st'. drained st \<Longrightarrow> f (out, st) = (out', st') \<Longrightarrow>
     g (out, store_of st) = (out', store_of st') \<and> drained st' \<and>
     map_option wf_moved (io_wal st') = map_option wf_moved (io_wal st)"
  shows "refines_step f g"
  using assms by (auto simp: refines_step_def split: prod.splits)

lemma refines_stepD:
  assumes "refines_step f g" "drained st" "f (out, st) = (out', st')"
  shows "g (out, store_of st) = (out', store_of st')" "drained st'"
    "map_option wf_moved (io_wal st') = map_option wf_moved (io_wal st)"
  using assms unfolding refines_step_def by (metis (mono_tags, lifting) case_prod_conv)+

lemma refines_step_id: "refines_step (\<lambda>r. (h (fst r), snd r)) (\<lambda>r. (h (fst r), snd r))"
  by (simp add: refines_step_def)

lemma refines_step_fold:
  assumes "\<And>x. refines_step (f x) (g x)"
  shows "refines_step (fold f xs) (fold g xs)"
proof (induction xs)
  case Nil
  then show ?case by (simp add: refines_step_def)
next
  case (Cons x xs)
  show ?case
  proof (rule refines_stepI)
    fix out st out' st'
    assume st: "drained st" and run: "fold f (x # xs) (out, st) = (out', st')"
    obtain out1 st1 where one: "f x (out, st) = (out1, st1)" by fastforce
    with run have rest: "fold f xs (out1, st1) = (out', st')" by simp
    note s1 = refines_stepD [OF assms st one]
    from refines_stepD [OF Cons.IH s1(2) rest] s1
    show "fold g (x # xs) (out, store_of st) = (out', store_of st') \<and> drained st' \<and>
        map_option wf_moved (io_wal st') = map_option wf_moved (io_wal st)" by simp
  qed
qed

lemma delete_logged_refines:
  assumes "ample room"
  shows "refines_step (delete_logged_io X room i) (delete_logged X i)"
  using log_op_refines [OF assms, of "WalTombstone i"]
  by (intro refines_stepI)
    (auto simp: refines_def delete_logged_io_def delete_logged_def record_deletion_op Let_def split: prod.splits)

lemma delete_id_step_refines:
  assumes "ample room"
  shows "refines_step (delete_id_step_io X room author i) (delete_id_step X author i)"
  using refines_stepD [OF delete_logged_refines [OF assms, of X i]]
  by (intro refines_stepI)
    (auto simp: delete_id_step_io_def delete_id_step_def split: option.splits if_splits)

lemma delete_coordinate_step_refines:
  assumes "ample room"
  shows "refines_step (delete_coordinate_step_io X room author until c) (delete_coordinate_step X author until c)"
  using refines_stepD [OF refines_step_fold [OF delete_logged_refines [OF assms, of X]]]
  by (intro refines_stepI)
    (auto simp: delete_coordinate_step_io_def delete_coordinate_step_def Let_def split: if_splits)

lemma apply_deletion_refines:
  assumes "ample room" "drained st" "apply_deletion_io X room ord req author until st = (out, st')"
  shows "apply_deletion X ord req author until (store_of st) = (out, store_of st')" "drained st'"
    "map_option wf_moved (io_wal st') = map_option wf_moved (io_wal st)"
proof -
  let ?out0 = "\<lparr>deleted_ids = [], skipped_foreign = 0, unknown_coordinates = 0\<rparr> :: deletion_outcome"
  obtain out1 st1 where one: "fold (delete_id_step_io X room author) (ord (dr_ids req)) (?out0, st) = (out1, st1)"
    by fastforce
  note s1 = refines_stepD [OF refines_step_fold [OF delete_id_step_refines [OF assms(1)]] assms(2) one]
  have two: "fold (delete_coordinate_step_io X room author until) (dr_coordinates req) (out1, st1) = (out, st')"
    using assms(3) one by (simp add: apply_deletion_io_def)
  note s2 = refines_stepD [OF refines_step_fold [OF delete_coordinate_step_refines [OF assms(1)]] s1(2) two]
  show "apply_deletion X ord req author until (store_of st) = (out, store_of st')" "drained st'"
    "map_option wf_moved (io_wal st') = map_option wf_moved (io_wal st)"
    using s1 s2 by (simp_all add: apply_deletion_def)
qed

section \<open>Snapshots and checkpoints\<close>

lemma concat_snapshot_chunks [simp]: "concat (snapshot_chunks es) = snapshot_bytes es"
  by (induction es) (simp_all add: snapshot_chunks_def snapshot_bytes_def)

text \<open>A snapshot is written as a whole or not at all.\<close>

definition snapshot_succeeds :: "(bytes set \<Rightarrow> bytes list) \<Rightarrow> snapshot_env \<Rightarrow> io_store \<Rightarrow> bool" where
  "snapshot_succeeds ord io st \<longleftrightarrow> (\<exists>n. fst (write_snapshot_io ord io st) = Inr n)"

lemma write_flush_exact:
  assumes "write_flush ds (room, \<lparr>bw_file = [], bw_buf = []\<rparr>) = (True, r, b)"
  shows "bw_file b = concat ds"
proof -
  have buf: "bw_buf b = []" by (rule write_flush_success [OF assms])
  have "bw_all b = concat ds"
    using write_flush_all [OF assms] by (simp add: bw_all_def)
  then show ?thesis using buf by (simp add: bw_all_def)
qed

lemma write_snapshot_io_cases:
  obtains (ok) "snapshot_succeeds ord io st"
    "write_snapshot_io ord io st =
       (Inr (length (iter_all ord (io_index st))),
        st\<lparr>io_snapshot := Some (snapshot_bytes (iter_all ord (io_index st)))\<rparr>)"
  | (failed) err where "\<not> snapshot_succeeds ord io st" "write_snapshot_io ord io st = (Inl err, st)"
proof (cases "snapshot_succeeds ord io st")
  case True
  let ?es = "iter_all ord (io_index st)"
  obtain good r b where b: "write_flush (snapshot_chunks ?es) (sn_room io, \<lparr>bw_file = [], bw_buf = []\<rparr>) = (good, r, b)"
    by (metis prod.exhaust)
  have "good" using True b by (auto simp: snapshot_succeeds_def write_snapshot_io_def Let_def split: if_splits)
  then have "bw_file b = snapshot_bytes ?es" using write_flush_exact b by fastforce
  then show ?thesis
    using True b by (intro ok) (auto simp: snapshot_succeeds_def write_snapshot_io_def Let_def split: if_splits)
next
  case False
  then have "\<exists>err. write_snapshot_io ord io st = (Inl err, st)"
    by (auto simp: snapshot_succeeds_def write_snapshot_io_def Let_def split: if_splits prod.splits)
  then show ?thesis using failed [OF False] by blast
qed

text \<open>File operations that all succeed.\<close>

definition snapshot_fine :: "(bytes set \<Rightarrow> bytes list) \<Rightarrow> snapshot_env \<Rightarrow> io_store \<Rightarrow> bool" where
  "snapshot_fine ord io st \<longleftrightarrow>
     sn_create io \<and> sn_sync io \<and> sn_rename io \<and>
     length (snapshot_bytes (iter_all ord (io_index st))) \<le> sn_room io"

lemma snapshot_fine_succeeds:
  assumes "snapshot_fine ord io st"
  shows "snapshot_succeeds ord io st"
proof -
  let ?es = "iter_all ord (io_index st)"
  obtain r b where "write_flush (snapshot_chunks ?es) (sn_room io, \<lparr>bw_file = [], bw_buf = []\<rparr>) = (True, r, b)"
    using write_flush_room [of "\<lparr>bw_file = [], bw_buf = []\<rparr>" "snapshot_chunks ?es" "sn_room io"] assms
    by (auto simp: snapshot_fine_def)
  then show ?thesis using assms by (simp add: snapshot_succeeds_def snapshot_fine_def write_snapshot_io_def Let_def)
qed

definition rotate_fine :: "rotate_env \<Rightarrow> bool" where
  "rotate_fine io \<longleftrightarrow> ro_sync io \<and> ro_rename io \<and> ro_open io"

definition checkpoint_fine :: "(bytes set \<Rightarrow> bytes list) \<Rightarrow> checkpoint_env \<Rightarrow> io_store \<Rightarrow> bool" where
  "checkpoint_fine ord io st \<longleftrightarrow>
     ck_dir io \<and> rotate_fine (ck_rotate io) \<and> snapshot_fine ord (ck_snapshot io) st \<and> ck_remove io"

lemma remove_old_refines:
  "store_of (remove_old True st) = checkpoint_remove (store_of st)"
  "drained (remove_old ok st) = drained st" "unmoved (remove_old ok st) = unmoved st"
  by (cases "io_wal st"; simp add: remove_old_def checkpoint_remove_def store_of_def wal_of_def drained_def unmoved_def settled_def)+

lemma remove_old_wal:
  "io_wal st = Some w \<Longrightarrow> io_wal (remove_old ok st) = Some (if ok then w\<lparr>wf_old := None\<rparr> else w)"
  by (simp add: remove_old_def)

lemma remove_old_frame [simp]:
  "io_index (remove_old ok st) = io_index st" "io_config (remove_old ok st) = io_config st"
  "io_snapshot (remove_old ok st) = io_snapshot st"
  by (simp_all add: remove_old_def)

lemma snapshot_succeeds_wal [simp]:
  "snapshot_succeeds ord io (st\<lparr>io_wal := w\<rparr>) = snapshot_succeeds ord io st"
  by (simp add: snapshot_succeeds_def write_snapshot_io_def Let_def split: prod.splits)

lemma checkpoint_refines:
  assumes "drained st" "unmoved st" "checkpoint_fine ord io st"
  shows "fst (checkpoint_io ord io st) = None" "drained (snd (checkpoint_io ord io st))"
    "unmoved (snd (checkpoint_io ord io st))"
    "store_of (snd (checkpoint_io ord io st)) = checkpoint ord (store_of st)"
proof -
  have snap: "snapshot_succeeds ord (ck_snapshot io) st"
    using assms(3) by (intro snapshot_fine_succeeds) (simp add: checkpoint_fine_def)
  have "fst (checkpoint_io ord io st) = None \<and> drained (snd (checkpoint_io ord io st)) \<and>
      unmoved (snd (checkpoint_io ord io st)) \<and>
      store_of (snd (checkpoint_io ord io st)) = checkpoint ord (store_of st)"
  proof (cases "persistence_path (io_config st)")
    case None
    then show ?thesis using assms by (simp add: checkpoint_io_def checkpoint_def)
  next
    case path: (Some p)
    show ?thesis
    proof (cases "io_wal st")
      case None
      show ?thesis
      proof (cases rule: write_snapshot_io_cases [of ord "ck_snapshot io" st])
        case ok
        then show ?thesis
          using assms path None
          by (simp add: checkpoint_io_def checkpoint_def checkpoint_fine_def write_snapshot_def Let_def)
      qed (use snap in blast)
    next
      case (Some w)
      have w: "settled w" "\<not> wf_moved w" "ro_sync (ck_rotate io)" "ro_rename (ck_rotate io)" "ro_open (ck_rotate io)"
        using assms Some by (simp_all add: drained_def unmoved_def checkpoint_fine_def rotate_fine_def)
      obtain w1 where w1: "rotate_io (ck_rotate io) w = (None, w1)" "settled w1" "wal_of w1 = rotate_wal (wal_of w)"
        using rotate_io_refines [OF w] by (metis prod.collapse)
      have unm: "\<not> wf_moved w1"
        using w1(1) w flush_sync_settled [OF w(1)] by (auto simp: rotate_io_def split: if_splits)
      let ?st = "st\<lparr>io_wal := Some w1\<rparr>"
      have rot: "store_of ?st = checkpoint_rotate (store_of st)"
        using w1(3) by (simp add: store_of_def checkpoint_rotate_def Some)
      show ?thesis
      proof (cases rule: write_snapshot_io_cases [of ord "ck_snapshot io" ?st])
        case ok
        then have "checkpoint_io ord io st =
            (None, remove_old True (?st\<lparr>io_snapshot := Some (snapshot_bytes (iter_all ord (io_index st)))\<rparr>))"
          using assms(3) path Some w1(1) by (simp add: checkpoint_io_def checkpoint_fine_def)
        then show ?thesis
          using path Some w1(2) unm rot
          by (simp add: remove_old_refines checkpoint_def write_snapshot_def Let_def checkpoint_rotate_def)
      qed (use snap in simp)
    qed
  qed
  then show "fst (checkpoint_io ord io st) = None" "drained (snd (checkpoint_io ord io st))"
    "unmoved (snd (checkpoint_io ord io st))"
    "store_of (snd (checkpoint_io ord io st)) = checkpoint ord (store_of st)" by blast+
qed

definition save_fine :: "(bytes set \<Rightarrow> bytes list) \<Rightarrow> save_env \<Rightarrow> io_store \<Rightarrow> bool" where
  "save_fine ord io st \<longleftrightarrow> sv_dir io \<and> sv_sync io \<and> snapshot_fine ord (sv_snapshot io) st"

lemma flush_io_moved [simp]: "wf_moved (snd (flush_io room sync w)) = wf_moved w"
  by (simp add: flush_io_def flush_sync_def Let_def split: prod.splits)

lemma group_commit_io_moved [simp]: "wf_moved (snd (group_commit_io room sync w)) = wf_moved w"
  by (simp add: group_commit_io_def flush_sync_def Let_def split: prod.splits)

lemma save_refines:
  assumes "drained st" "unmoved st" "save_fine ord io st"
  shows "fst (save_to_disk_io ord io st) = None" "drained (snd (save_to_disk_io ord io st))"
    "unmoved (snd (save_to_disk_io ord io st))"
    "store_of (snd (save_to_disk_io ord io st)) = save_to_disk ord (store_of st)"
proof -
  have "fst (save_to_disk_io ord io st) = None \<and> drained (snd (save_to_disk_io ord io st)) \<and>
      unmoved (snd (save_to_disk_io ord io st)) \<and>
      store_of (snd (save_to_disk_io ord io st)) = save_to_disk ord (store_of st)"
  proof (cases "persistence_path (io_config st)")
    case None
    then show ?thesis using assms by (simp add: save_to_disk_io_def save_to_disk_def)
  next
    case path: (Some p)
    show ?thesis
    proof (cases "io_wal st")
      case None
      have snap: "snapshot_succeeds ord (sv_snapshot io) st"
        using assms(3) by (intro snapshot_fine_succeeds) (simp add: save_fine_def)
      show ?thesis
      proof (cases rule: write_snapshot_io_cases [of ord "sv_snapshot io" st])
        case ok
        then show ?thesis
          using assms path None
          by (simp add: save_to_disk_io_def save_to_disk_def save_fine_def write_snapshot_def Let_def)
      qed (use snap in blast)
    next
      case (Some w)
      then have w: "settled w" "\<not> wf_moved w" using assms by (simp_all add: drained_def unmoved_def)
      obtain w1 where w1: "flush_io (sv_room io) True w = (None, w1)" "settled w1" "wal_of w1 = flush_wal (wal_of w)"
        using flush_io_refines [OF w(1)] by (metis prod.collapse)
      have "\<not> wf_moved w1" using flush_io_moved [of "sv_room io" True w] w1(1) w(2) by simp
      then show ?thesis
        using path Some w1 assms(3) by (simp add: save_to_disk_io_def save_to_disk_def save_fine_def)
          (simp add: store_of_def)
    qed
  qed
  then show "fst (save_to_disk_io ord io st) = None" "drained (snd (save_to_disk_io ord io st))"
    "unmoved (snd (save_to_disk_io ord io st))"
    "store_of (snd (save_to_disk_io ord io st)) = save_to_disk ord (store_of st)" by blast+
qed

lemma maybe_checkpoint_refines:
  assumes "drained st" "unmoved st" "checkpoint_fine ord ck st" "save_fine ord sv st"
  shows "fst (maybe_checkpoint_io ord ck sv st) = None" "drained (snd (maybe_checkpoint_io ord ck sv st))"
    "unmoved (snd (maybe_checkpoint_io ord ck sv st))"
    "store_of (snd (maybe_checkpoint_io ord ck sv st)) = maybe_checkpoint ord (store_of st)"
proof -
  have "fst (maybe_checkpoint_io ord ck sv st) = None \<and> drained (snd (maybe_checkpoint_io ord ck sv st)) \<and>
      unmoved (snd (maybe_checkpoint_io ord ck sv st)) \<and>
      store_of (snd (maybe_checkpoint_io ord ck sv st)) = maybe_checkpoint ord (store_of st)"
  proof (cases "io_wal st")
    case None
    then show ?thesis
      using save_refines [OF assms(1,2,4)] by (simp add: maybe_checkpoint_io_def maybe_checkpoint_def)
  next
    case (Some w)
    have w: "settled w" "\<not> wf_moved w" using assms Some by (simp_all add: drained_def unmoved_def)
    have bytes: "wf_bytes w = pending_bytes (wal_of w)" by (simp add: pending_bytes_def wal_of_def)
    note gc = group_commit_io_refines [OF w(1), of "sv_room sv"] group_commit_io_moved [of "sv_room sv" True w]
    have sync: "sv_sync sv" using assms(4) by (simp add: save_fine_def)
    obtain w1 where w1: "group_commit_io (sv_room sv) True w = (Inr (fst (group_commit (wal_of w))), w1)"
        "settled w1" "\<not> wf_moved w1" "wal_of w1 = snd (group_commit (wal_of w))"
      using gc w(2) by metis
    show ?thesis
      using Some w1 sync checkpoint_refines [OF assms(1-3)]
      by (simp add: maybe_checkpoint_io_def maybe_checkpoint_def Let_def bytes) (simp add: store_of_def)
  qed
  then show "fst (maybe_checkpoint_io ord ck sv st) = None" "drained (snd (maybe_checkpoint_io ord ck sv st))"
    "unmoved (snd (maybe_checkpoint_io ord ck sv st))"
    "store_of (snd (maybe_checkpoint_io ord ck sv st)) = maybe_checkpoint ord (store_of st)" by blast+
qed

section \<open>Loading\<close>

lemma store_of_new:
  "store_of (io_store_new cfg open_ok d) = (store_new cfg open_ok 0 d)"
  "drained (io_store_new cfg open_ok d)" "unmoved (io_store_new cfg open_ok d)"
  by (simp_all add: io_store_new_def store_of_def store_new_def wal_file_open_def wal_open_def wal_of_def
      drained_def unmoved_def settled_def Let_def)

text \<open>Everything can be read.\<close>

definition reads_all :: "load_env \<Rightarrow> bool" where
  "reads_all io \<longleftrightarrow> ld_snapshot io = None \<and> ld_old io = None \<and> ld_log io = None"

lemma load_snapshot_readable:
  "load_snapshot_io X threshold target None snap = load_snapshot X threshold target snap"
  by (rule ext) (simp add: load_snapshot_io_def load_snapshot_def readable_def split: option.splits)

lemma load_segments_readable:
  assumes "reads_all io"
  shows "load_segments_io X threshold target io wo = load_segments X threshold target (map_option wal_of wo)"
  using assms
  by (cases wo) (auto simp: load_segments_io_def load_segments_def reads_all_def readable_def replay_wal_def
      wal_of_def split: option.splits)

lemma load_replay_refines:
  assumes "reads_all io"
  shows "load_replay_io X io st = load_replay X (store_of st)"
  using assms
  by (simp add: load_replay_io_def load_replay_def load_snapshot_readable load_segments_readable [OF assms]
      reads_all_def Let_def)

definition load_fine :: "'x ext_scheme \<Rightarrow> (bytes set \<Rightarrow> bytes list) \<Rightarrow> load_env \<Rightarrow> io_store \<Rightarrow> bool" where
  "load_fine X ord io st \<longleftrightarrow>
     reads_all io \<and> ld_remove io \<and>
     (\<forall>s n. load_replay X (store_of st) = Some (s, n) \<longrightarrow>
        checkpoint_fine ord (ld_checkpoint io) (st\<lparr>io_index := s\<rparr>))"

lemma load_refines:
  assumes "drained st" "unmoved st" "load_fine X ord io st"
  shows "load_from_disk X ord (store_of st) =
    map_option (\<lambda>(n, st'). (n, store_of st')) (load_from_disk_io X ord io st)"
proof (cases "persistence_path (io_config st)")
  case None
  then show ?thesis by (simp add: load_from_disk_def load_from_disk_io_def)
next
  case path: (Some p)
  have read: "load_replay_io X io st = load_replay X (store_of st)" and rm: "ld_remove io"
    using assms(3) load_replay_refines [of io X st] by (simp_all add: load_fine_def)
  show ?thesis
  proof (cases "load_replay X (store_of st)")
    case None
    then show ?thesis using path read by (simp add: load_from_disk_def load_from_disk_io_def)
  next
    case (Some r)
    obtain s n where r: "r = (s, n)" by (cases r)
    let ?st = "remove_old True (st\<lparr>io_index := s\<rparr>)"
    have fine: "checkpoint_fine ord (ld_checkpoint io) ?st"
      using assms(3) Some r by (auto simp: load_fine_def checkpoint_fine_def snapshot_fine_def)
    have st: "drained ?st" "unmoved ?st" "store_of ?st = checkpoint_remove ((store_of st)\<lparr>st_index := s\<rparr>)"
      using assms(1,2) by (simp_all add: remove_old_refines)
    show ?thesis
      using path read rm Some r checkpoint_refines(4) [OF st(1,2) fine] st(3)
      by (simp add: load_from_disk_def load_from_disk_io_def Let_def)
  qed
qed

lemma load_rest:
  assumes "drained st" "unmoved st" "load_fine X ord io st" "load_from_disk_io X ord io st = Some (n, st')"
  shows "drained st'" "unmoved st'"
proof -
  have "drained st' \<and> unmoved st'"
  proof (cases "persistence_path (io_config st)")
    case None
    then show ?thesis using assms by (simp add: load_from_disk_io_def)
  next
    case (Some p)
    then obtain s where s: "load_replay X (store_of st) = Some (s, n)"
        "st' = (let st1 = remove_old True (st\<lparr>io_index := s\<rparr>)
                in if 0 < n then snd (checkpoint_io ord (ld_checkpoint io) st1) else st1)"
      using assms(3,4) load_replay_refines [of io X st]
      by (auto simp: load_from_disk_io_def load_fine_def Let_def split: option.splits)
    let ?st = "remove_old True (st\<lparr>io_index := s\<rparr>)"
    have fine: "checkpoint_fine ord (ld_checkpoint io) ?st"
      using assms(3) s(1) by (auto simp: load_fine_def checkpoint_fine_def snapshot_fine_def)
    have "drained ?st" "unmoved ?st" using assms(1,2) by (simp_all add: remove_old_refines)
    then show ?thesis using checkpoint_refines [OF _ _ fine] s(2) by (simp add: Let_def)
  qed
  then show "drained st'" "unmoved st'" by auto
qed

end
