(* ===== verification/Store_Failures.thy ===== *)
theory Store_Failures
  imports Store_Files_Refinement
begin

text \<open>
  What the files hold after file operations have failed: the snapshot, the rotated segment and the
  live one together bring back the events, whatever step of a checkpoint failed, as long as no two
  checkpoints in a row rotate the log and then fail to write their snapshot.
\<close>

section \<open>A snapshot with a rotated segment\<close>

text \<open>
  \<open>base_ok X U snap old s\<close>: loading the snapshot \<open>snap\<close> and replaying the rotated segment \<open>old\<close>
  gives the events of the index \<open>s\<close>, with none but its most recent tombstones.
\<close>

definition base_ok ::
    "'x ext_scheme \<Rightarrow> event set \<Rightarrow> bytes option \<Rightarrow> bytes option \<Rightarrow> event_index \<Rightarrow> bool" where
  "base_ok X U snap old s \<longleftrightarrow>
     index_inv X U s \<and>
     (\<exists>es ops. (snap = Some (snapshot_bytes es) \<or> snap = None \<and> es = []) \<and>
        (old = Some (encode_ops ops) \<or> old = None \<and> ops = []) \<and>
        (\<forall>e \<in> set es. e \<in> U \<and> persistable X e) \<and> list_all (op_sound X U) ops \<and>
        by_id (recovered X es ops) = by_id s \<and> index_inv X U (recovered X es ops) \<and>
        suffix (ts_order (tombstones (recovered X es ops))) (ts_order (tombstones s)))"

lemma base_okE:
  assumes "base_ok X U snap old s"
  obtains es ops where "snap = Some (snapshot_bytes es) \<or> snap = None \<and> es = []"
    "old = Some (encode_ops ops) \<or> old = None \<and> ops = []"
    "\<forall>e \<in> set es. e \<in> U \<and> persistable X e" "list_all (op_sound X U) ops"
    "by_id (recovered X es ops) = by_id s" "index_inv X U (recovered X es ops)"
    "suffix (ts_order (tombstones (recovered X es ops))) (ts_order (tombstones s))" "index_inv X U s"
  using assms unfolding base_ok_def by blast

lemma recovered_append: "recovered X es (ops @ ops') = fold (replay1 X) ops' (recovered X es ops)"
  by (simp add: recovered_def)

text \<open>The records of a run since then lead on to its end.\<close>

lemma base_run:
  assumes "inj_on ev_id U" "\<forall>e \<in> U. persistable X e" "log_run X U s ops' s'" "index_inv X U s"
    and "by_id (recovered X es ops) = by_id s" "index_inv X U (recovered X es ops)"
    and "suffix (ts_order (tombstones (recovered X es ops))) (ts_order (tombstones s))"
  shows "by_id (recovered X es (ops @ ops')) = by_id s'" "index_inv X U (recovered X es (ops @ ops'))"
    "suffix (ts_order (tombstones (recovered X es (ops @ ops')))) (ts_order (tombstones s'))"
  using replay_recovers [OF assms(3,1,2,4,6,5,7)] by (simp_all add: recovered_append)

text \<open>A fresh snapshot, alone and with the segment that it covers.\<close>

lemma snapshot_base:
  assumes inj: "inj_on ev_id U" and pers: "\<forall>e \<in> U. persistable X e" and ord: "enumerates ord"
    and inv: "index_inv X U s0" and run: "log_run X U s0 ops s"
  shows "base_ok X U (Some (snapshot_bytes (iter_all ord s))) None s"
    "base_ok X U (Some (snapshot_bytes (iter_all ord s))) (Some (encode_ops ops)) s"
proof -
  let ?es = "iter_all ord s"
  have s: "index_inv X U s" by (rule log_run_inv [OF run inj inv])
  note core = index_invD(1) [OF s]
  have fin: "finite (dom (by_id s))" using core by (simp add: index_core_def)
  have es: "set ?es = stored s" "distinct ?es"
    using iter_all_set [OF ord fin] iter_all_distinct [OF ord fin index_core_facts(2) [OF core]] by simp_all
  have sub: "\<forall>e \<in> set ?es. e \<in> U \<and> persistable X e"
    using pers es(1) index_core_facts(3) [OF core] by blast
  note snap = snapshot_restores [OF inj s es]
  have "by_id (recovered X ?es []) = by_id s \<and> index_inv X U (recovered X ?es []) \<and>
      suffix (ts_order (tombstones (recovered X ?es []))) (ts_order (tombstones s))"
    using snap by (simp add: recovered_def tombs_new_def)
  then show "base_ok X U (Some (snapshot_bytes ?es)) None s"
    unfolding base_ok_def using s sub by (intro conjI exI [of _ ?es] exI [of _ "[]"]) simp_all
  have "by_id (recovered X ?es ops) = by_id s \<and> index_inv X U (recovered X ?es ops) \<and>
      suffix (ts_order (tombstones (recovered X ?es ops))) (ts_order (tombstones s))"
    using replay_idempotent [OF run inj pers inv snap(2,1)] by (simp add: recovered_def snap(3) tombs_new_def)
  then show "base_ok X U (Some (snapshot_bytes ?es)) (Some (encode_ops ops)) s"
    unfolding base_ok_def using s sub log_run_sound [OF run inj pers inv]
    by (intro conjI exI [of _ ?es] exI [of _ ops]) simp_all
qed

text \<open>The live segment rotated out of the way.\<close>

lemma rotated_base:
  assumes inj: "inj_on ev_id U" and pers: "\<forall>e \<in> U. persistable X e"
    and base: "base_ok X U snap None s0" and run: "log_run X U s0 ops s"
  shows "base_ok X U snap (Some (encode_ops ops)) s"
proof -
  obtain es where es: "snap = Some (snapshot_bytes es) \<or> snap = None \<and> es = []"
      "\<forall>e \<in> set es. e \<in> U \<and> persistable X e" "by_id (recovered X es []) = by_id s0"
      "index_inv X U (recovered X es [])"
      "suffix (ts_order (tombstones (recovered X es []))) (ts_order (tombstones s0))" "index_inv X U s0"
    using base unfolding base_ok_def by auto
  note rec = base_run [OF inj pers run es(6,3,4,5)]
  show ?thesis
    unfolding base_ok_def using es rec log_run_sound [OF run inj pers es(6)] log_run_inv [OF run inj es(6)]
    by (intro conjI exI [of _ es] exI [of _ ops]) simp_all
qed

text \<open>A restart on such files.\<close>

lemma base_restarts:
  assumes inj: "inj_on ev_id U" and pers: "\<forall>e \<in> U. persistable X e" and ord: "enumerates ord"
    and cfg: "roomy U cfg" and base: "base_ok X U (d_snapshot d) (d_old d) s0"
    and run: "log_run X U s0 ops s" and log: "d_log d = Some (encode_ops ops)"
  shows "restarts_to X U ord cfg d (by_id s)"
proof -
  obtain es old where es: "d_snapshot d = Some (snapshot_bytes es) \<or> d_snapshot d = None \<and> es = []"
      "d_old d = Some (encode_ops old) \<or> d_old d = None \<and> old = []"
      "\<forall>e \<in> set es. e \<in> U \<and> persistable X e" "list_all (op_sound X U) old"
      "by_id (recovered X es old) = by_id s0" "index_inv X U (recovered X es old)"
      "suffix (ts_order (tombstones (recovered X es old))) (ts_order (tombstones s0))" "index_inv X U s0"
    by (rule base_okE [OF base])
  note sound = log_run_sound [OF run inj pers es(8)]
  note rec = base_run [OF inj pers run es(8,5,6,7)]
  show ?thesis
    using restart_from_files [OF inj cfg ord es(3,4) sound es(1,2) log _ _ rec(1,2)]
      replay_encode [OF op_sound_ok [OF sound]] by simp
qed

text \<open>A missing \<open>wal.log\<close> is an empty one.\<close>

lemma restarts_to_missing_log:
  assumes "d_log d = None" "restarts_to X U ord cfg (d\<lparr>d_log := Some []\<rparr>) m"
  shows "restarts_to X U ord cfg d m"
proof -
  have "store_new cfg True rss d = store_new cfg True rss (d\<lparr>d_log := Some []\<rparr>)" for rss
    using assms(1) by (simp add: store_new_def wal_open_def)
  then show ?thesis using assms(2) by (simp add: restarts_to_def)
qed

section \<open>The live segment\<close>

definition logs_from :: "'x ext_scheme \<Rightarrow> event set \<Rightarrow> event_index \<Rightarrow> event_store \<Rightarrow> bool" where
  "logs_from X U s0 st \<longleftrightarrow>
     (\<exists>w ops. st_wal st = Some w \<and> wal_log w = encode_ops ops \<and> log_run X U s0 ops (st_index st))"

interpretation live: logged_state X U "logs_from X U s0" for X U s0
proof unfold_locales
  fix st :: event_store and e r s
  assume st: "logs_from X U s0 st" and e: "e \<in> U" and ins: "index_insert X e (st_index st) = (r, s)"
  then obtain w ops where w: "st_wal st = Some w" "wal_log w = encode_ops ops" "log_run X U s0 ops (st_index st)"
    by (auto simp: logs_from_def)
  show "logs_from X U s0 (case r of Inserted d \<Rightarrow> log_insert e d (st\<lparr>st_index := s\<rparr>) | _ \<Rightarrow> st\<lparr>st_index := s\<rparr>)"
  proof (cases "\<exists>d. r = Inserted d")
    case True
    then obtain d where d: "r = Inserted d" by blast
    have "log_run X U s0 (ops @ insert_records e d) s" using log_run.insert [OF w(3) e ins [unfolded d]] .
    moreover obtain w' where "st_wal (log_insert e d (st\<lparr>st_index := s\<rparr>)) = Some w'"
        "wal_log w' = encode_ops (ops @ insert_records e d)"
      using log_insert_files [of "st\<lparr>st_index := s\<rparr>" w e d] w by auto
    ultimately show ?thesis
      unfolding logs_from_def d by (intro exI [of _ w'] exI [of _ "ops @ insert_records e d"]) simp
  next
    case False
    have "log_run X U s0 ops s" using log_run.refused [OF w(3) e ins False] .
    then show ?thesis using w False by (cases r) (auto simp: logs_from_def)
  qed
next
  fix st :: event_store and i e q s
  assume "logs_from X U s0 st" "by_id (st_index st) i = Some e" "delete_by_id X i (st_index st) = (q, s)"
  then obtain w ops where w: "st_wal st = Some w" "wal_log w = encode_ops ops"
      "log_run X U s0 (ops @ [WalTombstone i]) s"
    unfolding logs_from_def by (metis log_run.delete)
  moreover obtain w' where "st_wal (record_deletion i st) = Some w'"
      "wal_log w' = encode_ops (ops @ [WalTombstone i])"
    using record_deletion_files [OF w(1), of i] w(2) by auto
  ultimately show "logs_from X U s0 ((record_deletion i st)\<lparr>st_index := s\<rparr>)"
    unfolding logs_from_def by (intro exI [of _ w'] exI [of _ "ops @ [WalTombstone i]"]) simp
qed

section \<open>The invariant\<close>

text \<open>
  \<open>waiting\<close>: the rotated segment holds records that the snapshot does not cover, because the last
  checkpoint that rotated the log did not get to its snapshot.
\<close>

definition files_ok :: "'x ext_scheme \<Rightarrow> event set \<Rightarrow> bool \<Rightarrow> io_store \<Rightarrow> bool" where
  "files_ok X U waiting st \<longleftrightarrow>
     roomy U (io_config st) \<and>
     (\<exists>w s0. io_wal st = Some w \<and> settled w \<and> logs_from X U s0 (store_of st) \<and>
        base_ok X U (io_snapshot st) (wf_old w) s0 \<and>
        (\<not> waiting \<or> wf_moved w \<longrightarrow> base_ok X U (io_snapshot st) None s0) \<and>
        (wf_moved w \<longrightarrow> wf_old w = None))"

lemma files_okE:
  assumes "files_ok X U waiting st"
  obtains w s0 ops where "roomy U (io_config st)" "io_wal st = Some w" "settled w"
    "bw_file (wf_writer w) = encode_ops ops" "log_run X U s0 ops (io_index st)"
    "base_ok X U (io_snapshot st) (wf_old w) s0"
    "\<not> waiting \<or> wf_moved w \<longrightarrow> base_ok X U (io_snapshot st) None s0" "wf_moved w \<longrightarrow> wf_old w = None"
proof -
  obtain w s0 where w: "roomy U (io_config st)" "io_wal st = Some w" "settled w" "logs_from X U s0 (store_of st)"
      "base_ok X U (io_snapshot st) (wf_old w) s0"
      "\<not> waiting \<or> wf_moved w \<longrightarrow> base_ok X U (io_snapshot st) None s0" "wf_moved w \<longrightarrow> wf_old w = None"
    using assms unfolding files_ok_def by blast
  then obtain ops where "bw_file (wf_writer w) = encode_ops ops" "log_run X U s0 ops (io_index st)"
    by (auto simp: logs_from_def wal_of_def)
  with w show ?thesis by (intro that [of w ops s0]) simp_all
qed

lemma files_okI:
  assumes "roomy U (io_config st)" "io_wal st = Some w" "settled w"
    and "bw_file (wf_writer w) = encode_ops ops" "log_run X U s0 ops (io_index st)"
    and "base_ok X U (io_snapshot st) (wf_old w) s0"
    and "\<not> waiting \<or> wf_moved w \<Longrightarrow> base_ok X U (io_snapshot st) None s0" "wf_moved w \<Longrightarrow> wf_old w = None"
  shows "files_ok X U waiting st"
  using assms unfolding files_ok_def logs_from_def by (auto simp: wal_of_def)

lemma files_of_base:
  assumes inj: "inj_on ev_id U" and pers: "\<forall>e \<in> U. persistable X e"
    and "files_of X U s0 ops (store_of st)"
  shows "base_ok X U (io_snapshot st) None s0"
proof -
  obtain es where es: "set es = stored s0" "distinct es"
      "io_snapshot st = Some (snapshot_bytes es) \<or> io_snapshot st = None \<and> es = []" and inv: "index_inv X U s0"
    using assms(3) by (auto simp: files_of_def files_since_def)
  note snap = snapshot_restores [OF inj inv es(1,2)]
  have "\<forall>e \<in> set es. e \<in> U \<and> persistable X e"
    using pers es(1) index_core_facts(3) [OF index_invD(1) [OF inv]] by blast
  moreover have "by_id (recovered X es []) = by_id s0 \<and> index_inv X U (recovered X es []) \<and>
      suffix (ts_order (tombstones (recovered X es []))) (ts_order (tombstones s0))"
    using snap by (simp add: recovered_def tombs_new_def)
  ultimately show ?thesis
    unfolding base_ok_def using inv es(3) by (intro conjI exI [of _ es] exI [of _ "[]"]) simp_all
qed

lemma persisted_files_ok:
  assumes inj: "inj_on ev_id U" and pers: "\<forall>e \<in> U. persistable X e"
    and "persisted X U (store_of st)" "drained st" "unmoved st"
  shows "files_ok X U False st"
proof -
  obtain s0 ops where f: "files_of X U s0 ops (store_of st)" "roomy U (io_config st)"
    using assms(3) by (auto simp: persisted_def)
  then obtain w where "io_wal st = Some w" "wf_old w = None" "bw_file (wf_writer w) = encode_ops ops"
      "log_run X U s0 ops (io_index st)"
    by (auto simp: files_of_def files_since_def wal_of_def)
  then show ?thesis
    using f(2) assms(4,5) files_of_base [OF inj pers f(1)]
    by (intro files_okI [of U st w]) (auto simp: drained_def unmoved_def)
qed

lemma files_ok_restarts:
  assumes inj: "inj_on ev_id U" and pers: "\<forall>e \<in> U. persistable X e" and ord: "enumerates ord"
    and "files_ok X U waiting st"
  shows "restarts_to X U ord (io_config st) (io_dir st) (by_id (io_index st))"
proof -
  obtain w s0 ops where w: "roomy U (io_config st)" "io_wal st = Some w" "settled w"
      "bw_file (wf_writer w) = encode_ops ops" "log_run X U s0 ops (io_index st)"
      "base_ok X U (io_snapshot st) (wf_old w) s0"
      "\<not> waiting \<or> wf_moved w \<longrightarrow> base_ok X U (io_snapshot st) None s0" "wf_moved w \<longrightarrow> wf_old w = None"
    by (rule files_okE [OF assms(4)])
  show ?thesis
  proof (cases "wf_moved w")
    case False
    then show ?thesis
      using w by (intro base_restarts [OF inj pers ord w(1) _ w(5)]) (simp_all add: io_dir_def log_on_disk_def old_on_disk_def)
  next
    case True
    have "base_ok X U (io_snapshot st) (Some (encode_ops ops)) (io_index st)"
      using rotated_base [OF inj pers _ w(5)] w(7) True by blast
    then have "restarts_to X U ord (io_config st) ((io_dir st)\<lparr>d_log := Some []\<rparr>) (by_id (io_index st))"
      using True w(2,4)
      by (intro base_restarts [OF inj pers ord w(1) _ log_run.start]) (simp_all add: io_dir_def old_on_disk_def)
    moreover have "d_log (io_dir st) = None" using True w(2) by (simp add: io_dir_def log_on_disk_def)
    ultimately show ?thesis by (rule restarts_to_missing_log [rotated])
  qed
qed

section \<open>Every operation keeps the files complete\<close>

text \<open>Operations on events, whose log writes succeed.\<close>

lemma files_ok_events:
  assumes "files_ok X U waiting st" "drained st'"
    and "map_option wf_moved (io_wal st') = map_option wf_moved (io_wal st)"
    and "\<And>s0. logs_from X U s0 (store_of st) \<Longrightarrow> logs_from X U s0 (store_of st')"
    and "(st_config (store_of st'), st_snapshot (store_of st'), map_option wal_old (st_wal (store_of st'))) =
      (st_config (store_of st), st_snapshot (store_of st), map_option wal_old (st_wal (store_of st)))"
  shows "files_ok X U waiting st'"
proof -
  obtain w s0 where w: "roomy U (io_config st)" "io_wal st = Some w" "logs_from X U s0 (store_of st)"
      "base_ok X U (io_snapshot st) (wf_old w) s0"
      "\<not> waiting \<or> wf_moved w \<longrightarrow> base_ok X U (io_snapshot st) None s0" "wf_moved w \<longrightarrow> wf_old w = None"
    using assms(1) unfolding files_ok_def by blast
  obtain w' where w': "io_wal st' = Some w'" "wf_moved w' = wf_moved w" "wf_old w' = wf_old w"
    using assms(3,5) w(2) by (auto simp: wal_of_def option.map_comp comp_def)
  have "settled w'" using assms(2) w'(1) by (simp add: drained_def)
  then show ?thesis using w w' assms(4) [OF w(3)] assms(5) by (auto simp: files_ok_def)
qed

lemma files_ok_insert:
  assumes "files_ok X U waiting st" "e \<in> U" "ample room" "store_insert_io X room e st = (r, st')"
  shows "files_ok X U waiting st'"
proof -
  have dr: "drained st" using assms(1) by (auto simp: files_ok_def drained_def)
  then have st': "store_of st' = snd (store_insert X e (store_of st))" "drained st'"
      "map_option wf_moved (io_wal st') = map_option wf_moved (io_wal st)"
    using store_insert_refines(1) [OF assms(3), of X e] assms(4) unfolding refines_def by (metis snd_conv)+
  show ?thesis
    using assms(2) operation_frame(1) [of X e "store_of st"] live.store_insert_keeps [of X U _ "store_of st" e]
    by (intro files_ok_events [OF assms(1) st'(2,3)]) (simp_all only: st'(1))
qed

lemma files_ok_deletion:
  assumes "files_ok X U waiting st" "ample room" "apply_deletion_io X room ord req author until st = (out, st')"
  shows "files_ok X U waiting st'"
proof -
  have dr: "drained st" using assms(1) by (auto simp: files_ok_def drained_def)
  note ref = apply_deletion_refines [OF assms(2) dr assms(3)]
  have st': "store_of st' = snd (apply_deletion X ord req author until (store_of st))" by (simp add: ref(1))
  show ?thesis
    using operation_frame(3) [of X ord req author until "store_of st"]
      live.apply_deletion_keeps [of X U _ "store_of st" ord req author until]
    by (intro files_ok_events [OF assms(1) ref(2,3)]) (simp_all only: st')
qed

text \<open>Commits and flushes move the fsync mark and the flag.\<close>

lemma files_ok_mark:
  assumes "files_ok X U waiting st" "io_wal st = Some w" "wf_writer w' = wf_writer w"
    "wf_moved w' = wf_moved w" "wf_old w' = wf_old w"
  shows "files_ok X U waiting (st\<lparr>io_wal := Some w'\<rparr>)"
  using assms by (auto simp: files_ok_def logs_from_def wal_of_def settled_def)

lemma flush_sync_mark:
  assumes "settled w" "flush_sync room sync w = (err, w')"
  shows "wf_writer w' = wf_writer w" "wf_moved w' = wf_moved w" "wf_old w' = wf_old w" "settled w'"
  using assms flush_sync_settled [OF assms(1), of room sync] by (auto simp: settled_def split: if_splits)

lemma files_ok_commit:
  assumes "files_ok X U waiting st" "io_wal st = Some w"
  shows "files_ok X U waiting (st\<lparr>io_wal := Some (snd (group_commit_io room sync w))\<rparr>)"
proof -
  have "settled (w\<lparr>wf_dirty := False\<rparr>)" using assms by (auto simp: files_ok_def settled_def)
  from flush_sync_mark [OF this] show ?thesis
    by (intro files_ok_mark [OF assms]) (auto simp: group_commit_io_def split: prod.splits option.splits)
qed

lemma files_ok_save:
  assumes "files_ok X U waiting st" "save_to_disk_io ord io st = (err, st')"
  shows "files_ok X U waiting st'"
proof -
  obtain w where w: "io_wal st = Some w" "settled w" using assms(1) by (auto simp: files_ok_def)
  obtain e1 w1 where fl: "flush_sync (sv_room io) (sv_sync io) w = (e1, w1)" by fastforce
  note w1 = flush_sync_mark [OF w(2) fl]
  have "files_ok X U waiting (st\<lparr>io_wal := Some w1\<rparr>)" "files_ok X U waiting (st\<lparr>io_wal := Some (w1\<lparr>wf_dirty := False\<rparr>)\<rparr>)"
    using w1 by (auto intro!: files_ok_mark [OF assms(1) w(1)])
  moreover have "st' = st \<or> st' = st\<lparr>io_wal := Some w1\<rparr> \<or> st' = st\<lparr>io_wal := Some (w1\<lparr>wf_dirty := False\<rparr>)\<rparr>"
    using assms(2) w(1) fl
    by (cases e1) (auto simp: save_to_disk_io_def flush_io_def split: option.splits if_splits)
  ultimately show ?thesis using assms(1) by blast
qed

text \<open>A checkpoint: where it replaces \<open>wal.log.old\<close>, and where its snapshot covers everything.\<close>

definition replaces_old :: "checkpoint_env \<Rightarrow> io_store \<Rightarrow> bool" where
  "replaces_old io st \<longleftrightarrow>
     ck_dir io \<and> ro_sync (ck_rotate io) \<and> ro_rename (ck_rotate io) \<and> unmoved st"

definition snapshot_reached :: "(bytes set \<Rightarrow> bytes list) \<Rightarrow> checkpoint_env \<Rightarrow> io_store \<Rightarrow> bool" where
  "snapshot_reached ord io st \<longleftrightarrow> ro_open (ck_rotate io) \<and> snapshot_succeeds ord (ck_snapshot io) st"

definition waiting_after :: "(bytes set \<Rightarrow> bytes list) \<Rightarrow> checkpoint_env \<Rightarrow> io_store \<Rightarrow> bool \<Rightarrow> bool" where
  "waiting_after ord io st waiting =
     (if replaces_old io st then \<not> snapshot_reached ord io st else waiting)"

text \<open>After a rotation: the fresh log, with a new snapshot or without.\<close>

lemma files_ok_rotated:
  assumes inj: "inj_on ev_id U" and pers: "\<forall>e \<in> U. persistable X e" and ord: "enumerates ord"
    and "roomy U (io_config st)" "index_inv X U s0" "log_run X U s0 ops (io_index st)"
    and w1: "io_wal st = Some w1" "wf_writer w1 = \<lparr>bw_file = [], bw_buf = []\<rparr>" "wf_old w1 = Some (encode_ops ops)"
      "\<not> wf_moved w1"
    and snap: "write_snapshot_io ord io st = (r, st1)"
    and safe: "\<not> snapshot_succeeds ord io st \<longrightarrow> base_ok X U (io_snapshot st) None s0"
  shows "files_ok X U (\<not> snapshot_succeeds ord io st) (if snapshot_succeeds ord io st then remove_old ok st1 else st1)"
proof (cases rule: write_snapshot_io_cases [of ord io st])
  case (failed err)
  then have "base_ok X U (io_snapshot st) (Some (encode_ops ops)) (io_index st)"
    using rotated_base [OF inj pers _ assms(6)] safe by blast
  then show ?thesis
    using failed snap assms(4) w1 log_run.start [of X U "io_index st"]
    by (intro files_okI [of U _ w1 "[]" X "io_index st"]) (simp_all add: settled_def)
next
  case fresh: ok
  let ?snap = "Some (snapshot_bytes (iter_all ord (io_index st)))"
  let ?w2 = "if ok then w1\<lparr>wf_old := None\<rparr> else w1"
  have st1: "st1 = st\<lparr>io_snapshot := ?snap\<rparr>" using fresh(2) snap by simp
  have "io_wal (remove_old ok st1) = Some ?w2" unfolding st1 using w1(1) by (intro remove_old_wal) simp
  then show ?thesis
    using fresh(1) assms(4) w1 log_run.start [of X U "io_index st"] snapshot_base [OF inj pers ord assms(5,6)] st1
    by (intro files_okI [of U _ ?w2 "[]" X "io_index st"]) (auto simp: settled_def split: if_splits)
qed

lemma files_ok_checkpoint:
  assumes inj: "inj_on ev_id U" and pers: "\<forall>e \<in> U. persistable X e" and ord: "enumerates ord"
    and ok: "files_ok X U waiting st" and ck: "checkpoint_io ord io st = (err, st')"
    and safe: "waiting \<and> replaces_old io st \<longrightarrow> snapshot_reached ord io st"
  shows "files_ok X U (waiting_after ord io st waiting) st'"
proof -
  obtain w s0 ops where w: "roomy U (io_config st)" "io_wal st = Some w" "settled w"
      "bw_file (wf_writer w) = encode_ops ops" "log_run X U s0 ops (io_index st)"
      "base_ok X U (io_snapshot st) (wf_old w) s0"
      "\<not> waiting \<or> wf_moved w \<longrightarrow> base_ok X U (io_snapshot st) None s0" "wf_moved w \<longrightarrow> wf_old w = None"
    by (rule files_okE [OF ok])
  obtain path where path: "persistence_path (io_config st) = Some path" using w(1) by (auto simp: roomy_def)
  have inv: "index_inv X U s0" using w(6) by (simp add: base_ok_def)
  note sync = flush_sync_settled [OF w(3), of "ro_room (ck_rotate io)" "ro_sync (ck_rotate io)"]
  have moved: "unmoved st \<longleftrightarrow> \<not> wf_moved w" using w(2) by (simp add: unmoved_def)
  let ?w1 = "w\<lparr>wf_synced := length (bw_file (wf_writer w))\<rparr>"
  consider (before) "\<not> replaces_old io st" | (unopened) "replaces_old io st" "\<not> ro_open (ck_rotate io)"
    | (rotated) "replaces_old io st" "ro_open (ck_rotate io)" by blast
  then show ?thesis
  proof cases
    case before
    then have "st' = st \<or> st' = st\<lparr>io_wal := Some w\<rparr> \<or> st' = st\<lparr>io_wal := Some ?w1\<rparr>"
      using ck path w(2) sync moved
      by (auto simp: checkpoint_io_def rotate_io_def replaces_old_def split: if_splits)
    then show ?thesis using before ok files_ok_mark [OF ok w(2)] by (auto simp: waiting_after_def)
  next
    case unopened
    have "st' = st\<lparr>io_wal := Some (?w1\<lparr>wf_moved := True, wf_old := None\<rparr>)\<rparr>"
      using ck path w(2) sync unopened moved by (simp add: checkpoint_io_def rotate_io_def replaces_old_def)
    moreover have "base_ok X U (io_snapshot st) None s0"
      using safe unopened w(7) by (auto simp: snapshot_reached_def)
    ultimately show ?thesis
      using w by (intro files_okI [of U st' "?w1\<lparr>wf_moved := True, wf_old := None\<rparr>" ops X s0]) (simp_all add: settled_def)
  next
    case rotated
    let ?w2 = "w\<lparr>wf_synced := 0, wf_writer := \<lparr>bw_file = [], bw_buf = []\<rparr>, wf_old := Some (encode_ops ops),
      wf_bytes := 0, wf_dirty := False\<rparr>"
    have dir: "ck_dir io" "\<not> wf_moved w" and rot: "rotate_io (ck_rotate io) w = (None, ?w2)"
      using sync rotated moved w(4) by (simp_all add: rotate_io_def replaces_old_def)
    let ?ok = "snapshot_succeeds ord (ck_snapshot io) st"
    obtain r st1 where st1: "write_snapshot_io ord (ck_snapshot io) (st\<lparr>io_wal := Some ?w2\<rparr>) = (r, st1)" by fastforce
    have "st' = (if ?ok then remove_old (ck_remove io) st1 else st1)"
    proof (cases rule: write_snapshot_io_cases [of ord "ck_snapshot io" "st\<lparr>io_wal := Some ?w2\<rparr>"])
    qed (use ck path w(2) dir rot st1 in \<open>simp_all add: checkpoint_io_def\<close>)
    moreover have "\<not> ?ok \<longrightarrow> base_ok X U (io_snapshot st) None s0"
      using safe rotated w(7) by (auto simp: snapshot_reached_def)
    then have "files_ok X U (\<not> ?ok) (if ?ok then remove_old (ck_remove io) st1 else st1)"
      using files_ok_rotated [OF inj pers ord _ inv _ _ _ _ _ st1, of ops ?w2 "ck_remove io"] w(1,5) dir(2) by simp
    ultimately show ?thesis using rotated by (simp add: waiting_after_def snapshot_reached_def)
  qed
qed

text \<open>A checkpoint that fails after the rotation: the log is the rotated segment now.\<close>

lemma failed_rotation:
  assumes "io_wal st = Some w" "settled w" "\<not> wf_moved w" "persistence_path (io_config st) \<noteq> None"
    and "ck_dir io" "rotate_fine (ck_rotate io)" "\<not> snapshot_succeeds ord (ck_snapshot io) st"
  shows "\<exists>err w1. checkpoint_io ord io st = (Some err, st\<lparr>io_wal := Some w1\<rparr>) \<and> settled w1 \<and> \<not> wf_moved w1 \<and>
    bw_file (wf_writer w1) = [] \<and> wf_old w1 = Some (bw_file (wf_writer w))"
proof -
  obtain w1 where w1: "rotate_io (ck_rotate io) w = (None, w1)" "settled w1" "\<not> wf_moved w1"
      "bw_file (wf_writer w1) = []" "wf_old w1 = Some (bw_file (wf_writer w))"
    using flush_sync_settled [OF assms(2), of "ro_room (ck_rotate io)" "ro_sync (ck_rotate io)"] assms(3,6)
    by (auto simp: rotate_io_def rotate_fine_def settled_def)
  obtain err where "write_snapshot_io ord (ck_snapshot io) (st\<lparr>io_wal := Some w1\<rparr>) = (Inl err, st\<lparr>io_wal := Some w1\<rparr>)"
    by (cases rule: write_snapshot_io_cases [of ord "ck_snapshot io" "st\<lparr>io_wal := Some w1\<rparr>"])
      (use assms(7) in auto)
  then show ?thesis using assms(1,4,5) w1 by (auto simp: checkpoint_io_def)
qed

section \<open>Runs with failing files\<close>

text \<open>
  A run from a store at rest: events whose records reach the log, group commits, checkpoints, saves
  and shutdowns in which any file operation may fail, except that a checkpoint which replaces a
  rotated segment that still waits for its snapshot writes that snapshot, and restarts that read
  and write all their files. The flag says whether a segment waits.
\<close>

definition checkpoint_safe :: "(bytes set \<Rightarrow> bytes list) \<Rightarrow> checkpoint_env \<Rightarrow> io_store \<Rightarrow> bool \<Rightarrow> bool" where
  "checkpoint_safe ord io st waiting \<longleftrightarrow> (waiting \<and> replaces_old io st \<longrightarrow> snapshot_reached ord io st)"

definition checkpoint_due :: "io_store \<Rightarrow> bool" where
  "checkpoint_due st \<longleftrightarrow>
     (\<exists>w. io_wal st = Some w \<and>
        max MIN_CHECKPOINT_BYTES (saturating_mul (memory_bytes (io_index st)) 2) \<le> wf_bytes w)"

inductive io_run ::
    "'x ext_scheme \<Rightarrow> event set \<Rightarrow> (bytes set \<Rightarrow> bytes list) \<Rightarrow> store_config \<Rightarrow> bool \<Rightarrow> io_store \<Rightarrow> bool"
  for X U ord cfg where
  start: "persisted X U (store_of st) \<Longrightarrow> drained st \<Longrightarrow> unmoved st \<Longrightarrow> io_config st = cfg \<Longrightarrow>
    io_run X U ord cfg False st"
| insert: "io_run X U ord cfg b st \<Longrightarrow> e \<in> U \<Longrightarrow> ample room \<Longrightarrow> store_insert_io X room e st = (r, st') \<Longrightarrow>
    io_run X U ord cfg b st'"
| deletion: "io_run X U ord cfg b st \<Longrightarrow> ample room \<Longrightarrow>
    apply_deletion_io X room ord req author until st = (out, st') \<Longrightarrow> io_run X U ord cfg b st'"
| fold_log: "io_run X U ord cfg b st \<Longrightarrow> checkpoint_safe ord io st b \<Longrightarrow> checkpoint_io ord io st = (err, st') \<Longrightarrow>
    io_run X U ord cfg (waiting_after ord io st b) st'"
| commit: "io_run X U ord cfg b st \<Longrightarrow> io_run X U ord cfg b (wal_sync_turn_io n sync st)"
| persist: "io_run X U ord cfg b st \<Longrightarrow> checkpoint_safe ord ck st b \<Longrightarrow>
    io_run X U ord cfg (if checkpoint_due st then waiting_after ord ck st b else b) (persistence_turn_io ord ck sv st)"
| save: "io_run X U ord cfg b st \<Longrightarrow> save_to_disk_io ord sv st = (err, st') \<Longrightarrow> io_run X U ord cfg b st'"
| shutdown: "io_run X U ord cfg b st \<Longrightarrow> checkpoint_safe ord ck st b \<Longrightarrow>
    shutdown_io ord ck sv st = (err, st') \<Longrightarrow> io_run X U ord cfg (waiting_after ord ck st b) st'"
| restart: "io_run X U ord cfg b st \<Longrightarrow> load_fine X ord ld (io_store_new cfg True (io_dir st)) \<Longrightarrow>
    load_from_disk_io X ord ld (io_store_new cfg True (io_dir st)) = Some (n, st') \<Longrightarrow> io_run X U ord cfg False st'"

lemma config_kept:
  "io_config (snd (store_insert_io X room e st)) = io_config st"
  "ample room \<Longrightarrow> drained st \<Longrightarrow> io_config (snd (apply_deletion_io X room ord req author until st)) = io_config st"
  "io_config (snd (checkpoint_io ord io st)) = io_config st"
  "io_config (snd (save_to_disk_io ord sv st)) = io_config st"
proof -
  show "io_config (snd (store_insert_io X room e st)) = io_config st"
    by (auto simp: store_insert_io_def log_insert_io_def Let_def split: prod.splits insert_outcome.splits option.splits)
  have snap: "io_config (snd (write_snapshot_io ord io st)) = io_config st" for io st
    by (cases rule: write_snapshot_io_cases [of ord io st]) simp_all
  have "io_config st1 = io_config st" if "write_snapshot_io ord io st = (r, st1)" for io st r st1
    using snap [of io st] that by simp
  then show "io_config (snd (checkpoint_io ord io st)) = io_config st"
    "io_config (snd (save_to_disk_io ord sv st)) = io_config st"
    by (fastforce simp: checkpoint_io_def save_to_disk_io_def Let_def split: option.splits prod.splits sum.splits)+
  assume "ample room" "drained st"
  then show "io_config (snd (apply_deletion_io X room ord req author until st)) = io_config st"
    using apply_deletion_refines(1) [of room st X ord req author until] operation_frame(3) [of X ord req author until "store_of st"]
    by (metis fst_conv prod.collapse snd_conv store_of_simps(2))
qed

text \<open>Periodic maintenance is a checkpoint or a commit; shutdown a checkpoint and perhaps a save.\<close>

lemma files_ok_maybe_checkpoint:
  assumes "inj_on ev_id U" "\<forall>e \<in> U. persistable X e" "enumerates ord"
    and ok: "files_ok X U waiting st" and "maybe_checkpoint_io ord ck sv st = (err, st')"
    and "checkpoint_safe ord ck st waiting"
  shows "files_ok X U (if checkpoint_due st then waiting_after ord ck st waiting else waiting) st' \<and>
    io_config st' = io_config st"
proof -
  obtain w where w: "io_wal st = Some w" using ok by (auto simp: files_ok_def)
  show ?thesis
  proof (cases "checkpoint_due st")
    case True
    then have "checkpoint_io ord ck st = (err, st')"
      using assms(5) w by (simp add: maybe_checkpoint_io_def checkpoint_due_def)
    then show ?thesis
      using True files_ok_checkpoint [OF assms(1-4)] assms(6) config_kept(3) [of ord ck st]
      by (auto simp: checkpoint_safe_def)
  next
    case False
    then have "st' = st\<lparr>io_wal := Some (snd (group_commit_io (sv_room sv) (sv_sync sv) w))\<rparr>"
      using assms(5) w by (auto simp: maybe_checkpoint_io_def checkpoint_due_def split: prod.splits sum.splits)
    then show ?thesis using False files_ok_commit [OF ok w] by simp
  qed
qed

lemma files_ok_shutdown:
  assumes "inj_on ev_id U" "\<forall>e \<in> U. persistable X e" "enumerates ord"
    and ok: "files_ok X U waiting st" and "shutdown_io ord ck sv st = (err, st')"
    and "checkpoint_safe ord ck st waiting"
  shows "files_ok X U (waiting_after ord ck st waiting) st' \<and> io_config st' = io_config st"
proof -
  obtain e1 st1 where c: "checkpoint_io ord ck st = (e1, st1)" by fastforce
  have path: "persistence_path (io_config st) \<noteq> None" using ok by (auto simp: files_ok_def roomy_def)
  have st1: "files_ok X U (waiting_after ord ck st waiting) st1" "io_config st1 = io_config st"
    using files_ok_checkpoint [OF assms(1-4) c] assms(6) config_kept(3) [of ord ck st] c
    by (simp_all add: checkpoint_safe_def)
  then show ?thesis
    using assms(5) path c files_ok_save [OF st1(1), of ord sv err st'] config_kept(4) [of ord sv st1]
    by (cases e1) (auto simp: shutdown_io_def)
qed

lemma io_run_files_ok:
  assumes "io_run X U ord cfg b st" and inj: "inj_on ev_id U" and pers: "\<forall>e \<in> U. persistable X e"
    and ord: "enumerates ord"
  shows "files_ok X U b st \<and> io_config st = cfg"
  using assms(1)
proof induction
  case (start st)
  then show ?case using persisted_files_ok [OF inj pers] by blast
next
  case (insert b st e room r st')
  then show ?case using files_ok_insert [of X U b st e room r st'] config_kept(1) [of X room e st] by simp
next
  case (deletion b st room req author until out st')
  then have "drained st" by (auto simp: files_ok_def drained_def)
  then show ?case
    using deletion files_ok_deletion [of X U b st room ord req author until out st']
      config_kept(2) [of room st X ord req author until] by simp
next
  case (fold_log b st io err st')
  then show ?case
    using files_ok_checkpoint [OF inj pers ord, of b st io err st'] config_kept(3) [of ord io st]
    by (simp add: checkpoint_safe_def)
next
  case (commit b st n sync)
  then obtain w where w: "io_wal st = Some w" by (auto simp: files_ok_def)
  have "wal_sync_turn_io n sync st = st\<lparr>io_wal := Some (snd (group_commit_io n sync w))\<rparr>"
    using w by (simp add: wal_sync_turn_io_def split: prod.splits sum.splits)
  then show ?case using files_ok_commit [of X U b st w n sync] commit w by simp
next
  case (persist b st ck sv)
  then have "persistence_turn_io ord ck sv st = snd (maybe_checkpoint_io ord ck sv st)"
    by (auto simp: persistence_turn_io_def files_ok_def roomy_def split: prod.splits option.splits)
  then show ?case
    using persist files_ok_maybe_checkpoint [OF inj pers ord, of b st ck sv _ "snd (maybe_checkpoint_io ord ck sv st)"]
    by (metis prod.collapse)
next
  case (save b st sv err st')
  then show ?case using files_ok_save [of X U b st ord sv err st'] config_kept(4) [of ord sv st] by simp
next
  case (shutdown b st ck sv err st')
  then show ?case using files_ok_shutdown [OF inj pers ord, of b st ck sv err st'] by simp
next
  case (restart b st ld n st')
  let ?st = "io_store_new cfg True (io_dir st)"
  have load: "load_from_disk X ord (store_new cfg True 0 (io_dir st)) = Some (n, store_of st')"
    using load_refines [OF store_of_new(2,3) restart.hyps(2)] restart.hyps(3) by (simp add: store_of_new)
  have "restarts_to X U ord cfg (io_dir st) (by_id (io_index st))"
    using files_ok_restarts [OF inj pers ord] restart.IH by auto
  then have "persisted X U (store_of st')" using load unfolding restarts_to_def by (metis option.inject prod.inject)
  moreover have "io_config st' = cfg" using load_config [OF load] by (simp add: store_new_def)
  ultimately show ?case
    using persisted_files_ok [OF inj pers] load_rest [OF store_of_new(2,3) restart.hyps(2,3)] by blast
qed

end
