(* ===== verification/File_Properties.thy ===== *)
theory File_Properties
  imports Store_Failures Durability_Properties
begin

text \<open>
  File operations that fail: what the store makes of them, what a restart brings back afterwards,
  and where events are lost.
\<close>

section \<open>Nothing fails\<close>

text \<open>
  C16. With file operations that all succeed, the store over buffered files is the store over its
  bytes: every operation on events, on the log and on the snapshot, and the loader, has the same
  result and ends in the same state, and the directory it leaves is the same.
\<close>

theorem files_refine_store:
  assumes "drained st" "unmoved st" "ample room" "checkpoint_fine ord ck st" "save_fine ord sv st" "load_fine X ord ld st"
  shows "map_prod id store_of (store_insert_io X room e st) = store_insert X e (store_of st) \<and>
    map_prod id store_of (apply_deletion_io X room ord req author until st) = apply_deletion X ord req author until (store_of st) \<and>
    map_prod id store_of (checkpoint_io ord ck st) = (None, checkpoint ord (store_of st)) \<and>
    map_prod id store_of (save_to_disk_io ord sv st) = (None, save_to_disk ord (store_of st)) \<and>
    map_prod id store_of (maybe_checkpoint_io ord ck sv st) = (None, maybe_checkpoint ord (store_of st)) \<and>
    map_option (map_prod id store_of) (load_from_disk_io X ord ld st) = load_from_disk X ord (store_of st) \<and>
    io_dir st = disk_of (store_of st)"
proof (intro conjI)
  show "map_prod id store_of (store_insert_io X room e st) = store_insert X e (store_of st)"
    using store_insert_refines(1) [OF assms(3), of X e] store_insert_refines(2) [OF assms(3,1), of X e] assms(1)
    by (simp add: prod_eq_iff refines_def)
  obtain out st' where d: "apply_deletion_io X room ord req author until st = (out, st')" by fastforce
  show "map_prod id store_of (apply_deletion_io X room ord req author until st) =
      apply_deletion X ord req author until (store_of st)"
    using apply_deletion_refines(1) [OF assms(3,1) d] d by simp
  show "map_prod id store_of (checkpoint_io ord ck st) = (None, checkpoint ord (store_of st))"
    using checkpoint_refines [OF assms(1,2,4)] by (simp add: prod_eq_iff)
  show "map_prod id store_of (save_to_disk_io ord sv st) = (None, save_to_disk ord (store_of st))"
    using save_refines [OF assms(1,2,5)] by (simp add: prod_eq_iff)
  show "map_prod id store_of (maybe_checkpoint_io ord ck sv st) = (None, maybe_checkpoint ord (store_of st))"
    using maybe_checkpoint_refines [OF assms(1,2,4,5)] by (simp add: prod_eq_iff)
  show "map_option (map_prod id store_of) (load_from_disk_io X ord ld st) = load_from_disk X ord (store_of st)"
    using load_refines [OF assms(1,2,6)] by (simp add: map_prod_def case_prod_beta')
  show "io_dir st = disk_of (store_of st)" by (rule io_dir_unmoved [OF assms(2)])
qed

text \<open>A store with one event, and file operations that succeed.\<close>

definition exact_room :: "wal_op \<Rightarrow> nat" where
  "exact_room op = length (encode_op op)"

lemma exact_room_ample: "ample exact_room"
  by (simp add: ample_def exact_room_def)

definition sample_io :: io_store where
  "sample_io = snd (store_insert_io sample_ext exact_room sample_note (io_store_new sample_config True empty_disk))"

lemma sample_io_store: "store_of sample_io = sample_store" "drained sample_io" "unmoved sample_io"
proof -
  have "store_of sample_io = sample_store \<and> drained sample_io \<and>
      map_option wf_moved (io_wal sample_io) = map_option wf_moved (io_wal (io_store_new sample_config True empty_disk))"
    using store_insert_refines(1) [OF exact_room_ample, of sample_ext sample_note]
      store_of_new [of sample_config True empty_disk]
    unfolding refines_def sample_io_def sample_store_def by metis
  then show "store_of sample_io = sample_store" "drained sample_io" "unmoved sample_io"
    by (auto simp: unmoved_def io_store_new_def wal_file_open_def Let_def split: if_splits)
qed

definition good_snapshot :: "nat \<Rightarrow> snapshot_env" where
  "good_snapshot n = \<lparr>sn_create = True, sn_room = n, sn_sync = True, sn_rename = True\<rparr>"

definition good_rotate :: rotate_env where
  "good_rotate = \<lparr>ro_room = 0, ro_sync = True, ro_rename = True, ro_open = True\<rparr>"

definition good_checkpoint :: "nat \<Rightarrow> checkpoint_env" where
  "good_checkpoint n = \<lparr>ck_dir = True, ck_rotate = good_rotate, ck_snapshot = good_snapshot n, ck_remove = True\<rparr>"

definition snapshot_size :: "io_store \<Rightarrow> nat" where
  "snapshot_size st = length (snapshot_bytes (iter_all sorted_list_of_set (io_index st)))"

lemma good_checkpoint_fine:
  "checkpoint_fine sorted_list_of_set (good_checkpoint n) st \<longleftrightarrow> snapshot_size st \<le> n"
  by (simp add: checkpoint_fine_def good_checkpoint_def rotate_fine_def good_rotate_def snapshot_fine_def
      good_snapshot_def snapshot_size_def)

theorem files_refine_store_witness:
  "\<exists>ck. map_prod id store_of (checkpoint_io sorted_list_of_set ck sample_io) =
      (None, checkpoint sorted_list_of_set sample_store)"
proof -
  let ?ord = "sorted_list_of_set :: bytes set \<Rightarrow> bytes list"
  obtain s n where load: "\<And>s' n'. load_replay sample_ext sample_store = Some (s', n') \<Longrightarrow> s' = s"
    by (cases "load_replay sample_ext sample_store") auto
  let ?n = "max (snapshot_size sample_io) (snapshot_size (sample_io\<lparr>io_index := s\<rparr>))"
  let ?sv = "\<lparr>sv_dir = True, sv_room = 0, sv_sync = True, sv_snapshot = good_snapshot ?n\<rparr>"
  let ?ld = "\<lparr>ld_snapshot = None, ld_old = None, ld_log = None, ld_remove = True, ld_checkpoint = good_checkpoint ?n\<rparr>"
  have "checkpoint_fine ?ord (good_checkpoint ?n) sample_io" by (simp add: good_checkpoint_fine)
  moreover from this have "save_fine ?ord ?sv sample_io"
    by (simp add: save_fine_def checkpoint_fine_def good_checkpoint_def)
  moreover have "load_fine sample_ext ?ord ?ld sample_io"
    using load by (auto simp: load_fine_def reads_all_def good_checkpoint_fine sample_io_store)
  ultimately show ?thesis
    using files_refine_store [OF sample_io_store(2,3) exact_room_ample, of ?ord "good_checkpoint ?n" ?sv sample_ext ?ld]
    unfolding sample_io_store(1) by blast
qed

section \<open>A checkpoint fails\<close>

text \<open>
  C15. Failing file operations of a checkpoint lose nothing: in a run in which the log takes every
  record, whatever operation of a group commit, a checkpoint, a save or a shutdown fails (creating
  the directory, flush, fsync, rename and reopening of the log, any write of the snapshot, its
  fsync and rename, the removal of the rotated segment), the next process loads exactly the events
  that were stored. The run may not replace a rotated segment whose snapshot failed by another one
  whose snapshot fails too, and it evicts nothing; there is no memory limit, or all events ever
  offered fit 90 percent of it; no two of them have one id; and the JSON of each is one line that
  fits a record and parses again.
\<close>

theorem failed_checkpoint_restores:
  assumes "inj_on ev_id U" "\<forall>e \<in> U. persistable X e" "enumerates ord" "io_run X U ord cfg waiting st"
  shows "\<exists>n st'. load_from_disk X ord (store_new cfg True rss (io_dir st)) = Some (n, st') \<and>
    by_id (st_index st') = by_id (io_index st) \<and> index_inv X U (st_index st')"
proof -
  have ok: "files_ok X U waiting st" "io_config st = cfg" using io_run_files_ok [OF assms(4,1-3)] by auto
  from files_ok_restarts [OF assms(1-3) ok(1)] show ?thesis
    using persisted_inv [OF assms(1)] unfolding restarts_to_def ok(2) by metis
qed

text \<open>A disk that is full when the snapshot is written.\<close>

definition full_disk :: checkpoint_env where
  "full_disk = (good_checkpoint 0)\<lparr>ck_snapshot := \<lparr>sn_create = False, sn_room = 0, sn_sync = True, sn_rename = True\<rparr>\<rparr>"

lemma sample_io_run: "io_run sample_ext (set sample_events) sorted_list_of_set sample_config False sample_io"
proof -
  have "persisted sample_ext (set sample_events) sample_store" "st_config sample_store = sample_config"
    using store_run_persisted [OF sample_run sample_inj sample_persistable enumerates_sorted_list_of_set sample_roomy]
    by auto
  moreover have "io_config sample_io = st_config sample_store"
    unfolding sample_io_store(1) [symmetric] by simp
  ultimately show ?thesis using sample_io_store by (intro io_run.start) simp_all
qed

theorem failed_checkpoint_restores_witness:
  "\<exists>n st'. load_from_disk sample_ext sorted_list_of_set
       (store_new sample_config True 0 (io_dir (snd (checkpoint_io sorted_list_of_set full_disk sample_io)))) = Some (n, st') \<and>
     by_id (st_index st') = by_id (io_index (snd (checkpoint_io sorted_list_of_set full_disk sample_io)))"
proof -
  let ?r = "checkpoint_io sorted_list_of_set full_disk sample_io"
  have "checkpoint_safe sorted_list_of_set full_disk sample_io False" by (simp add: checkpoint_safe_def)
  from io_run.fold_log [OF sample_io_run this prod.collapse [symmetric]]
    failed_checkpoint_restores [OF sample_inj sample_persistable enumerates_sorted_list_of_set]
  show ?thesis by blast
qed

text \<open>
  C38. Two checkpoints in a row that rotate the log and then fail to write the snapshot, as on a disk
  that stays full, lose everything logged since the last snapshot: the second rotation renames the
  new log over the rotated segment, the only file that held the records. The events are still in
  memory, and the next process loads those of the old snapshot.
\<close>

theorem failed_checkpoints_lose_log:
  assumes "inj_on ev_id U" "\<forall>e \<in> U. persistable X e" "enumerates ord" "roomy U (io_config st)"
    and "files_of X U s0 ops (store_of st)" "drained st" "unmoved st"
    and "ck_dir io" "rotate_fine (ck_rotate io)" "\<not> snapshot_succeeds ord (ck_snapshot io) st"
    and "st2 = snd (checkpoint_io ord io (snd (checkpoint_io ord io st)))"
  shows "io_index st2 = io_index st \<and>
    (\<exists>n st'. load_from_disk X ord (store_new (io_config st) True rss (io_dir st2)) = Some (n, st') \<and>
       by_id (st_index st') = by_id s0)"
proof -
  obtain w where w: "io_wal st = Some w" "settled w" "\<not> wf_moved w"
    using assms(5-7) by (auto simp: files_of_def files_since_def drained_def unmoved_def)
  obtain w1 where w1: "checkpoint_io ord io st = (fst (checkpoint_io ord io st), st\<lparr>io_wal := Some w1\<rparr>)"
      "settled w1" "\<not> wf_moved w1" "bw_file (wf_writer w1) = []"
    using failed_rotation [OF w(1-3) _ assms(8-10)] assms(4) by (auto simp: roomy_def)
  let ?loaded = "st\<lparr>io_wal := Some w1\<rparr>"
  obtain w2 where w2: "checkpoint_io ord io ?loaded = (fst (checkpoint_io ord io ?loaded), ?loaded\<lparr>io_wal := Some w2\<rparr>)"
      "\<not> wf_moved w2" "bw_file (wf_writer w2) = []" "wf_old w2 = Some []"
    using failed_rotation [of ?loaded w1 io ord] w1 assms(4,8-10) by (auto simp: roomy_def)
  have "snd (checkpoint_io ord io st) = ?loaded" using arg_cong [OF w1(1), of snd] by simp
  then have st2: "st2 = st\<lparr>io_wal := Some w2\<rparr>" using assms(11) arg_cong [OF w2(1), of snd] by simp
  have "base_ok X U (io_snapshot st) (Some (encode_ops [])) s0"
    using rotated_base [OF assms(1,2) files_of_base [OF assms(1,2,5)] log_run.start] .
  then have "restarts_to X U ord (io_config st) (io_dir st2) (by_id s0)"
    using w2 by (intro base_restarts [OF assms(1-4) _ log_run.start])
      (simp_all add: st2 io_dir_def log_on_disk_def old_on_disk_def)
  moreover have "io_index st2 = io_index st" by (simp add: st2)
  ultimately show ?thesis unfolding restarts_to_def by blast
qed

lemma sample_io_events: "by_id (io_index sample_io) = [ev_id sample_note \<mapsto> sample_note]"
proof -
  obtain s where ins: "index_insert sample_ext sample_note index_new = (Inserted None, s)"
    using insert_into_new(1) by (metis prod.collapse)
  have "\<not> is_ephemeral sample_note" by code_simp
  then have "st_index sample_store = s"
    using ins by (simp add: sample_store_def store_insert_def store_new_def)
  moreover have "io_index sample_io = st_index sample_store"
    unfolding sample_io_store(1) [symmetric] by simp
  ultimately show ?thesis using insert_into_new(2) [of sample_ext sample_note] ins by simp
qed

theorem failed_checkpoints_lose_log_witness:
  "\<exists>n st'. load_from_disk sample_ext sorted_list_of_set (store_new sample_config True 0
       (io_dir (snd (checkpoint_io sorted_list_of_set full_disk
          (snd (checkpoint_io sorted_list_of_set full_disk sample_io)))))) = Some (n, st') \<and>
     by_id (st_index st') = Map.empty \<and> by_id (io_index sample_io) (ev_id sample_note) = Some sample_note"
proof -
  have files: "files_of sample_ext (set sample_events) index_new [WalInsert (ev_raw sample_note)] (store_of sample_io)"
    unfolding sample_io_store(1) by (rule sample_files)
  have cfg: "io_config sample_io = sample_config"
    using io_run_files_ok [OF sample_io_run sample_inj sample_persistable enumerates_sorted_list_of_set] by blast
  have stored: "by_id (io_index sample_io) (ev_id sample_note) = Some sample_note" by (simp add: sample_io_events)
  have "ck_dir full_disk" "rotate_fine (ck_rotate full_disk)"
    "\<not> snapshot_succeeds sorted_list_of_set (ck_snapshot full_disk) sample_io"
    by (simp_all add: full_disk_def good_checkpoint_def rotate_fine_def good_rotate_def snapshot_succeeds_def write_snapshot_io_def)
  from failed_checkpoints_lose_log [OF sample_inj sample_persistable enumerates_sorted_list_of_set _ files
      sample_io_store(2,3) this refl, of 0] stored
  show ?thesis unfolding cfg using sample_roomy by (simp add: index_new_def)
qed

section \<open>The snapshot cannot be read\<close>

lemma checkpoint_old_snapshot:
  "persistence_path (st_config st) \<noteq> None \<Longrightarrow> checkpoint ord (st\<lparr>st_snapshot := d\<rparr>) = checkpoint ord st"
  by (auto simp: checkpoint_def checkpoint_rotate_def checkpoint_remove_def write_snapshot_def Let_def split: option.splits)

text \<open>
  A snapshot that cannot be opened at start-up is lost for good: the loader reports it and goes
  on with the log, and if the log has a record the checkpoint at the end replaces the snapshot. The
  process and its directory end up exactly as if there had never been a snapshot.
\<close>

theorem unreadable_snapshot_replaced:
  assumes "persistence_path cfg \<noteq> None" "use_wal cfg"
    and "ld_snapshot io = Some 0" "ld_old io = None" "ld_log io = None" "ld_remove io"
    and "load_replay X (store_new cfg True 0 (d\<lparr>d_snapshot := None\<rparr>)) = Some (s, n)" "0 < n"
    and "checkpoint_fine ord (ld_checkpoint io) ((io_store_new cfg True d)\<lparr>io_index := s\<rparr>)"
  shows "\<exists>st'. load_from_disk_io X ord io (io_store_new cfg True d) = Some (n, st') \<and>
    load_from_disk X ord (store_new cfg True 0 (d\<lparr>d_snapshot := None\<rparr>)) = Some (n, store_of st') \<and>
    io_dir st' = disk_of (store_of st')"
proof -
  let ?st = "io_store_new cfg True d"
  let ?fresh = "?st\<lparr>io_snapshot := None\<rparr>"
  let ?loaded = "remove_old True (?st\<lparr>io_index := s\<rparr>)"
  have new: "store_of ?fresh = store_new cfg True 0 (d\<lparr>d_snapshot := None\<rparr>)"
    by (simp add: store_of_new) (simp add: store_new_def)
  have "load_replay_io X io ?st = load_replay_io X (io\<lparr>ld_snapshot := None\<rparr>) ?fresh"
    using assms(3)
    by (simp add: load_replay_io_def load_snapshot_io_def load_segments_io_def readable_def Let_def split: option.splits)
  also have "\<dots> = load_replay X (store_of ?fresh)"
    using assms(4,5) by (intro load_replay_refines) (simp add: reads_all_def)
  also have "\<dots> = Some (s, n)" unfolding new by (rule assms(7))
  finally have replay: "load_replay_io X io ?st = Some (s, n)" .
  have st1: "drained ?loaded" "unmoved ?loaded" "checkpoint_fine ord (ld_checkpoint io) ?loaded"
    using assms(9) store_of_new [of cfg True d]
    by (simp_all add: remove_old_refines checkpoint_fine_def snapshot_fine_def)
  note ck = checkpoint_refines [OF st1]
  have cfg: "io_config ?st = cfg" "st_config (store_new cfg True 0 d') = cfg" for d'
    by (simp_all add: io_store_new_def store_new_def)
  have "load_from_disk_io X ord io ?st = Some (n, snd (checkpoint_io ord (ld_checkpoint io) ?loaded))"
    using replay assms(1,6,8) cfg(1) by (auto simp: load_from_disk_io_def Let_def)
  moreover have "checkpoint_remove ((store_of ?fresh)\<lparr>st_index := s\<rparr>) = (store_of ?loaded)\<lparr>st_snapshot := None\<rparr>"
    by (simp add: remove_old_refines checkpoint_remove_def)
  then have "checkpoint ord (checkpoint_remove ((store_of ?fresh)\<lparr>st_index := s\<rparr>)) = checkpoint ord (store_of ?loaded)"
    using assms(1) cfg(1) by (simp add: checkpoint_old_snapshot)
  then have "load_from_disk X ord (store_new cfg True 0 (d\<lparr>d_snapshot := None\<rparr>)) =
      Some (n, store_of (snd (checkpoint_io ord (ld_checkpoint io) ?loaded)))"
    using assms(1,7,8) ck(4) cfg(2) unfolding new by (auto simp: load_from_disk_def Let_def)
  ultimately show ?thesis using io_dir_unmoved [OF ck(3)] by blast
qed

text \<open>A directory whose snapshot holds an event that the log does not.\<close>

definition sample_dir :: disk where
  "sample_dir = \<lparr>d_log = Some (encode_ops [WalInsert (ev_raw sample_old)]), d_old = None,
     d_snapshot = Some (snapshot_bytes [sample_note])\<rparr>"

theorem unreadable_snapshot_replaced_witness:
  "\<exists>io n st' n' st''.
     load_from_disk_io sample_ext sorted_list_of_set io (io_store_new sample_config True sample_dir) = Some (n, st') \<and>
     by_id (io_index st') (ev_id sample_note) = None \<and>
     load_from_disk sample_ext sorted_list_of_set (store_new sample_config True 0 (io_dir st')) = Some (n', st'') \<and>
     by_id (st_index st'') (ev_id sample_note) = None"
proof -
  let ?ord = "sorted_list_of_set :: bytes set \<Rightarrow> bytes list"
  let ?ops = "[WalInsert (ev_raw sample_old)]" and ?d = "sample_dir\<lparr>d_snapshot := None\<rparr>"
  let ?s = "recovered sample_ext [] ?ops"
  have pers: "persistable sample_ext sample_old" using sample_persistable by simp
  then have old: "from_json_unchecked sample_ext (ev_raw sample_old) = Inr sample_old"
    by (simp add: persistable_def)
  have sound: "list_all (op_sound sample_ext (set sample_events)) ?ops"
    using pers old by (auto simp: op_sound_def persistable_def)
  have idx: "?s = snd (index_insert sample_ext sample_old index_new)"
    by (simp add: recovered_def replay1_def insert_all_def old)
  have inv: "index_inv sample_ext (set sample_events) ?s"
    unfolding idx by (rule index_insert_inv [OF sample_inj index_inv_new sample_member(2)])
  have replay: "fst (replay_bytes (encode_ops ?ops)) = ?ops"
    using replay_encode [OF op_sound_ok [OF sound]] by simp
  have load: "load_replay sample_ext (store_new sample_config True 0 ?d) = Some (?s, 1)"
    using load_files [OF sample_inj roomy_fits [OF sample_roomy], of "[]" sample_ext "[]" ?ops None None "encode_ops ?ops"]
      sound replay
    by (simp add: load_replay_def store_new_def sample_dir_def sample_config_def Let_def)
  obtain l where l: "load_from_disk sample_ext ?ord (store_new sample_config True 0 ?d) = Some (1, l)"
      "st_index l = ?s" "persisted sample_ext (set sample_events) l"
    using load_from_files [OF sample_inj sample_roomy enumerates_sorted_list_of_set, of "[]" sample_ext "[]" ?ops ?d
        "encode_ops ?ops" 0] sound replay inv by (auto simp: sample_dir_def)
  let ?io = "\<lparr>ld_snapshot = Some 0, ld_old = None, ld_log = None, ld_remove = True,
      ld_checkpoint = good_checkpoint (snapshot_size ((io_store_new sample_config True sample_dir)\<lparr>io_index := ?s\<rparr>))\<rparr>"
  obtain st' where st': "load_from_disk_io sample_ext ?ord ?io (io_store_new sample_config True sample_dir) = Some (1, st')"
      "load_from_disk sample_ext ?ord (store_new sample_config True 0 ?d) = Some (1, store_of st')"
      "io_dir st' = disk_of (store_of st')"
    using unreadable_snapshot_replaced [of sample_config ?io sample_ext sample_dir ?s 1 ?ord] load
    by (auto simp: good_checkpoint_fine sample_config_def)
  have l': "store_of st' = l" using st'(2) l(1) by simp
  have other: "by_id ?s (ev_id sample_note) = None"
    unfolding idx by (simp add: insert_into_new sample_note_def sample_old_def)
  from restart_at_rest [OF sample_inj sample_persistable enumerates_sorted_list_of_set l(3)]
  obtain n' st'' where "load_from_disk sample_ext ?ord (store_new (st_config l) True 0 (disk_of l)) = Some (n', st'')"
      "by_id (st_index st'') = by_id (st_index l)"
    unfolding restarts_to_def by blast
  moreover have "st_config l = sample_config" using load_config [OF l(1)] by (simp add: store_new_def)
  moreover have "io_index st' = ?s" using arg_cong [OF l', of st_index] l(2) by simp
  ultimately show ?thesis using st'(1,3) l' l(2) other by fastforce
qed

end
