(* ===== verification/Load_Returns.thy ===== *)
theory Load_Returns
  imports File_Properties
begin

text \<open>
  The loader (\<open>load_from_disk\<close> in \<^verbatim>\<open>src/src/store/mod.rs\<close>) on any directory, with a memory limit or
  without, whatever file operation fails: it returns, with a consistent index within the limit.
\<close>

section \<open>One record\<close>

text \<open>Nothing that is loaded wraps the counter of payload bytes around.\<close>

definition loadable :: "event set \<Rightarrow> bool" where
  "loadable U \<longleftrightarrow> finite U \<and> inj_on ev_id U \<and> payload U < 2 ^ 64"

definition load_ok :: "'x ext_scheme \<Rightarrow> event set \<Rightarrow> usize \<Rightarrow> event_index \<times> nat \<Rightarrow> bool" where
  "load_ok X U threshold r \<longleftrightarrow>
     index_inv X U (fst r) \<and> (0 < threshold \<longrightarrow> memory_bytes (fst r) \<le> threshold)"

lemma payload_mono: "finite B \<Longrightarrow> A \<subseteq> B \<Longrightarrow> payload A \<le> payload B"
  unfolding payload_def by (rule sum_mono2) simp_all

lemma memory_exact:
  assumes "loadable U" "index_inv X U s"
  shows "unat (memory_bytes s) = payload (stored s)"
proof -
  have "stored s \<subseteq> U" "memory_bytes s = of_nat (payload (stored s))"
    using assms(2) index_core_facts(3) by (auto simp: index_inv_def index_core_def)
  moreover have "payload (stored s) \<le> payload U"
    using assms(1) calculation(1) by (intro payload_mono) (simp_all add: loadable_def)
  ultimately show ?thesis
    using assms(1) by (simp add: loadable_def unat_of_nat take_bit_nat_eq_self)
qed

lemma memory_less:
  assumes "loadable U" "index_inv X U s" "index_inv X U s'" "stored s' \<subseteq> stored s"
  shows "memory_bytes s' \<le> memory_bytes s"
proof -
  have "finite (stored s)" using assms(2) index_core_facts(1) by (auto simp: index_inv_def)
  from payload_mono [OF this assms(4)] show ?thesis
    by (simp add: word_le_nat_alt memory_exact [OF assms(1,2)] memory_exact [OF assms(1,3)])
qed

lemma ingest_load_ok:
  assumes "loadable U" "load_ok X U threshold (s, n)" "e \<in> U" "target \<le> threshold"
  shows "\<exists>s'. ingest X threshold target e s = Some s' \<and> load_ok X U threshold (s', m)"
proof -
  let ?s = "snd (index_insert X e s)"
  have inj: "inj_on ev_id U" and inv: "index_inv X U s"
    using assms(1,2) by (simp_all add: loadable_def load_ok_def)
  have inv': "index_inv X U ?s" by (rule index_insert_inv [OF inj inv assms(3)])
  from load_evict_spec [OF inv', of target] obtain s' where
    "load_evict X target ?s = Some s'" "index_inv X U s'" "memory_bytes s' \<le> target" by blast
  then show ?thesis using inv' assms(4) by (auto simp: ingest_def load_ok_def Let_def)
qed

lemma load_event_ok:
  assumes "loadable U" "target \<le> threshold" "load_ok X U threshold r"
    and "\<And>e. from_json_unchecked X data = Inr e \<Longrightarrow> e \<in> U"
  shows "\<exists>r'. load_event X threshold target data r = Some r' \<and> load_ok X U threshold r'"
proof (cases "from_json_unchecked X data")
  case (Inl err)
  then show ?thesis using assms(3) by (simp add: load_event_def)
next
  case (Inr e)
  obtain s' where "ingest X threshold target e (fst r) = Some s'" "load_ok X U threshold (s', snd r + 1)"
    using ingest_load_ok [OF assms(1) _ assms(4) [OF Inr] assms(2), of X "fst r" "snd r"] assms(3) by auto
  then show ?thesis using Inr by (simp add: load_event_def)
qed

lemma remove_load_ok:
  assumes "loadable U" "load_ok X U threshold (s, n)" "index_inv X U s'" "stored s' \<subseteq> stored s"
  shows "load_ok X U threshold (s', m)"
  using assms memory_less [OF assms(1) _ assms(3,4)] by (auto simp: load_ok_def)

lemma replay_op_ok:
  assumes U: "loadable U" and "target \<le> threshold" and r: "load_ok X U threshold r"
    and "\<And>data e. op = WalInsert data \<Longrightarrow> from_json_unchecked X data = Inr e \<Longrightarrow> e \<in> U"
  shows "\<exists>r'. replay_op X threshold target op r = Some r' \<and> load_ok X U threshold r'"
proof -
  obtain s n where sn: "r = (s, n)" by fastforce
  have inj: "inj_on ev_id U" and inv: "index_inv X U s" using U r by (simp_all add: loadable_def load_ok_def sn)
  have sub: "stored (snd (index_remove X i t)) \<subseteq> stored t" for i t
    by (auto simp: index_remove_def internal_remove_def stored_def ran_def split: option.splits)
  have "stored (snd (index_remove X i (index_tombstone i s))) \<subseteq> stored s" for i
    using sub [of i "index_tombstone i s"] by (simp add: index_tombstone_def stored_def)
  then show ?thesis
    using load_event_ok [OF U assms(2) r] assms(4)
      remove_load_ok [OF U r [unfolded sn] index_remove_inv [OF inv] sub]
      remove_load_ok [OF U r [unfolded sn] index_tombstone_remove_inv [OF inj inv]]
    by (auto simp: replay_op_def sn split: wal_op.splits)
qed

section \<open>All files\<close>

text \<open>The texts that the loader reads as events.\<close>

definition segment_data :: "bytes \<Rightarrow> bytes set" where
  "segment_data bs = {data. WalInsert data \<in> set (fst (replay_bytes bs))}"

definition load_data :: "load_env \<Rightarrow> io_store \<Rightarrow> bytes set" where
  "load_data io st =
     (case io_snapshot st of
        None \<Rightarrow> {} | Some bs \<Rightarrow> set (takeWhile utf8_valid (readable (ld_snapshot io) (buf_lines bs)))) \<union>
     (case io_wal st of
        None \<Rightarrow> {}
      | Some w \<Rightarrow>
          (case wf_old w of None \<Rightarrow> {} | Some bs \<Rightarrow> segment_data (readable (ld_old io) bs)) \<union>
          segment_data (readable (ld_log io) (bw_file (wf_writer w))))"

lemma replay_ops_ok:
  assumes "loadable U" "target \<le> threshold" "load_ok X U threshold r"
    and "\<forall>data \<in> segment_data bs. \<forall>e. from_json_unchecked X data = Inr e \<longrightarrow> e \<in> U"
  shows "\<exists>r'. fold_opt (replay_op X threshold target) (fst (replay_bytes bs)) r = Some r' \<and> load_ok X U threshold r'"
  using assms(3)
proof (rule fold_opt_returns)
  fix op r assume "op \<in> set (fst (replay_bytes bs))" "load_ok X U threshold r"
  then show "\<exists>r'. replay_op X threshold target op r = Some r' \<and> load_ok X U threshold r'"
    using assms(4) by (intro replay_op_ok [OF assms(1,2)]) (auto simp: segment_data_def)
qed

lemma load_replay_ok:
  assumes U: "loadable U" and st: "index_inv X U (io_index st)" "memory_bytes (io_index st) = 0"
    and "unat (max_bytes (io_config st)) * 90 < 2 ^ 64"
    and data: "\<forall>data \<in> load_data io st. \<forall>e. from_json_unchecked X data = Inr e \<longrightarrow> e \<in> U"
  shows "\<exists>r. load_replay_io X io st = Some r \<and> load_ok X U (max_bytes (io_config st) * 90 div 100) r"
proof -
  let ?mb = "max_bytes (io_config st)"
  let ?th = "?mb * 90 div 100" and ?ta = "?mb * 70 div 100"
  have "unat (?mb * 90) = unat ?mb * 90" "unat (?mb * 70) = unat ?mb * 70"
    using assms(4) by (simp_all add: unat_mult_lem [THEN iffD1])
  then have le: "?ta \<le> ?th"
    by (simp add: word_le_nat_alt unat_div)
  have "load_ok X U ?th (io_index st, 0)" using st by (simp add: load_ok_def)
  then have "\<exists>r. load_snapshot_io X ?th ?ta (ld_snapshot io) (io_snapshot st) (io_index st, 0) = Some r \<and>
      load_ok X U ?th r"
  proof (cases "io_snapshot st")
    case (Some bs)
    show ?thesis
      unfolding load_snapshot_io_def Some option.case
      by (rule fold_opt_returns [of "load_ok X U ?th"], fact)
        (rule load_event_ok [OF U le], use data Some in \<open>auto simp: load_data_def\<close>)
  qed (simp add: load_snapshot_io_def)
  then obtain r where r: "load_snapshot_io X ?th ?ta (ld_snapshot io) (io_snapshot st) (io_index st, 0) = Some r"
    "load_ok X U ?th r" by blast
  have "\<exists>r'. load_segments_io X ?th ?ta io (io_wal st) r = Some r' \<and> load_ok X U ?th r'"
  proof (cases "io_wal st")
    case None
    then show ?thesis using r(2) by (simp add: load_segments_io_def)
  next
    case (Some w)
    have old: "\<forall>data \<in> segment_data (readable (ld_old io) bs). \<forall>e. from_json_unchecked X data = Inr e \<longrightarrow> e \<in> U"
      if "wf_old w = Some bs" for bs using data Some that by (auto simp: load_data_def)
    have log: "\<forall>data \<in> segment_data (readable (ld_log io) (bw_file (wf_writer w))).
        \<forall>e. from_json_unchecked X data = Inr e \<longrightarrow> e \<in> U" using data Some by (auto simp: load_data_def)
    obtain r1 where r1: "(case wf_old w of
          Some bs \<Rightarrow> fold_opt (replay_op X ?th ?ta) (fst (replay_bytes (readable (ld_old io) bs))) r
        | None \<Rightarrow> Some r) = Some r1" "load_ok X U ?th r1"
    proof (cases "wf_old w")
      case None
      then show ?thesis using r(2) by (intro that [of r]) simp_all
    next
      case (Some bs)
      then show ?thesis using replay_ops_ok [OF U le r(2) old [OF Some]] that by auto
    qed
    then show ?thesis
      using replay_ops_ok [OF U le r1(2) log] Some by (simp add: load_segments_io_def)
  qed
  moreover have "(if 0 < ?mb then ?mb * k div 100 else 0) = ?mb * k div 100" for k by (simp add: word_gt_0)
  ultimately show ?thesis using r(1) by (simp add: load_replay_io_def Let_def)
qed

section \<open>The loader\<close>

lemma write_snapshot_index: "write_snapshot_io ord sn st = (res, st') \<Longrightarrow> io_index st' = io_index st"
  by (auto simp: write_snapshot_io_def Let_def split: prod.splits if_splits)

lemma checkpoint_index: "io_index (snd (checkpoint_io ord ck st)) = io_index st"
  by (auto simp: checkpoint_io_def remove_old_def split: option.split prod.split sum.split
      dest: write_snapshot_index)

definition loaded_events :: "'x ext_scheme \<Rightarrow> load_env \<Rightarrow> io_store \<Rightarrow> event set" where
  "loaded_events X io st = {e. \<exists>data \<in> load_data io st. from_json_unchecked X data = Inr e}"

text \<open>
  C20. The loader returns on any directory in which no two different events have one id, with or
  without a memory limit, and whichever files cannot be read to the end, removed or written: every
  round of its eviction loop finds an event to remove. The index it leaves is consistent, and its
  payload is within 90 percent of the limit. Neither the payload of the events in the files nor 90
  times the limit wraps around.
\<close>

theorem load_returns:
  assumes "loadable U" "loaded_events X io (io_store_new cfg open_ok d) \<subseteq> U"
    and "unat (max_bytes cfg) * 90 < 2 ^ 64"
  shows "\<exists>n st'. load_from_disk_io X ord io (io_store_new cfg open_ok d) = Some (n, st') \<and>
    index_inv X U (io_index st') \<and>
    (0 < max_bytes cfg * 90 div 100 \<longrightarrow> memory_bytes (io_index st') \<le> max_bytes cfg * 90 div 100)"
proof -
  let ?st = "io_store_new cfg open_ok d"
  have new: "io_config ?st = cfg" "io_index ?st = index_new" by (simp_all add: io_store_new_def)
  have zero: "memory_bytes index_new = 0" by (simp add: index_new_def)
  obtain s n where r: "load_replay_io X io ?st = Some (s, n)" "load_ok X U (max_bytes cfg * 90 div 100) (s, n)"
    using load_replay_ok [OF assms(1), of X ?st io] assms(2,3) new zero index_inv_new [of X U]
    by (fastforce simp: loaded_events_def)
  then show ?thesis
    using new zero index_inv_new [of X U] checkpoint_index
    by (cases "persistence_path cfg") (auto simp: load_from_disk_io_def Let_def load_ok_def remove_old_def)
qed

theorem load_returns_witness:
  "\<exists>n st'. load_from_disk_io sample_ext sorted_list_of_set
       \<lparr>ld_snapshot = None, ld_old = Some 0, ld_log = None, ld_remove = False, ld_checkpoint = full_disk\<rparr>
       (io_store_new (sample_config\<lparr>max_bytes := 5\<rparr>) True sample_dir) = Some (n, st') \<and>
     memory_bytes (io_index st') \<le> 4"
proof -
  let ?io = "\<lparr>ld_snapshot = None, ld_old = Some 0, ld_log = None, ld_remove = False, ld_checkpoint = full_disk\<rparr>"
  let ?cfg = "sample_config\<lparr>max_bytes := 5\<rparr>" and ?ops = "[WalInsert (ev_raw sample_old)]"
  have pers: "persistable sample_ext sample_note" "persistable sample_ext sample_old"
    using sample_persistable by simp_all
  then have ev: "from_json_unchecked sample_ext (ev_raw sample_note) = Inr sample_note"
    "from_json_unchecked sample_ext (ev_raw sample_old) = Inr sample_old"
    by (simp_all add: persistable_def)
  have "payload (set sample_events) < 2 ^ 64"
    by (simp add: payload_def sample_events_def sample_defs)
  then have "loadable (set sample_events)" using sample_inj by (simp add: loadable_def)
  moreover have "fst (replay_bytes (encode_ops ?ops)) = ?ops"
    using replay_encode [of ?ops] pers(2) by (auto simp: persistable_def)
  then have "load_data ?io (io_store_new ?cfg True sample_dir) \<subseteq> {ev_raw sample_note, ev_raw sample_old}"
    using buf_lines_snapshot [of "[sample_note]" sample_ext] pers
    by (simp add: load_data_def segment_data_def io_store_new_def sample_dir_def sample_config_def
        wal_file_open_def readable_def persistable_def Let_def)
  then have "loaded_events sample_ext ?io (io_store_new ?cfg True sample_dir) \<subseteq> set sample_events"
    using ev sample_member by (auto simp: loaded_events_def)
  ultimately show ?thesis
    using load_returns [of "set sample_events" sample_ext ?io ?cfg True sample_dir sorted_list_of_set] by fastforce
qed

text \<open>
  The ids in the files are not verified. A second event with the id of a stored one takes its place in
  the primary map only, so that a removal deletes the references of the second event and leaves the one
  of the first; once such a reference is the oldest, the eviction loop removes nothing and goes on
  for ever.
\<close>

lemma bts_remove_other: "y \<in> set s \<Longrightarrow> lt x y \<or> lt y x \<Longrightarrow> y \<in> set (bts_remove lt x s)"
  by (induction s) auto

theorem reused_id_leaves_reference:
  assumes "index_inv X U s" "e \<in> stored s" "\<not> is_replaceable d" "ev_id d = ev_id e" "ev_created_at d \<noteq> ev_created_at e"
    and "index_insert X d s = (r, s1)" "index_remove X (ev_id e) s1 = (removed, s2)"
  shows "r = Duplicate \<and> by_id s2 (ev_id e) = None \<and> eref_new e \<in> set (concat (by_oldest s2))"
proof -
  note core = index_invD(1) [OF assms(1)]
  have i: "by_id s (ev_id e) = Some e" using assms(2) stored_iff [OF core] by simp
  have "\<not> tombs_contains (tombstones s) (ev_id e)"
    using core i tombs_contains_iff [OF index_core_facts(5) [OF core]] by (auto simp: index_core_def)
  then have s1: "r = Duplicate" "s1 = s\<lparr>by_id := (by_id s)(ev_id e \<mapsto> d)\<rparr>"
    using assms(3,4,6) i by (auto simp: index_insert_def swap_not_replaceable Let_def)
  have s2: "by_id s2 (ev_id e) = None" "by_oldest s2 = del_oldest d (by_oldest s)"
    using assms(7) by (auto simp: s1(2) index_remove_def internal_remove_def cleanup_secondary_indexes_def Let_def)
  have "eref_new e \<in> set (concat (by_oldest s))"
    using oldest_partition(2) [OF sec_allD(6,7) [OF index_inv_sec [OF assms(1)]]] assms(2) by simp
  then obtain n where n: "n < length (by_oldest s)" "eref_new e \<in> set (by_oldest s ! n)"
    by (metis UN_E in_set_conv_nth set_concat)
  have "er_less (eref_new d) (eref_new e) \<or> er_less (eref_new e) (eref_new d)"
    using assms(5) by (auto simp: er_less_def eref_new_def)
  note kept = bts_remove_other [OF n(2) this]
  have "eref_new e \<in> set (del_oldest d (by_oldest s) ! n)"
    using kept n by (cases "n = oldest_shard (ev_id d)") (simp_all add: del_oldest_def Let_def)
  moreover have "n < length (del_oldest d (by_oldest s))" using n(1) by (simp add: del_oldest_def Let_def)
  ultimately have "eref_new e \<in> set (concat (by_oldest s2))" unfolding s2(2) set_concat using nth_mem by blast
  then show ?thesis using s1(1) s2(1) by simp
qed

theorem stale_reference_stalls:
  assumes "target < memory_bytes s" "get_oldest s 1 = Some (r # rs)" "by_id s (er_id r) = None"
  shows "load_evict X target s = None"
proof -
  have same: "snd (index_remove X (er_id r) s) = s" using assms(3) by (simp add: index_remove_def internal_remove_def)
  have "\<not> (X' = X \<and> t = target \<and> s' = s)" if "load_evict X' t s' = Some y" for X' t s' y
  proof (rule load_evict.raw_induct [OF _ that])
    fix f X' t s' y
    assume IH: "\<And>X' t s' y. f X' t s' = Some y \<Longrightarrow> \<not> (X' = X \<and> t = target \<and> s' = s)"
      and body: "(if t < memory_bytes s' then
         (case get_oldest s' 1 of None \<Rightarrow> None
          | Some rs \<Rightarrow> (case rs of [] \<Rightarrow> Some s' | r # _ \<Rightarrow> f X' t (snd (index_remove X' (er_id r) s'))))
       else Some s') = Some y"
    show "\<not> (X' = X \<and> t = target \<and> s' = s)"
    proof
      assume "X' = X \<and> t = target \<and> s' = s"
      then have "f X target s = Some y" using body assms(1,2) same by simp
      from IH [OF this] show False by simp
    qed
  qed
  then show ?thesis by (cases "load_evict X target s") auto
qed

end
