(* ===== verification/Subscription.thy ===== *)
theory Subscription
  imports Event_Store
begin

text \<open>
  Subscription filters (\<^verbatim>\<open>src/src/subscription.rs\<close>): the wire format, matching of a live event, and
  the query that a REQ runs against the store. The hash map of tag filters is the list of its
  entries in the order in which it happens to iterate, with distinct keys; a tag letter is a Rust
  \<open>char\<close>, represented as in the prelude. JSON values belong to serde: their type is a
  parameter, and the typed accessors of \<open>MapAccess::next_value\<close> are the fields of \<open>serde\<close>.
\<close>

section \<open>32-byte hex values\<close>

text \<open>\<open>FromHex\<close> of the sources' own visitor; \<open>None\<close> is a deserialization error.\<close>

definition hex32_visit_str :: "'x ext_scheme \<Rightarrow> string \<Rightarrow> bytes option" where
  "hex32_visit_str X v =
     (case hex_decode X v of
        None \<Rightarrow> None
      | Some bs \<Rightarrow> if length bs \<noteq> 32 then None else Some bs)"

text \<open>The \<open>From\<close> conversion panics where the visitor reports an error; \<open>None\<close> is the panic.\<close>

definition hex32_from_str :: "'x ext_scheme \<Rightarrow> string \<Rightarrow> bytes option" where
  "hex32_from_str X s =
     (case hex_decode X s of
        None \<Rightarrow> None
      | Some bs \<Rightarrow> if length bs \<noteq> 32 then None else Some bs)"

definition hex32_as_hex :: "'x ext_scheme \<Rightarrow> bytes \<Rightarrow> string" where
  "hex32_as_hex X bs = hex_encode X bs"

section \<open>Filters\<close>

type_synonym tag_filters = "(string \<times> string list) list"

record nostr_filter =
  f_ids :: "bytes list option"
  f_kinds :: "u32 list option"
  f_authors :: "bytes list option"
  f_tags :: tag_filters
  f_since :: "u64 option"
  f_until :: "u64 option"
  f_limit :: "usize option"
  f_e_bytes :: "bytes list option"
  f_p_bytes :: "bytes list option"

definition filter_default :: nostr_filter where
  "filter_default =
     \<lparr>f_ids = None, f_kinds = None, f_authors = None, f_tags = [], f_since = None, f_until = None,
      f_limit = None, f_e_bytes = None, f_p_bytes = None\<rparr>"

definition filter_e_tags :: "nostr_filter \<Rightarrow> string list option" where
  "filter_e_tags f = map_of (f_tags f) ''e''"

definition filter_p_tags :: "nostr_filter \<Rightarrow> string list option" where
  "filter_p_tags f = map_of (f_tags f) ''p''"

text \<open>Values that are not 32 bytes of hex are dropped; with none left the field stays as it was.\<close>

definition hex_values :: "'x ext_scheme \<Rightarrow> string list \<Rightarrow> bytes list" where
  "hex_values X vals =
     List.map_filter
       (\<lambda>v. case hex_decode X v of
              None \<Rightarrow> None | Some bs \<Rightarrow> if length bs \<noteq> 32 then None else Some bs) vals"

definition parse_hex_values :: "'x ext_scheme \<Rightarrow> nostr_filter \<Rightarrow> nostr_filter" where
  "parse_hex_values X f =
     (let f1 = (case filter_e_tags f of
                  Some vals \<Rightarrow>
                    (if hex_values X vals \<noteq> [] then f\<lparr>f_e_bytes := Some (hex_values X vals)\<rparr> else f)
                | None \<Rightarrow> f)
      in (case filter_p_tags f1 of
            Some vals \<Rightarrow>
              (if hex_values X vals \<noteq> [] then f1\<lparr>f_p_bytes := Some (hex_values X vals)\<rparr> else f1)
          | None \<Rightarrow> f1))"

section \<open>Wire format\<close>

record 'j serde =
  as_strings :: "'j \<Rightarrow> string list option"
  as_kinds :: "'j \<Rightarrow> u32 list option"
  as_u64 :: "'j \<Rightarrow> u64 option"
  as_usize :: "'j \<Rightarrow> usize option"

fun map_opt :: "('a \<Rightarrow> 'b option) \<Rightarrow> 'a list \<Rightarrow> 'b list option" where
  "map_opt f [] = Some []"
| "map_opt f (x # xs) =
     (case f x of
        None \<Rightarrow> None
      | Some y \<Rightarrow> (case map_opt f xs of None \<Rightarrow> None | Some ys \<Rightarrow> Some (y # ys)))"

definition as_hex32s :: "'x ext_scheme \<Rightarrow> 'j serde \<Rightarrow> 'j \<Rightarrow> bytes list option" where
  "as_hex32s X J v = Option.bind (as_strings J v) (map_opt (hex32_visit_str X))"

text \<open>\<open>HashMap::insert\<close> on the entry list.\<close>

fun entry_insert :: "'k \<Rightarrow> 'v \<Rightarrow> ('k \<times> 'v) list \<Rightarrow> ('k \<times> 'v) list" where
  "entry_insert k v [] = [(k, v)]"
| "entry_insert k v (kv # kvs) =
     (if fst kv = k then (k, v) # kvs else kv # entry_insert k v kvs)"

text \<open>One key of \<open>visit_map\<close>; \<open>None\<close> is an error.\<close>

definition visit_entry ::
    "'x ext_scheme \<Rightarrow> 'j serde \<Rightarrow> string \<times> 'j \<Rightarrow> nostr_filter \<Rightarrow> nostr_filter option" where
  "visit_entry X J kv f =
     (let (key, v) = kv in
      if key = ''ids'' then map_option (\<lambda>x. f\<lparr>f_ids := Some x\<rparr>) (as_hex32s X J v)
      else if key = ''kinds'' then map_option (\<lambda>x. f\<lparr>f_kinds := Some x\<rparr>) (as_kinds J v)
      else if key = ''authors'' then map_option (\<lambda>x. f\<lparr>f_authors := Some x\<rparr>) (as_hex32s X J v)
      else if key = ''since'' then map_option (\<lambda>x. f\<lparr>f_since := Some x\<rparr>) (as_u64 J v)
      else if key = ''until'' then map_option (\<lambda>x. f\<lparr>f_until := Some x\<rparr>) (as_u64 J v)
      else if key = ''limit'' then map_option (\<lambda>x. f\<lparr>f_limit := Some x\<rparr>) (as_usize J v)
      else if take 1 key = ''#'' then
        (case chars (drop 1 key) of
           [] \<Rightarrow> None
         | letter # others \<Rightarrow>
             if others = [] then
               map_option (\<lambda>x. f\<lparr>f_tags := entry_insert letter x (f_tags f)\<rparr>) (as_strings J v)
             else Some f)
      else Some f)"

definition visit_map ::
    "'x ext_scheme \<Rightarrow> 'j serde \<Rightarrow> (string \<times> 'j) list \<Rightarrow> nostr_filter option" where
  "visit_map X J kvs = fold_opt (visit_entry X J) kvs filter_default"

text \<open>The entries that \<open>Serialize\<close> writes, as typed values.\<close>

datatype filter_value =
  V_hexes "string list" | V_kinds "u32 list" | V_strings "string list" | V_u64 u64 | V_usize usize

definition opt_entry :: "string \<Rightarrow> ('a \<Rightarrow> filter_value) \<Rightarrow> 'a option \<Rightarrow> (string \<times> filter_value) list" where
  "opt_entry k mk v = (case v of Some x \<Rightarrow> [(k, mk x)] | None \<Rightarrow> [])"

definition serialize_filter :: "'x ext_scheme \<Rightarrow> nostr_filter \<Rightarrow> (string \<times> filter_value) list" where
  "serialize_filter X f =
     opt_entry ''ids'' (\<lambda>v. V_hexes (map (hex_encode X) v)) (f_ids f) @
     opt_entry ''kinds'' V_kinds (f_kinds f) @
     opt_entry ''authors'' (\<lambda>v. V_hexes (map (hex_encode X) v)) (f_authors f) @
     map (\<lambda>(letter, values). (CHR ''#'' # letter, V_strings values)) (f_tags f) @
     opt_entry ''since'' V_u64 (f_since f) @
     opt_entry ''until'' V_u64 (f_until f) @
     opt_entry ''limit'' V_usize (f_limit f)"

section \<open>Matching one event\<close>

definition opt_all :: "('a \<Rightarrow> bool) \<Rightarrow> 'a option \<Rightarrow> bool" where
  "opt_all P v = (case v of None \<Rightarrow> True | Some x \<Rightarrow> P x)"

definition tag_matches :: "event \<Rightarrow> string \<times> string list \<Rightarrow> bool" where
  "tag_matches e lv =
     list_ex (\<lambda>t. single_char (tag_name t) = Some (fst lv) \<and>
        (case tag_value t of Some v \<Rightarrow> v \<in> set (snd lv) | None \<Rightarrow> False)) (ev_tags e)"

definition matches_event :: "nostr_filter \<Rightarrow> event \<Rightarrow> bool" where
  "matches_event f e \<longleftrightarrow>
     opt_all (\<lambda>since. \<not> ev_created_at e < since) (f_since f) \<and>
     opt_all (\<lambda>until. \<not> until < ev_created_at e) (f_until f) \<and>
     opt_all (\<lambda>kinds. ev_kind e \<in> set kinds) (f_kinds f) \<and>
     opt_all (\<lambda>ids. ev_id e \<in> set ids) (f_ids f) \<and>
     opt_all (\<lambda>authors. ev_pubkey e \<in> set authors) (f_authors f) \<and>
     list_all (tag_matches e) (f_tags f)"

section \<open>Querying the store\<close>

definition nonempty :: "'a list option \<Rightarrow> bool" where
  "nonempty v = (case v of Some xs \<Rightarrow> xs \<noteq> [] | None \<Rightarrow> False)"

definition use_ids :: "nostr_filter \<Rightarrow> bool" where
  "use_ids f = nonempty (f_ids f)"

definition use_e_tags :: "nostr_filter \<Rightarrow> bool" where
  "use_e_tags f \<longleftrightarrow> nonempty (f_e_bytes f) \<or> nonempty (filter_e_tags f)"

definition use_p_tags :: "nostr_filter \<Rightarrow> bool" where
  "use_p_tags f \<longleftrightarrow> nonempty (f_p_bytes f) \<or> nonempty (filter_p_tags f)"

definition has_generic_tags :: "nostr_filter \<Rightarrow> bool" where
  "has_generic_tags f =
     list_ex (\<lambda>lv. fst lv \<noteq> ''e'' \<and> fst lv \<noteq> ''p'' \<and> snd lv \<noteq> []) (f_tags f)"

definition in_window :: "nostr_filter \<Rightarrow> event \<Rightarrow> bool" where
  "in_window f e \<longleftrightarrow>
     opt_all (\<lambda>since. since \<le> ev_created_at e) (f_since f) \<and>
     opt_all (\<lambda>until. ev_created_at e \<le> until) (f_until f)"

text \<open>The candidates that the chosen index yields; \<open>None\<close> would be a panic of \<open>get_newest\<close>.\<close>

definition filter_candidates ::
    "'x ext_scheme \<Rightarrow> event_index \<Rightarrow> nostr_filter \<Rightarrow> event list option" where
  "filter_candidates X s f =
     (let lim = unat (case f_limit f of Some l \<Rightarrow> l | None \<Rightarrow> - 1) in
      if use_ids f then
        Some (case f_ids f of
                Some ids \<Rightarrow>
                  List.map_filter
                    (\<lambda>i. case index_get s i of
                           Some e \<Rightarrow> if in_window f e then Some e else None | None \<Rightarrow> None) ids
              | None \<Rightarrow> [])
      else if use_e_tags f then
        Some (case f_e_bytes f of
                Some bs \<Rightarrow> concat (map (\<lambda>b. query_by_e_tag s b lim) bs)
              | None \<Rightarrow>
                  (case filter_e_tags f of
                     Some vals \<Rightarrow> concat (map (\<lambda>b. query_by_e_tag s b lim) (hex_values X vals))
                   | None \<Rightarrow> []))
      else if use_p_tags f then
        Some (case f_p_bytes f of
                Some bs \<Rightarrow> concat (map (\<lambda>b. query_by_p_tag s b lim) bs)
              | None \<Rightarrow>
                  (case filter_p_tags f of
                     Some vals \<Rightarrow> concat (map (\<lambda>b. query_by_p_tag s b lim) (hex_values X vals))
                   | None \<Rightarrow> []))
      else if has_generic_tags f then
        Some (case find (\<lambda>l. l \<noteq> ''e'' \<and> l \<noteq> ''p'') (map fst (f_tags f)) of
                Some letter \<Rightarrow>
                  (case map_of (f_tags f) letter of
                     Some values \<Rightarrow> concat (map (\<lambda>v. query_by_tag s letter v lim) values)
                   | None \<Rightarrow> [])
              | None \<Rightarrow> [])
      else if nonempty (f_authors f) then
        Some (case f_authors f of
                Some authors \<Rightarrow>
                  concat (map (\<lambda>a. case f_since f of
                                     Some since \<Rightarrow> query_by_pubkey_since s a since lim
                                   | None \<Rightarrow> query_by_pubkey s a lim) authors)
              | None \<Rightarrow>
                  (case filter_p_tags f of
                     Some vals \<Rightarrow> concat (map (\<lambda>b. query_by_pubkey s b lim) (hex_values X vals))
                   | None \<Rightarrow> []))
      else if nonempty (f_kinds f) then
        Some (case f_kinds f of
                Some kinds \<Rightarrow> concat (map (\<lambda>k. query_by_kind s k lim) kinds) | None \<Rightarrow> [])
      else get_newest s lim)"

text \<open>The conditions applied to every candidate, with the tag filters that are skipped.\<close>

definition tag_skipped :: "nostr_filter \<Rightarrow> string \<Rightarrow> bool" where
  "tag_skipped f letter \<longleftrightarrow>
     use_ids f \<or> (use_e_tags f \<and> letter = ''e'') \<or> (use_p_tags f \<and> letter = ''p'') \<or>
     (has_generic_tags f \<and> letter \<noteq> ''e'' \<and> letter \<noteq> ''p'')"

definition candidate_matches :: "nostr_filter \<Rightarrow> event \<Rightarrow> bool" where
  "candidate_matches f e \<longleftrightarrow>
     in_window f e \<and>
     opt_all (\<lambda>kinds. ev_kind e \<in> set kinds) (f_kinds f) \<and>
     opt_all (\<lambda>authors. ev_pubkey e \<in> set authors) (f_authors f) \<and>
     list_all (\<lambda>lv. tag_skipped f (fst lv) \<or> tag_matches e lv) (f_tags f)"

text \<open>The loop over the candidates with the set of ids already returned.\<close>

fun collect_results :: "nostr_filter \<Rightarrow> event list \<Rightarrow> bytes set \<Rightarrow> event list" where
  "collect_results f [] seen = []"
| "collect_results f (e # es) seen =
     (if candidate_matches f e \<and> ev_id e \<notin> seen
      then e # collect_results f es (insert (ev_id e) seen)
      else collect_results f es seen)"

definition query_filter :: "'x ext_scheme \<Rightarrow> event_store \<Rightarrow> nostr_filter \<Rightarrow> event list option" where
  "query_filter X st f =
     map_option
       (\<lambda>cs. let rs = collect_results f cs {} in
             case f_limit f of Some lim \<Rightarrow> take (unat lim) rs | None \<Rightarrow> rs)
       (filter_candidates X (st_index st) f)"

end
