(* ===== verification/Subscription_Queries.thy ===== *)
theory Subscription_Queries
  imports Subscription
begin

text \<open>
  What a REQ returns: never a duplicate, never more than the limit, only stored events that pass
  the conditions the query checks; for filters without a limit whose tag conditions the chosen
  index covers, exactly the stored events that match. Then the cases in which query and live
  matching disagree, and the round trip of the wire format.
\<close>

section \<open>The result loop\<close>

lemma collect_results_set:
  "e \<in> set (collect_results f es seen) \<Longrightarrow>
   e \<in> set es \<and> candidate_matches f e \<and> ev_id e \<notin> seen"
  by (induction es arbitrary: seen) (auto split: if_splits)

lemma collect_results_distinct: "distinct (map ev_id (collect_results f es seen))"
  by (induction es arbitrary: seen) (auto dest: collect_results_set)

lemma collect_results_complete:
  assumes "e \<in> set es" "candidate_matches f e" "ev_id e \<notin> seen" "inj_on ev_id (set es)"
  shows "e \<in> set (collect_results f es seen)"
  using assms
proof (induction es arbitrary: seen)
  case (Cons a es)
  show ?case
  proof (cases "e = a")
    case False
    then have e: "e \<in> set es" using Cons.prems by simp
    then have "ev_id e \<noteq> ev_id a" using False inj_onD [OF Cons.prems(4), of e a] by auto
    with Cons.IH [OF e] Cons.prems show ?thesis by simp
  qed (use Cons in simp)
qed simp

section \<open>Newest events without a limit\<close>

lemma newest_loop_room:
  "length h + length rs \<le> n \<Longrightarrow>
   \<exists>h'. newest_loop n rs h = Some h' \<and> mset h' = mset h + mset rs \<and>
     length h' = length h + length rs"
proof (induction rs arbitrary: h)
  case (Cons r rs)
  have "length h < n" using Cons.prems by simp
  with Cons.IH [of "heap_push rev_less r h"] Cons.prems show ?case by auto
qed simp

lemma newest_shards_room:
  "length h + length (concat shs) \<le> n \<Longrightarrow>
   \<exists>h'. newest_shards n shs h = Some h' \<and> mset h' = mset h + mset (concat shs) \<and>
     length h' = length h + length (concat shs)"
proof (induction shs arbitrary: h)
  case (Cons sh shs)
  then obtain h1 where h1: "newest_loop n sh h = Some h1" "mset h1 = mset h + mset sh"
      "length h1 = length h + length sh"
    using newest_loop_room [of h sh n] by auto
  with Cons.IH [of h1] Cons.prems show ?case by (auto simp: ac_simps)
qed simp

text \<open>With room for every event \<open>get_newest\<close> drops nothing.\<close>

lemma get_newest_all:
  assumes "index_inv X U s" "card (stored s) \<le> n" "0 < n"
  shows "\<exists>es. get_newest s n = Some es \<and> set es = stored s"
proof -
  note part = oldest_partition [OF sec_allD(6,7) [OF index_inv_sec [OF assms(1)]]]
  have "length (concat (by_oldest s)) = card (stored s)"
    using distinct_card [OF part(1)] part(2) by (simp add: card_image inj_on_def)
  then obtain h where h: "newest_shards n (by_oldest s) [] = Some h"
      "mset h = mset (concat (by_oldest s))"
    using newest_shards_room [of "[]" "by_oldest s" n] assms(2) by auto
  have "set h = eref_new ` stored s" using mset_eq_setD [OF h(2)] part(2) by simp
  with h(1) assms(3) show ?thesis by (simp add: get_newest_def image_image)
qed

text \<open>It never panics.\<close>

lemma newest_loop_total:
  "0 < n \<Longrightarrow> \<exists>h'. newest_loop n rs h = Some h' \<and> set h' \<subseteq> set h \<union> set rs"
proof (induction rs arbitrary: h)
  case (Cons r rs)
  show ?case
  proof (cases "length h < n")
    case True
    with Cons.IH [OF Cons.prems, of "heap_push rev_less r h"] show ?thesis by auto
  next
    case False
    then obtain p h' where h: "h = p # h'" using Cons.prems by (cases h) auto
    with False Cons.IH [OF Cons.prems, of "heap_push rev_less r h'"] show ?thesis by auto
  qed
qed simp

lemma newest_shards_total:
  "0 < n \<Longrightarrow> \<exists>h'. newest_shards n shs h = Some h' \<and> set h' \<subseteq> set h \<union> set (concat shs)"
proof (induction shs arbitrary: h)
  case (Cons sh shs)
  obtain h1 where h1: "newest_loop n sh h = Some h1" "set h1 \<subseteq> set h \<union> set sh"
    using newest_loop_total [OF Cons.prems] by blast
  with Cons.IH [OF Cons.prems, of h1] show ?case by auto
qed simp

lemma get_newest_total:
  assumes "index_inv X U s"
  shows "\<exists>es. get_newest s n = Some es \<and> set es \<subseteq> stored s"
proof (cases "n = 0")
  case False
  note part = oldest_partition [OF sec_allD(6,7) [OF index_inv_sec [OF assms]]]
  obtain h where "newest_shards n (by_oldest s) [] = Some h" "set h \<subseteq> set (concat (by_oldest s))"
    using newest_shards_total [of n "by_oldest s" "[]"] False by auto
  with False show ?thesis
    unfolding part(2) by (auto simp: get_newest_def)
qed (simp add: get_newest_def)

section \<open>Soundness\<close>

definition within :: "event set \<Rightarrow> event list option \<Rightarrow> bool" where
  "within A r \<longleftrightarrow> (\<exists>cs. r = Some cs \<and> set cs \<subseteq> A)"

lemma within_intros:
  "(b \<Longrightarrow> within A x) \<Longrightarrow> (\<not> b \<Longrightarrow> within A y) \<Longrightarrow> within A (if b then x else y)"
  "set cs \<subseteq> A \<Longrightarrow> within A (Some cs)"
  by (auto simp: within_def)

lemma subset_intros:
  "set x \<subseteq> A \<Longrightarrow> (\<And>y. set (g y) \<subseteq> A) \<Longrightarrow> set (case v of None \<Rightarrow> x | Some y \<Rightarrow> g y) \<subseteq> A"
  "(\<And>y. set (g y) \<subseteq> A) \<Longrightarrow> set (concat (map g ys)) \<subseteq> A"
  "set [] \<subseteq> A"
  by (auto split: option.splits)

lemma id_candidates_set:
  "set (List.map_filter (\<lambda>i. case index_get s i of
     Some e \<Rightarrow> if in_window f e then Some e else None | None \<Rightarrow> None) is) =
   {e. \<exists>i \<in> set is. by_id s i = Some e \<and> in_window f e}"
proof -
  have "(case index_get s i of Some e \<Rightarrow> if in_window f e then Some e else None | None \<Rightarrow> None) = Some e
      \<longleftrightarrow> by_id s i = Some e \<and> in_window f e" for i e
    by (cases "by_id s i") (auto simp: index_get_def)
  then show ?thesis by (simp add: map_filter_set)
qed

lemma candidates_stored:
  assumes "index_inv X U s"
  shows "within (stored s) (filter_candidates X s f)"
proof -
  note ans = answers_subset [OF query_by_e_tag_answers [OF assms]]
    answers_subset [OF query_by_p_tag_answers [OF assms]]
    answers_subset [OF query_by_tag_answers [OF assms]]
    answers_subset [OF query_by_pubkey_answers [OF assms]]
    answers_subset [OF query_by_pubkey_since_answers [OF assms]]
    answers_subset [OF query_by_kind_answers [OF assms]]
  have q: "set (query_by_e_tag s i n) \<subseteq> stored s" "set (query_by_p_tag s i n) \<subseteq> stored s"
    "set (query_by_tag s l v n) \<subseteq> stored s" "set (query_by_pubkey s i n) \<subseteq> stored s"
    "set (query_by_pubkey_since s i t n) \<subseteq> stored s" "set (query_by_kind s k n) \<subseteq> stored s"
    for i n l v t k
    using ans(1) [of i n] ans(2) [of i n] ans(3) [of l v n] ans(4) [of i n] ans(5) [of i t n]
      ans(6) [of k n] by blast+
  have ids: "set (List.map_filter (\<lambda>i. case index_get s i of
      Some e \<Rightarrow> if in_window f e then Some e else None | None \<Rightarrow> None) is) \<subseteq> stored s" for "is"
    unfolding id_candidates_set using by_id_stored by blast
  have newest: "within (stored s) (get_newest s n)" for n
    using get_newest_total [OF assms] by (simp add: within_def)
  show ?thesis
    unfolding filter_candidates_def Let_def
    by (intro within_intros subset_intros ids q newest)
qed

text \<open>
  A query never panics; what it returns is stored, has distinct ids, is within the limit and passes
  the time, kind and author conditions.
\<close>

lemma query_filter_sound:
  assumes "index_inv X U (st_index st)"
  shows "\<exists>rs. query_filter X st f = Some rs \<and> set rs \<subseteq> stored (st_index st) \<and>
     distinct (map ev_id rs) \<and> (\<forall>e \<in> set rs. candidate_matches f e) \<and>
     opt_all (\<lambda>lim. length rs \<le> unat lim) (f_limit f)"
proof -
  obtain cs where cs: "filter_candidates X (st_index st) f = Some cs" "set cs \<subseteq> stored (st_index st)"
    using candidates_stored [OF assms] by (auto simp: within_def)
  let ?rs = "collect_results f cs {}"
  have rs: "set ?rs \<subseteq> stored (st_index st)" "\<forall>e \<in> set ?rs. candidate_matches f e"
    using collect_results_set cs(2) by blast+
  have tk: "distinct (map ev_id (take n ?rs))" "set (take n ?rs) \<subseteq> set ?rs" for n
    using collect_results_distinct [of f cs "{}"] by (simp_all add: take_map [symmetric] set_take_subset)
  show ?thesis
  proof (cases "f_limit f")
    case None
    then show ?thesis
      using cs(1) rs collect_results_distinct [of f cs "{}"]
      by (simp add: query_filter_def opt_all_def Let_def)
  next
    case (Some lim)
    then have "query_filter X st f = Some (take (unat lim) ?rs)"
      using cs(1) by (simp add: query_filter_def Let_def)
    moreover have "set (take (unat lim) ?rs) \<subseteq> stored (st_index st)"
      "\<forall>e \<in> set (take (unat lim) ?rs). candidate_matches f e"
      using tk(2) [of "unat lim"] rs by blast+
    ultimately show ?thesis using tk(1) [of "unat lim"] Some by (simp add: opt_all_def)
  qed
qed

section \<open>Completeness\<close>

text \<open>
  The filters for which the query and live matching agree: no empty list of ids, and either no tag
  filter, or one on a letter other than \<open>e\<close> and \<open>p\<close> and then no ids.
\<close>

definition agreeable :: "nostr_filter \<Rightarrow> bool" where
  "agreeable f \<longleftrightarrow>
     f_ids f \<noteq> Some [] \<and> f_e_bytes f = None \<and> f_p_bytes f = None \<and>
     (f_tags f = [] \<or>
      (f_ids f = None \<and>
       (\<exists>l vs. f_tags f = [(l, vs)] \<and> l \<noteq> ''e'' \<and> l \<noteq> ''p'' \<and> vs \<noteq> [])))"

text \<open>The number of events a filter asks for at most.\<close>

definition filter_limit :: "nostr_filter \<Rightarrow> nat" where
  "filter_limit f = unat (case f_limit f of Some l \<Rightarrow> l | None \<Rightarrow> - 1)"

lemma not_less_window: "in_window f e \<longleftrightarrow>
    opt_all (\<lambda>since. \<not> ev_created_at e < since) (f_since f) \<and>
    opt_all (\<lambda>until. \<not> until < ev_created_at e) (f_until f)"
  by (simp add: in_window_def opt_all_def not_less split: option.splits)

lemma other_tag_iff:
  "other_tag t = Some (l, v) \<longleftrightarrow>
   single_char (tag_name t) = Some l \<and> l \<noteq> ''e'' \<and> l \<noteq> ''p'' \<and> tag_value t = Some v"
  by (cases "single_char (tag_name t)"; cases "tag_value t") (auto simp: other_tag_def)

lemma tag_matches_iff:
  "tag_matches e (l, vs) \<longleftrightarrow>
   (\<exists>t \<in> set (ev_tags e). \<exists>v \<in> set vs. single_char (tag_name t) = Some l \<and> tag_value t = Some v)"
  unfolding tag_matches_def list_ex_iff by (auto split: option.splits)

lemma other_keys_match:
  assumes "l \<noteq> ''e''" "l \<noteq> ''p''"
  shows "tag_matches e (l, vs) \<longleftrightarrow> (\<exists>v \<in> set vs. (l, v) \<in> other_keys e)"
  unfolding tag_matches_iff map_filter_set using assms by (auto simp: other_tag_iff)

text \<open>For such a filter the candidates hold every event that matches.\<close>

lemma query_all:
  assumes "index_inv X U s" "card (stored s) \<le> n" "answers {e \<in> stored s. P e} n es"
  shows "set es = {e \<in> stored s. P e}"
proof -
  have fin: "finite (stored s)" by (rule index_core_facts(1) [OF index_invD(1) [OF assms(1)]])
  then have "card {e \<in> stored s. P e} \<le> card (stored s)" by (intro card_mono) auto
  then show ?thesis using assms(2) fin by (intro answers_complete [OF assms(3)]) auto
qed

lemma max_usize: "unat (- 1 :: usize) = 2 ^ 64 - 1"
  by (simp add: unsigned_minus_1_eq_mask mask_eq_exp_minus_1)

lemma unlimited_filter: "f_limit f = None \<Longrightarrow> card E < 2 ^ 64 \<Longrightarrow> card E \<le> filter_limit f"
  by (simp add: filter_limit_def max_usize)

lemma agreeable_branch:
  assumes "agreeable f"
  shows "\<not> use_e_tags f" "\<not> use_p_tags f"
    "use_ids f \<longleftrightarrow> f_ids f \<noteq> None" "has_generic_tags f \<longleftrightarrow> f_tags f \<noteq> []"
  using assms
  by (auto simp: agreeable_def use_e_tags_def use_p_tags_def use_ids_def has_generic_tags_def
      nonempty_def filter_e_tags_def filter_p_tags_def split: option.splits)

lemma candidates_cover:
  assumes inv: "index_inv X U s" and small: "card (stored s) \<le> filter_limit f" and ok: "agreeable f"
    and e: "e \<in> stored s" "matches_event f e" and cs: "filter_candidates X s f = Some cs"
  shows "e \<in> set cs"
proof -
  note br = agreeable_branch [OF ok] and all = query_all [OF inv small]
  let ?n = "filter_limit f"
  have self: "by_id s (ev_id e) = Some e" using e(1) stored_iff [OF index_invD(1) [OF inv]] by simp
  have win: "in_window f e" using e(2) by (simp add: matches_event_def not_less_window)
  note unf = cs [unfolded filter_candidates_def Let_def filter_limit_def [symmetric]]
  consider ids where "f_ids f = Some ids"
    | l vs where "f_ids f = None" "f_tags f = [(l, vs)]" "l \<noteq> ''e''" "l \<noteq> ''p''"
    | as where "f_ids f = None" "f_tags f = []" "f_authors f = Some as" "as \<noteq> []"
    | ks where "f_ids f = None" "f_tags f = []" "\<not> nonempty (f_authors f)" "f_kinds f = Some ks" "ks \<noteq> []"
    | "f_ids f = None" "f_tags f = []" "\<not> nonempty (f_authors f)" "\<not> nonempty (f_kinds f)"
    using ok unfolding agreeable_def nonempty_def
    by (cases "f_ids f"; cases "f_authors f"; cases "f_kinds f") (auto split: if_splits)
  then show ?thesis
  proof cases
    case 1
    then have "ev_id e \<in> set ids" using e(2) by (simp add: matches_event_def opt_all_def)
    moreover have "cs = List.map_filter (\<lambda>i. case index_get s i of
        Some e \<Rightarrow> if in_window f e then Some e else None | None \<Rightarrow> None) ids"
      using unf 1 br by simp
    ultimately show ?thesis using self win by (auto simp: id_candidates_set)
  next
    case 2
    then obtain v where v: "v \<in> set vs" "(l, v) \<in> other_keys e"
      using e(2) by (auto simp: matches_event_def other_keys_match [OF 2(3,4)])
    have "e \<in> set (query_by_tag s l v ?n)"
      using all [OF query_by_tag_answers [OF inv, of l v ?n]] v(2) e(1) by auto
    with unf 2 br v(1) show ?thesis by auto
  next
    case 3
    then have a: "ev_pubkey e \<in> set as" using e(2) by (simp add: matches_event_def opt_all_def)
    have "e \<in> set (case f_since f of
        Some t \<Rightarrow> query_by_pubkey_since s (ev_pubkey e) t ?n | None \<Rightarrow> query_by_pubkey s (ev_pubkey e) ?n)"
      using e(1) win all [OF query_by_pubkey_answers [OF inv, of "ev_pubkey e" ?n]]
        all [OF query_by_pubkey_since_answers [OF inv, of "ev_pubkey e" _ ?n]]
      by (auto simp: in_window_def opt_all_def split: option.splits)
    with unf 3 br a show ?thesis by (auto simp: nonempty_def)
  next
    case 4
    then have k: "ev_kind e \<in> set ks" using e(2) by (simp add: matches_event_def opt_all_def)
    have "e \<in> set (query_by_kind s (ev_kind e) ?n)"
      using e(1) all [OF query_by_kind_answers [OF inv, of "ev_kind e" ?n]] by auto
    with unf 4 br k show ?thesis by (auto simp: nonempty_def)
  next
    case 5
    have "finite (stored s)" by (rule index_core_facts(1) [OF index_invD(1) [OF inv]])
    then have "0 < card (stored s)" using e(1) by (auto simp: card_gt_0_iff)
    then obtain es where "get_newest s ?n = Some es" "set es = stored s"
      using get_newest_all [OF inv, of ?n] small by auto
    with unf 5 br e(1) show ?thesis by simp
  qed
qed

text \<open>The conditions the query skips hold of every candidate of the chosen index.\<close>

lemma candidates_by_id:
  assumes "index_inv X U s" "agreeable f" "f_ids f = Some ids" "e \<in> set cs"
    and "filter_candidates X s f = Some cs"
  shows "ev_id e \<in> set ids"
proof -
  have "cs = List.map_filter (\<lambda>i. case index_get s i of
      Some e \<Rightarrow> if in_window f e then Some e else None | None \<Rightarrow> None) ids"
    using assms(3,5) agreeable_branch [OF assms(2)] by (simp add: filter_candidates_def)
  then show ?thesis
    using assms(4) by_id_id [OF index_invD(1) [OF assms(1)]] by (auto simp: id_candidates_set)
qed

lemma candidates_by_tag:
  assumes inv: "index_inv X U s" and ok: "agreeable f" and tags: "f_tags f = [(l, vs)]"
    and cs: "filter_candidates X s f = Some cs" and e: "e \<in> set cs"
  shows "tag_matches e (l, vs)"
proof -
  have l: "l \<noteq> ''e''" "l \<noteq> ''p''" "f_ids f = None" using ok tags by (auto simp: agreeable_def)
  obtain v n where "v \<in> set vs" "e \<in> set (query_by_tag s l v n)"
    using cs e agreeable_branch [OF ok] tags l by (auto simp: filter_candidates_def Let_def)
  with answers_subset [OF query_by_tag_answers [OF inv]] show ?thesis
    unfolding other_keys_match [OF l(1,2)] by blast
qed

lemma agreeable_matches:
  assumes "index_inv X U s" "agreeable f" "filter_candidates X s f = Some cs" "e \<in> set cs"
  shows "candidate_matches f e \<longleftrightarrow> matches_event f e"
proof -
  have "opt_all (\<lambda>ids. ev_id e \<in> set ids) (f_ids f)"
    using candidates_by_id [OF assms(1,2) _ assms(4,3)] by (simp add: opt_all_def split: option.splits)
  moreover have "list_all (tag_matches e) (f_tags f)"
    using assms(2) candidates_by_tag [OF assms(1,2) _ assms(3,4)] by (auto simp: agreeable_def)
  moreover from this have "list_all (\<lambda>lv. tag_skipped f (fst lv) \<or> tag_matches e lv) (f_tags f)"
    by (auto elim: list.pred_mono_strong)
  ultimately show ?thesis
    by (auto simp: candidate_matches_def matches_event_def not_less_window)
qed

text \<open>A query is exact when its candidates hold what matches and the conditions it skips hold of them.\<close>

lemma query_exactI:
  assumes inv: "index_inv X U (st_index st)" and lim: "card (stored (st_index st)) \<le> filter_limit f"
    and cover: "\<And>cs e. filter_candidates X (st_index st) f = Some cs \<Longrightarrow> e \<in> stored (st_index st) \<Longrightarrow>
      matches_event f e \<Longrightarrow> e \<in> set cs"
    and checks: "\<And>cs e. filter_candidates X (st_index st) f = Some cs \<Longrightarrow> e \<in> set cs \<Longrightarrow>
      candidate_matches f e \<longleftrightarrow> matches_event f e"
  shows "\<exists>rs. query_filter X st f = Some rs \<and> distinct rs \<and>
     set rs = {e \<in> stored (st_index st). matches_event f e}"
proof -
  let ?s = "st_index st"
  obtain cs where cs: "filter_candidates X ?s f = Some cs" "set cs \<subseteq> stored ?s"
    using candidates_stored [OF inv] by (auto simp: within_def)
  have inj: "inj_on ev_id (set cs)"
    using stored_inj [OF index_invD(1) [OF inv]] cs(2) by (rule inj_on_subset)
  let ?rs = "collect_results f cs {}"
  have "set ?rs = {e \<in> stored ?s. matches_event f e}"
  proof (intro equalityI subsetI)
    fix e assume "e \<in> set ?rs"
    then have "e \<in> set cs" "candidate_matches f e" using collect_results_set by blast+
    then show "e \<in> {e \<in> stored ?s. matches_event f e}" using checks [OF cs(1)] cs(2) by blast
  next
    fix e assume "e \<in> {e \<in> stored ?s. matches_event f e}"
    then have "e \<in> set cs" "matches_event f e" using cover [OF cs(1)] by auto
    then show "e \<in> set ?rs" using checks [OF cs(1)] inj by (intro collect_results_complete) auto
  qed
  moreover have dist: "distinct ?rs"
    using collect_results_distinct [of f cs "{}"] by (simp add: distinct_map)
  moreover have "length ?rs \<le> filter_limit f"
  proof -
    have "finite (stored ?s)" by (rule index_core_facts(1) [OF index_invD(1) [OF inv]])
    moreover have "set ?rs \<subseteq> stored ?s" using collect_results_set cs(2) by blast
    ultimately have "card (set ?rs) \<le> card (stored ?s)" by (rule card_mono)
    then show ?thesis using lim distinct_card [OF dist] by simp
  qed
  ultimately show ?thesis
    using cs(1) by (auto simp: query_filter_def Let_def filter_limit_def split: option.splits)
qed

lemma query_filter_exact:
  assumes "index_inv X U (st_index st)" "card (stored (st_index st)) \<le> filter_limit f" "agreeable f"
  shows "\<exists>rs. query_filter X st f = Some rs \<and> distinct rs \<and>
     set rs = {e \<in> stored (st_index st). matches_event f e}"
  using candidates_cover [OF assms] agreeable_matches [OF assms(1,3)]
  by (intro query_exactI [OF assms(1,2)]) auto

section \<open>Where the query and live matching disagree\<close>

text \<open>A query by id returns the event whatever its tags are.\<close>

lemma query_ids_ignores_tags:
  assumes "index_inv X U (st_index st)" "e \<in> stored (st_index st)"
  shows "query_filter X st (filter_default\<lparr>f_ids := Some [ev_id e], f_tags := tfs\<rparr>) = Some [e]"
proof -
  have "by_id (st_index st) (ev_id e) = Some e"
    using assms stored_iff [OF index_invD(1) [OF assms(1)]] by simp
  then show ?thesis
    by (simp add: query_filter_def filter_candidates_def Let_def use_ids_def nonempty_def
        filter_default_def index_get_def in_window_def opt_all_def candidate_matches_def
        tag_skipped_def list_all_iff)
qed

text \<open>An empty list of ids matches no live event but does not restrict the query.\<close>

lemma query_empty_ids:
  assumes "index_inv X U (st_index st)" "card (stored (st_index st)) < 2 ^ 64"
  shows "\<exists>rs. query_filter X st (filter_default\<lparr>f_ids := Some []\<rparr>) = Some rs \<and>
     set rs = stored (st_index st)"
proof -
  obtain rs where rs: "query_filter X st filter_default = Some rs"
      "set rs = {e \<in> stored (st_index st). matches_event filter_default e}"
    using query_filter_exact [OF assms(1), of filter_default] unlimited_filter [OF _ assms(2)]
    by (auto simp: agreeable_def filter_default_def)
  moreover have "matches_event filter_default e" for e
    by (simp add: matches_event_def filter_default_def opt_all_def)
  moreover have "collect_results (filter_default\<lparr>f_ids := Some []\<rparr>) cs seen =
      collect_results filter_default cs seen" for cs seen
    by (induction cs arbitrary: seen)
      (simp_all add: candidate_matches_def filter_default_def in_window_def)
  moreover have "filter_candidates X (st_index st) (filter_default\<lparr>f_ids := Some []\<rparr>) =
      filter_candidates X (st_index st) filter_default"
    by (simp add: filter_candidates_def Let_def use_ids_def use_e_tags_def use_p_tags_def
        has_generic_tags_def nonempty_def filter_default_def filter_e_tags_def filter_p_tags_def)
  ultimately show ?thesis by (auto simp: query_filter_def filter_default_def Let_def)
qed

section \<open>Round trip of the wire format\<close>

text \<open>What serde documents of the typed accessors: they read back what was serialized.\<close>

definition serde_ok :: "'j serde \<Rightarrow> (filter_value \<Rightarrow> 'j) \<Rightarrow> bool" where
  "serde_ok J enc \<longleftrightarrow>
     (\<forall>xs. as_strings J (enc (V_hexes xs)) = Some xs) \<and>
     (\<forall>xs. as_strings J (enc (V_strings xs)) = Some xs) \<and>
     (\<forall>xs. as_kinds J (enc (V_kinds xs)) = Some xs) \<and>
     (\<forall>x. as_u64 J (enc (V_u64 x)) = Some x) \<and> (\<forall>x. as_usize J (enc (V_usize x)) = Some x)"

definition wire :: "(filter_value \<Rightarrow> 'j) \<Rightarrow> (string \<times> filter_value) list \<Rightarrow> (string \<times> 'j) list" where
  "wire enc = map (\<lambda>(k, v). (k, enc v))"

text \<open>A filter as it comes from the wire: 32-byte ids and authors, one entry per tag letter.\<close>

definition filter_wf :: "nostr_filter \<Rightarrow> bool" where
  "filter_wf f \<longleftrightarrow>
     opt_all (list_all (\<lambda>i. length i = 32)) (f_ids f) \<and>
     opt_all (list_all (\<lambda>i. length i = 32)) (f_authors f) \<and>
     list_all (\<lambda>lv. chars (fst lv) = [fst lv]) (f_tags f) \<and> distinct (map fst (f_tags f)) \<and>
     f_e_bytes f = None \<and> f_p_bytes f = None"

lemma hex32_round:
  "hex_ok X \<Longrightarrow> list_all (\<lambda>i. length i = 32) is \<Longrightarrow>
   map_opt (hex32_visit_str X) (map (hex_encode X) is) = Some is"
  by (induction "is") (simp_all add: hex32_visit_str_def hex_ok_def)

lemma hex32s_round:
  assumes "hex_ok X" "serde_ok J enc" "list_all (\<lambda>i. length i = 32) is"
  shows "as_hex32s X J (enc (V_hexes (map (hex_encode X) is))) = Some is"
  using assms hex32_round [OF assms(1,3)] by (simp add: as_hex32s_def serde_ok_def)

lemma wire_simps [simp]: "wire enc [] = []" "wire enc ((k, v) # r) = (k, enc v) # wire enc r"
  "wire enc (a @ b) = wire enc a @ wire enc b"
  by (simp_all add: wire_def)

lemma entry_insert_new: "l \<notin> fst ` set kvs \<Longrightarrow> entry_insert l v kvs = kvs @ [(l, v)]"
  by (induction kvs) auto

lemma visit_tags:
  assumes "serde_ok J enc" "list_all (\<lambda>lv. chars (fst lv) = [fst lv]) tfs" "distinct (map fst tfs)"
    and "fst ` set tfs \<inter> fst ` set (f_tags f) = {}"
  shows "fold_opt (visit_entry X J)
      (wire enc (map (\<lambda>(l, vs). (CHR ''#'' # l, V_strings vs)) tfs)) f =
    Some (f\<lparr>f_tags := f_tags f @ tfs\<rparr>)"
  using assms(2-)
proof (induction tfs arbitrary: f)
  case (Cons lv tfs)
  obtain l vs where lv: "lv = (l, vs)" by (cases lv)
  let ?f = "f\<lparr>f_tags := f_tags f @ [(l, vs)]\<rparr>"
  have "visit_entry X J (CHR ''#'' # l, enc (V_strings vs)) f = Some ?f"
    using Cons.prems assms(1) entry_insert_new [of l "f_tags f" vs]
    by (auto simp: visit_entry_def lv serde_ok_def)
  moreover have "fold_opt (visit_entry X J)
      (wire enc (map (\<lambda>(l, vs). (CHR ''#'' # l, V_strings vs)) tfs)) ?f =
      Some (?f\<lparr>f_tags := f_tags ?f @ tfs\<rparr>)"
    using Cons.prems by (intro Cons.IH) (auto simp: lv)
  ultimately show ?case by (simp add: lv)
qed (simp add: wire_def)

text \<open>Deserialization undoes serialization.\<close>

lemma filter_round_trip:
  assumes X: "hex_ok X" and J: "serde_ok J enc" and wf: "filter_wf f"
  shows "visit_map X J (wire enc (serialize_filter X f)) = Some f"
proof -
  obtain ids kinds as tags since til lim eb pb where f: "f = \<lparr>f_ids = ids, f_kinds = kinds,
      f_authors = as, f_tags = tags, f_since = since, f_until = til, f_limit = lim,
      f_e_bytes = eb, f_p_bytes = pb\<rparr>" by (cases f)
  note ok = wf [unfolded filter_wf_def f nostr_filter.simps]
  have ids: "visit_entry X J (''ids'', enc (V_hexes (map (hex_encode X) x))) g =
      Some (g\<lparr>f_ids := Some x\<rparr>)" if "ids = Some x" for x g
    using ok hex32s_round [OF X J] that by (simp add: visit_entry_def opt_all_def)
  have as: "visit_entry X J (''authors'', enc (V_hexes (map (hex_encode X) x))) g =
      Some (g\<lparr>f_authors := Some x\<rparr>)" if "as = Some x" for x g
    using ok hex32s_round [OF X J] that by (simp add: visit_entry_def opt_all_def)
  have other: "visit_entry X J (''kinds'', enc (V_kinds ks)) g = Some (g\<lparr>f_kinds := Some ks\<rparr>)"
    "visit_entry X J (''since'', enc (V_u64 t)) g = Some (g\<lparr>f_since := Some t\<rparr>)"
    "visit_entry X J (''until'', enc (V_u64 t)) g = Some (g\<lparr>f_until := Some t\<rparr>)"
    "visit_entry X J (''limit'', enc (V_usize l)) g = Some (g\<lparr>f_limit := Some l\<rparr>)" for ks t l g
    using J by (simp_all add: visit_entry_def serde_ok_def)
  note vt = visit_tags [OF J, of tags _ X]
  show ?thesis
    unfolding visit_map_def serialize_filter_def f nostr_filter.simps wire_simps fold_opt_append
    using ok vt ids as other
    by (cases ids; cases kinds; cases as; cases since; cases til; cases lim)
      (simp_all add: opt_entry_def filter_default_def)
qed

end
