(* ===== verification/Filter_Queries.thy ===== *)
theory Filter_Queries
  imports Subscription_Queries
begin

text \<open>
  Queries of filters as the relay prepares them: \<open>#e\<close> and \<open>#p\<close> conditions, which go through keys of
  half the width of an id, and what a limit means for filters with one key and with several
  conditions.
\<close>

section \<open>References\<close>

text \<open>The ids that an event refers to by tags of one name.\<close>

definition refs_of :: "'x ext_scheme \<Rightarrow> string \<Rightarrow> event \<Rightarrow> bytes set" where
  "refs_of X l e =
     {b. \<exists>t \<in> set (ev_tags e). \<exists>w. tag_name t = l \<and> tag_value t = Some w \<and> parse_hex_32 X w = Some b}"

lemma tags_refs: "set (e_tags X e) = refs_of X ''e'' e" "set (p_tags X e) = refs_of X ''p'' e"
  by (force simp: e_tags_def p_tags_def map_filter_set refs_of_def bind_eq_Some_conv split: if_splits)+

text \<open>NIP-01 spells ids in lower case: a text that decodes is the encoding of what it decodes to.\<close>

definition lower_hex :: "'x ext_scheme \<Rightarrow> string \<Rightarrow> bool" where
  "lower_hex X w \<longleftrightarrow> (\<forall>b. hex_decode X w = Some b \<longrightarrow> w = hex_encode X b)"

text \<open>
  A condition on references that the index can answer for the events \<open>E\<close>: its values are ids, ids
  are spelt in lower case, and no two ids in sight have the same key.
\<close>

definition ref_condition :: "'x ext_scheme \<Rightarrow> event set \<Rightarrow> string \<Rightarrow> string list \<Rightarrow> bool" where
  "ref_condition X E l vs \<longleftrightarrow>
     (\<forall>v \<in> set vs. lower_hex X v \<and> (\<exists>b. hex_decode X v = Some b \<and> length b = 32)) \<and>
     (\<forall>e \<in> E. \<forall>t \<in> set (ev_tags e). \<forall>w. tag_name t = l \<and> tag_value t = Some w \<longrightarrow> lower_hex X w) \<and>
     inj_on tag_id_hash ((\<Union>e \<in> E. refs_of X l e) \<union> set (hex_values X vs))"

lemma hex_values_set: "b \<in> set (hex_values X vs) \<longleftrightarrow> (\<exists>v \<in> set vs. hex_decode X v = Some b \<and> length b = 32)"
  by (auto simp: hex_values_def map_filter_set split: option.splits if_splits)

lemma parse_hex_32_decode:
  "hex_ok X \<Longrightarrow> parse_hex_32 X w = Some b \<longleftrightarrow> hex_decode X w = Some b \<and> length b = 32"
  by (auto simp: hex_ok_def parse_hex_32_def split: option.splits if_splits)

lemma single_char_letter: "single_char s = Some ''e'' \<longleftrightarrow> s = ''e''" "single_char s = Some ''p'' \<longleftrightarrow> s = ''p''"
  using single_char_id [of s] by (auto simp: single_char_def utf8_len_def)

lemma ref_match:
  assumes "hex_ok X" "ref_condition X E l vs" "e \<in> E" "l \<in> {''e'', ''p''}"
  shows "tag_matches e (l, vs) \<longleftrightarrow> (\<exists>b \<in> set (hex_values X vs). tag_id_hash b \<in> tag_id_hash ` refs_of X l e)"
proof
  assume "tag_matches e (l, vs)"
  then obtain t v where t: "t \<in> set (ev_tags e)" "v \<in> set vs" "tag_name t = l" "tag_value t = Some v"
    using assms(4) single_char_letter by (auto simp: tag_matches_iff)
  moreover obtain b where "hex_decode X v = Some b" "length b = 32"
    using assms(2) t(2) by (auto simp: ref_condition_def)
  ultimately have "b \<in> set (hex_values X vs)" "b \<in> refs_of X l e"
    using parse_hex_32_decode [OF assms(1)] by (auto simp: hex_values_set refs_of_def)
  then show "\<exists>b \<in> set (hex_values X vs). tag_id_hash b \<in> tag_id_hash ` refs_of X l e" by blast
next
  assume "\<exists>b \<in> set (hex_values X vs). tag_id_hash b \<in> tag_id_hash ` refs_of X l e"
  then obtain b b' where b: "b \<in> set (hex_values X vs)" "b' \<in> refs_of X l e" "tag_id_hash b = tag_id_hash b'" by blast
  have "b = b'"
    using assms(2,3) b by (auto simp: ref_condition_def intro: inj_onD)
  then obtain t w v where t: "t \<in> set (ev_tags e)" "tag_name t = l" "tag_value t = Some w" "hex_decode X w = Some b"
    "v \<in> set vs" "hex_decode X v = Some b"
    using b(1,2) parse_hex_32_decode [OF assms(1)] by (auto simp: hex_values_set refs_of_def)
  have "lower_hex X w" "lower_hex X v" using assms(2,3) t(1-3,5) unfolding ref_condition_def by blast+
  then have "w = hex_encode X b" "v = hex_encode X b" using t(4,6) by (simp_all add: lower_hex_def)
  then have "tag_value t = Some v" using t(3) by simp
  moreover have "single_char (tag_name t) = Some l"
    using assms(4) single_char_letter [of "tag_name t"] unfolding t(2) by fastforce
  ultimately show "tag_matches e (l, vs)" using t(1,5) unfolding tag_matches_iff by blast
qed

text \<open>One condition, on \<open>#e\<close> or on \<open>#p\<close>, next to any others but ids.\<close>

definition one_ref :: "'x ext_scheme \<Rightarrow> event set \<Rightarrow> nostr_filter \<Rightarrow> bool" where
  "one_ref X E f \<longleftrightarrow>
     f_ids f = None \<and> f_e_bytes f = None \<and> f_p_bytes f = None \<and>
     (\<exists>l vs. f_tags f = [(l, vs)] \<and> l \<in> {''e'', ''p''} \<and> vs \<noteq> [] \<and> ref_condition X E l vs)"

lemma ref_values_nonempty: "ref_condition X E l vs \<Longrightarrow> vs \<noteq> [] \<Longrightarrow> hex_values X vs \<noteq> []"
  using hex_values_set [of _ X vs] unfolding ref_condition_def
  by (metis empty_iff empty_set hd_in_set)

text \<open>The index that is read for it, and what the planner makes of such a filter.\<close>

definition ref_read :: "event_index \<Rightarrow> string \<Rightarrow> bytes \<Rightarrow> nat \<Rightarrow> event list" where
  "ref_read s l b n = (if l = ''e'' then query_by_e_tag s b n else query_by_p_tag s b n)"

lemma ref_read_answers:
  assumes "index_inv X U s" "l \<in> {''e'', ''p''}"
  shows "answers {e \<in> stored s. tag_id_hash b \<in> tag_id_hash ` refs_of X l e} n (ref_read s l b n)"
  using assms(2) query_by_e_tag_answers [OF assms(1), of b n] query_by_p_tag_answers [OF assms(1), of b n]
  by (auto simp: ref_read_def tags_refs)

lemma one_ref_plan:
  assumes "one_ref X E f" "f_tags f = [(l, vs)]"
  shows "filter_candidates X s (parse_hex_values X f) =
      Some (concat (map (\<lambda>b. ref_read s l b (filter_limit f)) (hex_values X vs)))"
    and "candidate_matches (parse_hex_values X f) e \<longleftrightarrow>
      in_window f e \<and> opt_all (\<lambda>kinds. ev_kind e \<in> set kinds) (f_kinds f) \<and>
      opt_all (\<lambda>authors. ev_pubkey e \<in> set authors) (f_authors f)"
    and "matches_event (parse_hex_values X f) e \<longleftrightarrow> matches_event f e"
    and "f_limit (parse_hex_values X f) = f_limit f"
proof -
  have l: "l = ''e'' \<or> l = ''p''" and ne: "hex_values X vs \<noteq> []"
    using assms ref_values_nonempty by (auto simp: one_ref_def)
  have g: "parse_hex_values X f =
      (if l = ''e'' then f\<lparr>f_e_bytes := Some (hex_values X vs)\<rparr> else f\<lparr>f_p_bytes := Some (hex_values X vs)\<rparr>)"
    using l ne assms(2) by (auto simp: parse_hex_values_def filter_e_tags_def filter_p_tags_def)
  note defs = use_ids_def use_e_tags_def use_p_tags_def has_generic_tags_def nonempty_def filter_e_tags_def
    filter_p_tags_def filter_limit_def
  show "filter_candidates X s (parse_hex_values X f) =
      Some (concat (map (\<lambda>b. ref_read s l b (filter_limit f)) (hex_values X vs)))"
    using l ne assms unfolding g one_ref_def by (auto simp: filter_candidates_def ref_read_def Let_def defs)
  show "candidate_matches (parse_hex_values X f) e \<longleftrightarrow>
      in_window f e \<and> opt_all (\<lambda>kinds. ev_kind e \<in> set kinds) (f_kinds f) \<and>
      opt_all (\<lambda>authors. ev_pubkey e \<in> set authors) (f_authors f)"
    using l ne assms unfolding g one_ref_def
    by (auto simp: candidate_matches_def tag_skipped_def in_window_def defs)
  show "matches_event (parse_hex_values X f) e \<longleftrightarrow> matches_event f e" "f_limit (parse_hex_values X f) = f_limit f"
    unfolding g by (simp_all add: matches_event_def)
qed

lemma one_ref_exact:
  assumes "index_inv X U (st_index st)" "card (stored (st_index st)) \<le> filter_limit f" "hex_ok X"
    and ref: "one_ref X (stored (st_index st)) f"
  shows "\<exists>rs. query_filter X st (parse_hex_values X f) = Some rs \<and> distinct rs \<and>
     set rs = {e \<in> stored (st_index st). matches_event f e}"
proof -
  let ?s = "st_index st" and ?g = "parse_hex_values X f"
  obtain l vs where tags: "f_tags f = [(l, vs)]" "l \<in> {''e'', ''p''}" "ref_condition X (stored ?s) l vs"
    and ids: "f_ids f = None" using ref by (auto simp: one_ref_def)
  note plan = one_ref_plan [OF ref tags(1)]
  have lim: "card (stored ?s) \<le> filter_limit ?g" using assms(2) plan(4) by (simp add: filter_limit_def)
  have q: "set (ref_read ?s l b (filter_limit f)) = {e \<in> stored ?s. tag_id_hash b \<in> tag_id_hash ` refs_of X l e}" for b
    by (rule query_all [OF assms(1,2) ref_read_answers [OF assms(1) tags(2)]])
  have cs: "e \<in> set cs \<longleftrightarrow> e \<in> stored ?s \<and> tag_matches e (l, vs)" if "filter_candidates X ?s ?g = Some cs" for cs e
  proof -
    have "e \<in> set cs \<longleftrightarrow> (\<exists>b \<in> set (hex_values X vs). e \<in> set (ref_read ?s l b (filter_limit f)))"
      using that unfolding plan(1) by auto
    then show ?thesis using ref_match [OF assms(3) tags(3) _ tags(2)] unfolding q by blast
  qed
  have m: "matches_event ?g e \<longleftrightarrow> candidate_matches ?g e \<and> tag_matches e (l, vs)" for e
    unfolding plan(2,3) by (auto simp: matches_event_def not_less_window tags(1) ids opt_all_def [of _ None])
  have "\<exists>rs. query_filter X st ?g = Some rs \<and> distinct rs \<and> set rs = {e \<in> stored ?s. matches_event ?g e}"
    by (rule query_exactI [OF assms(1) lim]) (use cs m in blast)+
  then show ?thesis by (simp add: plan(3))
qed

text \<open>Filters without conditions on references are left alone by the preparation.\<close>

lemma agreeable_prepared: "agreeable f \<Longrightarrow> parse_hex_values X f = f"
  by (auto simp: agreeable_def parse_hex_values_def filter_e_tags_def filter_p_tags_def)

section \<open>One key and a limit\<close>

lemma collect_results_all:
  "distinct (map ev_id es) \<Longrightarrow> \<forall>e \<in> set es. candidate_matches f e \<and> ev_id e \<notin> seen \<Longrightarrow>
   collect_results f es seen = es"
proof (induction es arbitrary: seen)
  case (Cons a es)
  have "ev_id e \<noteq> ev_id a" if "e \<in> set es" for e using Cons.prems(1) imageI [OF that, of ev_id] by auto
  then have "collect_results f es (insert (ev_id a) seen) = es" using Cons.prems by (intro Cons.IH) simp_all
  then show ?case using Cons.prems by simp
qed simp

text \<open>When every candidate passes, the result is the answer of the index.\<close>

lemma query_answersI:
  assumes inv: "index_inv X U (st_index st)" and lim: "f_limit f = Some n"
    and cs: "filter_candidates X (st_index st) f = Some cs" "answers {e \<in> stored (st_index st). P e} (unat n) cs"
    and pass: "\<And>e. e \<in> stored (st_index st) \<Longrightarrow> P e \<Longrightarrow> candidate_matches f e"
  shows "query_filter X st f = Some cs"
proof -
  have sub: "set cs \<subseteq> {e \<in> stored (st_index st). P e}" by (rule answers_subset [OF cs(2)])
  have "distinct cs" using cs(2) newest_first_distinct by (auto simp: answers_def)
  then have "distinct (map ev_id cs)"
    using inj_on_subset [OF stored_inj [OF index_invD(1) [OF inv]], of "set cs"] sub by (auto simp: distinct_map)
  then have "collect_results f cs {} = cs" using sub pass by (intro collect_results_all) auto
  moreover have "length cs \<le> unat n" using answers_length [OF cs(2)] by simp
  ultimately show ?thesis using cs(1) lim by (simp add: query_filter_def Let_def)
qed

text \<open>
  The filters with one key: one id, one kind, one author with or without a lower time bound, or one
  value of one tag.
\<close>

definition one_key :: "'x ext_scheme \<Rightarrow> event set \<Rightarrow> nostr_filter \<Rightarrow> bool" where
  "one_key X E f \<longleftrightarrow>
     (\<exists>k. f = filter_default\<lparr>f_kinds := Some [k]\<rparr>) \<or>
     (\<exists>a since. f = filter_default\<lparr>f_authors := Some [a], f_since := since\<rparr> \<and>
        inj_on tag_id_hash (insert a (ev_pubkey ` E))) \<or>
     (\<exists>l v. f = filter_default\<lparr>f_tags := [(l, [v])]\<rparr> \<and> (l \<in> {''e'', ''p''} \<longrightarrow> ref_condition X E l [v]))"

lemmas plan_defs = use_ids_def use_e_tags_def use_p_tags_def has_generic_tags_def nonempty_def filter_e_tags_def
  filter_p_tags_def filter_default_def parse_hex_values_def opt_all_def in_window_def candidate_matches_def
  tag_skipped_def matches_event_def

lemma kind_key_answers:
  assumes "index_inv X U (st_index st)"
  shows "\<exists>rs. query_filter X st (filter_default\<lparr>f_kinds := Some [k], f_limit := Some n\<rparr>) = Some rs \<and>
    answers {e \<in> stored (st_index st). matches_event (filter_default\<lparr>f_kinds := Some [k]\<rparr>) e} (unat n) rs"
proof -
  note ans = query_by_kind_answers [OF assms, of k "unat n"]
  have "query_filter X st (filter_default\<lparr>f_kinds := Some [k], f_limit := Some n\<rparr>) =
      Some (query_by_kind (st_index st) k (unat n))"
    by (rule query_answersI [OF assms _ _ ans]) (simp_all add: filter_candidates_def Let_def plan_defs)
  then show ?thesis using ans by (simp add: plan_defs)
qed

lemma author_key_answers:
  assumes "index_inv X U (st_index st)" "inj_on tag_id_hash (insert a (ev_pubkey ` stored (st_index st)))"
  shows "\<exists>rs. query_filter X st (filter_default\<lparr>f_authors := Some [a], f_since := since, f_limit := Some n\<rparr>) = Some rs \<and>
    answers {e \<in> stored (st_index st). matches_event (filter_default\<lparr>f_authors := Some [a], f_since := since\<rparr>) e}
      (unat n) rs"
proof -
  let ?f = "filter_default\<lparr>f_authors := Some [a], f_since := since, f_limit := Some n\<rparr>"
  let ?P = "\<lambda>e. tag_id_hash (ev_pubkey e) = tag_id_hash a \<and> (case since of Some t \<Rightarrow> t \<le> ev_created_at e | None \<Rightarrow> True)"
  let ?rs = "case since of Some t \<Rightarrow> query_by_pubkey_since (st_index st) a t (unat n)
      | None \<Rightarrow> query_by_pubkey (st_index st) a (unat n)"
  have hash: "tag_id_hash (ev_pubkey e) = tag_id_hash a \<longleftrightarrow> ev_pubkey e = a" if "e \<in> stored (st_index st)" for e
    using inj_on_eq_iff [OF assms(2), of "ev_pubkey e" a] that by simp
  have ans: "answers {e \<in> stored (st_index st). ?P e} (unat n) ?rs"
    using query_by_pubkey_answers [OF assms(1), of a "unat n"]
      query_by_pubkey_since_answers [OF assms(1), of a _ "unat n"] by (simp split: option.split)
  have "query_filter X st ?f = Some ?rs"
    by (rule query_answersI [OF assms(1) _ _ ans])
      (simp_all add: filter_candidates_def Let_def plan_defs hash split: option.splits)
  moreover have "{e \<in> stored (st_index st). ?P e} =
      {e \<in> stored (st_index st). matches_event (filter_default\<lparr>f_authors := Some [a], f_since := since\<rparr>) e}"
    by (auto simp: plan_defs hash not_less split: option.splits)
  ultimately show ?thesis using ans by simp
qed

lemma tag_key_answers:
  assumes "index_inv X U (st_index st)" "l \<notin> {''e'', ''p''}"
  shows "\<exists>rs. query_filter X st (filter_default\<lparr>f_tags := [(l, [v])], f_limit := Some n\<rparr>) = Some rs \<and>
    answers {e \<in> stored (st_index st). matches_event (filter_default\<lparr>f_tags := [(l, [v])]\<rparr>) e} (unat n) rs"
proof -
  note ans = query_by_tag_answers [OF assms(1), of l v "unat n"]
  have "query_filter X st (filter_default\<lparr>f_tags := [(l, [v])], f_limit := Some n\<rparr>) =
      Some (query_by_tag (st_index st) l v (unat n))"
    using assms(2) by (intro query_answersI [OF assms(1) _ _ ans]) (auto simp: filter_candidates_def Let_def plan_defs)
  moreover have "matches_event (filter_default\<lparr>f_tags := [(l, [v])]\<rparr>) e \<longleftrightarrow> (l, v) \<in> other_keys e" for e
    using other_keys_match [of l e "[v]"] assms(2) by (simp add: matches_event_def filter_default_def opt_all_def)
  ultimately show ?thesis using ans by simp
qed

lemma ref_key_answers:
  assumes "index_inv X U (st_index st)" "hex_ok X" "l \<in> {''e'', ''p''}" "ref_condition X (stored (st_index st)) l [v]"
  shows "\<exists>rs. query_filter X st (parse_hex_values X (filter_default\<lparr>f_tags := [(l, [v])], f_limit := Some n\<rparr>)) = Some rs \<and>
    answers {e \<in> stored (st_index st). matches_event (filter_default\<lparr>f_tags := [(l, [v])]\<rparr>) e} (unat n) rs"
proof -
  let ?s = "st_index st" and ?f = "filter_default\<lparr>f_tags := [(l, [v])], f_limit := Some n\<rparr>"
  obtain b where b: "hex_values X [v] = [b]"
    using assms(4) by (auto simp: ref_condition_def hex_values_def map_filter_simps)
  have "one_ref X (stored ?s) ?f" using assms(3,4) by (simp add: one_ref_def filter_default_def)
  note plan = one_ref_plan [OF this, of l "[v]"]
  have m: "matches_event (filter_default\<lparr>f_tags := [(l, [v])]\<rparr>) e \<longleftrightarrow> tag_id_hash b \<in> tag_id_hash ` refs_of X l e"
    if "e \<in> stored ?s" for e
    using ref_match [OF assms(2,4) that assms(3)] b by (simp add: matches_event_def filter_default_def opt_all_def)
  note ans = ref_read_answers [OF assms(1,3), of b "unat n"]
  have "filter_limit ?f = unat n" by (simp add: filter_limit_def)
  then have "query_filter X st (parse_hex_values X ?f) = Some (ref_read ?s l b (unat n))"
    using plan b by (intro query_answersI [OF assms(1) _ _ ans]) (simp_all add: filter_default_def in_window_def opt_all_def)
  moreover have "{e \<in> stored ?s. tag_id_hash b \<in> tag_id_hash ` refs_of X l e} =
      {e \<in> stored ?s. matches_event (filter_default\<lparr>f_tags := [(l, [v])]\<rparr>) e}" using m by blast
  ultimately show ?thesis using ans by simp
qed

lemma one_key_answers:
  assumes "index_inv X U (st_index st)" "hex_ok X" "one_key X (stored (st_index st)) f"
  shows "\<exists>rs. query_filter X st (parse_hex_values X (f\<lparr>f_limit := Some n\<rparr>)) = Some rs \<and>
    answers {e \<in> stored (st_index st). matches_event f e} (unat n) rs"
  using assms(3) unfolding one_key_def
proof (elim disjE exE conjE)
  fix k assume "f = filter_default\<lparr>f_kinds := Some [k]\<rparr>"
  then show ?thesis using kind_key_answers [OF assms(1), where k = k and n = n]
    by (simp add: parse_hex_values_def filter_e_tags_def filter_p_tags_def filter_default_def)
next
  fix a since assume "f = filter_default\<lparr>f_authors := Some [a], f_since := since\<rparr>"
    "inj_on tag_id_hash (insert a (ev_pubkey ` stored (st_index st)))"
  then show ?thesis using author_key_answers [OF assms(1), where a = a and since = since and n = n]
    by (simp add: parse_hex_values_def filter_e_tags_def filter_p_tags_def filter_default_def)
next
  fix l v assume f: "f = filter_default\<lparr>f_tags := [(l, [v])]\<rparr>"
    and ref: "l \<in> {''e'', ''p''} \<longrightarrow> ref_condition X (stored (st_index st)) l [v]"
  show ?thesis
  proof (cases "l \<in> {''e'', ''p''}")
    case True
    then show ?thesis using ref_key_answers [OF assms(1,2) True] ref by (simp add: f filter_default_def)
  next
    case False
    then have "parse_hex_values X (f\<lparr>f_limit := Some n\<rparr>) = f\<lparr>f_limit := Some n\<rparr>"
      by (auto simp: f parse_hex_values_def filter_e_tags_def filter_p_tags_def filter_default_def)
    then show ?thesis using tag_key_answers [OF assms(1) False, where v = v and n = n] by (simp add: f filter_default_def)
  qed
qed

section \<open>A limit and a second condition\<close>

text \<open>The answer holds newer events only while there are enough of them.\<close>

lemma answers_newer:
  assumes "answers E n es" "n \<le> card {e \<in> E. t < ev_created_at e}" "e \<in> set es"
  shows "t < ev_created_at e"
proof (rule ccontr)
  assume old: "\<not> t < ev_created_at e"
  obtain all where all: "newest_first E all" "es = take n all" using assms(1) by (auto simp: answers_def)
  then obtain i where i: "i < n" "i < length all" "all ! i = e"
    using assms(3) by (auto simp: in_set_conv_nth)
  have "ev_created_at x \<le> t" if "x \<in> set (drop i all)" for x
  proof -
    obtain j where j: "i \<le> j" "j < length all" "x = all ! j"
      using \<open>x \<in> set (drop i all)\<close> by (auto simp: in_set_conv_nth) (metis add.commute le_add2 less_diff_conv)
    have "j = i \<or> er_less (eref_new (all ! i)) (eref_new (all ! j))"
      using all(1) i(2) j(1,2) sorted_wrt_nth_less [of er_less "map eref_new all" i j]
      by (cases "j = i") (simp_all add: newest_first_def)
    then show ?thesis using old i(3) j(3) by (auto simp: er_less_def eref_new_def)
  qed
  moreover have "E = set (take i all) \<union> set (drop i all)"
    using all(1) set_append [of "take i all" "drop i all"] by (simp add: newest_first_def)
  ultimately have "{e \<in> E. t < ev_created_at e} \<subseteq> set (take i all)" using leD by blast
  then have "card {e \<in> E. t < ev_created_at e} \<le> card (set (take i all))" by (intro card_mono) simp_all
  also have "\<dots> \<le> i" using card_length [of "take i all"] by simp
  finally show False using assms(2) i(1) by simp
qed

text \<open>The limit goes to the index, the upper time bound is checked afterwards.\<close>

lemma query_until_empty:
  assumes "index_inv X U (st_index st)"
    and "unat n \<le> card {e \<in> stored (st_index st). ev_kind e = k \<and> t < ev_created_at e}"
  shows "query_filter X st (filter_default\<lparr>f_kinds := Some [k], f_until := Some t, f_limit := Some n\<rparr>) = Some []"
proof -
  let ?f = "filter_default\<lparr>f_kinds := Some [k], f_until := Some t, f_limit := Some n\<rparr>"
  let ?cs = "query_by_kind (st_index st) k (unat n)"
  have "filter_candidates X (st_index st) ?f = Some ?cs" by (simp add: filter_candidates_def Let_def plan_defs)
  moreover have "t < ev_created_at e" if "e \<in> set ?cs" for e
    using answers_newer [OF query_by_kind_answers [OF assms(1)] _ that] assms(2) by (simp add: conj_assoc)
  then have "collect_results ?f ?cs {} = []"
    using collect_results_set [of _ ?f ?cs "{}"] by (intro equals0I [THEN set_empty [THEN iffD1]])
      (fastforce simp: candidate_matches_def in_window_def opt_all_def filter_default_def)
  ultimately show ?thesis by (simp add: query_filter_def filter_default_def)
qed

end
