(* ===== verification/Subscription_Properties.thy ===== *)
theory Subscription_Properties
  imports Filter_Queries Index_Properties
begin

text \<open>
  Properties of filters: what a query of the store returns, when it agrees with the matching of
  live events and when it does not, and the wire format.
\<close>

section \<open>Queries\<close>

text \<open>
  A query never panics and returns stored events only, each once, no more than the limit, all of
  them within the time window and of the kinds, authors and (unless its index lookup skips them)
  tags of the filter.
\<close>

theorem query_returns_candidates:
  assumes "index_inv X U (st_index st)"
  shows "\<exists>rs. query_filter X st f = Some rs \<and> set rs \<subseteq> stored (st_index st) \<and>
     distinct (map ev_id rs) \<and> (\<forall>e \<in> set rs. candidate_matches f e) \<and>
     opt_all (\<lambda>lim. length rs \<le> unat lim) (f_limit f)"
  by (rule query_filter_sound [OF assms])

text \<open>A store that holds the sample note.\<close>

definition note_store :: event_store where
  "note_store =
     (store_new store_config_default True 0 \<lparr>d_log = None, d_old = None, d_snapshot = None\<rparr>)
       \<lparr>st_index := insert_all sample_ext [sample_note] index_new\<rparr>"

lemma note_store_inv: "index_inv sample_ext (set sample_events) (st_index note_store)"
  using sample_index [of "[sample_note]"] by (simp add: note_store_def)

lemma note_store_stored: "stored (st_index note_store) = {sample_note}"
  using sample_index_note by (simp add: note_store_def)

theorem query_returns_candidates_witness:
  "\<exists>rs. query_filter sample_ext note_store (filter_default\<lparr>f_limit := Some 5\<rparr>) = Some rs \<and>
     set rs \<subseteq> {sample_note} \<and> length rs \<le> 5"
  using query_returns_candidates [OF note_store_inv, of "filter_default\<lparr>f_limit := Some 5\<rparr>"]
  by (auto simp: note_store_stored opt_all_def)

text \<open>
  C22. A query returns exactly the stored events that the matching of live events accepts, whichever
  of the indexes it chooses, when the limit is not below the number of stored events, its list of ids is
  not empty, and it has at most one tag condition, that with a value and not together with ids. For a condition on \<open>#e\<close> or \<open>#p\<close>,
  ids are spelt in lower case, as NIP-01 asks, and no two in sight have the same key.
\<close>

theorem query_agrees_with_matching:
  assumes "index_inv X U (st_index st)" "card (stored (st_index st)) \<le> filter_limit f" "hex_ok X"
    and "agreeable f \<or> one_ref X (stored (st_index st)) f"
  shows "\<exists>rs. query_filter X st (parse_hex_values X f) = Some rs \<and> distinct rs \<and>
     set rs = {e \<in> stored (st_index st). matches_event f e}"
  using assms(4) query_filter_exact [OF assms(1,2)] one_ref_exact [OF assms(1-3)]
  by (auto simp: agreeable_prepared)

text \<open>A store that holds a reply, and the request for the replies to what it refers to.\<close>

definition reply_store :: event_store where
  "reply_store = note_store\<lparr>st_index := insert_all sample_ext [sample_reply] index_new\<rparr>"

definition reply_filter :: nostr_filter where
  "reply_filter = filter_default\<lparr>f_tags := [(''e'', [sample_encode (replicate 16 1 @ replicate 16 2)])]\<rparr>"

lemma reply_store_index: "index_inv sample_ext {sample_reply} (st_index reply_store)" "stored (st_index reply_store) = {sample_reply}"
  using sample_reply_index by (simp_all add: reply_store_def)

lemma reply_filter_matches: "matches_event reply_filter sample_reply"
  by (simp add: reply_filter_def matches_event_def filter_default_def opt_all_def tag_matches_def sample_reply_def
      tag_value_def single_char_def utf8_len_def)

lemma reply_condition: "ref_condition sample_ext {sample_reply} ''e'' [sample_encode (replicate 16 1 @ replicate 16 2)]"
proof -
  let ?b = "replicate 16 1 @ replicate 16 2 :: bytes"
  have dec: "hex_decode sample_ext (sample_encode ?b) = Some ?b" by (simp add: sample_ext_def sample_decode_encode)
  then have "lower_hex sample_ext (sample_encode ?b)" by (simp add: lower_hex_def sample_ext_def)
  moreover have "hex_values sample_ext [sample_encode ?b] = [?b]" using dec by (simp add: hex_values_def map_filter_simps)
  moreover have "refs_of sample_ext ''e'' sample_reply = {?b}"
    using sample_reply_tags tags_refs(1) [of sample_ext sample_reply] by simp
  ultimately show ?thesis using dec by (simp add: ref_condition_def sample_reply_def tag_value_def)
qed

theorem query_agrees_with_matching_witness:
  "query_filter sample_ext reply_store (parse_hex_values sample_ext reply_filter) = Some [sample_reply]"
proof -
  have lim: "card (stored (st_index reply_store)) \<le> filter_limit reply_filter"
    by (rule unlimited_filter) (simp_all add: reply_store_index(2) reply_filter_def filter_default_def)
  have "one_ref sample_ext (stored (st_index reply_store)) reply_filter"
    using reply_condition by (simp add: one_ref_def reply_store_index(2) reply_filter_def filter_default_def)
  from query_agrees_with_matching [OF reply_store_index(1) lim sample_hex_ok disjI2 [OF this]]
  obtain rs where rs: "query_filter sample_ext reply_store (parse_hex_values sample_ext reply_filter) = Some rs"
    "distinct rs" "set rs = {sample_reply}"
    using reply_filter_matches by (auto simp: reply_store_index(2))
  then have "length rs = Suc 0" using distinct_card [OF rs(2)] by simp
  then obtain e where "rs = [e]" by (metis length_0_conv length_Suc_conv)
  with rs(1,3) show ?thesis by simp
qed

text \<open>
  C23. A filter with one key, which is one kind, one author with or without a lower time bound, or one
  value of one tag, is answered with the newest of the stored events that match it, newest first and
  as many as its limit asks for. An author is looked up by a hash, and no two of the stored authors and the
  one asked for may share it; the value of an \<open>#e\<close> or \<open>#p\<close> condition is hex in lower case, as are those
  of the stored events' tags, and no two of the ids that stored events refer to and the one asked for
  share a hash.
\<close>

theorem one_key_query_newest:
  assumes "index_inv X U (st_index st)" "hex_ok X" "one_key X (stored (st_index st)) f"
  shows "\<exists>rs. query_filter X st (parse_hex_values X (f\<lparr>f_limit := Some n\<rparr>)) = Some rs \<and>
    answers {e \<in> stored (st_index st). matches_event f e} (unat n) rs"
  by (rule one_key_answers [OF assms])

theorem one_key_query_newest_witness:
  "\<exists>rs. query_filter sample_ext reply_store (parse_hex_values sample_ext (reply_filter\<lparr>f_limit := Some 1\<rparr>)) = Some rs \<and>
    answers {sample_reply} 1 rs"
proof -
  have "one_key sample_ext (stored (st_index reply_store)) reply_filter"
    using reply_condition by (auto simp: one_key_def reply_store_index(2) reply_filter_def)
  moreover have "{e \<in> {sample_reply}. matches_event reply_filter e} = {sample_reply}" using reply_filter_matches by blast
  ultimately show ?thesis
    using one_key_query_newest [OF reply_store_index(1) sample_hex_ok, of reply_filter 1] by (simp add: reply_store_index(2))
qed

text \<open>
  C40. With a second condition the limit hides matches: a query for one kind up to a time asks the
  index for the newest events of the kind and drops the ones after that time from these few. When
  there are as many later ones as the limit, the result is empty, whatever matches.
\<close>

theorem limited_until_query_empty:
  assumes "index_inv X U (st_index st)"
    and "unat n \<le> card {e \<in> stored (st_index st). ev_kind e = k \<and> t < ev_created_at e}"
    and "f = filter_default\<lparr>f_kinds := Some [k], f_until := Some t, f_limit := Some n\<rparr>"
  shows "query_filter X st f = Some [] \<and>
    (\<forall>e. ev_kind e = k \<and> ev_created_at e \<le> t \<longrightarrow> matches_event f e)"
  using query_until_empty [OF assms(1,2)]
  by (simp add: assms(3) matches_event_def filter_default_def opt_all_def not_less)

theorem limited_until_query_empty_witness:
  "query_filter sample_ext note_store
     (filter_default\<lparr>f_kinds := Some [1], f_until := Some (ev_created_at sample_note - 1), f_limit := Some 1\<rparr>) = Some []"
proof -
  have "{e \<in> stored (st_index note_store). ev_kind e = 1 \<and> ev_created_at sample_note - 1 < ev_created_at e} = {sample_note}"
    unfolding note_store_stored by (auto simp: sample_note_def)
  then have "unat (1 :: usize) \<le> card {e \<in> stored (st_index note_store). ev_kind e = 1 \<and>
      ev_created_at sample_note - 1 < ev_created_at e}" by simp
  from limited_until_query_empty [OF note_store_inv this refl] show ?thesis by blast
qed

text \<open>
  With ids in a filter the query checks no tag condition at all: it returns a stored event by
  its id whatever tags the filter asks for, while live matching would reject it.
\<close>

theorem ids_query_ignores_tags:
  assumes "index_inv X U (st_index st)" "e \<in> stored (st_index st)" "ev_tags e = []"
  shows "query_filter X st (filter_default\<lparr>f_ids := Some [ev_id e], f_tags := [(l, vs)]\<rparr>) = Some [e] \<and>
    \<not> matches_event (filter_default\<lparr>f_ids := Some [ev_id e], f_tags := [(l, vs)]\<rparr>) e"
  using query_ids_ignores_tags [OF assms(1,2), of "[(l, vs)]"]
  by (simp add: matches_event_def tag_matches_def assms(3))

theorem ids_query_ignores_tags_witness:
  "query_filter sample_ext note_store
     (filter_default\<lparr>f_ids := Some [ev_id sample_note], f_tags := [(''t'', [''x''])]\<rparr>) = Some [sample_note]"
proof -
  have "sample_note \<in> stored (st_index note_store)" "ev_tags sample_note = []"
    by (simp_all only: note_store_stored) (simp_all add: sample_note_def)
  from ids_query_ignores_tags [OF note_store_inv this] show ?thesis by blast
qed

text \<open>
  An empty id list is no condition for the query: it returns every stored event, while live
  matching accepts none.
\<close>

theorem empty_ids_query_unrestricted:
  assumes "index_inv X U (st_index st)" "card (stored (st_index st)) < 2 ^ 64"
  shows "(\<exists>rs. query_filter X st (filter_default\<lparr>f_ids := Some []\<rparr>) = Some rs \<and>
      set rs = stored (st_index st)) \<and> (\<forall>e. \<not> matches_event (filter_default\<lparr>f_ids := Some []\<rparr>) e)"
  using query_empty_ids [OF assms] by (simp add: matches_event_def opt_all_def)

theorem empty_ids_query_unrestricted_witness:
  "\<exists>rs. query_filter sample_ext note_store (filter_default\<lparr>f_ids := Some []\<rparr>) = Some rs \<and>
     set rs = {sample_note}"
  using empty_ids_query_unrestricted [OF note_store_inv] by (simp add: note_store_stored)

section \<open>Wire format\<close>

text \<open>
  A filter survives the wire: deserializing the entries that serialization writes gives the
  filter back, with 32-byte ids and authors, any number of single-letter tag conditions, the
  window and the limit.
\<close>

theorem filter_wire_round_trip:
  assumes "hex_ok X" "serde_ok J enc" "filter_wf f"
  shows "visit_map X J (wire enc (serialize_filter X f)) = Some f"
  by (rule filter_round_trip [OF assms])

definition sample_serde :: "filter_value serde" where
  "sample_serde =
     \<lparr>as_strings = (\<lambda>v. case v of V_hexes xs \<Rightarrow> Some xs | V_strings xs \<Rightarrow> Some xs | _ \<Rightarrow> None),
      as_kinds = (\<lambda>v. case v of V_kinds xs \<Rightarrow> Some xs | _ \<Rightarrow> None),
      as_u64 = (\<lambda>v. case v of V_u64 x \<Rightarrow> Some x | _ \<Rightarrow> None),
      as_usize = (\<lambda>v. case v of V_usize x \<Rightarrow> Some x | _ \<Rightarrow> None)\<rparr>"

definition sample_filter :: nostr_filter where
  "sample_filter =
     filter_default\<lparr>f_ids := Some [replicate 32 1], f_kinds := Some [1, 5], f_since := Some 7,
       f_tags := [(''t'', [''x'']), (''e'', [])]\<rparr>"

theorem filter_wire_round_trip_witness:
  "visit_map sample_ext sample_serde (wire id (serialize_filter sample_ext sample_filter)) =
   Some sample_filter"
proof -
  have "serde_ok sample_serde id" by (simp add: serde_ok_def sample_serde_def)
  moreover have "filter_wf sample_filter"
    by (simp add: filter_wf_def sample_filter_def filter_default_def opt_all_def utf8_len_def)
  ultimately show ?thesis by (rule filter_wire_round_trip [OF sample_hex_ok])
qed

end
