(* ===== verification/Fanout.thy ===== *)
theory Fanout
  imports Subscription
begin

text \<open>
  Live delivery (\<^verbatim>\<open>src/src/fanout.rs\<close>): the registry of connections, the inverted index from kinds
  to interested connections, and publication of an event. An \<open>Arc<ConnState>\<close> outlives its
  registration, so the states of all connections are one map and the registered ids a set. The send
  queue belongs to tokio: its state has a type parameter and \<open>try_send\<close> is an argument, \<open>None\<close>
  for a full or closed queue. The instants that drops read are given by \<open>clock\<close>, the
  iteration order of hash sets by \<open>ord\<close>.
\<close>

section \<open>State\<close>

definition DROP_WINDOW :: nat where
  "DROP_WINDOW = 10000000000"

definition MAX_DROPS_PER_WINDOW :: nat where
  "MAX_DROPS_PER_WINDOW = 2048"

type_synonym conn_id = u64

type_synonym sub_entry = "string \<times> nostr_filter list"

record broadcast_event =
  be_event :: event
  be_json :: string

text \<open>
  \<open>String::from_utf8_lossy\<close> is the identity on UTF-8, and \<open>raw\<close> is a slice of a JSON text.
\<close>

definition broadcast_new :: "event \<Rightarrow> broadcast_event" where
  "broadcast_new e = \<lparr>be_event = e, be_json = map (\<lambda>b. char_of (unat b)) (ev_raw e)\<rparr>"

datatype kind_key = KK_None | KK_Any | KK_Some "u32 set"

record 'ch conn_state =
  cs_id :: conn_id
  cs_tx :: 'ch
  cs_subs :: "sub_entry list"
  cs_key :: kind_key
  cs_overflow :: "string list"
  cs_notified :: bool
  cs_kill :: bool
  cs_sent :: usize
  cs_dropped :: usize
  cs_window :: "nat \<times> nat"

record 'ch fanout =
  fo_states :: "conn_id \<rightharpoonup> 'ch conn_state"
  fo_conns :: "conn_id set"
  fo_by_kind :: "u32 \<rightharpoonup> conn_id set"
  fo_any_kind :: "conn_id set"
  fo_next_id :: conn_id

definition fanout_new :: "'ch fanout" where
  "fanout_new =
     \<lparr>fo_states = Map.empty, fo_conns = {}, fo_by_kind = Map.empty, fo_any_kind = {},
      fo_next_id = 0\<rparr>"

section \<open>Delivery to one connection\<close>

definition take_overflowed :: "'ch conn_state \<Rightarrow> string list \<times> 'ch conn_state" where
  "take_overflowed c = (cs_overflow c, c\<lparr>cs_overflow := []\<rparr>)"

definition should_disconnect :: "'ch conn_state \<Rightarrow> bool" where
  "should_disconnect c = cs_kill c"

text \<open>\<open>now\<close> in nanoseconds; \<open>duration_since\<close> saturates at zero.\<close>

definition record_drop :: "nat \<Rightarrow> string \<Rightarrow> 'ch conn_state \<Rightarrow> 'ch conn_state" where
  "record_drop now sub_id c =
     (let c1 = c\<lparr>cs_dropped := cs_dropped c + 1,
                 cs_overflow := (if sub_id \<in> set (cs_overflow c) then cs_overflow c
                                 else cs_overflow c @ [sub_id])\<rparr>;
          (start, n) = cs_window c1;
          (w, over_limit) =
            (if DROP_WINDOW < now - start then ((now, 1), False)
             else ((start, n + 1), MAX_DROPS_PER_WINDOW < n + 1))
      in c1\<lparr>cs_window := w, cs_kill := (cs_kill c1 \<or> over_limit), cs_notified := True\<rparr>)"

definition event_message :: "string \<Rightarrow> string \<Rightarrow> string" where
  "event_message sub_id json =
     [CHR ''['', CHR 0x22] @ ''EVENT'' @ [CHR 0x22, CHR '','', CHR 0x22] @ sub_id @
     [CHR 0x22, CHR '',''] @ json @ '']''"

definition sub_matches :: "event \<Rightarrow> sub_entry \<Rightarrow> bool" where
  "sub_matches e sub = list_ex (\<lambda>f. matches_event f e) (snd sub)"

definition deliver_sub ::
    "('ch \<Rightarrow> string \<Rightarrow> 'ch option) \<Rightarrow> (conn_id \<Rightarrow> string \<Rightarrow> nat) \<Rightarrow> broadcast_event \<Rightarrow> sub_entry \<Rightarrow>
     'ch conn_state \<Rightarrow> 'ch conn_state" where
  "deliver_sub try_send clock ev sub c =
     (if \<not> sub_matches (be_event ev) sub then c
      else
        (case try_send (cs_tx c) (event_message (fst sub) (be_json ev)) of
           Some ch \<Rightarrow> c\<lparr>cs_tx := ch, cs_sent := cs_sent c + 1\<rparr>
         | None \<Rightarrow> record_drop (clock (cs_id c) (fst sub)) (fst sub) c))"

definition deliver ::
    "('ch \<Rightarrow> string \<Rightarrow> 'ch option) \<Rightarrow> (conn_id \<Rightarrow> string \<Rightarrow> nat) \<Rightarrow> broadcast_event \<Rightarrow>
     'ch conn_state \<Rightarrow> 'ch conn_state" where
  "deliver try_send clock ev c = fold (deliver_sub try_send clock ev) (cs_subs c) c"

section \<open>The kind index\<close>

definition index_conn :: "conn_id \<Rightarrow> kind_key \<Rightarrow> 'ch fanout \<Rightarrow> 'ch fanout" where
  "index_conn i key fo =
     (case key of
        KK_None \<Rightarrow> fo
      | KK_Any \<Rightarrow> fo\<lparr>fo_any_kind := insert i (fo_any_kind fo)\<rparr>
      | KK_Some kinds \<Rightarrow>
          fo\<lparr>fo_by_kind := (\<lambda>k. if k \<in> kinds
               then Some (insert i (case fo_by_kind fo k of Some S \<Rightarrow> S | None \<Rightarrow> {}))
               else fo_by_kind fo k)\<rparr>)"

text \<open>A kind whose last connection goes is removed from the map.\<close>

definition deindex_conn :: "conn_id \<Rightarrow> kind_key \<Rightarrow> 'ch fanout \<Rightarrow> 'ch fanout" where
  "deindex_conn i key fo =
     (case key of
        KK_None \<Rightarrow> fo
      | KK_Any \<Rightarrow> fo\<lparr>fo_any_kind := fo_any_kind fo - {i}\<rparr>
      | KK_Some kinds \<Rightarrow>
          fo\<lparr>fo_by_kind := (\<lambda>k. if k \<in> kinds
               then (case fo_by_kind fo k of
                       Some S \<Rightarrow> if S - {i} = {} then None else Some (S - {i}) | None \<Rightarrow> None)
               else fo_by_kind fo k)\<rparr>)"

text \<open>The nested loop of \<open>reindex\<close>: the kinds named so far, or \<open>None\<close> once a filter names none.\<close>

fun filters_kinds :: "nostr_filter list \<Rightarrow> u32 set \<Rightarrow> u32 set option" where
  "filters_kinds [] kinds = Some kinds"
| "filters_kinds (f # fs) kinds =
     (case f_kinds f of
        Some ks \<Rightarrow> if ks \<noteq> [] then filters_kinds fs (kinds \<union> set ks) else None
      | None \<Rightarrow> None)"

fun subs_kinds :: "sub_entry list \<Rightarrow> u32 set \<Rightarrow> u32 set option" where
  "subs_kinds [] kinds = Some kinds"
| "subs_kinds (sub # subs) kinds =
     (case filters_kinds (snd sub) kinds of None \<Rightarrow> None | Some kinds' \<Rightarrow> subs_kinds subs kinds')"

definition key_of_subs :: "sub_entry list \<Rightarrow> kind_key" where
  "key_of_subs subs =
     (if subs = [] then KK_None
      else (case subs_kinds subs {} of None \<Rightarrow> KK_Any | Some kinds \<Rightarrow> KK_Some kinds))"

section \<open>Operations\<close>

definition update_conn :: "conn_id \<Rightarrow> ('ch conn_state \<Rightarrow> 'ch conn_state) \<Rightarrow> 'ch fanout \<Rightarrow> 'ch fanout" where
  "update_conn i g fo =
     (case fo_states fo i of
        Some c \<Rightarrow> fo\<lparr>fo_states := (fo_states fo)(i \<mapsto> g c)\<rparr> | None \<Rightarrow> fo)"

definition register :: "'ch \<Rightarrow> nat \<Rightarrow> 'ch fanout \<Rightarrow> conn_id \<times> 'ch fanout" where
  "register tx now fo =
     (let i = fo_next_id fo + 1;
          c = \<lparr>cs_id = i, cs_tx = tx, cs_subs = [], cs_key = KK_None, cs_overflow = [],
               cs_notified = False, cs_kill = False, cs_sent = 0, cs_dropped = 0,
               cs_window = (now, 0)\<rparr>
      in (i, fo\<lparr>fo_next_id := i, fo_states := (fo_states fo)(i \<mapsto> c),
                fo_conns := insert i (fo_conns fo)\<rparr>))"

definition unregister :: "conn_id \<Rightarrow> 'ch fanout \<Rightarrow> 'ch fanout" where
  "unregister i fo =
     (case fo_states fo i of
        None \<Rightarrow> fo
      | Some c \<Rightarrow>
          update_conn i (\<lambda>c. c\<lparr>cs_key := KK_None\<rparr>)
            (deindex_conn i (cs_key c) (fo\<lparr>fo_conns := fo_conns fo - {i}\<rparr>)))"

definition reindex :: "conn_id \<Rightarrow> 'ch fanout \<Rightarrow> 'ch fanout" where
  "reindex i fo =
     (case fo_states fo i of
        None \<Rightarrow> fo
      | Some c \<Rightarrow>
          let new_key = key_of_subs (cs_subs c) in
          if cs_key c = new_key then fo
          else update_conn i (\<lambda>c. c\<lparr>cs_key := new_key\<rparr>)
                 (index_conn i new_key (deindex_conn i (cs_key c) fo)))"

text \<open>\<open>find\<close> then overwrite the slot, or push.\<close>

fun put_sub :: "string \<Rightarrow> nostr_filter list \<Rightarrow> sub_entry list \<Rightarrow> sub_entry list" where
  "put_sub s fs [] = [(s, fs)]"
| "put_sub s fs (sub # subs) =
     (if fst sub = s then (s, fs) # subs else sub # put_sub s fs subs)"

definition set_sub :: "conn_id \<Rightarrow> string \<Rightarrow> nostr_filter list \<Rightarrow> 'ch fanout \<Rightarrow> 'ch fanout" where
  "set_sub i s fs fo = reindex i (update_conn i (\<lambda>c. c\<lparr>cs_subs := put_sub s fs (cs_subs c)\<rparr>) fo)"

definition remove_sub :: "conn_id \<Rightarrow> string \<Rightarrow> 'ch fanout \<Rightarrow> bool \<times> 'ch fanout" where
  "remove_sub i s fo =
     (case fo_states fo i of
        None \<Rightarrow> (False, fo)
      | Some c \<Rightarrow>
          let kept = filter (\<lambda>sub. fst sub \<noteq> s) (cs_subs c);
              removed = (length kept \<noteq> length (cs_subs c));
              fo1 = update_conn i (\<lambda>c. c\<lparr>cs_subs := kept\<rparr>) fo
          in (removed, if removed then reindex i fo1 else fo1))"

definition sub_count :: "'ch conn_state \<Rightarrow> nat" where
  "sub_count c = length (cs_subs c)"

definition has_sub :: "'ch conn_state \<Rightarrow> string \<Rightarrow> bool" where
  "has_sub c s = list_ex (\<lambda>sub. fst sub = s) (cs_subs c)"

text \<open>The connections a publication visits, in the order of the two hash sets.\<close>

definition publish_targets :: "(conn_id set \<Rightarrow> conn_id list) \<Rightarrow> event \<Rightarrow> 'ch fanout \<Rightarrow> conn_id list" where
  "publish_targets ord e fo =
     (if fo_any_kind fo = {} \<and> fo_by_kind fo (ev_kind e) = None then []
      else
        filter (\<lambda>i. i \<in> fo_conns fo)
          (ord (fo_any_kind fo) @
           (case fo_by_kind fo (ev_kind e) of Some S \<Rightarrow> ord S | None \<Rightarrow> [])))"

definition publish ::
    "('ch \<Rightarrow> string \<Rightarrow> 'ch option) \<Rightarrow> (conn_id \<Rightarrow> string \<Rightarrow> nat) \<Rightarrow> (conn_id set \<Rightarrow> conn_id list) \<Rightarrow>
     broadcast_event \<Rightarrow> 'ch fanout \<Rightarrow> 'ch fanout" where
  "publish try_send clock ord ev fo =
     fold (\<lambda>i. update_conn i (deliver try_send clock ev)) (publish_targets ord (be_event ev) fo) fo"

definition conn_count :: "'ch fanout \<Rightarrow> nat" where
  "conn_count fo = card (fo_conns fo)"

section \<open>Invariant\<close>

text \<open>
  The index lists a connection exactly under the key it records, and a registered connection
  records the key of its subscriptions.
\<close>

definition key_conns :: "'ch fanout \<Rightarrow> u32 \<Rightarrow> conn_id set" where
  "key_conns fo k =
     {i. \<exists>c ks. fo_states fo i = Some c \<and> cs_key c = KK_Some ks \<and> k \<in> ks}"

definition fanout_inv :: "'ch fanout \<Rightarrow> bool" where
  "fanout_inv fo \<longleftrightarrow>
     finite (dom (fo_states fo)) \<and> fo_conns fo \<subseteq> dom (fo_states fo) \<and>
     (\<forall>i c. fo_states fo i = Some c \<longrightarrow> cs_id c = i \<and> distinct (map fst (cs_subs c))) \<and>
     (\<forall>i \<in> dom (fo_states fo). i \<le> fo_next_id fo) \<and>
     fo_any_kind fo = {i. \<exists>c. fo_states fo i = Some c \<and> cs_key c = KK_Any} \<and>
     (\<forall>k. fo_by_kind fo k = (if key_conns fo k = {} then None else Some (key_conns fo k))) \<and>
     (\<forall>i \<in> fo_conns fo. \<forall>c. fo_states fo i = Some c \<longrightarrow> cs_key c = key_of_subs (cs_subs c))"

lemma fanout_inv_new: "fanout_inv fanout_new"
  by (simp add: fanout_inv_def fanout_new_def key_conns_def)

lemma fanout_invD:
  assumes "fanout_inv fo" "fo_states fo i = Some c"
  shows "cs_id c = i" "distinct (map fst (cs_subs c))" "i \<le> fo_next_id fo"
    "i \<in> fo_conns fo \<Longrightarrow> cs_key c = key_of_subs (cs_subs c)"
  using assms by (auto simp: fanout_inv_def)

section \<open>Keys cover what their subscriptions match\<close>

lemma filters_kinds_mono: "filters_kinds fs ks = Some ks' \<Longrightarrow> ks \<subseteq> ks'"
  by (induction fs arbitrary: ks) (fastforce split: option.splits if_splits)+

lemma subs_kinds_mono: "subs_kinds subs ks = Some ks' \<Longrightarrow> ks \<subseteq> ks'"
proof (induction subs arbitrary: ks)
  case (Cons sub subs)
  then obtain ks1 where "filters_kinds (snd sub) ks = Some ks1" "subs_kinds subs ks1 = Some ks'"
    by (auto split: option.splits)
  with Cons.IH filters_kinds_mono show ?case by (metis subset_trans)
qed simp

lemma filters_kinds_match:
  assumes "filters_kinds fs ks = Some ks'" "f \<in> set fs" "matches_event f e"
  shows "ev_kind e \<in> ks'"
  using assms
proof (induction fs arbitrary: ks)
  case (Cons g fs)
  then obtain gs where g: "f_kinds g = Some gs" "filters_kinds fs (ks \<union> set gs) = Some ks'"
    by (auto split: option.splits if_splits)
  show ?case
  proof (cases "f = g")
    case True
    then have "ev_kind e \<in> set gs" using Cons.prems g by (simp add: matches_event_def opt_all_def)
    then show ?thesis using filters_kinds_mono [OF g(2)] by blast
  next
    case False
    with Cons g show ?thesis by auto
  qed
qed simp

lemma subs_kinds_match:
  assumes "subs_kinds subs ks = Some ks'" "sub \<in> set subs" "sub_matches e sub"
  shows "ev_kind e \<in> ks'"
  using assms
proof (induction subs arbitrary: ks)
  case (Cons t subs)
  then obtain ks1 where t: "filters_kinds (snd t) ks = Some ks1" "subs_kinds subs ks1 = Some ks'"
    by (auto split: option.splits)
  show ?case
  proof (cases "sub = t")
    case True
    then obtain f where "f \<in> set (snd t)" "matches_event f e"
      using Cons.prems by (auto simp: sub_matches_def list_ex_iff)
    from filters_kinds_match [OF t(1) this] subs_kinds_mono [OF t(2)] show ?thesis by blast
  next
    case False
    with Cons t show ?thesis by auto
  qed
qed simp

text \<open>A connection whose key does not name the kind of an event has no subscription for it.\<close>

definition key_covers :: "kind_key \<Rightarrow> u32 \<Rightarrow> bool" where
  "key_covers key k = (case key of KK_None \<Rightarrow> False | KK_Any \<Rightarrow> True | KK_Some ks \<Rightarrow> k \<in> ks)"

lemma key_covers_match:
  assumes "sub \<in> set subs" "sub_matches e sub"
  shows "key_covers (key_of_subs subs) (ev_kind e)"
proof (cases "subs_kinds subs {}")
  case None
  then show ?thesis using assms(1) by (auto simp: key_covers_def key_of_subs_def)
next
  case (Some ks)
  with subs_kinds_match [OF Some assms] assms(1) show ?thesis
    by (auto simp: key_covers_def key_of_subs_def)
qed

lemma deliver_uncovered:
  assumes "\<not> key_covers (key_of_subs (cs_subs c)) (ev_kind (be_event ev))"
  shows "deliver try_send clock ev c = c"
proof -
  have none: "\<forall>sub \<in> set (cs_subs c). \<not> sub_matches (be_event ev) sub"
    using key_covers_match assms by blast
  have "fold (deliver_sub try_send clock ev) subs c' = c'"
    if "\<forall>sub \<in> set subs. \<not> sub_matches (be_event ev) sub" for subs c'
    using that by (induction subs) (simp_all add: deliver_sub_def)
  from this [OF none] show ?thesis by (simp add: deliver_def)
qed

end
