(* ===== verification/Fanout_Delivery.thy ===== *)
theory Fanout_Delivery
  imports Fanout
begin

text \<open>
  Correctness of live delivery: every operation keeps the registry's invariant, publication
  through the kind index has the same effect as offering the event to every registered
  connection, and every delivery is either queued or accounted for as a drop.
\<close>

section \<open>The kind index as a relation\<close>

definition kind_conns :: "'ch fanout \<Rightarrow> u32 \<Rightarrow> conn_id set" where
  "kind_conns fo k = (case fo_by_kind fo k of Some S \<Rightarrow> S | None \<Rightarrow> {})"

definition key_kinds :: "kind_key \<Rightarrow> u32 set" where
  "key_kinds key = (case key of KK_Some ks \<Rightarrow> ks | _ \<Rightarrow> {})"

lemma by_kind_iff:
  "fo_by_kind fo k = (if A = {} then None else Some A) \<longleftrightarrow>
   kind_conns fo k = A \<and> fo_by_kind fo k \<noteq> Some {}"
  by (auto simp: kind_conns_def split: option.splits)

lemma index_conn_rel:
  "kind_conns (index_conn i key fo) k = kind_conns fo k \<union> (if k \<in> key_kinds key then {i} else {})"
  "fo_any_kind (index_conn i key fo) = fo_any_kind fo \<union> (if key = KK_Any then {i} else {})"
  "fo_by_kind fo k \<noteq> Some {} \<Longrightarrow> fo_by_kind (index_conn i key fo) k \<noteq> Some {}"
  by (auto simp: index_conn_def kind_conns_def key_kinds_def split: kind_key.splits option.splits)

lemma deindex_conn_rel:
  "kind_conns (deindex_conn i key fo) k = kind_conns fo k - (if k \<in> key_kinds key then {i} else {})"
  "fo_any_kind (deindex_conn i key fo) = fo_any_kind fo - (if key = KK_Any then {i} else {})"
  "fo_by_kind fo k \<noteq> Some {} \<Longrightarrow> fo_by_kind (deindex_conn i key fo) k \<noteq> Some {}"
  by (auto simp: deindex_conn_def kind_conns_def key_kinds_def split: kind_key.splits option.splits)

lemma index_conn_frame [simp]:
  "fo_states (index_conn i key fo) = fo_states fo" "fo_conns (index_conn i key fo) = fo_conns fo"
  "fo_next_id (index_conn i key fo) = fo_next_id fo"
  by (simp_all add: index_conn_def split: kind_key.splits)

lemma deindex_conn_frame [simp]:
  "fo_states (deindex_conn i key fo) = fo_states fo" "fo_conns (deindex_conn i key fo) = fo_conns fo"
  "fo_next_id (deindex_conn i key fo) = fo_next_id fo"
  by (simp_all add: deindex_conn_def split: kind_key.splits)

lemma update_conn_frame [simp]:
  "fo_conns (update_conn i g fo) = fo_conns fo" "fo_next_id (update_conn i g fo) = fo_next_id fo"
  "fo_by_kind (update_conn i g fo) = fo_by_kind fo" "fo_any_kind (update_conn i g fo) = fo_any_kind fo"
  "kind_conns (update_conn i g fo) k = kind_conns fo k"
  by (simp_all add: update_conn_def kind_conns_def split: option.splits)

lemma update_conn_states:
  "fo_states (update_conn i g fo) j = (if j = i then map_option g (fo_states fo i) else fo_states fo j)"
  by (simp add: update_conn_def split: option.splits)

lemma key_conns_kinds: "key_conns fo k = {i. \<exists>c. fo_states fo i = Some c \<and> k \<in> key_kinds (cs_key c)}"
proof -
  have "(\<exists>ks. key = KK_Some ks \<and> k \<in> ks) \<longleftrightarrow> k \<in> key_kinds key" for key
    by (cases key) (auto simp: key_kinds_def)
  then show ?thesis by (simp add: key_conns_def)
qed

section \<open>The invariant in two parts\<close>

text \<open>
  \<open>fanout_core\<close> is the invariant without its last clause, which \<open>set_sub\<close> breaks for one
  connection until the key is recomputed.
\<close>

definition fanout_core :: "'ch fanout \<Rightarrow> bool" where
  "fanout_core fo \<longleftrightarrow>
     finite (dom (fo_states fo)) \<and> fo_conns fo \<subseteq> dom (fo_states fo) \<and>
     (\<forall>i c. fo_states fo i = Some c \<longrightarrow> cs_id c = i \<and> distinct (map fst (cs_subs c))) \<and>
     (\<forall>i \<in> dom (fo_states fo). i \<le> fo_next_id fo) \<and>
     fo_any_kind fo = {i. \<exists>c. fo_states fo i = Some c \<and> cs_key c = KK_Any} \<and>
     (\<forall>k. kind_conns fo k = key_conns fo k \<and> fo_by_kind fo k \<noteq> Some {})"

definition keyed_conns :: "conn_id set \<Rightarrow> 'ch fanout \<Rightarrow> bool" where
  "keyed_conns J fo \<longleftrightarrow>
     (\<forall>i \<in> fo_conns fo - J. \<forall>c. fo_states fo i = Some c \<longrightarrow> cs_key c = key_of_subs (cs_subs c))"

lemma fanout_inv_split: "fanout_inv fo \<longleftrightarrow> fanout_core fo \<and> keyed_conns {} fo"
  by (simp add: fanout_inv_def fanout_core_def keyed_conns_def by_kind_iff)

text \<open>Changing a connection without touching its id, its key or its subscription names.\<close>

lemma core_update:
  assumes "fanout_core fo"
    and "\<And>c. fo_states fo i = Some c \<Longrightarrow> cs_id (g c) = cs_id c \<and> cs_key (g c) = cs_key c \<and>
           distinct (map fst (cs_subs (g c)))"
  shows "fanout_core (update_conn i g fo)"
proof (cases "fo_states fo i")
  case None
  then show ?thesis using assms(1) by (simp add: update_conn_def)
next
  case (Some c)
  have key: "(\<exists>c'. fo_states (update_conn i g fo) j = Some c' \<and> P (cs_key c')) \<longleftrightarrow>
      (\<exists>c'. fo_states fo j = Some c' \<and> P (cs_key c'))" for j P
    using assms(2) [OF Some] Some by (simp add: update_conn_states)
  have kc: "key_conns (update_conn i g fo) k = key_conns fo k" for k
    unfolding key_conns_kinds by (rule Collect_cong) (rule key)
  have dom: "dom (fo_states (update_conn i g fo)) = dom (fo_states fo)"
    using Some by (auto simp: update_conn_def)
  have any: "{j. \<exists>c'. fo_states (update_conn i g fo) j = Some c' \<and> cs_key c' = KK_Any} =
      {j. \<exists>c'. fo_states fo j = Some c' \<and> cs_key c' = KK_Any}"
    by (rule Collect_cong) (rule key)
  show ?thesis
    unfolding fanout_core_def dom kc any update_conn_frame
    using assms Some by (auto simp: fanout_core_def update_conn_states)
qed

text \<open>Moving a connection to a new key, in the index and in its own state.\<close>

definition move_key :: "conn_id \<Rightarrow> kind_key \<Rightarrow> kind_key \<Rightarrow> 'ch fanout \<Rightarrow> 'ch fanout" where
  "move_key i old new fo =
     update_conn i (\<lambda>c. c\<lparr>cs_key := new\<rparr>) (index_conn i new (deindex_conn i old fo))"

lemma move_key_states:
  "fo_states (move_key i old new fo) j =
     (if j = i then map_option (\<lambda>c. c\<lparr>cs_key := new\<rparr>) (fo_states fo i) else fo_states fo j)"
  by (simp add: move_key_def update_conn_states)

lemma move_key_frame [simp]:
  "fo_conns (move_key i old new fo) = fo_conns fo" "fo_next_id (move_key i old new fo) = fo_next_id fo"
  by (simp_all add: move_key_def)

lemma core_move_key:
  assumes core: "fanout_core fo" and c: "fo_states fo i = Some c"
  shows "fanout_core (move_key i (cs_key c) new fo)"
proof -
  let ?fo = "move_key i (cs_key c) new fo"
  have dom: "dom (fo_states ?fo) = dom (fo_states fo)"
    using c by (auto simp: move_key_states dom_def split: if_splits)
  have any: "fo_any_kind ?fo = {j. \<exists>d. fo_states ?fo j = Some d \<and> cs_key d = KK_Any}"
    using core c
    by (auto simp: move_key_def index_conn_rel deindex_conn_rel update_conn_states fanout_core_def)
  have kinds: "kind_conns ?fo k = key_conns ?fo k" for k
  proof -
    have "kind_conns fo k = key_conns fo k" using core by (simp add: fanout_core_def)
    then show ?thesis
      using c unfolding key_conns_kinds
      by (auto simp: move_key_def index_conn_rel deindex_conn_rel update_conn_states)
  qed
  have "fo_by_kind ?fo k \<noteq> Some {}" for k
    using core by (simp add: move_key_def index_conn_rel deindex_conn_rel fanout_core_def)
  then show ?thesis
    using core any kinds c unfolding fanout_core_def dom
    by (auto simp: move_key_states)
qed

lemma reindex_move:
  assumes "fo_states fo i = Some c"
  shows "reindex i fo =
    (if cs_key c = key_of_subs (cs_subs c) then fo
     else move_key i (cs_key c) (key_of_subs (cs_subs c)) fo)"
  using assms by (simp add: reindex_def move_key_def Let_def)

lemma reindex_inv:
  assumes "fanout_core fo" "keyed_conns {i} fo"
  shows "fanout_inv (reindex i fo)"
proof (cases "fo_states fo i")
  case None
  then show ?thesis
    using assms by (auto simp: fanout_inv_split reindex_def keyed_conns_def)
next
  case (Some c)
  have "fo_conns (reindex i fo) = fo_conns fo"
    by (simp add: reindex_move [OF Some])
  then have "keyed_conns {} (reindex i fo)"
    using assms(2) Some
    by (auto simp: keyed_conns_def reindex_move [OF Some] move_key_states split: if_splits)
  then show ?thesis
    using assms(1) core_move_key [OF assms(1) Some]
    by (simp add: fanout_inv_split reindex_move [OF Some])
qed

section \<open>Every operation keeps the invariant\<close>

lemma put_sub_distinct:
  "distinct (map fst subs) \<Longrightarrow> distinct (map fst (put_sub s fs subs))"
proof (induction subs)
  case (Cons t subs)
  have "fst ` set (put_sub s fs us) \<subseteq> insert s (fst ` set us)" for us
    by (induction us) auto
  with Cons show ?case by auto
qed simp

lemma keyed_update:
  "keyed_conns J fo \<Longrightarrow> keyed_conns (insert i J) (update_conn i g fo)"
  by (auto simp: keyed_conns_def update_conn_states)

lemma set_sub_inv:
  assumes "fanout_inv fo"
  shows "fanout_inv (set_sub i s fs fo)"
proof -
  let ?fo = "update_conn i (\<lambda>c. c\<lparr>cs_subs := put_sub s fs (cs_subs c)\<rparr>) fo"
  have "fanout_core ?fo"
    using assms by (intro core_update) (auto simp: fanout_inv_split fanout_core_def put_sub_distinct)
  moreover have "keyed_conns {i} ?fo"
    using assms keyed_update [of "{}" fo i] by (simp add: fanout_inv_split)
  ultimately show ?thesis unfolding set_sub_def by (rule reindex_inv)
qed

lemma distinct_filter_fst: "distinct (map fst xs) \<Longrightarrow> distinct (map fst (filter P xs))"
  by (induction xs) auto

lemma remove_sub_inv:
  assumes "fanout_inv fo"
  shows "fanout_inv (snd (remove_sub i s fo))"
proof (cases "fo_states fo i")
  case None
  then show ?thesis using assms by (simp add: remove_sub_def)
next
  case (Some c)
  let ?kept = "filter (\<lambda>sub. fst sub \<noteq> s) (cs_subs c)"
  let ?fo = "update_conn i (\<lambda>c. c\<lparr>cs_subs := ?kept\<rparr>) fo"
  have d: "distinct (map fst ?kept)"
    using fanout_invD(2) [OF assms Some] by (rule distinct_filter_fst)
  have core: "fanout_core ?fo"
    using assms d by (intro core_update) (simp_all add: fanout_inv_split)
  have "fanout_inv (reindex i ?fo)"
    using reindex_inv [OF core] assms keyed_update [of "{}" fo i] by (simp add: fanout_inv_split)
  moreover have "?fo = fo" if "length ?kept = length (cs_subs c)"
  proof -
    have "?kept = cs_subs c" using that by (metis length_filter_less filter_id_conv nat_less_le)
    then show ?thesis using Some by (simp add: update_conn_def fun_upd_idem)
  qed
  ultimately show ?thesis using assms Some by (auto simp: remove_sub_def Let_def)
qed

lemma unregister_inv:
  assumes "fanout_inv fo"
  shows "fanout_inv (unregister i fo)"
proof (cases "fo_states fo i")
  case None
  then show ?thesis using assms by (simp add: unregister_def)
next
  case (Some c)
  let ?fo = "fo\<lparr>fo_conns := fo_conns fo - {i}\<rparr>"
  have core: "fanout_core ?fo"
    using assms by (auto simp: fanout_inv_split fanout_core_def kind_conns_def key_conns_def)
  have "index_conn i KK_None fo' = fo'" for fo' :: "'a fanout" by (simp add: index_conn_def)
  then have eq: "unregister i fo = move_key i (cs_key c) KK_None ?fo"
    using Some by (simp add: unregister_def move_key_def)
  have "keyed_conns {} (move_key i (cs_key c) KK_None ?fo)"
    using assms by (auto simp: fanout_inv_split keyed_conns_def move_key_states)
  then show ?thesis
    using core_move_key [OF core, of i c] Some by (simp add: eq fanout_inv_split)
qed

text \<open>Ids are not reused as long as the counter does not wrap.\<close>

lemma next_id_less:
  fixes n :: u64
  assumes "n \<noteq> - 1"
  shows "n < n + 1"
proof -
  have "1 + n \<noteq> 0" using assms by (metis add.commute eq_neg_iff_add_eq_0)
  then show ?thesis using unatSuc [of n] by (simp add: word_less_nat_alt add.commute)
qed

lemma register_inv:
  assumes inv: "fanout_inv fo" and room: "fo_next_id fo \<noteq> - 1"
  shows "fo_states fo (fst (register tx now fo)) = None"
    and "fanout_inv (snd (register tx now fo))"
proof -
  let ?i = "fo_next_id fo + 1" and ?fo = "snd (register tx now fo)"
  have fresh: "fo_states fo ?i = None"
  proof (cases "fo_states fo ?i")
    case (Some c)
    with fanout_invD(3) [OF inv Some] next_id_less [OF room] show ?thesis by simp
  qed simp
  then show "fo_states fo (fst (register tx now fo)) = None" by (simp add: register_def Let_def)
  obtain c where c: "fo_states ?fo = (fo_states fo)(?i \<mapsto> c)" "cs_id c = ?i" "cs_subs c = []"
      "cs_key c = KK_None" "fo_conns ?fo = insert ?i (fo_conns fo)" "fo_next_id ?fo = ?i"
      "fo_any_kind ?fo = fo_any_kind fo" "fo_by_kind ?fo = fo_by_kind fo"
    by (simp add: register_def Let_def)
  have key: "(\<exists>d. fo_states ?fo j = Some d \<and> P (cs_key d)) \<longleftrightarrow>
      (\<exists>d. fo_states fo j = Some d \<and> P (cs_key d))" if "\<not> P KK_None" for j P
    using that fresh c(4) by (auto simp: c(1))
  have "key_conns ?fo k = key_conns fo k" for k
    unfolding key_conns_kinds by (rule Collect_cong, rule key) (simp add: key_kinds_def)
  moreover have "{j. \<exists>d. fo_states ?fo j = Some d \<and> cs_key d = KK_Any} =
      {j. \<exists>d. fo_states fo j = Some d \<and> cs_key d = KK_Any}"
    by (rule Collect_cong, rule key) simp
  moreover have "j \<le> ?i" if j: "j \<in> dom (fo_states ?fo)" for j
  proof (cases "j = ?i")
    case False
    then obtain d where "fo_states fo j = Some d" using j by (auto simp: c(1))
    from fanout_invD(3) [OF inv this] next_id_less [OF room] show ?thesis by simp
  qed simp
  ultimately show "fanout_inv ?fo"
    using inv c unfolding fanout_inv_def by (auto simp: key_of_subs_def)
qed

section \<open>Publication\<close>

lemma deliver_sub_frame [simp]:
  "cs_id (deliver_sub ts clock ev sub c) = cs_id c" "cs_subs (deliver_sub ts clock ev sub c) = cs_subs c"
  "cs_key (deliver_sub ts clock ev sub c) = cs_key c"
  by (auto simp: deliver_sub_def record_drop_def Let_def case_prod_beta split: option.splits)

lemma deliver_frame [simp]:
  "cs_id (deliver ts clock ev c) = cs_id c" "cs_subs (deliver ts clock ev c) = cs_subs c"
  "cs_key (deliver ts clock ev c) = cs_key c"
proof -
  have "cs_id (fold (deliver_sub ts clock ev) subs c) = cs_id c \<and>
      cs_subs (fold (deliver_sub ts clock ev) subs c) = cs_subs c \<and>
      cs_key (fold (deliver_sub ts clock ev) subs c) = cs_key c" for subs
    by (induction subs arbitrary: c) simp_all
  then show "cs_id (deliver ts clock ev c) = cs_id c" "cs_subs (deliver ts clock ev c) = cs_subs c"
    "cs_key (deliver ts clock ev c) = cs_key c"
    by (simp_all add: deliver_def)
qed

lemma fold_update_states:
  assumes "distinct is"
  shows "fo_states (fold (\<lambda>i. update_conn i g) is fo) j =
    (if j \<in> set is then map_option g (fo_states fo j) else fo_states fo j)"
  using assms by (induction "is" arbitrary: fo) (auto simp: update_conn_states)

lemma fold_update_frame [simp]:
  "fo_conns (fold (\<lambda>i. update_conn i g) is fo) = fo_conns fo"
  "fo_next_id (fold (\<lambda>i. update_conn i g) is fo) = fo_next_id fo"
  "fo_by_kind (fold (\<lambda>i. update_conn i g) is fo) = fo_by_kind fo"
  "fo_any_kind (fold (\<lambda>i. update_conn i g) is fo) = fo_any_kind fo"
  by (induction "is" arbitrary: fo) simp_all

lemma key_covers_iff: "key_covers key k \<longleftrightarrow> key = KK_Any \<or> k \<in> key_kinds key"
  by (cases key) (simp_all add: key_covers_def key_kinds_def)

text \<open>Who is visited, and that nobody is visited twice.\<close>

lemma publish_targets_spec:
  assumes inv: "fanout_inv fo" and ord: "enumerates ord"
  shows "distinct (publish_targets ord e fo)"
    "set (publish_targets ord e fo) =
      {i \<in> fo_conns fo. \<exists>c. fo_states fo i = Some c \<and> key_covers (cs_key c) (ev_kind e)}"
proof -
  let ?A = "fo_any_kind fo" and ?B = "kind_conns fo (ev_kind e)"
  have core: "fanout_core fo" using inv by (simp add: fanout_inv_split)
  have fin: "finite ?A" "finite ?B"
    using core by (auto simp: fanout_core_def key_conns_def intro: finite_subset [of _ "dom (fo_states fo)"])
  have dis: "?A \<inter> ?B = {}" using core by (auto simp: fanout_core_def key_conns_def)
  have list: "publish_targets ord e fo = filter (\<lambda>i. i \<in> fo_conns fo) (ord ?A @ ord ?B)"
    using enumeratesD(2) [OF ord, of "{}"]
    by (auto simp: publish_targets_def kind_conns_def split: option.splits)
  show "distinct (publish_targets ord e fo)"
    unfolding list using enumeratesD [OF ord fin(1)] enumeratesD [OF ord fin(2)] dis by auto
  have "?A \<union> ?B = {i. \<exists>c. fo_states fo i = Some c \<and> key_covers (cs_key c) (ev_kind e)}"
    using core by (auto simp: fanout_core_def key_conns_kinds key_covers_iff)
  then show "set (publish_targets ord e fo) =
      {i \<in> fo_conns fo. \<exists>c. fo_states fo i = Some c \<and> key_covers (cs_key c) (ev_kind e)}"
    unfolding list using enumeratesD(2) [OF ord fin(1)] enumeratesD(2) [OF ord fin(2)] by auto
qed

text \<open>
  Publication through the index has the effect of offering the event to every registered
  connection: the index skips only connections that have nothing to match.
\<close>

lemma publish_reference:
  assumes "fanout_inv fo" "enumerates ord"
  shows "fo_states (publish ts clock ord ev fo) i =
    (if i \<in> fo_conns fo then map_option (deliver ts clock ev) (fo_states fo i) else fo_states fo i)"
proof -
  note tg = publish_targets_spec [OF assms, of "be_event ev"]
  have skip: "deliver ts clock ev c = c"
    if "i \<in> fo_conns fo" "fo_states fo i = Some c"
      "\<not> key_covers (cs_key c) (ev_kind (be_event ev))" for c
    using that fanout_invD(4) [OF assms(1) that(2,1)] by (intro deliver_uncovered) simp
  show ?thesis
    unfolding publish_def fold_update_states [OF tg(1)] tg(2)
    using skip by (cases "fo_states fo i") auto
qed

lemma publish_inv:
  assumes "fanout_inv fo"
  shows "fanout_inv (publish ts clock ord ev fo)"
proof -
  have "fanout_inv (fold (\<lambda>i. update_conn i (deliver ts clock ev)) is fo)" if "fanout_inv fo"
    for fo :: "'a fanout" and "is"
    using that
  proof (induction "is" arbitrary: fo)
    case (Cons i "is")
    have "fanout_core (update_conn i (deliver ts clock ev) fo)"
      using Cons.prems by (intro core_update) (auto simp: fanout_inv_split fanout_core_def)
    moreover have "keyed_conns {} (update_conn i (deliver ts clock ev) fo)"
      using Cons.prems by (auto simp: fanout_inv_split keyed_conns_def update_conn_states)
    ultimately show ?case using Cons.IH by (simp add: fanout_inv_split)
  qed simp
  then show ?thesis using assms by (simp add: publish_def)
qed

section \<open>Accounting\<close>

text \<open>
  Every matching subscription of a delivery is counted once, as sent or as dropped; a drop puts
  the subscription on the overflow list, wakes the connection, and nothing is ever taken off it.
\<close>

definition matching_subs :: "event \<Rightarrow> sub_entry list \<Rightarrow> sub_entry list" where
  "matching_subs e subs = filter (sub_matches e) subs"

lemma deliver_subs_count:
  "cs_sent (fold (deliver_sub ts clock ev) subs c) + cs_dropped (fold (deliver_sub ts clock ev) subs c) =
   cs_sent c + cs_dropped c + of_nat (length (matching_subs (be_event ev) subs))"
  by (induction subs arbitrary: c)
    (auto simp: matching_subs_def deliver_sub_def record_drop_def Let_def case_prod_beta
      split: option.splits)

definition drops_kept :: "'ch conn_state \<Rightarrow> 'ch conn_state \<Rightarrow> bool" where
  "drops_kept c c' \<longleftrightarrow>
     set (cs_overflow c) \<subseteq> set (cs_overflow c') \<and>
     (distinct (cs_overflow c) \<longrightarrow> distinct (cs_overflow c')) \<and>
     (cs_notified c \<longrightarrow> cs_notified c') \<and>
     (cs_overflow c' \<noteq> cs_overflow c \<longrightarrow> cs_notified c') \<and>
     (cs_kill c \<longrightarrow> cs_kill c')"

lemma drops_kept_sub: "drops_kept c (deliver_sub ts clock ev sub c)"
  by (auto simp: drops_kept_def deliver_sub_def record_drop_def Let_def case_prod_beta
      split: option.splits)

lemma drops_kept_trans: "drops_kept a b \<Longrightarrow> drops_kept b c \<Longrightarrow> drops_kept a c"
  unfolding drops_kept_def by (metis subset_trans)

lemma drops_kept_fold: "drops_kept c (fold (deliver_sub ts clock ev) subs c)"
proof (induction subs arbitrary: c)
  case Nil
  show ?case by (simp add: drops_kept_def)
next
  case (Cons s subs)
  from drops_kept_trans [OF drops_kept_sub Cons.IH] show ?case by simp
qed

text \<open>A full queue: every matching subscription is dropped and reported.\<close>

lemma deliver_full_queue:
  assumes "\<And>ch m. ts ch m = None"
  shows "cs_tx (fold (deliver_sub ts clock ev) subs c) = cs_tx c \<and>
    cs_sent (fold (deliver_sub ts clock ev) subs c) = cs_sent c \<and>
    set (cs_overflow (fold (deliver_sub ts clock ev) subs c)) =
      set (cs_overflow c) \<union> fst ` set (matching_subs (be_event ev) subs)"
  by (induction subs arbitrary: c)
    (auto simp: matching_subs_def deliver_sub_def record_drop_def Let_def case_prod_beta assms)

text \<open>The kill flag is raised exactly when the window's count passes the limit.\<close>

lemma record_drop_kill:
  assumes "\<not> cs_kill c"
  shows "cs_kill (record_drop now s c) \<longleftrightarrow>
    now - fst (cs_window c) \<le> DROP_WINDOW \<and> MAX_DROPS_PER_WINDOW \<le> snd (cs_window c)"
  using assms by (auto simp: record_drop_def Let_def case_prod_beta not_less)

end
