(* ===== verification/Fanout_Properties.thy ===== *)
theory Fanout_Properties
  imports Fanout_Delivery Index_Properties
begin

text \<open>
  Properties of live delivery: the inverted index never hides a subscription, publication is
  delivery to every registered connection, queues fill in order, and a slow connection is
  disconnected exactly when its drops pass the limit of a window.
\<close>

section \<open>Reachable registries\<close>

text \<open>\<open>register\<close> is limited to \<open>2 ^ 64 - 1\<close> calls, after which its ids would repeat.\<close>

inductive fanout_reach :: "'ch fanout \<Rightarrow> bool" where
  new: "fanout_reach fanout_new"
| register: "fanout_reach fo \<Longrightarrow> fo_next_id fo \<noteq> - 1 \<Longrightarrow> register tx now fo = (i, fo') \<Longrightarrow>
    fanout_reach fo'"
| unregister: "fanout_reach fo \<Longrightarrow> fanout_reach (unregister i fo)"
| subscribe: "fanout_reach fo \<Longrightarrow> fanout_reach (set_sub i s fs fo)"
| unsubscribe: "fanout_reach fo \<Longrightarrow> remove_sub i s fo = (r, fo') \<Longrightarrow> fanout_reach fo'"
| publish: "fanout_reach fo \<Longrightarrow> fanout_reach (publish try_send clock ord ev fo)"
| drain: "fanout_reach fo \<Longrightarrow> fanout_reach (update_conn i (\<lambda>c. snd (take_overflowed c)) fo)"

lemma drain_inv:
  assumes "fanout_inv fo"
  shows "fanout_inv (update_conn i (\<lambda>c. snd (take_overflowed c)) fo)"
proof -
  have "fanout_core (update_conn i (\<lambda>c. snd (take_overflowed c)) fo)"
    using assms
    by (intro core_update) (auto simp: fanout_inv_split fanout_core_def take_overflowed_def)
  moreover have "keyed_conns {} (update_conn i (\<lambda>c. snd (take_overflowed c)) fo)"
    using assms
    by (auto simp: fanout_inv_split keyed_conns_def update_conn_states take_overflowed_def
        split: if_splits)
  ultimately show ?thesis by (simp add: fanout_inv_split)
qed

lemma fanout_reach_inv: "fanout_reach fo \<Longrightarrow> fanout_inv fo"
proof (induction rule: fanout_reach.induct)
  case (register fo tx now i fo')
  then show ?case using register_inv(2) [of fo tx now] by simp
next
  case (unsubscribe fo i s r fo')
  then show ?case using remove_sub_inv [of fo i s] by simp
qed (simp_all add: fanout_inv_new unregister_inv set_sub_inv publish_inv drain_inv)

text \<open>
  In every reachable registry the inverted index is exact: a registered connection is listed
  for all kinds if one of its filters names none, and otherwise under exactly the kinds that its
  filters name; no empty entry is kept, and subscription ids are unique per connection.
\<close>

theorem kind_index_exact:
  assumes "fanout_reach fo" "i \<in> fo_conns fo"
  shows "\<exists>c. fo_states fo i = Some c \<and> cs_id c = i \<and> distinct (map fst (cs_subs c)) \<and>
    (i \<in> fo_any_kind fo \<longleftrightarrow> key_of_subs (cs_subs c) = KK_Any) \<and>
    (i \<in> kind_conns fo k \<longleftrightarrow> k \<in> key_kinds (key_of_subs (cs_subs c))) \<and> fo_by_kind fo k \<noteq> Some {}"
proof -
  have inv: "fanout_inv fo" by (rule fanout_reach_inv [OF assms(1)])
  then have core: "fanout_core fo" by (simp add: fanout_inv_split)
  obtain c where c: "fo_states fo i = Some c"
    using assms(2) inv by (auto simp: fanout_inv_def)
  note key = fanout_invD [OF inv c]
  show ?thesis
  proof (intro exI [of _ c] conjI)
    show "i \<in> fo_any_kind fo \<longleftrightarrow> key_of_subs (cs_subs c) = KK_Any"
      using core c key(4) [OF assms(2)] by (simp add: fanout_core_def)
    show "i \<in> kind_conns fo k \<longleftrightarrow> k \<in> key_kinds (key_of_subs (cs_subs c))"
      using core c key(4) [OF assms(2)] by (simp add: fanout_core_def key_conns_kinds)
    show "fo_by_kind fo k \<noteq> Some {}" using core by (simp add: fanout_core_def)
  qed (use c key in simp_all)
qed

text \<open>A registry with one connection that subscribes to notes; its queue is a list of messages.\<close>

definition sample_fanout :: "string list fanout" where
  "sample_fanout =
     set_sub 1 ''s'' [filter_default\<lparr>f_kinds := Some [1]\<rparr>] (snd (register [] 0 fanout_new))"

lemma sample_fanout_reach: "fanout_reach sample_fanout"
  unfolding sample_fanout_def
proof (rule fanout_reach.subscribe)
  show "fanout_reach (snd (register [] 0 fanout_new))"
    by (rule fanout_reach.register [OF fanout_reach.new _ surjective_pairing])
      (simp add: fanout_new_def)
qed

lemma sample_fanout_conns: "1 \<in> fo_conns sample_fanout"
  by (simp add: sample_fanout_def set_sub_def reindex_def register_def fanout_new_def Let_def
      split: option.splits)

theorem kind_index_exact_witness: "\<exists>c. fo_states sample_fanout 1 = Some c \<and> cs_id c = 1"
  using kind_index_exact [OF sample_fanout_reach sample_fanout_conns] by blast

section \<open>Publication\<close>

text \<open>
  C4. Publishing through the inverted index is the same as offering the event to every registered
  connection in turn: exactly the registered connections whose subscriptions match receive it, each
  subscription once, in whatever order the hash sets list the connections.
\<close>

theorem publish_is_broadcast:
  assumes "fanout_reach fo" "enumerates ord"
  shows "fo_states (publish try_send clock ord ev fo) i =
    (if i \<in> fo_conns fo then map_option (deliver try_send clock ev) (fo_states fo i) else fo_states fo i)"
  by (rule publish_reference [OF fanout_reach_inv [OF assms(1)] assms(2)])

theorem publish_is_broadcast_witness:
  "fo_states (publish (\<lambda>ch m. Some (ch @ [m])) (\<lambda>_ _. 0) sorted_list_of_set
      (broadcast_new sample_note) sample_fanout) 1 =
   map_option (deliver (\<lambda>ch m. Some (ch @ [m])) (\<lambda>_ _. 0) (broadcast_new sample_note))
     (fo_states sample_fanout 1)"
  using publish_is_broadcast [OF sample_fanout_reach enumerates_sorted_list_of_set] sample_fanout_conns
  by simp

text \<open>A queue of messages with a capacity.\<close>

definition bounded_send :: "nat \<Rightarrow> string list \<Rightarrow> string \<Rightarrow> string list option" where
  "bounded_send n ch m = (if length ch < n then Some (ch @ [m]) else None)"

lemma record_drop_frame [simp]:
  "cs_tx (record_drop now s c) = cs_tx c" "cs_sent (record_drop now s c) = cs_sent c"
  "cs_dropped (record_drop now s c) = cs_dropped c + 1"
  "set (cs_overflow (record_drop now s c)) = insert s (set (cs_overflow c))"
  by (auto simp: record_drop_def Let_def case_prod_beta)

lemma deliver_bounded_fold:
  fixes c :: "string list conn_state"
  assumes "length (cs_tx c) \<le> n"
  shows "cs_tx (fold (deliver_sub (bounded_send n) clock ev) subs c) =
      cs_tx c @ map (\<lambda>sub. event_message (fst sub) (be_json ev)) 
        (take (n - length (cs_tx c)) (matching_subs (be_event ev) subs)) \<and>
    set (cs_overflow (fold (deliver_sub (bounded_send n) clock ev) subs c)) =
      set (cs_overflow c) \<union> fst ` set (drop (n - length (cs_tx c)) (matching_subs (be_event ev) subs))"
  using assms
proof (induction subs arbitrary: c)
  case (Cons sub subs)
  let ?c = "deliver_sub (bounded_send n) clock ev sub c"
  consider "\<not> sub_matches (be_event ev) sub"
    | "sub_matches (be_event ev) sub" "length (cs_tx c) < n"
    | "sub_matches (be_event ev) sub" "length (cs_tx c) = n"
    using Cons.prems by force
  then show ?case
  proof cases
    case 1
    then show ?thesis using Cons by (simp add: deliver_sub_def matching_subs_def)
  next
    case 2
    then have "?c = c\<lparr>cs_tx := cs_tx c @ [event_message (fst sub) (be_json ev)], cs_sent := cs_sent c + 1\<rparr>"
      by (simp add: deliver_sub_def bounded_send_def)
    moreover have "n - length (cs_tx c) = Suc (n - Suc (length (cs_tx c)))" using 2 by simp
    ultimately show ?thesis
      using 2 Cons.IH [of ?c] by (simp add: matching_subs_def)
  next
    case 3
    then have "?c = record_drop (clock (cs_id c) (fst sub)) (fst sub) c"
      by (simp add: deliver_sub_def bounded_send_def)
    then show ?thesis
      using 3 Cons.IH [of ?c] by (auto simp: matching_subs_def)
  qed
qed (simp add: matching_subs_def)

text \<open>
  Delivery to a queue with \<open>n\<close> slots: the messages of the matching subscriptions are appended
  in the order of the subscriptions until the queue is full, each carrying the subscription's id
  and the event's JSON; the subscriptions for which there was no room, and no others, are added to
  those to be closed; and every match is counted as sent or as dropped.
\<close>

theorem deliver_to_bounded_queue:
  assumes "length (cs_tx c) \<le> n" "ms = filter (sub_matches (be_event ev)) (cs_subs c)"
    and "c' = deliver (bounded_send n) clock ev c"
  shows "cs_tx c' = cs_tx c @ map (\<lambda>sub. event_message (fst sub) (be_json ev)) (take (n - length (cs_tx c)) ms) \<and>
    set (cs_overflow c') = set (cs_overflow c) \<union> fst ` set (drop (n - length (cs_tx c)) ms) \<and>
    cs_sent c' + cs_dropped c' = cs_sent c + cs_dropped c + of_nat (length ms)"
  using deliver_bounded_fold [OF assms(1), of clock ev "cs_subs c"]
    deliver_subs_count [of "bounded_send n" clock ev "cs_subs c" c]
  by (simp add: assms(2,3) deliver_def matching_subs_def)

definition sample_conn :: "string list conn_state" where
  "sample_conn =
     \<lparr>cs_id = 1, cs_tx = [], cs_subs = [(''a'', [filter_default]), (''b'', [filter_default])],
      cs_key = KK_Any, cs_overflow = [], cs_notified = False, cs_kill = False, cs_sent = 0,
      cs_dropped = 0, cs_window = (0, 0)\<rparr>"

theorem deliver_to_bounded_queue_witness:
  "set (cs_overflow (deliver (bounded_send 1) (\<lambda>_ _. 0) (broadcast_new sample_note) sample_conn)) = {''b''}"
proof -
  have "matches_event filter_default sample_note" by code_simp
  then have "filter (sub_matches (be_event (broadcast_new sample_note))) (cs_subs sample_conn) =
      [(''a'', [filter_default]), (''b'', [filter_default])]"
    by (simp add: sub_matches_def broadcast_new_def sample_conn_def)
  then show ?thesis
    using deliver_to_bounded_queue [OF _ refl refl, of sample_conn 1 "\<lambda>_ _. 0" "broadcast_new sample_note"]
    by (simp add: sample_conn_def)
qed

section \<open>Slow connections\<close>

text \<open>
  A drop raises the kill flag exactly when it falls into the current ten-second window and that
  window has counted 2048 drops already; a later drop opens a new window.
\<close>

theorem drop_limit:
  assumes "\<not> should_disconnect c"
  shows "should_disconnect (record_drop now s c) \<longleftrightarrow>
    now - fst (cs_window c) \<le> DROP_WINDOW \<and> MAX_DROPS_PER_WINDOW \<le> snd (cs_window c)"
  using record_drop_kill assms by (simp add: should_disconnect_def)

theorem drop_limit_witness: "\<not> should_disconnect (record_drop 5 ''a'' sample_conn)"
  using drop_limit [of sample_conn 5 "''a''"]
  by (simp add: sample_conn_def should_disconnect_def MAX_DROPS_PER_WINDOW_def)

end
