(* ===== verification/Message.thy ===== *)
theory Message
  imports Fanout
begin

text \<open>
  Protocol messages (\<^verbatim>\<open>src/src/message.rs\<close>). The JSON library is a parameter: the fields of
  \<open>msg_json\<close> are the calls that the sources make, at the types they make them; \<open>json_ok\<close> states
  what JSON and serde document of them, as far as messages rely on it. A \<open>RawValue\<close> is the text of
  a JSON value.
\<close>

section \<open>The JSON library\<close>

text \<open>
  \<open>js_array\<close>: \<open>from_str\<close> at \<open>Vec<&RawValue>\<close>, \<open>Inl\<close> with the text of the error; \<open>js_borrowed\<close>:
  at \<open>&str\<close>, which fails on strings with escapes; \<open>js_str\<close>, \<open>js_bool\<close>: at \<open>String\<close> and \<open>bool\<close>;
  \<open>js_object\<close>: the entries that the deserializer of a map hands to its visitor; the two error
  texts; \<open>js_string\<close> and \<open>js_filters\<close>: \<open>to_string\<close> at \<open>str\<close> and \<open>Vec<Filter>\<close>.
\<close>

record 'j msg_json =
  js_array :: "string \<Rightarrow> string + string list"
  js_borrowed :: "string \<Rightarrow> string option"
  js_str :: "string \<Rightarrow> string option"
  js_bool :: "string \<Rightarrow> bool option"
  js_object :: "string \<Rightarrow> (string \<times> 'j) list option"
  js_filter_error :: "string \<Rightarrow> string"
  js_event_error :: "bytes \<Rightarrow> string"
  js_string :: "string \<Rightarrow> string option"
  js_filters :: "(string \<times> filter_value) list list \<Rightarrow> string option"

definition string_bytes :: "string \<Rightarrow> bytes" where
  "string_bytes s = map of_char s"

definition quoted :: "string \<Rightarrow> string" where
  "quoted s = CHR 0x22 # s @ [CHR 0x22]"

definition json_str :: "'j msg_json \<Rightarrow> string \<Rightarrow> string" where
  "json_str M s = (case js_string M s of Some t \<Rightarrow> t | None \<Rightarrow> quoted [])"

section \<open>Messages\<close>

datatype nostr_message =
  M_Event "string option" event
| M_Request string "nostr_filter list"
| M_Close string
| M_EndOfStoredEvents string
| M_Notification string
| M_Ok string bool string
| M_Closed string string

text \<open>\<open>Display\<close> of the parse errors.\<close>

definition show_parse_error :: "'j msg_json \<Rightarrow> bytes \<Rightarrow> event_parse_error \<Rightarrow> string" where
  "show_parse_error M json err =
     (case err of
        JsonError \<Rightarrow> ''Invalid JSON: '' @ js_event_error M json
      | InvalidId \<Rightarrow> ''Invalid event id (expected 32-byte hex)''
      | InvalidPubkey \<Rightarrow> ''Invalid pubkey (expected 32-byte hex)''
      | InvalidSignature \<Rightarrow> ''Invalid signature (expected 64-byte hex)''
      | IdMismatch \<Rightarrow> ''Event id does not match content hash''
      | BadSignature \<Rightarrow> ''Signature verification failed'')"

section \<open>Parsing\<close>

text \<open>One filter, and the loop over the filters of a request.\<close>

definition parse_filter ::
    "'x ext_scheme \<Rightarrow> 'j serde \<Rightarrow> 'j msg_json \<Rightarrow> string \<Rightarrow> string + nostr_filter" where
  "parse_filter X J M text =
     (case Option.bind (js_object M text) (visit_map X J) of
        Some f \<Rightarrow> Inr f
      | None \<Rightarrow> Inl (''Invalid filter: '' @ js_filter_error M text))"

fun parse_filters ::
    "'x ext_scheme \<Rightarrow> 'j serde \<Rightarrow> 'j msg_json \<Rightarrow> string list \<Rightarrow> string + nostr_filter list" where
  "parse_filters X J M [] = Inr []"
| "parse_filters X J M (t # ts) =
     (case parse_filter X J M t of
        Inl err \<Rightarrow> Inl err
      | Inr f \<Rightarrow>
          (case parse_filters X J M ts of Inl err \<Rightarrow> Inl err | Inr fs \<Rightarrow> Inr (f # fs)))"

text \<open>The string at position \<open>i\<close>, which exists, or the given error.\<close>

definition str_at :: "'j msg_json \<Rightarrow> string list \<Rightarrow> nat \<Rightarrow> string \<Rightarrow> (string \<Rightarrow> string + 'a) \<Rightarrow> string + 'a" where
  "str_at M arr i err k = (case js_str M (arr ! i) of None \<Rightarrow> Inl err | Some s \<Rightarrow> k s)"

definition message_from_json ::
    "'x ext_scheme \<Rightarrow> 'j serde \<Rightarrow> 'j msg_json \<Rightarrow> string \<Rightarrow> string + nostr_message" where
  "message_from_json X J M json =
     (case js_array M json of
        Inl err \<Rightarrow> Inl (''JSON parse error: '' @ err)
      | Inr arr \<Rightarrow>
     if arr = [] then Inl ''Empty array''
     else
     (case js_borrowed M (arr ! 0) of
        None \<Rightarrow> Inl ''Invalid message type''
      | Some msg_type \<Rightarrow>
     if msg_type = ''EVENT'' then
       (if length arr < 2 then Inl ''Missing event data''
        else
          (case from_json X (string_bytes (arr ! 1)) of
             Inl err \<Rightarrow> Inl (show_parse_error M (string_bytes (arr ! 1)) err)
           | Inr e \<Rightarrow> Inr (M_Event None e)))
     else if msg_type = ''REQ'' then
       (if length arr < 3 then Inl ''Missing filters''
        else str_at M arr 1 ''Missing subscription ID''
          (\<lambda>i. case parse_filters X J M (drop 2 arr) of
                 Inl err \<Rightarrow> Inl err | Inr fs \<Rightarrow> Inr (M_Request i fs)))
     else if msg_type = ''CLOSE'' then
       (if length arr < 2 then Inl ''Missing subscription ID''
        else str_at M arr 1 ''Invalid subscription ID'' (\<lambda>i. Inr (M_Close i)))
     else if msg_type = ''EOSE'' then
       (if length arr < 2 then Inl ''Missing EOSE id''
        else str_at M arr 1 ''Invalid EOSE id'' (\<lambda>i. Inr (M_EndOfStoredEvents i)))
     else if msg_type = ''NOTICE'' then
       (if length arr < 2 then Inl ''Missing notice message''
        else str_at M arr 1 ''Invalid notice message'' (\<lambda>m. Inr (M_Notification m)))
     else if msg_type = ''OK'' then
       (if length arr < 4 then Inl ''Missing OK fields''
        else str_at M arr 1 ''Invalid OK id''
          (\<lambda>i. case js_bool M (arr ! 2) of
                 None \<Rightarrow> Inl ''Invalid OK accepted field''
               | Some accepted \<Rightarrow>
                   str_at M arr 3 ''Invalid OK message'' (\<lambda>m. Inr (M_Ok i accepted m))))
     else Inl (''Unknown message type: '' @ msg_type)))"

section \<open>Printing\<close>

definition raw_text :: "event \<Rightarrow> string" where
  "raw_text e = map (\<lambda>b. char_of (unat b)) (ev_raw e)"

definition show_bool :: "bool \<Rightarrow> string" where
  "show_bool b = (if b then ''true'' else ''false'')"

text \<open>The frame of a message: its type, quoted, and its parts.\<close>

definition frame :: "string \<Rightarrow> string list \<Rightarrow> string" where
  "frame msg_type parts = ''['' @ quoted msg_type @ concat (map (\<lambda>p. '','' @ p) parts) @ '']''"

definition message_to_json :: "'x ext_scheme \<Rightarrow> 'j msg_json \<Rightarrow> nostr_message \<Rightarrow> string" where
  "message_to_json X M m =
     (case m of
        M_Event sub e \<Rightarrow>
          (case sub of Some i \<Rightarrow> frame ''EVENT'' [quoted i, raw_text e] | None \<Rightarrow> raw_text e)
      | M_Request i fs \<Rightarrow>
          frame ''REQ'' [json_str M i,
            (case js_filters M (map (serialize_filter X) fs) of Some t \<Rightarrow> t | None \<Rightarrow> [])]
      | M_Close i \<Rightarrow> frame ''CLOSE'' [json_str M i]
      | M_EndOfStoredEvents i \<Rightarrow> frame ''EOSE'' [json_str M i]
      | M_Notification s \<Rightarrow> frame ''NOTICE'' [json_str M s]
      | M_Ok i accepted s \<Rightarrow> frame ''OK'' [json_str M i, show_bool accepted, json_str M s]
      | M_Closed i s \<Rightarrow> frame ''CLOSED'' [json_str M i, json_str M s])"

section \<open>Round trips\<close>

text \<open>
  What JSON and serde document, for the frames that messages use: a string is printed as a text
  that reads back as it, an array of string literals and booleans splits into them, and a type name
  is a plain string.
\<close>

definition atom :: "'j msg_json \<Rightarrow> string \<Rightarrow> bool" where
  "atom M p \<longleftrightarrow> (\<exists>s. js_string M s = Some p) \<or> p = ''true'' \<or> p = ''false''"

definition json_ok :: "'j msg_json \<Rightarrow> bool" where
  "json_ok M \<longleftrightarrow>
     (\<forall>s. \<exists>t. js_string M s = Some t \<and> js_str M t = Some s) \<and>
     js_bool M ''true'' = Some True \<and> js_bool M ''false'' = Some False \<and>
     (\<forall>ty ps. ty \<in> {''CLOSE'', ''EOSE'', ''NOTICE'', ''OK'', ''CLOSED''} \<longrightarrow> list_all (atom M) ps \<longrightarrow>
        js_array M (frame ty ps) = Inr (quoted ty # ps)) \<and>
     (\<forall>ty \<in> {''CLOSE'', ''EOSE'', ''NOTICE'', ''OK'', ''CLOSED''}. js_borrowed M (quoted ty) = Some ty)"

lemma json_str_ok:
  assumes "json_ok M"
  shows "js_str M (json_str M s) = Some s" "atom M (json_str M s)"
proof -
  obtain t where "js_string M s = Some t" "js_str M t = Some s"
    using assms unfolding json_ok_def by blast
  then show "js_str M (json_str M s) = Some s" "atom M (json_str M s)"
    by (auto simp: json_str_def atom_def)
qed

lemma show_bool_ok:
  assumes "json_ok M"
  shows "js_bool M (show_bool b) = Some b" "atom M (show_bool b)"
  using assms by (auto simp: json_ok_def show_bool_def atom_def)

lemma frame_ok:
  assumes "json_ok M" "ty \<in> {''CLOSE'', ''EOSE'', ''NOTICE'', ''OK'', ''CLOSED''}"
  shows "list_all (atom M) ps \<Longrightarrow> js_array M (frame ty ps) = Inr (quoted ty # ps)"
    "js_borrowed M (quoted ty) = Some ty"
  using assms unfolding json_ok_def by blast+

fun plain_message :: "nostr_message \<Rightarrow> bool" where
  "plain_message (M_Close i) = True"
| "plain_message (M_EndOfStoredEvents i) = True"
| "plain_message (M_Notification s) = True"
| "plain_message (M_Ok i b s) = True"
| "plain_message m = False"

lemma message_round:
  assumes "json_ok M" "plain_message m"
  shows "message_from_json X J M (message_to_json X M m) = Inr m"
  using assms(2)
proof (cases m)
  case (M_Ok i b s)
  have "list_all (atom M) [json_str M i, show_bool b, json_str M s]"
    using json_str_ok(2) [OF assms(1)] show_bool_ok(2) [OF assms(1)] by simp
  then show ?thesis
    using frame_ok [OF assms(1), of "''OK''"] json_str_ok(1) [OF assms(1)] show_bool_ok(1) [OF assms(1)]
    by (simp add: M_Ok message_to_json_def message_from_json_def str_at_def numeral_3_eq_3 numeral_2_eq_2)
qed (use frame_ok [OF assms(1)] json_str_ok [OF assms(1)] in
    \<open>auto simp: message_to_json_def message_from_json_def str_at_def\<close>)

text \<open>A CLOSED message is printed but not understood.\<close>

lemma closed_unknown:
  assumes "json_ok M"
  shows "message_from_json X J M (message_to_json X M (M_Closed i s)) =
    Inl ''Unknown message type: CLOSED''"
  using frame_ok [OF assms, of "''CLOSED''"] json_str_ok(2) [OF assms]
  by (simp add: message_to_json_def message_from_json_def)

end
