(* ===== verification/Rust_Str.thy ===== *)
theory Rust_Str
  imports Deletion
begin

text \<open>
  Operations of Rust's \<open>str\<close> on the UTF-8 bytes of a string: trimming, prefixes, splitting, and the
  decimal notation of numbers.
\<close>

section \<open>Trimming\<close>

text \<open>The characters with the Unicode property \<open>White_Space\<close>.\<close>

definition is_whitespace :: "string \<Rightarrow> bool" where
  "is_whitespace c \<longleftrightarrow>
     c \<in> {[CHR 0x09], [CHR 0x0A], [CHR 0x0B], [CHR 0x0C], [CHR 0x0D], [CHR 0x20],
          [CHR 0xC2, CHR 0x85], [CHR 0xC2, CHR 0xA0], [CHR 0xE1, CHR 0x9A, CHR 0x80],
          [CHR 0xE2, CHR 0x80, CHR 0xA8], [CHR 0xE2, CHR 0x80, CHR 0xA9],
          [CHR 0xE2, CHR 0x80, CHR 0xAF], [CHR 0xE2, CHR 0x81, CHR 0x9F],
          [CHR 0xE3, CHR 0x80, CHR 0x80]} \<or>
     (length c = 3 \<and> take 2 c = [CHR 0xE2, CHR 0x80] \<and> of_char (c ! 2) \<in> {0x80..0x8A :: nat})"

definition trim_start :: "string \<Rightarrow> string" where
  "trim_start s = concat (dropWhile is_whitespace (chars s))"

definition trim_end :: "string \<Rightarrow> string" where
  "trim_end s = concat (rev (dropWhile is_whitespace (rev (chars s))))"

definition trim :: "string \<Rightarrow> string" where
  "trim s = trim_end (trim_start s)"

definition strip_prefix :: "char \<Rightarrow> string \<Rightarrow> string option" where
  "strip_prefix c s = (case s of d # r \<Rightarrow> if d = c then Some r else None | [] \<Rightarrow> None)"

section \<open>Splitting\<close>

text \<open>\<open>s.split(c)\<close> for an ASCII character.\<close>

fun split_char :: "char \<Rightarrow> string \<Rightarrow> string list" where
  "split_char c [] = [[]]"
| "split_char c (x # xs) =
     (if x = c then [] # split_char c xs
      else (case split_char c xs of w # ws \<Rightarrow> (x # w) # ws | [] \<Rightarrow> [[x]]))"

lemma split_plain: "c \<notin> set p \<Longrightarrow> split_char c p = [p]"
  by (induction p) auto

lemma split_join: "c \<notin> set p \<Longrightarrow> split_char c (p @ c # r) = p # split_char c r"
  by (induction p) auto

section \<open>Numbers\<close>

definition show_nat :: "nat \<Rightarrow> string" where
  "show_nat n = map (\<lambda>d. char_of (48 + d)) (show_digits n)"

lemma show_digits_length: "n < 1000 \<Longrightarrow> length (show_digits n) \<le> 3"
  by (subst show_digits.simps, subst show_digits.simps, subst show_digits.simps) auto

lemma show_digits_lead: "hd (show_digits n) = 0 \<Longrightarrow> length (show_digits n) = 1"
proof (induction n rule: show_digits.induct)
  case (1 n)
  show ?case
  proof (cases "n < 10")
    case True
    then show ?thesis by (subst show_digits.simps) simp
  next
    case False
    have n: "show_digits n = show_digits (n div 10) @ [n mod 10]"
      using False by (subst show_digits.simps) simp
    then have "hd (show_digits (n div 10)) = 0"
      using "1.prems" show_digits_nonempty [of "n div 10"] by simp
    with "1.IH" [OF False] have l: "length (show_digits (n div 10)) = 1" by simp
    then obtain d where d: "show_digits (n div 10) = [d]" by (metis length_0_conv length_Suc_conv One_nat_def)
    then have "d = 0" using \<open>hd (show_digits (n div 10)) = 0\<close> by simp
    then have "n div 10 = 0" using dec_value_show [of "n div 10"] d by simp
    then show ?thesis using False by simp
  qed
qed

text \<open>Printed numbers are ASCII digits, so trimming leaves them alone.\<close>

lemma digit_char:
  fixes d :: nat
  assumes "d < 10"
  shows "(of_char (char_of (48 + d)) :: nat) = 48 + d"
  using assms by (simp add: of_char_of)

end
