(* ===== verification/Relay.thy ===== *)
theory Relay
  imports Message Rust_Str
begin

text \<open>
  The relay (\<^verbatim>\<open>src/src/relay.rs\<close>): the event pipeline and the connection handler, composed of the
  store, the filters and the fanout. The handler of a connection is a loop over \<open>select!\<close>; each of
  its branches, each task it spawns and each background task of the store is a step of the
  relation \<open>relay_step\<close>, and the steps of different tasks interleave freely. What belongs to
  axum and tokio is given by the environment: whether a send succeeds, what the sender task takes
  from the queue, when a timer fires.
\<close>

section \<open>Configuration\<close>

record relay_config =
  rc_bind_addr :: string
  rc_target_ram_percent :: byte
  rc_max_bytes :: usize
  rc_max_subscriptions :: usize
  rc_max_limit :: usize
  rc_idle_timeout :: u64
  rc_persistence_path :: "string option"
  rc_persistence_interval :: u64
  rc_trusted_proxies :: "string list"
  rc_prometheus_url :: "string option"
  rc_log_dir :: "string option"

definition relay_config_default :: relay_config where
  "relay_config_default =
     \<lparr>rc_bind_addr = ''0.0.0.0:8080'', rc_target_ram_percent = 80, rc_max_bytes = 0,
      rc_max_subscriptions = 300, rc_max_limit = 5000, rc_idle_timeout = 10,
      rc_persistence_path = None, rc_persistence_interval = 60, rc_trusted_proxies = [],
      rc_prometheus_url = None, rc_log_dir = None\<rparr>"

definition MAX_MESSAGE_BYTES :: nat where
  "MAX_MESSAGE_BYTES = 512 * 1024"

definition MAX_FILTERS_PER_REQ :: nat where
  "MAX_FILTERS_PER_REQ = 20"

section \<open>Peeking at a message\<close>

definition message_type :: "string \<Rightarrow> string option" where
  "message_type text =
     Option.bind (strip_prefix CHR ''['' (trim_start text)) (\<lambda>s.
     Option.bind (strip_prefix (CHR 0x22) (trim_start s)) (\<lambda>s.
     if CHR 0x22 \<in> set s then Some (takeWhile (\<lambda>c. c \<noteq> CHR 0x22) s) else None))"

definition prepare_filter :: "'x ext_scheme \<Rightarrow> usize \<Rightarrow> nostr_filter \<Rightarrow> nostr_filter" where
  "prepare_filter X max_limit f =
     parse_hex_values X
       (f\<lparr>f_limit := Some (case f_limit f of None \<Rightarrow> max_limit | Some l \<Rightarrow> min l max_limit)\<rparr>)"

definition prepare_filters :: "'x ext_scheme \<Rightarrow> usize \<Rightarrow> nostr_filter list \<Rightarrow> nostr_filter list" where
  "prepare_filters X max_limit fs = map (prepare_filter X max_limit) fs"

section \<open>State\<close>

text \<open>
  A REQ task: the filters it has still to query, the events of the current one it has still to
  send, and whether it has sent its EOSE.
\<close>

record req_task =
  rq_filters :: "nostr_filter list"
  rq_pending :: "event list"
  rq_done :: bool

record conn_task =
  ct_active :: bool
  ct_closing :: bool
  ct_opened :: nat
  ct_closed :: nat
  ct_tasks :: "string \<rightharpoonup> req_task"

text \<open>
  The spawned EVENT tasks outlive their connection: they are jobs of the relay, with the connection
  that waits for the reply.
\<close>

record 'ch relay =
  rl_store :: event_store
  rl_fanout :: "'ch fanout"
  rl_conns :: "conn_id \<rightharpoonup> conn_task"
  rl_jobs :: "(conn_id \<times> string) list"
  rl_replies :: "(conn_id \<times> string) list"
  rl_count :: usize

record ('j, 'ch) relay_env =
  en_ext :: ext
  en_serde :: "'j serde"
  en_json :: "'j msg_json"
  en_try_send :: "'ch \<Rightarrow> string \<Rightarrow> 'ch option"
  en_recv :: "'ch \<Rightarrow> (string \<times> 'ch) option"
  en_config :: relay_config

text \<open>\<open>Relay::new\<close>: the store's configuration comes from the percentage of memory only.\<close>

definition store_config_of :: "(u64 \<Rightarrow> byte \<Rightarrow> usize) \<Rightarrow> u64 \<Rightarrow> relay_config \<Rightarrow> store_config" where
  "store_config_of target_bytes total_mem cfg =
     (case rc_persistence_path cfg of
        Some path \<Rightarrow> with_persistence target_bytes total_mem (rc_target_ram_percent cfg) path
      | None \<Rightarrow> from_target_ram_percent target_bytes total_mem (rc_target_ram_percent cfg))"

definition relay_new :: "event_store \<Rightarrow> 'ch relay" where
  "relay_new st =
     \<lparr>rl_store = st, rl_fanout = fanout_new, rl_conns = Map.empty, rl_jobs = [], rl_replies = [],
      rl_count = 0\<rparr>"

section \<open>The event pipeline\<close>

text \<open>How an accepted event is routed: the clock and the order of the hash sets at that moment.\<close>

type_synonym 'ch router = "broadcast_event \<Rightarrow> 'ch fanout \<Rightarrow> 'ch fanout"

definition ok_reply :: "('j, 'ch) relay_env \<Rightarrow> event \<Rightarrow> bool \<Rightarrow> string \<Rightarrow> string" where
  "ok_reply V e accepted message =
     message_to_json (en_ext V) (en_json V) (M_Ok (hex_encode (en_ext V) (ev_id e)) accepted message)"

definition apply_deletion_request ::
    "('j, 'ch) relay_env \<Rightarrow> (bytes set \<Rightarrow> bytes list) \<Rightarrow> 'ch router \<Rightarrow> event \<Rightarrow>
     event_store \<times> 'ch fanout \<Rightarrow> string \<times> event_store \<times> 'ch fanout" where
  "apply_deletion_request V ord route e sf =
     (let (st, fo) = sf in
      if store_contains st (ev_id e) then
        (ok_reply V e True ''duplicate: already have this event'', st, fo)
      else if store_is_tombstoned st (ev_id e) then
        (ok_reply V e False ''deleted: this event was removed by a deletion request'', st, fo)
      else
        let (out, st1) = apply_deletion (en_ext V) ord (deletion_request (en_ext V) e) (ev_pubkey e)
                           (ev_created_at e) st;
            (r, st2) = store_insert (en_ext V) e st1
        in (case r of
              R_Deleted \<Rightarrow>
                (ok_reply V e False ''deleted: this event was removed by a deletion request'', st2, fo)
            | R_Ephemeral \<Rightarrow> (ok_reply V e True [], st2, route (broadcast_new e) fo)
            | R_Duplicate \<Rightarrow> (ok_reply V e True [], st2, route (broadcast_new e) fo)
            | R_Stored e' _ \<Rightarrow>
                (ok_reply V e True
                   (''deleted '' @ show_nat (length (deleted_ids out)) @ '' event(s)''),
                 st2, route (broadcast_new e') fo)))"

definition process_event_message ::
    "('j, 'ch) relay_env \<Rightarrow> (bytes set \<Rightarrow> bytes list) \<Rightarrow> 'ch router \<Rightarrow> string \<Rightarrow>
     event_store \<times> 'ch fanout \<Rightarrow> string option \<times> event_store \<times> 'ch fanout" where
  "process_event_message V ord route text sf =
     (case message_from_json (en_ext V) (en_serde V) (en_json V) text of
        Inr (M_Event _ e) \<Rightarrow>
          if is_deletion_request e then
            (let (reply, sf') = apply_deletion_request V ord route e sf in (Some reply, sf'))
          else
            let (st, fo) = sf;
                (r, st1) = store_insert (en_ext V) e st
            in (case r of
                  R_Ephemeral \<Rightarrow>
                    (Some (ok_reply V e True ''ephemeral: will not be stored''), st1,
                     route (broadcast_new e) fo)
                | R_Duplicate \<Rightarrow>
                    (Some (ok_reply V e True ''duplicate: already have this event''), st1, fo)
                | R_Deleted \<Rightarrow>
                    (Some (ok_reply V e False
                       ''deleted: this event was removed by a deletion request''), st1, fo)
                | R_Stored e' _ \<Rightarrow>
                    (Some (ok_reply V e True []), st1, route (broadcast_new e') fo))
      | Inr _ \<Rightarrow> (None, sf)
      | Inl err \<Rightarrow>
          (Some (message_to_json (en_ext V) (en_json V) (M_Notification err)), sf))"

section \<open>The connection handler\<close>

text \<open>\<open>try_send\<close> on the connection's queue, its result ignored.\<close>

definition conn_send :: "('j, 'ch) relay_env \<Rightarrow> conn_id \<Rightarrow> nostr_message \<Rightarrow> 'ch fanout \<Rightarrow> 'ch fanout" where
  "conn_send V i m fo =
     update_conn i
       (\<lambda>c. case en_try_send V (cs_tx c) (message_to_json (en_ext V) (en_json V) m) of
              Some ch \<Rightarrow> c\<lparr>cs_tx := ch\<rparr> | None \<Rightarrow> c) fo"

definition send_notice :: "('j, 'ch) relay_env \<Rightarrow> conn_id \<Rightarrow> string \<Rightarrow> 'ch relay \<Rightarrow> 'ch relay" where
  "send_notice V i s r = r\<lparr>rl_fanout := conn_send V i (M_Notification s) (rl_fanout r)\<rparr>"

definition update_task :: "conn_id \<Rightarrow> (conn_task \<Rightarrow> conn_task) \<Rightarrow> 'ch relay \<Rightarrow> 'ch relay" where
  "update_task i g r =
     (case rl_conns r i of Some t \<Rightarrow> r\<lparr>rl_conns := (rl_conns r)(i \<mapsto> g t)\<rparr> | None \<Rightarrow> r)"

definition connect :: "'ch \<Rightarrow> nat \<Rightarrow> 'ch relay \<Rightarrow> 'ch relay" where
  "connect tx now r =
     (let (i, fo) = register tx now (rl_fanout r) in
      r\<lparr>rl_fanout := fo, rl_count := rl_count r + 1,
        rl_conns := (rl_conns r)(i \<mapsto>
          \<lparr>ct_active = False, ct_closing = False, ct_opened = 0, ct_closed = 0, ct_tasks = Map.empty\<rparr>)\<rparr>)"

text \<open>After the loop: unregister, abort the tasks, count down.\<close>

definition disconnect :: "conn_id \<Rightarrow> 'ch relay \<Rightarrow> 'ch relay" where
  "disconnect i r =
     r\<lparr>rl_fanout := unregister i (rl_fanout r), rl_conns := (rl_conns r)(i := None),
       rl_count := rl_count r - 1\<rparr>"

text \<open>Whether the connection has the subscription, and how many it has.\<close>

definition has_room :: "('j, 'ch) relay_env \<Rightarrow> conn_id \<Rightarrow> string \<Rightarrow> 'ch fanout \<Rightarrow> bool" where
  "has_room V i s fo =
     (case fo_states fo i of
        Some c \<Rightarrow>
          has_sub c s \<or> \<not> unat (rc_max_subscriptions (en_config V)) \<le> sub_count c
      | None \<Rightarrow> False)"

definition handle_req :: "('j, 'ch) relay_env \<Rightarrow> conn_id \<Rightarrow> string \<Rightarrow> 'ch relay \<Rightarrow> 'ch relay" where
  "handle_req V i text r =
     (case message_from_json (en_ext V) (en_serde V) (en_json V) text of
        Inr (M_Request s fs) \<Rightarrow>
          if MAX_FILTERS_PER_REQ < length fs then
            send_notice V i (''too many filters (max '' @ show_nat MAX_FILTERS_PER_REQ @ '')'') r
          else if \<not> has_room V i s (rl_fanout r) then
            send_notice V i
              (''subscription limit reached (max '' @
               show_nat (unat (rc_max_subscriptions (en_config V))) @ '')'') r
          else
            let fs' = prepare_filters (en_ext V) (rc_max_limit (en_config V)) fs in
            update_task i
              (\<lambda>t. t\<lparr>ct_opened := ct_opened t + 1,
                     ct_tasks := (ct_tasks t)(s \<mapsto>
                       \<lparr>rq_filters = fs', rq_pending = [], rq_done = False\<rparr>)\<rparr>)
              (r\<lparr>rl_fanout := set_sub i s fs' (rl_fanout r)\<rparr>)
      | Inr _ \<Rightarrow> r
      | Inl err \<Rightarrow> send_notice V i err r)"

definition drop_sub :: "conn_id \<Rightarrow> string \<Rightarrow> 'ch relay \<Rightarrow> 'ch relay" where
  "drop_sub i s r =
     update_task i (\<lambda>t. t\<lparr>ct_tasks := (ct_tasks t)(s := None), ct_closed := ct_closed t + 1\<rparr>)
       (r\<lparr>rl_fanout := snd (remove_sub i s (rl_fanout r))\<rparr>)"

definition handle_close :: "('j, 'ch) relay_env \<Rightarrow> conn_id \<Rightarrow> string \<Rightarrow> 'ch relay \<Rightarrow> 'ch relay" where
  "handle_close V i text r =
     (case message_from_json (en_ext V) (en_serde V) (en_json V) text of
        Inr (M_Close s) \<Rightarrow> drop_sub i s r | _ \<Rightarrow> r)"

definition handle_text :: "('j, 'ch) relay_env \<Rightarrow> conn_id \<Rightarrow> string \<Rightarrow> 'ch relay \<Rightarrow> 'ch relay" where
  "handle_text V i text r0 =
     (let r = update_task i (\<lambda>t. t\<lparr>ct_active := True\<rparr>) r0 in
      if MAX_MESSAGE_BYTES < length text then send_notice V i ''message too large'' r
      else
        (case message_type text of
           Some ty \<Rightarrow>
             if ty = ''EVENT'' then r\<lparr>rl_jobs := rl_jobs r @ [(i, text)]\<rparr>
             else if ty = ''REQ'' then handle_req V i text r
             else if ty = ''CLOSE'' then handle_close V i text r
             else (case message_from_json (en_ext V) (en_serde V) (en_json V) text of
                     Inl err \<Rightarrow> send_notice V i err r | Inr _ \<Rightarrow> r)
         | None \<Rightarrow>
             (case message_from_json (en_ext V) (en_serde V) (en_json V) text of
                Inl err \<Rightarrow> send_notice V i err r | Inr _ \<Rightarrow> r)))"

definition handle_binary :: "('j, 'ch) relay_env \<Rightarrow> conn_id \<Rightarrow> 'ch relay \<Rightarrow> 'ch relay" where
  "handle_binary V i r =
     send_notice V i ''binary messages are not supported''
       (update_task i (\<lambda>t. t\<lparr>ct_active := True\<rparr>) r)"

definition close_overflowed :: "('j, 'ch) relay_env \<Rightarrow> conn_id \<Rightarrow> string \<Rightarrow> 'ch relay \<Rightarrow> 'ch relay" where
  "close_overflowed V i s r =
     (let r1 = drop_sub i s r in
      r1\<lparr>rl_fanout :=
           conn_send V i (M_Closed s ''error: client too slow, resubscribe to resync'') (rl_fanout r1)\<rparr>)"

text \<open>The branch of \<open>conn.notified()\<close>, which consumes the notification.\<close>

definition handle_notified :: "('j, 'ch) relay_env \<Rightarrow> conn_id \<Rightarrow> 'ch relay \<Rightarrow> 'ch relay" where
  "handle_notified V i r =
     (case fo_states (rl_fanout r) i of
        None \<Rightarrow> r
      | Some c \<Rightarrow>
          let (overflowed, c1) = take_overflowed (c\<lparr>cs_notified := False\<rparr>);
              r1 = r\<lparr>rl_fanout := update_conn i (\<lambda>_. c1) (rl_fanout r)\<rparr>;
              r2 = fold (close_overflowed V i) overflowed r1
          in (case fo_states (rl_fanout r2) i of
                Some c2 \<Rightarrow> if should_disconnect c2 then disconnect i r2 else r2
              | None \<Rightarrow> r2))"

text \<open>
  The idle branch sends its notice, leaves the sender task 50 ms to write it and then leaves the
  loop: in between the handler takes no other branch.
\<close>

definition handle_idle :: "('j, 'ch) relay_env \<Rightarrow> conn_id \<Rightarrow> 'ch relay \<Rightarrow> 'ch relay" where
  "handle_idle V i r =
     update_task i (\<lambda>t. t\<lparr>ct_closing := True\<rparr>)
       (send_notice V i
          (''idle: no REQ or EVENT within '' @ show_nat (unat (rc_idle_timeout (en_config V))) @
           ''s, closing'') r)"

text \<open>
  One step of a REQ task: the message it sends, if any, and the task after it. \<open>None\<close> when it has
  finished (or would be the panic of a query).
\<close>

definition req_step ::
    "('j, 'ch) relay_env \<Rightarrow> event_store \<Rightarrow> string \<Rightarrow> req_task \<Rightarrow> (string option \<times> req_task) option" where
  "req_step V st s t =
     (if rq_done t then None
      else
        (case rq_pending t of
           e # es \<Rightarrow> Some (Some (event_message s (raw_text e)), t\<lparr>rq_pending := es\<rparr>)
         | [] \<Rightarrow>
             (case rq_filters t of
                f # fs \<Rightarrow>
                  map_option (\<lambda>es. (None, t\<lparr>rq_filters := fs, rq_pending := es\<rparr>))
                    (query_filter (en_ext V) st f)
              | [] \<Rightarrow>
                  Some (Some (message_to_json (en_ext V) (en_json V) (M_EndOfStoredEvents s)),
                        t\<lparr>rq_done := True\<rparr>))))"

section \<open>Steps\<close>

text \<open>
  \<open>put_queue i ch\<close> stores the queue after a send or a receive on it. A send that waits for room is a
  step that is taken once the send succeeds.
\<close>

definition put_queue :: "conn_id \<Rightarrow> 'ch \<Rightarrow> 'ch relay \<Rightarrow> 'ch relay" where
  "put_queue i ch r = r\<lparr>rl_fanout := update_conn i (\<lambda>c. c\<lparr>cs_tx := ch\<rparr>) (rl_fanout r)\<rparr>"

definition put_req_task :: "conn_id \<Rightarrow> string \<Rightarrow> req_task \<Rightarrow> 'ch relay \<Rightarrow> 'ch relay" where
  "put_req_task i s q r = update_task i (\<lambda>t. t\<lparr>ct_tasks := (ct_tasks t)(s \<mapsto> q)\<rparr>) r"

text \<open>A turn of one of the store's background tasks.\<close>

inductive store_turn :: "'x ext_scheme \<Rightarrow> event_store \<Rightarrow> event_store \<Rightarrow> bool" for X where
  evict: "maybe_evict X st = Some st' \<Longrightarrow> store_turn X st st'"
| sample: "store_turn X st (sample_rss rss st)"
| commit: "store_turn X st (st\<lparr>st_wal := map_option (\<lambda>w. snd (group_commit w)) (st_wal st)\<rparr>)"
| persist: "enumerates ord \<Longrightarrow> store_turn X st (maybe_checkpoint ord st)"

inductive relay_step :: "('j, 'ch) relay_env \<Rightarrow> event set \<Rightarrow> 'ch relay \<Rightarrow> 'ch relay \<Rightarrow> bool" for V U where
  connect: "fo_next_id (rl_fanout r) \<noteq> - 1 \<Longrightarrow> relay_step V U r (connect tx now r)"
| on_text: "rl_conns r i = Some t \<Longrightarrow> \<not> ct_closing t \<Longrightarrow>
    relay_step V U r (handle_text V i msg r)"
| on_binary: "rl_conns r i = Some t \<Longrightarrow> \<not> ct_closing t \<Longrightarrow>
    relay_step V U r (handle_binary V i r)"
| hangup: "rl_conns r i = Some t \<Longrightarrow> relay_step V U r (disconnect i r)"
| notified: "rl_conns r i = Some t \<Longrightarrow> \<not> ct_closing t \<Longrightarrow> fo_states (rl_fanout r) i = Some c \<Longrightarrow> cs_notified c \<Longrightarrow>
    relay_step V U r (handle_notified V i r)"
| idle: "rl_conns r i = Some t \<Longrightarrow> 0 < rc_idle_timeout (en_config V) \<Longrightarrow>
    \<not> ct_active t \<Longrightarrow> \<not> ct_closing t \<Longrightarrow>
    relay_step V U r (handle_idle V i r)"
| job: "(i, msg) \<in> set (rl_jobs r) \<Longrightarrow> enumerates ord \<Longrightarrow> enumerates cord \<Longrightarrow>
    (\<And>o' e. message_from_json (en_ext V) (en_serde V) (en_json V) msg = Inr (M_Event o' e) \<Longrightarrow> e \<in> U) \<Longrightarrow>
    process_event_message V ord (publish (en_try_send V) clock cord) msg (rl_store r, rl_fanout r) =
      (reply, st, fo) \<Longrightarrow>
    relay_step V U r
      (r\<lparr>rl_store := st, rl_fanout := fo, rl_jobs := remove1 (i, msg) (rl_jobs r),
         rl_replies := rl_replies r @ (case reply of Some m \<Rightarrow> [(i, m)] | None \<Rightarrow> [])\<rparr>)"
| reply: "(i, m) \<in> set (rl_replies r) \<Longrightarrow> rl_conns r i = Some t \<Longrightarrow>
    fo_states (rl_fanout r) i = Some c \<Longrightarrow>
    en_try_send V (cs_tx c) m = Some ch \<Longrightarrow>
    relay_step V U r (put_queue i ch (r\<lparr>rl_replies := remove1 (i, m) (rl_replies r)\<rparr>))"
| reply_lost: "(i, m) \<in> set (rl_replies r) \<Longrightarrow> rl_conns r i = None \<Longrightarrow>
    relay_step V U r (r\<lparr>rl_replies := remove1 (i, m) (rl_replies r)\<rparr>)"
| req_silent: "rl_conns r i = Some t \<Longrightarrow> ct_tasks t s = Some q \<Longrightarrow>
    req_step V (rl_store r) s q = Some (None, q') \<Longrightarrow>
    relay_step V U r (put_req_task i s q' r)"
| req_send: "rl_conns r i = Some t \<Longrightarrow> ct_tasks t s = Some q \<Longrightarrow>
    req_step V (rl_store r) s q = Some (Some m, q') \<Longrightarrow> fo_states (rl_fanout r) i = Some c \<Longrightarrow>
    en_try_send V (cs_tx c) m = Some ch \<Longrightarrow>
    relay_step V U r (put_queue i ch (put_req_task i s q' r))"
| drain: "rl_conns r i = Some t \<Longrightarrow> fo_states (rl_fanout r) i = Some c \<Longrightarrow>
    en_recv V (cs_tx c) = Some (m, ch) \<Longrightarrow> relay_step V U r (put_queue i ch r)"
| background: "store_turn (en_ext V) (rl_store r) st \<Longrightarrow> relay_step V U r (r\<lparr>rl_store := st\<rparr>)"

inductive_cases relay_stepE: "relay_step V U r r'"

inductive relay_reach :: "('j, 'ch) relay_env \<Rightarrow> event set \<Rightarrow> event_store \<Rightarrow> 'ch relay \<Rightarrow> bool" for V U st0 where
  start: "relay_reach V U st0 (relay_new st0)"
| step: "relay_reach V U st0 r \<Longrightarrow> relay_step V U r r' \<Longrightarrow> relay_reach V U st0 r'"

end
