(* ===== verification/Relay_Invariant.thy ===== *)
theory Relay_Invariant
  imports Relay Fanout_Delivery Store_Recovery Subscription_Queries
begin

text \<open>
  The invariant of the whole relay, kept by every step of every task: the index and the fanout are
  consistent, the open connections are the registered ones and counted, no connection exceeds the
  limits of the configuration, and no query task runs for a subscription that is closed. Its part
  about the connections does not depend on the store.
\<close>

section \<open>Subscriptions of the connections\<close>

definition sub_map :: "'ch fanout \<Rightarrow> conn_id \<rightharpoonup> sub_entry list" where
  "sub_map fo i = map_option cs_subs (fo_states fo i)"

lemma sub_map_update: "(\<And>c. cs_subs (g c) = cs_subs c) \<Longrightarrow> sub_map (update_conn i g fo) = sub_map fo"
  by (rule ext) (simp add: sub_map_def update_conn_states option.map_comp comp_def)

lemma sub_map_move: "sub_map (move_key i old new fo) = sub_map fo"
  by (rule ext) (simp add: sub_map_def move_key_states option.map_comp comp_def)

lemma sub_map_reindex: "sub_map (reindex i fo) = sub_map fo"
proof (cases "fo_states fo i")
  case None
  then show ?thesis by (simp add: reindex_def)
next
  case (Some c)
  then show ?thesis by (simp add: reindex_move sub_map_move)
qed

lemma conns_reindex: "fo_conns (reindex i fo) = fo_conns fo"
proof (cases "fo_states fo i")
  case None
  then show ?thesis by (simp add: reindex_def)
next
  case (Some c)
  then show ?thesis by (simp add: reindex_move)
qed

lemma sub_map_set_sub:
  "sub_map (set_sub i s fs fo) = (sub_map fo)(i := map_option (put_sub s fs) (sub_map fo i))"
  by (rule ext) (simp add: set_sub_def sub_map_reindex, simp add: sub_map_def update_conn_states
      option.map_comp comp_def)

lemma sub_map_remove_sub:
  "sub_map (snd (remove_sub i s fo)) =
     (sub_map fo)(i := map_option (filter (\<lambda>sub. fst sub \<noteq> s)) (sub_map fo i))"
proof (cases "fo_states fo i")
  case None
  then show ?thesis by (auto simp: remove_sub_def sub_map_def fun_eq_iff)
next
  case (Some c)
  let ?kept = "filter (\<lambda>sub. fst sub \<noteq> s) (cs_subs c)"
  have "sub_map (update_conn i (\<lambda>c. c\<lparr>cs_subs := ?kept\<rparr>) fo) = (sub_map fo)(i \<mapsto> ?kept)"
    using Some by (auto simp: sub_map_def update_conn_states fun_eq_iff)
  moreover have "sub_map fo i = Some (cs_subs c)" using Some by (simp add: sub_map_def)
  ultimately show ?thesis
    using Some by (simp add: remove_sub_def Let_def sub_map_reindex)
qed

lemma fanout_conns [simp]:
  "fo_conns (set_sub i s fs fo) = fo_conns fo"
  "fo_conns (snd (remove_sub i s fo)) = fo_conns fo"
  "fo_conns (publish ts clock ord ev fo) = fo_conns fo"
  by (simp_all add: set_sub_def conns_reindex remove_sub_def publish_def Let_def split: option.splits)

lemma sub_map_publish: "sub_map (publish ts clock ord ev fo) = sub_map fo"
proof -
  have "sub_map (fold (\<lambda>i. update_conn i (deliver ts clock ev)) is fo) = sub_map fo" for "is"
    by (induction "is" arbitrary: fo) (simp_all add: sub_map_update)
  then show ?thesis by (simp add: publish_def)
qed

lemma update_conn_inv:
  assumes "fanout_inv fo"
    and "\<And>c. cs_id (g c) = cs_id c" "\<And>c. cs_key (g c) = cs_key c" "\<And>c. cs_subs (g c) = cs_subs c"
  shows "fanout_inv (update_conn i g fo)"
proof -
  have "fanout_core (update_conn i g fo)"
    using assms by (intro core_update) (auto simp: fanout_inv_split fanout_core_def)
  moreover have "keyed_conns {} (update_conn i g fo)"
    using assms by (auto simp: fanout_inv_split keyed_conns_def update_conn_states)
  ultimately show ?thesis by (simp add: fanout_inv_split)
qed

section \<open>The invariant\<close>

definition limited :: "('j, 'ch) relay_env \<Rightarrow> nostr_filter \<Rightarrow> bool" where
  "limited V f \<longleftrightarrow> (\<exists>l. f_limit f = Some l \<and> l \<le> rc_max_limit (en_config V))"

definition subs_ok :: "('j, 'ch) relay_env \<Rightarrow> sub_entry list \<Rightarrow> bool" where
  "subs_ok V subs \<longleftrightarrow>
     length subs \<le> unat (rc_max_subscriptions (en_config V)) \<and>
     (\<forall>sub \<in> set subs. length (snd sub) \<le> MAX_FILTERS_PER_REQ \<and> list_all (limited V) (snd sub))"

definition tasks_ok :: "('j, 'ch) relay_env \<Rightarrow> sub_entry list \<Rightarrow> (string \<rightharpoonup> req_task) \<Rightarrow> bool" where
  "tasks_ok V subs ts \<longleftrightarrow>
     dom ts \<subseteq> fst ` set subs \<and> (\<forall>s q. ts s = Some q \<longrightarrow> list_all (limited V) (rq_filters q))"

definition conns_ok :: "('j, 'ch) relay_env \<Rightarrow> 'ch relay \<Rightarrow> bool" where
  "conns_ok V r \<longleftrightarrow>
     (\<forall>i t. rl_conns r i = Some t \<longrightarrow>
        (\<exists>subs. sub_map (rl_fanout r) i = Some subs \<and> subs_ok V subs \<and> tasks_ok V subs (ct_tasks t)))"

text \<open>
  The invariant in three parts: the connections, which only their handlers change; the counter of
  connections; and the index.
\<close>

definition conn_inv :: "('j, 'ch) relay_env \<Rightarrow> 'ch relay \<Rightarrow> bool" where
  "conn_inv V r \<longleftrightarrow>
     fanout_inv (rl_fanout r) \<and> dom (rl_conns r) = fo_conns (rl_fanout r) \<and> conns_ok V r"

definition conns_counted :: "'ch relay \<Rightarrow> bool" where
  "conns_counted r \<longleftrightarrow> rl_count r = of_nat (card (fo_conns (rl_fanout r)))"

definition relay_inv :: "('j, 'ch) relay_env \<Rightarrow> event set \<Rightarrow> 'ch relay \<Rightarrow> bool" where
  "relay_inv V U r \<longleftrightarrow> index_inv (en_ext V) U (st_index (rl_store r)) \<and> conns_counted r \<and> conn_inv V r"

lemma conns_okD:
  assumes "conns_ok V r" "rl_conns r i = Some t"
  obtains subs where "sub_map (rl_fanout r) i = Some subs" "subs_ok V subs" "tasks_ok V subs (ct_tasks t)"
  using assms by (auto simp: conns_ok_def)

text \<open>A step that leaves the subscriptions alone.\<close>

lemma conn_inv_fanout:
  assumes "conn_inv V r" "fanout_inv fo" "fo_conns fo = fo_conns (rl_fanout r)"
    and "sub_map fo = sub_map (rl_fanout r)"
  shows "conn_inv V (r\<lparr>rl_fanout := fo\<rparr>)"
  using assms by (simp add: conn_inv_def conns_ok_def)

lemma conn_inv_update_conn:
  assumes "conn_inv V r"
    and "\<And>c. cs_id (g c) = cs_id c" "\<And>c. cs_key (g c) = cs_key c" "\<And>c. cs_subs (g c) = cs_subs c"
  shows "conn_inv V (r\<lparr>rl_fanout := update_conn i g (rl_fanout r)\<rparr>)"
  using assms update_conn_inv [of "rl_fanout r" g i]
  by (intro conn_inv_fanout) (simp_all add: conn_inv_def sub_map_update)

lemma send_notice_inv: "conn_inv V r \<Longrightarrow> conn_inv V (send_notice V i s r)"
  unfolding send_notice_def conn_send_def
  by (rule conn_inv_update_conn) (simp_all split: option.splits)

lemma put_queue_inv: "conn_inv V r \<Longrightarrow> conn_inv V (put_queue i ch r)"
  unfolding put_queue_def by (rule conn_inv_update_conn) simp_all

lemma update_task_conns:
  "rl_conns (update_task i g r) j = (if j = i then map_option g (rl_conns r i) else rl_conns r j)"
  by (simp add: update_task_def split: option.splits)

lemma update_task_frame [simp]:
  "rl_fanout (update_task i g r) = rl_fanout r" "rl_store (update_task i g r) = rl_store r"
  "rl_count (update_task i g r) = rl_count r" "dom (rl_conns (update_task i g r)) = dom (rl_conns r)"
  by (auto simp: update_task_def dom_def split: option.splits)

lemma update_task_inv:
  assumes "conn_inv V r"
    and "\<And>t subs. rl_conns r i = Some t \<Longrightarrow> sub_map (rl_fanout r) i = Some subs \<Longrightarrow>
           tasks_ok V subs (ct_tasks t) \<Longrightarrow> tasks_ok V subs (ct_tasks (g t))"
  shows "conn_inv V (update_task i g r)"
proof -
  have ok: "conns_ok V r" using assms(1) by (simp add: conn_inv_def)
  have "conns_ok V (update_task i g r)"
    unfolding conns_ok_def update_task_frame
  proof (intro allI impI)
    fix j t assume j: "rl_conns (update_task i g r) j = Some t"
    show "\<exists>subs. sub_map (rl_fanout r) j = Some subs \<and> subs_ok V subs \<and> tasks_ok V subs (ct_tasks t)"
    proof (cases "j = i")
      case True
      then obtain t0 where t: "rl_conns r i = Some t0" "t = g t0"
        using j by (auto simp: update_task_conns)
      from conns_okD [OF ok t(1)] obtain subs where "sub_map (rl_fanout r) i = Some subs"
        "subs_ok V subs" "tasks_ok V subs (ct_tasks t0)" .
      with assms(2) [OF t(1)] t(2) True show ?thesis by auto
    next
      case False
      then show ?thesis using ok j by (simp add: conns_ok_def update_task_conns)
    qed
  qed
  then show ?thesis using assms(1) by (simp add: conn_inv_def)
qed

section \<open>The handler\<close>

lemma prepare_limited: "limited V (prepare_filter X (rc_max_limit (en_config V)) f)"
proof -
  have "f_limit (parse_hex_values X g) = f_limit g" for g
    by (simp add: parse_hex_values_def Let_def split: option.splits)
  then show ?thesis by (auto simp: limited_def prepare_filter_def split: option.splits)
qed

lemma put_sub_facts:
  "set (put_sub s fs subs) \<subseteq> insert (s, fs) (set subs)"
  "fst ` set (put_sub s fs subs) = insert s (fst ` set subs)"
  "length (put_sub s fs subs) = (if s \<in> fst ` set subs then length subs else Suc (length subs))"
  by (induction subs) auto

lemma has_room_subs:
  assumes "has_room V i s fo" "sub_map fo i = Some subs" "subs_ok V subs"
  shows "length (put_sub s fs subs) \<le> unat (rc_max_subscriptions (en_config V))"
  using assms
  by (auto simp: has_room_def sub_map_def put_sub_facts(3) subs_ok_def has_sub_def sub_count_def
      list_ex_iff image_iff split: option.splits)

lemma set_sub_conn_inv:
  assumes inv: "conn_inv V r" and room: "has_room V i s (rl_fanout r)"
    and fs: "length fs \<le> MAX_FILTERS_PER_REQ" "list_all (limited V) fs"
  shows "conn_inv V (r\<lparr>rl_fanout := set_sub i s fs (rl_fanout r)\<rparr>)"
proof -
  have ok: "conns_ok V r" and fo: "fanout_inv (rl_fanout r)" using inv by (simp_all add: conn_inv_def)
  have "\<exists>subs'. sub_map (set_sub i s fs (rl_fanout r)) j = Some subs' \<and> subs_ok V subs' \<and>
      tasks_ok V subs' (ct_tasks t)" if j: "rl_conns r j = Some t" for j t
  proof -
    from conns_okD [OF ok j] obtain subs where subs: "sub_map (rl_fanout r) j = Some subs"
      "subs_ok V subs" "tasks_ok V subs (ct_tasks t)" .
    show ?thesis
    proof (cases "j = i")
      case True
      have "subs_ok V (put_sub s fs subs)"
        using has_room_subs [OF room, of subs] subs True fs put_sub_facts(1) [of s fs subs]
        by (auto simp: subs_ok_def)
      moreover have "tasks_ok V (put_sub s fs subs) (ct_tasks t)"
        using subs(3) by (auto simp: tasks_ok_def put_sub_facts(2))
      ultimately show ?thesis using True subs(1) by (simp add: sub_map_set_sub)
    qed (use subs in \<open>simp add: sub_map_set_sub\<close>)
  qed
  then have "conns_ok V (r\<lparr>rl_fanout := set_sub i s fs (rl_fanout r)\<rparr>)" by (simp add: conns_ok_def)
  then show ?thesis using inv set_sub_inv [OF fo] by (simp add: conn_inv_def)
qed

lemma handle_req_inv:
  assumes "conn_inv V r"
  shows "conn_inv V (handle_req V i text r)"
proof -
  have req: "conn_inv V
      (update_task i (\<lambda>t. t\<lparr>ct_opened := ct_opened t + 1, ct_tasks := (ct_tasks t)(s \<mapsto>
          \<lparr>rq_filters = fs', rq_pending = [], rq_done = False\<rparr>)\<rparr>)
        (r\<lparr>rl_fanout := set_sub i s fs' (rl_fanout r)\<rparr>))"
    if "fs' = prepare_filters X (rc_max_limit (en_config V)) fs" "\<not> MAX_FILTERS_PER_REQ < length fs"
      "has_room V i s (rl_fanout r)" for s fs fs' and X :: ext
  proof -
    have lim: "list_all (limited V) fs'"
      using that(1) by (simp add: prepare_filters_def prepare_limited list_all_iff)
    have "length fs' \<le> MAX_FILTERS_PER_REQ" using that by (simp add: prepare_filters_def)
    from set_sub_conn_inv [OF assms that(3) this lim] show ?thesis
    proof (rule update_task_inv)
      fix t subs
      assume "sub_map (rl_fanout (r\<lparr>rl_fanout := set_sub i s fs' (rl_fanout r)\<rparr>)) i = Some subs"
        and ok: "tasks_ok V subs (ct_tasks t)"
      then have "s \<in> fst ` set subs" by (auto simp: sub_map_set_sub put_sub_facts(2))
      with ok lim show "tasks_ok V subs (ct_tasks (t\<lparr>ct_opened := ct_opened t + 1,
          ct_tasks := (ct_tasks t)(s \<mapsto> \<lparr>rq_filters = fs', rq_pending = [], rq_done = False\<rparr>)\<rparr>))"
        by (auto simp: tasks_ok_def)
    qed
  qed
  show ?thesis
    using assms req [OF refl]
    by (auto simp: handle_req_def send_notice_inv Let_def split: sum.splits nostr_message.splits)
qed

lemma drop_sub_inv:
  assumes inv: "conn_inv V r"
  shows "conn_inv V (drop_sub i s r)"
proof -
  have ok: "conns_ok V r" and fo: "fanout_inv (rl_fanout r)" using inv by (simp_all add: conn_inv_def)
  let ?g = "\<lambda>t. t\<lparr>ct_tasks := (ct_tasks t)(s := None), ct_closed := ct_closed t + 1\<rparr>"
  let ?fo = "snd (remove_sub i s (rl_fanout r))"
  have keep: "\<exists>subs'. sub_map ?fo j = Some subs' \<and> subs_ok V subs' \<and>
      tasks_ok V subs' (ct_tasks (if j = i then ?g t else t))" if j: "rl_conns r j = Some t" for j t
  proof -
    from conns_okD [OF ok j] obtain subs where subs: "sub_map (rl_fanout r) j = Some subs"
      "subs_ok V subs" "tasks_ok V subs (ct_tasks t)" .
    let ?kept = "filter (\<lambda>sub. fst sub \<noteq> s) subs"
    have "subs_ok V ?kept"
      using subs(2) by (auto simp: subs_ok_def intro: le_trans [OF length_filter_le])
    moreover have "tasks_ok V ?kept (ct_tasks (?g t))"
      using subs(3) by (auto simp: tasks_ok_def image_iff split: if_splits)
    ultimately show ?thesis using subs by (cases "j = i") (auto simp: sub_map_remove_sub)
  qed
  have "conns_ok V (drop_sub i s r)"
    unfolding conns_ok_def
  proof (intro allI impI)
    fix j t assume "rl_conns (drop_sub i s r) j = Some t"
    then obtain t0 where t0: "rl_conns r j = Some t0" "t = (if j = i then ?g t0 else t0)"
      by (auto simp: drop_sub_def update_task_conns split: if_splits)
    from keep [OF t0(1)]
    show "\<exists>subs. sub_map (rl_fanout (drop_sub i s r)) j = Some subs \<and> subs_ok V subs \<and>
        tasks_ok V subs (ct_tasks t)"
      unfolding t0(2) by (simp add: drop_sub_def)
  qed
  then show ?thesis using inv remove_sub_inv [OF fo] by (simp add: conn_inv_def drop_sub_def)
qed

lemma active_inv: "conn_inv V r \<Longrightarrow> conn_inv V (update_task i (\<lambda>t. t\<lparr>ct_active := b\<rparr>) r)"
  by (rule update_task_inv) simp_all

lemma conn_inv_queues [simp]:
  "conn_inv V (r\<lparr>rl_jobs := js\<rparr>) = conn_inv V r"
  "conn_inv V (r\<lparr>rl_replies := ms\<rparr>) = conn_inv V r"
  by (simp_all add: conn_inv_def conns_ok_def)

lemma handle_text_inv:
  assumes "conn_inv V r"
  shows "conn_inv V (handle_text V i text r)"
proof -
  have "conn_inv V (handle_close V i text r)" if "conn_inv V r" for r
    using that drop_sub_inv
    by (auto simp: handle_close_def split: sum.splits nostr_message.splits)
  with active_inv [OF assms, of i True] show ?thesis
    by (auto simp: handle_text_def Let_def send_notice_inv handle_req_inv split: option.splits sum.splits)
qed

lemma disconnect_inv:
  assumes inv: "conn_inv V r" and i: "rl_conns r i = Some t"
  shows "conn_inv V (disconnect i r)"
proof -
  have fo: "fanout_inv (rl_fanout r)" and dom: "dom (rl_conns r) = fo_conns (rl_fanout r)" and ok: "conns_ok V r"
    using inv by (simp_all add: conn_inv_def)
  obtain c where c: "fo_states (rl_fanout r) i = Some c"
    using conns_okD [OF ok i] by (metis map_option_eq_Some sub_map_def)
  then have conns: "fo_conns (unregister i (rl_fanout r)) = fo_conns (rl_fanout r) - {i}"
    by (simp add: unregister_def)
  have subs: "sub_map (unregister i (rl_fanout r)) = sub_map (rl_fanout r)"
    using c by (simp add: unregister_def sub_map_update) (simp add: sub_map_def fun_eq_iff)
  have "conns_ok V (disconnect i r)"
    using ok by (auto simp: conns_ok_def disconnect_def subs split: if_splits)
  then show ?thesis
    using inv dom conns unregister_inv [OF fo] by (auto simp: conn_inv_def disconnect_def)
qed

lemma disconnect_counted:
  assumes inv: "conn_inv V r" and i: "rl_conns r i = Some t" and cnt: "conns_counted r"
  shows "conns_counted (disconnect i r)"
proof -
  have fin: "finite (fo_conns (rl_fanout r))" and mem: "i \<in> fo_conns (rl_fanout r)"
    using inv i by (auto simp: conn_inv_def fanout_inv_def intro: finite_subset)
  then have "\<exists>c. fo_states (rl_fanout r) i = Some c"
    using inv by (auto simp: conn_inv_def fanout_inv_def)
  then have "fo_conns (unregister i (rl_fanout r)) = fo_conns (rl_fanout r) - {i}"
    by (auto simp: unregister_def)
  moreover have "of_nat (card (fo_conns (rl_fanout r) - {i})) = rl_count r - 1"
    using cnt fin mem card_Suc_Diff1 [OF fin, of i] unfolding conns_counted_def by (metis add_diff_cancel_left' of_nat_Suc)
  ultimately show ?thesis by (simp add: conns_counted_def disconnect_def)
qed

lemma handle_idle_inv: "conn_inv V r \<Longrightarrow> conn_inv V (handle_idle V i r)"
  unfolding handle_idle_def by (rule update_task_inv [OF send_notice_inv]) simp_all

lemma close_overflowed_inv:
  assumes "conn_inv V r"
  shows "conn_inv V (close_overflowed V i s r)"
  unfolding close_overflowed_def Let_def conn_send_def
  by (rule conn_inv_update_conn [OF drop_sub_inv [OF assms]]) (simp_all split: option.splits)

lemma close_all_inv:
  "conn_inv V r \<Longrightarrow> conn_inv V (fold (close_overflowed V i) ss r)"
  by (induction ss arbitrary: r) (simp_all add: close_overflowed_inv)

lemma close_all_dom: "dom (rl_conns (fold (close_overflowed V i) ss r)) = dom (rl_conns r)"
  by (induction ss arbitrary: r) (simp_all add: close_overflowed_def drop_sub_def Let_def)

text \<open>The branch of a notification up to the check for too many drops.\<close>

definition notified_closed :: "('j, 'ch) relay_env \<Rightarrow> conn_id \<Rightarrow> 'ch conn_state \<Rightarrow> 'ch relay \<Rightarrow> 'ch relay" where
  "notified_closed V i c r =
     fold (close_overflowed V i) (cs_overflow c)
       (r\<lparr>rl_fanout := update_conn i (\<lambda>_. c\<lparr>cs_notified := False, cs_overflow := []\<rparr>) (rl_fanout r)\<rparr>)"

lemma notified_closed_inv:
  assumes inv: "conn_inv V r" and c: "fo_states (rl_fanout r) i = Some c"
  shows "conn_inv V (notified_closed V i c r)"
proof -
  have "update_conn i (\<lambda>_. c\<lparr>cs_notified := False, cs_overflow := []\<rparr>) (rl_fanout r) =
      update_conn i (\<lambda>c. c\<lparr>cs_notified := False, cs_overflow := []\<rparr>) (rl_fanout r)"
    using c by (simp add: update_conn_def)
  then show ?thesis
    using conn_inv_update_conn [OF inv, of "\<lambda>c. c\<lparr>cs_notified := False, cs_overflow := []\<rparr>" i]
    by (simp add: notified_closed_def close_all_inv)
qed

lemma notified_closed_conn: "rl_conns r i = Some t \<Longrightarrow> \<exists>t2. rl_conns (notified_closed V i c r) i = Some t2"
proof -
  assume "rl_conns r i = Some t"
  then have "i \<in> dom (rl_conns (notified_closed V i c r))" by (auto simp: notified_closed_def close_all_dom)
  then show ?thesis by blast
qed

lemma handle_notified_closed:
  assumes "fo_states (rl_fanout r) i = Some c"
  shows "handle_notified V i r =
    (case fo_states (rl_fanout (notified_closed V i c r)) i of
       Some c2 \<Rightarrow> if should_disconnect c2 then disconnect i (notified_closed V i c r) else notified_closed V i c r
     | None \<Rightarrow> notified_closed V i c r)"
  unfolding notified_closed_def using assms by (simp add: handle_notified_def take_overflowed_def Let_def)

lemma handle_notified_inv:
  assumes inv: "conn_inv V r" and i: "rl_conns r i = Some t" and c: "fo_states (rl_fanout r) i = Some c"
  shows "conn_inv V (handle_notified V i r)"
proof -
  obtain t2 where "rl_conns (notified_closed V i c r) i = Some t2" using notified_closed_conn [OF i] by blast
  then show ?thesis
    using notified_closed_inv [OF inv c] disconnect_inv [OF notified_closed_inv [OF inv c]]
    by (simp add: handle_notified_closed [OF c] split: option.splits)
qed

lemma connect_inv:
  assumes inv: "conn_inv V r" and room: "fo_next_id (rl_fanout r) \<noteq> - 1"
  shows "conn_inv V (connect tx now r)" "conns_counted r \<Longrightarrow> conns_counted (connect tx now r)"
proof -
  have fo: "fanout_inv (rl_fanout r)" and dom: "dom (rl_conns r) = fo_conns (rl_fanout r)" and ok: "conns_ok V r"
    using inv by (simp_all add: conn_inv_def)
  obtain i fo' where reg: "register tx now (rl_fanout r) = (i, fo')" by fastforce
  have fresh: "fo_states (rl_fanout r) i = None" and inv': "fanout_inv fo'"
    using register_inv [OF fo room, of tx now] reg by simp_all
  have new: "fo_conns fo' = insert i (fo_conns (rl_fanout r))"
    "sub_map fo' = (sub_map (rl_fanout r))(i \<mapsto> [])"
    using reg by (auto simp: register_def Let_def sub_map_def fun_eq_iff)
  have out: "i \<notin> fo_conns (rl_fanout r)" using fresh fo by (auto simp: fanout_inv_def)
  have fin: "finite (fo_conns (rl_fanout r))" using fo by (meson fanout_inv_def finite_subset)
  then show "conns_counted (connect tx now r)" if "conns_counted r"
    using out that by (simp add: conns_counted_def connect_def reg new(1))
  have "conns_ok V (connect tx now r)"
    using ok
    by (auto simp: conns_ok_def connect_def reg new(2) subs_ok_def tasks_ok_def split: if_splits)
  then show "conn_inv V (connect tx now r)"
    using inv inv' dom new(1) by (auto simp: conn_inv_def connect_def reg)
qed

text \<open>The branches of a handler leave the store and the counted connections alone.\<close>

definition same_frame :: "'ch relay \<Rightarrow> 'ch relay \<Rightarrow> bool" where
  "same_frame r r' \<longleftrightarrow>
     rl_store r' = rl_store r \<and> rl_count r' = rl_count r \<and> fo_conns (rl_fanout r') = fo_conns (rl_fanout r)"

lemma same_frame_trans: "same_frame r r' \<Longrightarrow> same_frame r' r'' \<Longrightarrow> same_frame r r''"
  by (simp add: same_frame_def)

lemma same_frame_parts [simp]:
  "same_frame r r" "same_frame r (update_task i g r)" "same_frame r (send_notice V i m r)"
  "same_frame r (drop_sub i s r)" "same_frame r (close_overflowed V i s r)" "same_frame r (put_queue i ch r)"
  "same_frame r (put_req_task i s q r)" "same_frame r (r\<lparr>rl_jobs := js\<rparr>)" "same_frame r (r\<lparr>rl_replies := ms\<rparr>)"
  by (simp_all add: same_frame_def send_notice_def conn_send_def drop_sub_def close_overflowed_def Let_def
      put_queue_def put_req_task_def)

lemma handle_req_frame: "same_frame r (handle_req V i msg r)"
  by (auto simp: handle_req_def Let_def split: sum.splits nostr_message.splits)
    (simp add: same_frame_def)

lemma handle_text_frame: "same_frame r (handle_text V i msg r)"
proof -
  have close: "same_frame r (handle_close V i msg r)" for r :: "'a relay"
    by (auto simp: handle_close_def split: sum.splits nostr_message.splits)
  have "same_frame (update_task i (\<lambda>t. t\<lparr>ct_active := True\<rparr>) r) (handle_text V i msg r)"
    by (simp add: handle_text_def Let_def close handle_req_frame split: option.split sum.split)
  then show ?thesis by (rule same_frame_trans [OF same_frame_parts(2)])
qed

lemma handle_idle_frame: "same_frame r (handle_idle V i r)"
  unfolding handle_idle_def by (rule same_frame_trans [OF same_frame_parts(3,2)])

lemma close_all_frame: "same_frame r (fold (close_overflowed V i) ss r)"
  by (induction ss arbitrary: r) (auto intro: same_frame_trans [OF same_frame_parts(5)])

lemma relay_inv_frame: "relay_inv V U r \<Longrightarrow> same_frame r r' \<Longrightarrow> conn_inv V r' \<Longrightarrow> relay_inv V U r'"
  by (simp add: relay_inv_def same_frame_def conns_counted_def)

section \<open>The pipeline\<close>

lemma deletion_request_finite: "finite (dr_ids (deletion_request X e))"
proof -
  have "finite (dr_ids req) \<Longrightarrow> finite (dr_ids (fold (deletion_request_step X) ts req))" for ts req
    by (induction ts arbitrary: req)
      (simp_all add: deletion_request_step_def split: option.splits)
  then show ?thesis by (simp add: deletion_request_def)
qed

lemma store_insert_inv:
  assumes "inj_on ev_id U" "index_inv X U (st_index st)" "e \<in> U"
  shows "index_inv X U (st_index (snd (store_insert X e st)))"
  using indexed.store_insert_keeps [of U X st e] assms by blast

lemma apply_deletion_inv:
  assumes "inj_on ev_id U" "index_inv X U (st_index st)"
  shows "index_inv X U (st_index (snd (apply_deletion X ord req author until st)))"
  using indexed.apply_deletion_keeps [of U X st ord req author until] assms by blast

text \<open>An event message changes the fanout by at most one publication.\<close>

lemma apply_deletion_request_inv:
  assumes "inj_on ev_id U" "index_inv (en_ext V) U (st_index st)" "enumerates ord" "e \<in> U"
    and "apply_deletion_request V ord route e (st, fo) = (reply, st', fo')"
  shows "index_inv (en_ext V) U (st_index st') \<and> (fo' = fo \<or> (\<exists>ev. fo' = route ev fo))"
proof -
  obtain out st1 where d: "apply_deletion (en_ext V) ord (deletion_request (en_ext V) e) (ev_pubkey e)
      (ev_created_at e) st = (out, st1)" by fastforce
  obtain r st2 where i: "store_insert (en_ext V) e st1 = (r, st2)" by fastforce
  have "index_inv (en_ext V) U (st_index st1)"
    using apply_deletion_inv [OF assms(1,2), of ord "deletion_request (en_ext V) e" "ev_pubkey e" "ev_created_at e"] d by simp
  then have "index_inv (en_ext V) U (st_index st2)"
    using store_insert_inv [OF assms(1) _ assms(4), of "en_ext V" st1] i by simp
  then show ?thesis
    using assms(2,5) by (auto simp: apply_deletion_request_def d i split: if_splits insert_result.splits)
qed

lemma process_event_inv:
  assumes "inj_on ev_id U" "index_inv (en_ext V) U (st_index st)" "enumerates ord"
    and "\<And>s e. message_from_json (en_ext V) (en_serde V) (en_json V) text = Inr (M_Event s e) \<Longrightarrow> e \<in> U"
    and "process_event_message V ord route text (st, fo) = (reply, st', fo')"
  shows "index_inv (en_ext V) U (st_index st') \<and> (fo' = fo \<or> (\<exists>ev. fo' = route ev fo))"
proof (cases "\<exists>s e. message_from_json (en_ext V) (en_serde V) (en_json V) text = Inr (M_Event s e)")
  case False
  then show ?thesis
    using assms(2,5) by (auto simp: process_event_message_def split: sum.splits nostr_message.splits)
next
  case True
  then obtain s e where m: "message_from_json (en_ext V) (en_serde V) (en_json V) text = Inr (M_Event s e)"
    by blast
  have e: "e \<in> U" by (rule assms(4) [OF m])
  show ?thesis
  proof (cases "is_deletion_request e")
    case True
    then show ?thesis
      using assms(5) m apply_deletion_request_inv [OF assms(1-3) e]
      by (auto simp: process_event_message_def split: prod.splits)
  next
    case False
    obtain r st1 where i: "store_insert (en_ext V) e st = (r, st1)" by fastforce
    have "index_inv (en_ext V) U (st_index st1)"
      using store_insert_inv [OF assms(1,2) e] i by simp
    then show ?thesis
      using assms(5) m False by (auto simp: process_event_message_def i split: insert_result.splits)
  qed
qed

section \<open>Every step keeps the invariant\<close>

lemma store_turn_inv:
  assumes "store_turn X st st'" "index_inv X U (st_index st)"
  shows "index_inv X U (st_index st')"
  using assms
proof cases
  case evict
  then show ?thesis using maybe_evict_spec [OF assms(2)] by auto
next
  case (sample rss)
  then show ?thesis
    using assms(2) by (simp add: sample_rss_def sample_amplification_def Let_def)
next
  case (persist ord)
  then show ?thesis
    using assms(2)
    by (auto simp: maybe_checkpoint_def save_to_disk_def write_snapshot_def Let_def split: option.splits)
qed simp

lemma req_step_limited:
  "req_step V st s q = Some (m, q') \<Longrightarrow> list_all (limited V) (rq_filters q) \<Longrightarrow>
   list_all (limited V) (rq_filters q')"
  by (auto simp: req_step_def split: if_splits list.splits)

lemma put_req_task_inv:
  assumes "conn_inv V r" "rl_conns r i = Some t" "ct_tasks t s = Some q"
    and "list_all (limited V) (rq_filters q) \<Longrightarrow> list_all (limited V) (rq_filters q')"
  shows "conn_inv V (put_req_task i s q' r)"
  unfolding put_req_task_def
proof (rule update_task_inv [OF assms(1)])
  fix t' subs assume "rl_conns r i = Some t'" and ok: "tasks_ok V subs (ct_tasks t')"
  then have t': "t' = t" using assms(2) by simp
  have "list_all (limited V) (rq_filters q')"
    using assms(4) ok assms(3) by (simp add: tasks_ok_def t')
  then show "tasks_ok V subs (ct_tasks (t'\<lparr>ct_tasks := (ct_tasks t')(s \<mapsto> q')\<rparr>))"
    using ok assms(3) by (auto simp: tasks_ok_def t')
qed

lemma connect_store: "rl_store (connect tx now r) = rl_store r"
  by (simp add: connect_def split: prod.splits)

lemma handle_notified_relay_inv:
  assumes inv: "relay_inv V U r" and i: "rl_conns r i = Some t" and c: "fo_states (rl_fanout r) i = Some c"
  shows "relay_inv V U (handle_notified V i r)"
proof -
  from inv have ci: "conn_inv V r" by (simp add: relay_inv_def)
  let ?r2 = "notified_closed V i c r"
  have "same_frame r ?r2"
    unfolding notified_closed_def by (rule same_frame_trans [OF _ close_all_frame]) (simp add: same_frame_def)
  from relay_inv_frame [OF inv this notified_closed_inv [OF ci c]] have r2: "relay_inv V U ?r2" .
  obtain t2 where t2: "rl_conns ?r2 i = Some t2" using notified_closed_conn [OF i] by blast
  from r2 have parts: "conn_inv V ?r2" "conns_counted ?r2" by (simp_all add: relay_inv_def)
  have "relay_inv V U (disconnect i ?r2)"
    using r2 disconnect_inv [OF parts(1) t2] disconnect_counted [OF parts(1) t2 parts(2)]
    by (simp add: relay_inv_def disconnect_def)
  with r2 show ?thesis by (simp add: handle_notified_closed [OF c] split: option.splits)
qed

lemma relay_step_inv:
  assumes step: "relay_step V U r r'" and inj: "inj_on ev_id U" and inv: "relay_inv V U r"
  shows "relay_inv V U r'"
proof -
  from inv have ci: "conn_inv V r" and cnt: "conns_counted r" by (simp_all add: relay_inv_def)
  note keep = relay_inv_frame [OF inv]
  from step show ?thesis
  proof cases
    case (connect tx now)
    then show ?thesis using inv connect_inv [OF ci] cnt by (simp add: relay_inv_def connect_store)
  next
    case (on_text i t msg)
    then show ?thesis using keep [OF handle_text_frame handle_text_inv [OF ci]] by simp
  next
    case (on_binary i t)
    then show ?thesis
      using keep [OF same_frame_trans [OF same_frame_parts(2,3)] send_notice_inv [OF active_inv [OF ci]]]
      by (simp add: handle_binary_def)
  next
    case (hangup i t)
    then show ?thesis using inv disconnect_inv [OF ci] disconnect_counted [OF ci _ cnt] by (simp add: relay_inv_def disconnect_def)
  next
    case (notified i t c)
    then show ?thesis using handle_notified_relay_inv [OF inv] by simp
  next
    case (idle i t)
    then show ?thesis
      using keep [OF handle_idle_frame handle_idle_inv [OF ci]] by simp
  next
    case (job i msg ord cord clock reply st fo)
    have idx: "index_inv (en_ext V) U (st_index (rl_store r))" and f: "fanout_inv (rl_fanout r)"
      using inv by (simp_all add: relay_inv_def conn_inv_def)
    from process_event_inv [OF inj idx job(3) job(5) job(6)]
    have st: "index_inv (en_ext V) U (st_index st)"
      and fo: "fo = rl_fanout r \<or> (\<exists>ev. fo = publish (en_try_send V) clock cord ev (rl_fanout r))" by auto
    then have "conn_inv V (r\<lparr>rl_fanout := fo\<rparr>)"
      using conn_inv_fanout [OF ci] publish_inv [OF f] by (auto simp: ci sub_map_publish)
    with st fo cnt show ?thesis by (auto simp: job(1) relay_inv_def conn_inv_def conns_ok_def conns_counted_def)
  next
    case (reply i m t c ch)
    then show ?thesis using keep [OF same_frame_trans [OF same_frame_parts(9,6)]] by (simp add: put_queue_inv ci)
  next
    case (req_silent i t s q q')
    then show ?thesis using keep [OF same_frame_parts(7) put_req_task_inv [OF ci]] req_step_limited by blast
  next
    case (req_send i t s q m q' c ch)
    then show ?thesis
      using keep [OF same_frame_trans [OF same_frame_parts(7,6)] put_queue_inv [OF put_req_task_inv [OF ci]]] req_step_limited
      by blast
  next
    case (drain i t c m ch)
    then show ?thesis using keep [OF same_frame_parts(6) put_queue_inv [OF ci]] by simp
  next
    case (background st)
    then show ?thesis
      using inv store_turn_inv [OF background(2)] by (simp add: relay_inv_def conn_inv_def conns_ok_def conns_counted_def)
  next
    case (reply_lost i m)
    then show ?thesis using keep [OF same_frame_parts(9)] ci by simp
  qed
qed

lemma relay_new_conn_inv: "conn_inv V (relay_new st)"
  by (simp add: conn_inv_def relay_new_def conns_ok_def fanout_inv_new) (simp add: fanout_new_def)

lemma relay_new_inv: "index_inv (en_ext V) U (st_index st) \<Longrightarrow> relay_inv V U (relay_new st)"
  using relay_new_conn_inv [of V st] by (simp add: relay_inv_def conns_counted_def relay_new_def fanout_new_def)

lemma relay_reach_inv:
  assumes "relay_reach V U st0 r" "inj_on ev_id U" "index_inv (en_ext V) U (st_index st0)"
  shows "relay_inv V U r"
  using assms(1) by induction (simp_all add: relay_new_inv [OF assms(3)] relay_step_inv [OF _ assms(2)])

end
