(* ===== verification/Relay_Pipeline.thy ===== *)
theory Relay_Pipeline
  imports Relay_Invariant Index_Copies
begin

text \<open>
  The event pipeline: what an EVENT message does to the store and to the subscriptions, on every
  branch of \<open>process_event_message\<close> and \<open>apply_deletion_request\<close>.
\<close>

section \<open>Inserting again\<close>

text \<open>An insert that does not store the event leaves the index as it is.\<close>

lemma index_insert_refused:
  assumes inj: "inj_on ev_id U" and inv: "index_inv X U s" and e: "e \<in> U"
    and ins: "index_insert X e s = (r, s')" and no: "\<And>d. r \<noteq> Inserted d"
  shows "s' = s"
proof -
  have core: "index_core X U s" using inv by (simp add: index_inv_def)
  have ref: "spec_insert (ts_ids (tombstones s)) (by_id s) e r (by_id s')"
    using index_insert_refines [OF inj inv e] by (simp add: insert_refines_def ins)
  have tomb: "tombs_contains (tombstones s) (ev_id e) \<longleftrightarrow> ev_id e \<in> ts_ids (tombstones s)"
    using tombs_contains_iff [OF index_core_facts(5) [OF core]] .
  from ref show ?thesis
  proof cases
    case tombstoned
    then show ?thesis using ins tomb by (simp add: index_insert_def)
  next
    case (stale d)
    then have repl: "is_replaceable e" by (simp add: rival_def)
    from rival_iff [OF inj inv repl, of d] stale
    have "swap_replaceable X e s = None" by (simp add: swap_replaceable_cases [OF repl])
    then show ?thesis using ins tomb stale by (simp add: index_insert_def)
  next
    case again
    then obtain d where d: "by_id s (ev_id e) = Some d" by blast
    have "d = e" by (rule stored_same_id [OF inj core e d])
    then have "(by_id s)(ev_id e \<mapsto> e) = by_id s" using d by auto
    then have "index_insert X e s = (Duplicate, s)"
      using again(3,4) d tomb by (simp add: index_insert_def swap_not_replaceable Let_def)
    then show ?thesis using ins by simp
  qed (use no in auto)
qed

lemma index_insert_stored:
  assumes "inj_on ev_id U" "index_inv X U s" "e \<in> U" "index_insert X e s = (Inserted d, s')"
  shows "by_id s' (ev_id e) = Some e" "index_inv X U s'"
    "ev_id e \<notin> ts_ids (tombstones s')" "tombstones s' = tombstones s"
  using index_insert_refines [OF assms(1-3)] assms(4) by (auto simp: insert_refines_def)

lemma index_insert_held:
  assumes inj: "inj_on ev_id U" and inv: "index_inv X U s" and e: "e \<in> U" and held: "by_id s (ev_id e) = Some e"
  shows "index_insert X e s \<in> {(Duplicate, s), (LostRace, s)}"
proof -
  obtain r s' where ins: "index_insert X e s = (r, s')" by fastforce
  have core: "index_core X U s" using inv by (simp add: index_inv_def)
  have live: "ev_id e \<notin> ts_ids (tombstones s)"
    using held core by (auto simp: index_core_def)
  have ref: "spec_insert (ts_ids (tombstones s)) (by_id s) e r (by_id s')"
    using index_insert_refines [OF inj inv e] by (simp add: insert_refines_def ins)
  then have "r = Duplicate \<or> r = LostRace"
  proof cases
    case (replace d)
    then have "rival (by_id s) e e"
      using stored_replaceable_is_rival [OF inv _ held] by (simp add: rival_def)
    from rival_unique [OF inj inv this replace(4)] replace(5) show ?thesis by simp
  qed (use live held in auto)
  then show ?thesis using index_insert_refused [OF inj inv e ins] ins by auto
qed

lemma index_insert_again:
  assumes inj: "inj_on ev_id U" and inv: "index_inv X U s" and e: "e \<in> U"
    and ins: "index_insert X e s = (r, s')"
  shows "index_insert X e s' \<in> {(Duplicate, s'), (LostRace, s'), (Deleted, s')}"
proof (cases r)
  case (Inserted d)
  note held = index_insert_stored [OF inj inv e ins [unfolded Inserted]]
  from index_insert_held [OF inj held(2) e held(1)] show ?thesis by blast
next
  case Duplicate
  then show ?thesis using index_insert_refused [OF inj inv e ins] ins by simp
next
  case LostRace
  then show ?thesis using index_insert_refused [OF inj inv e ins] ins by simp
next
  case Deleted
  then show ?thesis using index_insert_refused [OF inj inv e ins] ins by simp
qed

lemma store_insert_again:
  assumes "inj_on ev_id U" "index_inv X U (st_index st)" "e \<in> U" "\<not> is_ephemeral e"
    and ins: "store_insert X e st = (r, st')"
  shows "store_insert X e st' \<in> {(R_Duplicate, st'), (R_Deleted, st')}"
proof -
  obtain o' s' where i: "index_insert X e (st_index st) = (o', s')" by fastforce
  have st': "st_index st' = s'"
    using ins i assms(4) by (auto simp: store_insert_def log_insert_def Let_def
        split: insert_outcome.splits option.splits)
  from index_insert_again [OF assms(1-3) i] show ?thesis
    using assms(4) by (auto simp: store_insert_def st' [symmetric])
qed

lemma store_insert_index:
  assumes "\<not> is_ephemeral e" "index_insert X e (st_index st) = (Inserted d, s')"
  shows "fst (store_insert X e st) = R_Stored e (case d of Some old \<Rightarrow> [old] | None \<Rightarrow> [])"
    "st_index (snd (store_insert X e st)) = s'"
  using assms by (simp_all add: store_insert_def log_insert_def Let_def split: option.splits)

section \<open>Deletion requests\<close>

text \<open>The stored events a deletion request removes: its author's own, named by id or by coordinate.\<close>

definition deletion_targets :: "'x ext_scheme \<Rightarrow> event \<Rightarrow> event set \<Rightarrow> event set" where
  "deletion_targets X e E =
     (let req = deletion_request X e in
      {d \<in> E. ev_pubkey d = ev_pubkey e \<and>
         (ev_id d \<in> dr_ids req \<or>
          ev_created_at d \<le> ev_created_at e \<and>
          (\<exists>c \<in> set (dr_coordinates req). co_pubkey c = ev_pubkey e \<and> replacement_key d = coordinate_key c))})"

lemma deletion_request_walked:
  assumes "inj_on ev_id U" "index_inv X U (st_index st)" "enumerates ord"
  shows "walked X U (st_index st) (deletion_targets X e (stored (st_index st)))
    (apply_deletion X ord (deletion_request X e) (ev_pubkey e) (ev_created_at e) st)"
proof -
  let ?req = "deletion_request X e"
  have "deletion_targets X e (stored (st_index st)) =
      id_targets (ev_pubkey e) (dr_ids ?req) (stored (st_index st)) \<union>
      coord_targets (ev_pubkey e) (ev_created_at e) (set (dr_coordinates ?req)) (stored (st_index st))"
    using replacement_key_coordinate(2)
    by (auto simp: deletion_targets_def Let_def id_targets_def coord_targets_def)
  with apply_deletion_walked [OF assms deletion_request_finite [of X e], of "ev_pubkey e" "ev_created_at e"]
  show ?thesis by simp
qed

lemma deletion_is_regular:
  assumes "is_deletion_request e"
  shows "\<not> is_ephemeral e" "\<not> is_replaceable e"
  using assms by (simp_all add: is_deletion_request_def KIND_DELETION_def kind_defs)

text \<open>
  A request that is new is applied, stored and published: the branches of \<open>apply_deletion_request\<close>
  for any other result of the insert are left to a race.
\<close>

lemma apply_deletion_request_new:
  assumes inj: "inj_on ev_id U" and inv: "index_inv (en_ext V) U (st_index st)" and ord: "enumerates ord"
    and e: "e \<in> U" and del: "is_deletion_request e"
    and new: "\<not> store_contains st (ev_id e)" "\<not> store_is_tombstoned st (ev_id e)"
  obtains st' where "apply_deletion_request V ord route e (st, fo) =
      (ok_reply V e True (''deleted '' @
         show_nat (card (deletion_targets (en_ext V) e (stored (st_index st)))) @ '' event(s)''),
       st', route (broadcast_new e) fo)"
    and "stored (st_index st') =
      insert e (stored (st_index st) - deletion_targets (en_ext V) e (stored (st_index st)))"
    and "index_inv (en_ext V) U (st_index st')" "by_id (st_index st') (ev_id e) = Some e"
proof -
  let ?X = "en_ext V" and ?D = "deletion_targets (en_ext V) e (stored (st_index st))"
  obtain out st1 where d: "apply_deletion ?X ord (deletion_request ?X e) (ev_pubkey e)
      (ev_created_at e) st = (out, st1)" by fastforce
  have w: "walked ?X U (st_index st) ?D (out, st1)"
    using deletion_request_walked [OF inj inv ord, of e] by (simp add: d)
  then have inv1: "index_inv ?X U (st_index st1)" by (simp add: walked_def)
  have core: "index_core ?X U (st_index st)" and core1: "index_core ?X U (st_index st1)"
    using inv inv1 by (simp_all add: index_inv_def)
  have "by_id (st_index st) (ev_id e) = None" using new(1) by (simp add: store_contains_def index_get_def)
  then have out: "\<forall>d \<in> stored (st_index st). ev_id d \<noteq> ev_id e"
    using stored_iff [OF core] by auto
  have free: "by_id (st_index st1) (ev_id e) = None"
  proof (rule ccontr)
    assume "by_id (st_index st1) (ev_id e) \<noteq> None"
    then obtain d where "by_id (st_index st1) (ev_id e) = Some d" by blast
    then have "d \<in> stored (st_index st1)" "ev_id d = ev_id e"
      by (simp_all add: by_id_stored by_id_id [OF core1])
    then show False using w out by (auto simp: walked_def)
  qed
  have "ev_id e \<notin> ts_ids (tombstones (st_index st))"
    using new(2) tombs_contains_iff [OF index_core_facts(5) [OF core]]
    by (simp add: store_is_tombstoned_def is_tombstoned_def)
  moreover have "ev_id e \<notin> ev_id ` ?D" using out by (auto simp: deletion_targets_def Let_def)
  ultimately have live: "ev_id e \<notin> ts_ids (tombstones (st_index st1))"
    using w by (auto simp: walked_def)
  obtain r s2 where i: "index_insert ?X e (st_index st1) = (r, s2)" by fastforce
  have ref: "spec_insert (ts_ids (tombstones (st_index st1))) (by_id (st_index st1)) e r (by_id s2)"
    using index_insert_refines [OF inj inv1 e] by (simp add: insert_refines_def i)
  then have r: "r = Inserted None \<and> by_id s2 = (by_id (st_index st1))(ev_id e \<mapsto> e)"
    by cases (use live free deletion_is_regular [OF del] in \<open>auto simp: rival_def\<close>)
  note ins = store_insert_index [OF deletion_is_regular(1) [OF del] i [unfolded r [THEN conjunct1]]]
  have "stored s2 = insert e (stored (st_index st1))"
    using r free by (simp add: stored_def)
  then have st2: "stored s2 = insert e (stored (st_index st) - ?D)" using w by (simp add: walked_def)
  have "apply_deletion_request V ord route e (st, fo) =
      (ok_reply V e True (''deleted '' @ show_nat (card ?D) @ '' event(s)''),
       snd (store_insert ?X e st1), route (broadcast_new e) fo)"
    using new ins(1) w by (simp add: apply_deletion_request_def d case_prod_beta walked_def)
  moreover have "index_inv ?X U s2"
    using index_insert_inv [OF inj inv1 e] by (simp add: i)
  ultimately show thesis
    using that ins(2) st2 r by auto
qed

text \<open>A request that the store holds, or that was itself deleted, is answered from the store alone.\<close>

lemma apply_deletion_request_old:
  assumes "store_contains st (ev_id e) \<or> store_is_tombstoned st (ev_id e)"
  shows "apply_deletion_request V ord route e (st, fo) =
    (if store_contains st (ev_id e) then ok_reply V e True ''duplicate: already have this event''
     else ok_reply V e False ''deleted: this event was removed by a deletion request'', st, fo)"
  using assms by (auto simp: apply_deletion_request_def)

section \<open>Events\<close>

text \<open>The event of an EVENT message.\<close>

definition carries :: "('j, 'ch) relay_env \<Rightarrow> string \<Rightarrow> event \<Rightarrow> bool" where
  "carries V text e \<longleftrightarrow>
     (\<exists>s. message_from_json (en_ext V) (en_serde V) (en_json V) text = Inr (M_Event s e))"

lemma process_carried:
  assumes "carries V text e"
  shows "process_event_message V ord route text (st, fo) =
    (if is_deletion_request e then
       (let (reply, sf') = apply_deletion_request V ord route e (st, fo) in (Some reply, sf'))
     else
       let (r, st1) = store_insert (en_ext V) e st in
       case r of
         R_Ephemeral \<Rightarrow>
           (Some (ok_reply V e True ''ephemeral: will not be stored''), st1, route (broadcast_new e) fo)
       | R_Duplicate \<Rightarrow> (Some (ok_reply V e True ''duplicate: already have this event''), st1, fo)
       | R_Deleted \<Rightarrow>
           (Some (ok_reply V e False ''deleted: this event was removed by a deletion request''), st1, fo)
       | R_Stored e' _ \<Rightarrow> (Some (ok_reply V e True []), st1, route (broadcast_new e') fo))"
  using assms by (auto simp: carries_def process_event_message_def)

text \<open>The stored events that lose to \<open>e\<close>, and whether one of them wins.\<close>

definition rivals :: "event \<Rightarrow> event set \<Rightarrow> event set" where
  "rivals e E = {d \<in> E. is_replaceable e \<and> is_replaceable d \<and> replacement_key d = replacement_key e}"

definition superseded :: "event \<Rightarrow> event set \<Rightarrow> bool" where
  "superseded e E \<longleftrightarrow> e \<in> E \<or> (\<exists>d \<in> rivals e E. \<not> incoming_wins e d)"

lemma rivals_rival: "rivals e (stored s) = {d. rival (by_id s) e d}"
  by (auto simp: rivals_def rival_def stored_def)

lemma index_insert_by_rivals:
  assumes inj: "inj_on ev_id U" and inv: "index_inv X U s" and e: "e \<in> U"
    and ins: "index_insert X e s = (r, s')"
  shows "if ev_id e \<in> ts_ids (tombstones s) then r = Deleted \<and> s' = s
    else if superseded e (stored s) then (r = Duplicate \<or> r = LostRace) \<and> s' = s
    else (\<exists>d. r = Inserted d) \<and> stored s' = insert e (stored s - rivals e (stored s))"
proof -
  have core: "index_core X U s" using inv by (simp add: index_inv_def)
  have ref: "spec_insert (ts_ids (tombstones s)) (by_id s) e r (by_id s')" and inv': "index_inv X U s'"
    using index_insert_refines [OF inj inv e] by (simp_all add: insert_refines_def ins)
  note same = index_insert_refused [OF inj inv e ins]
  have mem: "e \<in> stored s \<longleftrightarrow> by_id s (ev_id e) = Some e" by (rule stored_iff [OF core])
  from ref show ?thesis
  proof cases
    case tombstoned
    then show ?thesis using same by (simp only: if_True) simp
  next
    case (stale d)
    then have "superseded e (stored s)" unfolding superseded_def rivals_rival by blast
    then show ?thesis using stale(1,3) same by simp
  next
    case (replace d)
    have one: "rivals e (stored s) = {d}"
      unfolding rivals_rival using rival_unique [OF inj inv replace(4)] replace(4) by blast
    have d: "by_id s (ev_id d) = Some d"
      using replace(4) rival_iff [OF inj inv, of e d] rival_def by blast
    have "e \<notin> stored s"
    proof
      assume "e \<in> stored s"
      moreover have "is_replaceable e" using replace(4) by (simp add: rival_def)
      ultimately have "rival (by_id s) e e" using stored_replaceable_is_rival [OF inv] mem by simp
      from rival_unique [OF inj inv replace(4) this] replace(5) show False by simp
    qed
    then have "\<not> superseded e (stored s)" using one replace(5) by (simp add: superseded_def)
    moreover have new: "((by_id s)(ev_id d := None)) (ev_id e) = None"
    proof (cases "by_id s (ev_id e)")
      case (Some x)
      have "x = e" by (rule stored_same_id [OF inj core e Some])
      then show ?thesis using Some mem \<open>e \<notin> stored s\<close> by simp
    qed simp
    have "stored s' = insert e (stored s - {d})"
      using replace(2) ran_map_upd [where m = "(by_id s)(ev_id d := None)", OF new]
        ran_keyed_del [OF index_core_facts(2) [OF core] d]
      by (simp add: stored_def)
    ultimately show ?thesis using replace one by simp
  next
    case again
    then obtain x where x: "by_id s (ev_id e) = Some x" by blast
    have "x = e" by (rule stored_same_id [OF inj core e x])
    then show ?thesis using again x mem same by (simp add: superseded_def)
  next
    case fresh
    then have "rivals e (stored s) = {}" by (simp add: rivals_rival)
    then show ?thesis using fresh mem by (auto simp: superseded_def stored_def)
  qed
qed

lemma store_insert_by_rivals:
  assumes "inj_on ev_id U" "index_inv X U (st_index st)" "e \<in> U" "\<not> is_ephemeral e"
  shows "if ev_id e \<in> ts_ids (tombstones (st_index st)) then store_insert X e st = (R_Deleted, st)
    else if superseded e (stored (st_index st)) then store_insert X e st = (R_Duplicate, st)
    else \<exists>ds st'. store_insert X e st = (R_Stored e ds, st') \<and>
           stored (st_index st') = insert e (stored (st_index st) - rivals e (stored (st_index st)))"
proof -
  obtain r s' where i: "index_insert X e (st_index st) = (r, s')" by fastforce
  have "store_insert X e st = (fst (store_insert X e st), snd (store_insert X e st))" by simp
  with index_insert_by_rivals [OF assms(1-3) i] store_insert_index [OF assms(4), of X st _ s'] show ?thesis
    using assms(4) i
    by (auto simp: store_insert_def split: if_splits)
qed

section \<open>Second copies\<close>

text \<open>Another copy of \<open>e\<close> is stored: the same id under another signature or JSON text.\<close>

definition other_copy :: "event \<Rightarrow> event set \<Rightarrow> bool" where
  "other_copy e E \<longleftrightarrow> (\<exists>d \<in> E. ev_id d = ev_id e \<and> d \<noteq> e)"

lemma adopt_alone:
  assumes "index_inv X U s" "\<forall>d \<in> U. ev_id d = ev_id e \<longrightarrow> copy_of d e" "\<not> other_copy e (stored s)"
  shows "index_inv X (adopt e U) s" "e \<in> adopt e U"
  using adopt_inv [OF assms(1,2)] assms(3) by (auto simp: other_copy_def adopt_def)

lemma other_copy_facts:
  assumes "index_inv X U s" "\<forall>d \<in> U. ev_id d = ev_id e \<longrightarrow> copy_of d e" "other_copy e (stored s)"
  shows "is_replaceable e \<Longrightarrow> superseded e (stored s)" "ev_id e \<notin> ts_ids (tombstones s)" "by_id s (ev_id e) \<noteq> None"
    "\<not> is_replaceable e \<Longrightarrow> \<not> superseded e (stored s)"
    "index_insert X e s = (if is_replaceable e then (LostRace, s) else (Duplicate, s\<lparr>by_id := (by_id s)(ev_id e \<mapsto> e)\<rparr>))"
proof -
  have core: "index_core X U s" using assms(1) by (simp add: index_inv_def)
  obtain d where d: "d \<in> stored s" "ev_id d = ev_id e" "d \<noteq> e" using assms(3) by (auto simp: other_copy_def)
  have c: "copy_of d e" using assms(2) d index_core_facts(3) [OF core] by blast
  have i: "by_id s (ev_id e) = Some d" using d stored_iff [OF core, of d] by simp
  have "\<not> incoming_wins e d" using c by (simp add: incoming_wins_def copy_of_def)
  moreover have "d \<in> rivals e (stored s)" if "is_replaceable e" using that d(1) copy_key [OF c] by (simp add: rivals_def)
  ultimately show "superseded e (stored s)" if "is_replaceable e" using that unfolding superseded_def by blast
  show "ev_id e \<notin> ts_ids (tombstones s)" using core i by (auto simp: index_core_def)
  show "by_id s (ev_id e) \<noteq> None" using i by simp
  show "\<not> superseded e (stored s)" if "\<not> is_replaceable e"
    using that i d(3) stored_iff [OF core, of e] by (simp add: superseded_def rivals_def)
  show "index_insert X e s = (if is_replaceable e then (LostRace, s) else (Duplicate, s\<lparr>by_id := (by_id s)(ev_id e \<mapsto> e)\<rparr>))"
    by (rule index_insert_copy [OF assms(1) d(1) c])
qed

text \<open>Inserting any event that is not ephemeral.\<close>

lemma store_insert_any:
  assumes "inj_on ev_id U" "index_inv X U (st_index st)" "\<forall>d \<in> U. ev_id d = ev_id e \<longrightarrow> copy_of d e" "\<not> is_ephemeral e"
  shows "if ev_id e \<in> ts_ids (tombstones (st_index st)) then store_insert X e st = (R_Deleted, st)
    else if superseded e (stored (st_index st)) then store_insert X e st = (R_Duplicate, st)
    else if other_copy e (stored (st_index st)) then
      store_insert X e st = (R_Duplicate, st\<lparr>st_index := (st_index st)\<lparr>by_id := (by_id (st_index st))(ev_id e \<mapsto> e)\<rparr>\<rparr>)
    else \<exists>ds st'. store_insert X e st = (R_Stored e ds, st') \<and> index_inv X (adopt e U) (st_index st') \<and>
           stored (st_index st') = insert e (stored (st_index st) - rivals e (stored (st_index st)))"
proof (cases "other_copy e (stored (st_index st))")
  case True
  note f = other_copy_facts [OF assms(2,3) True]
  show ?thesis
    using f True assms(4) by (cases "is_replaceable e") (simp_all add: store_insert_def)
next
  case False
  note a = adopt_alone [OF assms(2,3) False]
  have inv: "index_inv X (adopt e U) (st_index st')" if "store_insert X e st = (r, st')" for r st'
    using store_insert_inv [OF adopt_inj [OF assms(1)] a] that by (metis snd_conv)
  from store_insert_by_rivals [OF adopt_inj [OF assms(1)] a assms(4)] False inv show ?thesis
    by (auto split: if_splits)
qed

lemma store_insert_again_any:
  assumes "inj_on ev_id U" "index_inv X U (st_index st)" "\<forall>d \<in> U. ev_id d = ev_id e \<longrightarrow> copy_of d e" "\<not> is_ephemeral e"
    and ins: "store_insert X e st = (r, st')"
  shows "store_insert X e st' \<in> {(R_Duplicate, st'), (R_Deleted, st')}"
proof (cases "other_copy e (stored (st_index st))")
  case True
  note f = other_copy_facts [OF assms(2,3) True]
  show ?thesis
  proof (cases "is_replaceable e")
    case True
    then show ?thesis using f(5) ins assms(4) by (simp add: store_insert_def)
  next
    case False
    let ?s = "(st_index st)\<lparr>by_id := (by_id (st_index st))(ev_id e \<mapsto> e)\<rparr>"
    have "\<not> tombs_contains (tombstones (st_index st)) (ev_id e)"
      using f(2) tombs_contains_iff [OF index_core_facts(5) [OF index_invD(1) [OF assms(2)]]] by simp
    then have "index_insert X e ?s = (Duplicate, ?s)"
      using False by (simp add: index_insert_def swap_not_replaceable Let_def)
    then show ?thesis using f(5) False ins assms(4) by (auto simp: store_insert_def)
  qed
next
  case False
  from store_insert_again [OF adopt_inj [OF assms(1)] adopt_alone [OF assms(2,3) False] assms(4) ins] show ?thesis .
qed

end
