(* ===== verification/Relay_Request.thy ===== *)
theory Relay_Request
  imports Relay_Pipeline
begin

text \<open>
  The task of a REQ (the \<open>tokio::spawn\<close> in the REQ branch of \<open>handle_socket\<close>): it queries the
  store once per filter, streams the results and ends with EOSE, while the store changes under it.
\<close>

section \<open>Runs of a task\<close>

text \<open>
  \<open>sts k\<close> is the store that the task sees in its \<open>k\<close>-th step. \<open>req_trace\<close> gives the messages it has
  sent after \<open>n\<close> steps and its state then.
\<close>

primrec req_trace ::
    "('j, 'ch) relay_env \<Rightarrow> string \<Rightarrow> (nat \<Rightarrow> event_store) \<Rightarrow> nat \<Rightarrow> req_task \<Rightarrow>
     (string list \<times> req_task) option" where
  "req_trace V s sts 0 t = Some ([], t)"
| "req_trace V s sts (Suc n) t =
     (case req_step V (sts 0) s t of
        None \<Rightarrow> None
      | Some (m, t1) \<Rightarrow>
          map_option (\<lambda>(ms, t2). ((case m of Some x \<Rightarrow> x # ms | None \<Rightarrow> ms), t2))
            (req_trace V s (\<lambda>k. sts (Suc k)) n t1))"

text \<open>The events the filters yield when each is queried after the results of the one before it.\<close>

fun req_answers ::
    "'x ext_scheme \<Rightarrow> (nat \<Rightarrow> event_store) \<Rightarrow> nat \<Rightarrow> nostr_filter list \<Rightarrow> event list option" where
  "req_answers X sts n [] = Some []"
| "req_answers X sts n (f # fs) =
     (case query_filter X (sts n) f of
        None \<Rightarrow> None
      | Some es \<Rightarrow> map_option ((@) es) (req_answers X sts (n + 1 + length es) fs))"

lemma req_trace_pending:
  assumes "\<not> rq_done t"
  shows "req_trace V s sts (length es + n) (t\<lparr>rq_pending := es @ ps\<rparr>) =
    map_option (\<lambda>(ms, t'). (map (\<lambda>e. event_message s (raw_text e)) es @ ms, t'))
      (req_trace V s (\<lambda>k. sts (length es + k)) n (t\<lparr>rq_pending := ps\<rparr>))"
proof (induction es arbitrary: sts)
  case (Cons e es)
  have "req_step V (sts 0) s (t\<lparr>rq_pending := e # es @ ps\<rparr>) =
      Some (Some (event_message s (raw_text e)), t\<lparr>rq_pending := es @ ps\<rparr>)"
    using assms by (simp add: req_step_def)
  then show ?case
    using Cons [of "\<lambda>k. sts (Suc k)"] by (simp add: option.map_comp comp_def case_prod_beta)
qed (simp add: option.map_id)

lemma req_answers_shift: "req_answers X (\<lambda>k. sts (m + k)) n fs = req_answers X sts (m + n) fs"
  by (induction X "\<lambda>k. sts (m + k)" n fs rule: req_answers.induct)
    (simp_all add: add.assoc add.commute add.left_commute split: option.splits)

lemma req_trace_filters:
  assumes "req_answers (en_ext V) sts 0 fs = Some es"
  shows "req_trace V s sts (length fs + length es + 1)
      \<lparr>rq_filters = fs, rq_pending = [], rq_done = False\<rparr> =
    Some (map (\<lambda>e. event_message s (raw_text e)) es @
          [message_to_json (en_ext V) (en_json V) (M_EndOfStoredEvents s)],
          \<lparr>rq_filters = [], rq_pending = [], rq_done = True\<rparr>)"
  using assms
proof (induction fs arbitrary: sts es)
  case Nil
  then show ?case by (simp add: req_step_def)
next
  case (Cons f fs)
  from Cons.prems obtain qs rest where q: "query_filter (en_ext V) (sts 0) f = Some qs"
      "req_answers (en_ext V) sts (1 + length qs) fs = Some rest" "es = qs @ rest"
    by (auto split: option.splits)
  let ?sts = "\<lambda>k. sts (Suc (length qs + k))"
  let ?t = "\<lparr>rq_filters = fs, rq_pending = [], rq_done = False\<rparr>"
  have "req_answers (en_ext V) ?sts 0 fs = Some rest"
    using q(2) req_answers_shift [of "en_ext V" sts "Suc (length qs)" 0 fs] by simp
  from Cons.IH [OF this] q(3)
    req_trace_pending [of ?t V s "\<lambda>k. sts (Suc k)" qs "length fs + length rest + 1" "[]"]
  show ?case using q(1) by (simp add: req_step_def add.left_commute add.commute)
qed

section \<open>What the filters yield\<close>

lemma req_answers_total:
  assumes inv: "\<And>k. index_inv (en_ext V) U (st_index (sts k))" and lim: "list_all (limited V) fs"
  shows "\<exists>es. req_answers (en_ext V) sts n fs = Some es \<and>
    length es \<le> length fs * unat (rc_max_limit (en_config V)) \<and>
    (\<forall>e \<in> set es. \<exists>f \<in> set fs. \<exists>k. e \<in> stored (st_index (sts k)) \<and> candidate_matches f e)"
  using lim
proof (induction fs arbitrary: n)
  case (Cons f fs)
  let ?max = "unat (rc_max_limit (en_config V))"
  from query_filter_sound [OF inv, of n f] obtain qs where q: "query_filter (en_ext V) (sts n) f = Some qs"
      "set qs \<subseteq> stored (st_index (sts n))" "\<forall>e \<in> set qs. candidate_matches f e"
      "opt_all (\<lambda>lim. length qs \<le> unat lim) (f_limit f)" by blast
  from Cons obtain es where es: "req_answers (en_ext V) sts (n + 1 + length qs) fs = Some es"
      "length es \<le> length fs * ?max"
      "\<forall>e \<in> set es. \<exists>f \<in> set fs. \<exists>k. e \<in> stored (st_index (sts k)) \<and> candidate_matches f e"
    by (metis list.pred_inject(2))
  have "length qs \<le> ?max"
    using q(4) Cons.prems by (auto simp: limited_def opt_all_def word_le_nat_alt)
  then have "length (qs @ es) \<le> length (f # fs) * ?max" using es(2) by simp
  moreover have "\<forall>e \<in> set (qs @ es). \<exists>f \<in> set (f # fs). \<exists>k. e \<in> stored (st_index (sts k)) \<and>
      candidate_matches f e"
    using q(2,3) es(3) by auto
  ultimately show ?case using q(1) es(1) by simp
qed simp

text \<open>A task whose store changes arbitrarily still ends, after a bounded number of steps.\<close>

lemma req_task_ends:
  assumes "\<And>k. index_inv (en_ext V) U (st_index (sts k))" "list_all (limited V) fs"
  shows "\<exists>es. req_answers (en_ext V) sts 0 fs = Some es \<and>
    length es \<le> length fs * unat (rc_max_limit (en_config V)) \<and>
    (\<forall>e \<in> set es. \<exists>f \<in> set fs. \<exists>k. e \<in> stored (st_index (sts k)) \<and> candidate_matches f e) \<and>
    req_trace V s sts (length fs + length es + 1) \<lparr>rq_filters = fs, rq_pending = [], rq_done = False\<rparr> =
      Some (map (\<lambda>e. event_message s (raw_text e)) es @
            [message_to_json (en_ext V) (en_json V) (M_EndOfStoredEvents s)],
            \<lparr>rq_filters = [], rq_pending = [], rq_done = True\<rparr>)"
proof -
  from req_answers_total [where sts = sts, OF assms, of 0] obtain es where
    es: "req_answers (en_ext V) sts 0 fs = Some es"
    "length es \<le> length fs * unat (rc_max_limit (en_config V))"
    "\<forall>e \<in> set es. \<exists>f \<in> set fs. \<exists>k. e \<in> stored (st_index (sts k)) \<and> candidate_matches f e"
    by blast
  with req_trace_filters [OF es(1)] show ?thesis by blast
qed

end
