(* ===== verification/Relay_Lifecycle.thy ===== *)
theory Relay_Lifecycle
  imports Relay_Invariant Durability_Properties
begin

text \<open>
  The life of a relay: start-up from the data directory (\<open>Relay::new\<close>), the steps of its tasks,
  and its end, by a signal (the last part of \<open>main\<close>) or by a crash at any point.
\<close>

section \<open>Start and end\<close>

definition relay_start ::
    "'x ext_scheme \<Rightarrow> (bytes set \<Rightarrow> bytes list) \<Rightarrow> store_config \<Rightarrow> bool \<Rightarrow> u64 \<Rightarrow> disk \<Rightarrow> 'ch relay option" where
  "relay_start X ord scfg open_ok rss d =
     map_option (\<lambda>(n, st). relay_new st) (load_from_disk X ord (store_new scfg open_ok rss d))"

definition shutdown_store :: "(bytes set \<Rightarrow> bytes list) \<Rightarrow> relay_config \<Rightarrow> event_store \<Rightarrow> event_store" where
  "shutdown_store ord cfg st = (if rc_persistence_path cfg \<noteq> None then checkpoint ord st else st)"

section \<open>The files stay in step\<close>

lemma store_insert_persisted:
  assumes "persisted X U st" "e \<in> U" "store_insert X e st = (r, st')"
  shows "persisted X U st' \<and> st_config st' = st_config st"
  using files.store_insert_keeps [OF assms(1,2)] config_frame(1) [of X e st] assms(3) by simp

lemma apply_deletion_persisted:
  assumes "persisted X U st" "apply_deletion X ord req author until st = (out, st')"
  shows "persisted X U st' \<and> st_config st' = st_config st"
  using files.apply_deletion_keeps [OF assms(1), of ord req author until]
    config_frame(3) [of X ord req author until st] assms(2) by simp

lemma process_event_persisted:
  assumes "persisted (en_ext V) U st"
    and "\<And>s e. message_from_json (en_ext V) (en_serde V) (en_json V) text = Inr (M_Event s e) \<Longrightarrow> e \<in> U"
    and "process_event_message V ord route text (st, fo) = (reply, st', fo')"
  shows "persisted (en_ext V) U st' \<and> st_config st' = st_config st"
proof (cases "\<exists>s e. message_from_json (en_ext V) (en_serde V) (en_json V) text = Inr (M_Event s e)")
  case False
  then show ?thesis
    using assms(1,3) by (auto simp: process_event_message_def split: sum.splits nostr_message.splits)
next
  case True
  then obtain s e where m: "message_from_json (en_ext V) (en_serde V) (en_json V) text = Inr (M_Event s e)"
    by blast
  have e: "e \<in> U" by (rule assms(2) [OF m])
  show ?thesis
  proof (cases "is_deletion_request e")
    case True
    obtain out st1 where d: "apply_deletion (en_ext V) ord (deletion_request (en_ext V) e) (ev_pubkey e)
        (ev_created_at e) st = (out, st1)" by fastforce
    obtain r st2 where i: "store_insert (en_ext V) e st1 = (r, st2)" by fastforce
    have "persisted (en_ext V) U st2 \<and> st_config st2 = st_config st"
      using apply_deletion_persisted [OF assms(1) d] store_insert_persisted [OF _ e i] by simp
    then show ?thesis
      using assms(1,3) m True
      by (auto simp: process_event_message_def apply_deletion_request_def d i
          split: if_splits insert_result.splits)
  next
    case False
    obtain r st1 where i: "store_insert (en_ext V) e st = (r, st1)" by fastforce
    from store_insert_persisted [OF assms(1) e i] show ?thesis
      using assms(3) m False by (auto simp: process_event_message_def i split: insert_result.splits)
  qed
qed

text \<open>A step that evicts stored events: evictions are not logged.\<close>

definition evicting :: "'x ext_scheme \<Rightarrow> 'ch relay \<Rightarrow> 'ch relay \<Rightarrow> bool" where
  "evicting X r r' \<longleftrightarrow>
     maybe_evict X (rl_store r) = Some (rl_store r') \<and> st_index (rl_store r') \<noteq> st_index (rl_store r) \<and>
     r' = r\<lparr>rl_store := rl_store r'\<rparr>"

lemma store_turn_persisted:
  assumes "store_turn X st st'" "inj_on ev_id U" "persisted X U st"
    and "maybe_evict X st = Some st' \<Longrightarrow> st_index st' = st_index st"
  shows "persisted X U st' \<and> st_config st' = st_config st"
  using assms(1)
proof cases
  case evict
  then show ?thesis
    using assms(3,4) maybe_evict_frame [OF evict] persisted_frame [of X U st st'] by simp
next
  case (sample rss)
  then show ?thesis using assms(3) persisted_frame [of X U st st'] by (simp add: frame_simps)
next
  case commit
  obtain w where w: "st_wal st = Some w" by (rule persisted_wal [OF assms(3)])
  have "wal_log (snd (group_commit w)) = wal_log w" "wal_old (snd (group_commit w)) = wal_old w"
    by (simp_all add: group_commit_def)
  from persisted_same_files [OF assms(3) w this] show ?thesis using commit w by simp
next
  case (persist ord)
  then show ?thesis
    using persisted_maybe_checkpoint [OF assms(2) _ assms(3), of ord] by (simp add: frame_simps)
qed

lemma rl_store_frame [simp]:
  "rl_store (send_notice V i s r) = rl_store r" "rl_store (disconnect i r) = rl_store r"
  "rl_store (put_queue i ch r) = rl_store r" "rl_store (put_req_task i s q r) = rl_store r"
  "rl_store (connect tx now r) = rl_store r" "rl_store (drop_sub i s r) = rl_store r"
  "rl_store (close_overflowed V i s r) = rl_store r"
  by (simp_all add: send_notice_def disconnect_def put_queue_def put_req_task_def connect_def
      drop_sub_def close_overflowed_def case_prod_beta Let_def)

lemma handlers_store [simp]:
  "rl_store (handle_text V i text r) = rl_store r" "rl_store (handle_binary V i r) = rl_store r"
  "rl_store (handle_idle V i r) = rl_store r" "rl_store (handle_notified V i r) = rl_store r"
proof -
  have "rl_store (handle_req V i text r) = rl_store r" "rl_store (handle_close V i text r) = rl_store r" for r
    by (auto simp: handle_req_def handle_close_def Let_def split: sum.splits nostr_message.splits)
  then show "rl_store (handle_text V i text r) = rl_store r"
    by (simp add: handle_text_def Let_def split: option.splits sum.splits)
  show "rl_store (handle_binary V i r) = rl_store r" "rl_store (handle_idle V i r) = rl_store r"
    by (simp_all add: handle_binary_def handle_idle_def)
  have "rl_store (fold (close_overflowed V i) ss r) = rl_store r" for ss r
    by (induction ss arbitrary: r) simp_all
  then show "rl_store (handle_notified V i r) = rl_store r"
    by (simp add: handle_notified_def Let_def split: option.splits prod.splits)
qed

lemma relay_step_persisted:
  assumes step: "relay_step V U r r'" and inj: "inj_on ev_id U" and p: "persisted (en_ext V) U (rl_store r)"
    and calm: "\<not> evicting (en_ext V) r r'"
  shows "persisted (en_ext V) U (rl_store r') \<and> st_config (rl_store r') = st_config (rl_store r)"
  using step
proof cases
  case (job i msg ord cord clock reply st fo)
  from process_event_persisted [OF p job(5,6)] show ?thesis using job(1) by simp
next
  case (background st)
  have "st_index st = st_index (rl_store r)" if "maybe_evict (en_ext V) (rl_store r) = Some st"
    using calm that background(1) by (auto simp: evicting_def)
  from store_turn_persisted [OF background(2) inj p this] background(1) show ?thesis by simp
qed (use p in simp_all)

section \<open>Lives\<close>

text \<open>
  From an empty directory: any interleaving of steps without an eviction, orderly shutdowns and
  crashes, each followed by a start from the directory that is left.
\<close>

inductive relay_life ::
    "('j, 'ch) relay_env \<Rightarrow> event set \<Rightarrow> (bytes set \<Rightarrow> bytes list) \<Rightarrow> store_config \<Rightarrow> 'ch relay \<Rightarrow> bool"
  for V U ord scfg where
  boot: "relay_start (en_ext V) ord scfg True rss \<lparr>d_log = None, d_old = None, d_snapshot = None\<rparr> = Some r \<Longrightarrow>
    relay_life V U ord scfg r"
| step: "relay_life V U ord scfg r \<Longrightarrow> relay_step V U r r' \<Longrightarrow> \<not> evicting (en_ext V) r r' \<Longrightarrow>
    relay_life V U ord scfg r'"
| crash: "relay_life V U ord scfg r \<Longrightarrow>
    relay_start (en_ext V) ord scfg True rss (disk_of (rl_store r)) = Some r' \<Longrightarrow> relay_life V U ord scfg r'"
| stop: "relay_life V U ord scfg r \<Longrightarrow>
    relay_start (en_ext V) ord scfg True rss (disk_of (shutdown_store ord (en_config V) (rl_store r))) = Some r' \<Longrightarrow>
    relay_life V U ord scfg r'"

text \<open>Starting on the files of a store gives its events back.\<close>

lemma relay_start_restores:
  assumes "inj_on ev_id U" "\<forall>e \<in> U. persistable X e" "enumerates ord" "persisted X U st"
  obtains r' where "relay_start X ord (st_config st) True rss (disk_of st) = Some r'"
    and "r' = relay_new (rl_store r')" "by_id (st_index (rl_store r')) = by_id (st_index st)"
    and "persisted X U (rl_store r')" "st_config (rl_store r') = st_config st"
proof -
  obtain n st' where l: "load_from_disk X ord (store_new (st_config st) True rss (disk_of st)) = Some (n, st')"
      "by_id (st_index st') = by_id (st_index st)" "persisted X U st'"
    using restart_at_rest [OF assms] unfolding restarts_to_def by blast
  have "st_config st' = st_config st"
    using load_config [OF l(1)] by (simp add: store_new_def)
  with l show thesis
    by (intro that [of "relay_new st'"]) (simp_all add: relay_start_def relay_new_def)
qed

lemma shutdown_persisted:
  assumes "inj_on ev_id U" "enumerates ord" "persisted X U st"
  shows "persisted X U (shutdown_store ord cfg st)" "st_config (shutdown_store ord cfg st) = st_config st"
    "st_index (shutdown_store ord cfg st) = st_index st"
  using persisted_checkpoint [OF assms] assms(3) by (simp_all add: shutdown_store_def)

lemma relay_start_fresh:
  assumes "roomy U scfg"
  shows "relay_start X ord scfg True rss \<lparr>d_log = None, d_old = None, d_snapshot = None\<rparr> =
    Some (relay_new (store_new scfg True rss \<lparr>d_log = None, d_old = None, d_snapshot = None\<rparr>))"
  using assms
  by (auto simp: relay_start_def load_from_disk_def load_replay_def load_snapshot_def load_segments_def
      roomy_def store_new_def wal_open_def replay_wal_def replay_bytes.simps checkpoint_remove_def Let_def)

lemma relay_start_empty:
  assumes "roomy U scfg"
    and "relay_start X ord scfg True rss \<lparr>d_log = None, d_old = None, d_snapshot = None\<rparr> = Some r"
  shows "persisted X U (rl_store r) \<and> st_config (rl_store r) = scfg \<and> r = relay_new (rl_store r)"
proof -
  let ?st = "store_new scfg True rss \<lparr>d_log = None, d_old = None, d_snapshot = None\<rparr>"
  have "r = relay_new ?st" using assms(2) relay_start_fresh [OF assms(1)] by (metis option.inject)
  moreover have "persisted X U ?st" by (rule persisted_new [OF assms(1)]) simp_all
  ultimately show ?thesis by (simp add: relay_new_def store_new_def)
qed

lemma relay_life_inv:
  assumes "relay_life V U ord scfg r" "inj_on ev_id U" "\<forall>e \<in> U. persistable (en_ext V) e" "enumerates ord"
    and cfg: "roomy U scfg"
  shows "persisted (en_ext V) U (rl_store r) \<and> st_config (rl_store r) = scfg \<and> relay_inv V U r"
  using assms(1)
proof induction
  case (boot rss r)
  from relay_start_empty [OF cfg boot]
  show ?case using relay_new_inv persisted_inv [OF assms(2)] by metis
next
  case (step r r')
  then show ?case using relay_step_persisted [OF step.hyps(2) assms(2)] relay_step_inv [OF step.hyps(2) assms(2)]
    by simp
next
  case (crash r rss r')
  from relay_start_restores [OF assms(2-4), of "rl_store r" rss] crash
  show ?case using relay_new_inv persisted_inv [OF assms(2)] by (metis option.inject)
next
  case (stop r rss r')
  note sh = shutdown_persisted [OF assms(2,4), of "en_ext V" "rl_store r" "en_config V"]
  from relay_start_restores [OF assms(2-4) sh(1), of rss] stop sh(2)
  show ?case using relay_new_inv persisted_inv [OF assms(2)] by (metis option.inject)
qed

end
