(* ===== verification/Sample_Relay.thy ===== *)
theory Sample_Relay
  imports Relay_Request Relay_Lifecycle Subscription_Properties
begin

text \<open>
  A concrete environment for the relay, at which the witnesses apply its theorems: a JSON codec for
  arrays without nested commas that escapes quotes, backslashes and commas as \<open>\u00XX\<close>, and
  unbounded queues that are lists of messages.
\<close>

section \<open>A JSON codec\<close>

definition esc :: "char \<Rightarrow> string" where
  "esc c =
     (if c \<in> {CHR 0x22, CHR 0x5C, CHR '',''}
      then [CHR 0x5C, CHR ''u'', CHR ''0'', CHR ''0'', hex_digit (of_char c div 16), hex_digit (of_char c mod 16)]
      else [c])"

fun unesc :: "string \<Rightarrow> string option" where
  "unesc [] = Some []"
| "unesc (c # cs) =
     (if c = CHR 0x22 then None
      else if c = CHR 0x5C then
        (case cs of
           u # z # y # h # l # r \<Rightarrow>
             (case (hex_value h, hex_value l) of
                (Some m, Some n) \<Rightarrow> map_option ((#) (char_of (16 * m + n))) (unesc r)
              | _ \<Rightarrow> None)
         | _ \<Rightarrow> None)
      else map_option ((#) c) (unesc cs))"

lemma char_nibbles: "of_char c div 16 < (16 :: nat)" "of_char c mod 16 < (16 :: nat)"
  by (rule less_mult_imp_div_less) simp_all

lemma unesc_esc: "unesc (esc c @ r) = map_option ((#) c) (unesc r)"
proof (cases "c \<in> {CHR 0x22, CHR 0x5C, CHR '',''}")
  case True
  have d: "hex_value (hex_digit (of_char c div 16)) = Some (of_char c div 16)"
    "hex_value (hex_digit (of_char c mod 16)) = Some (of_char c mod 16)"
    by (rule hex_value_digit [OF char_nibbles(1)], rule hex_value_digit [OF char_nibbles(2)])
  have "char_of (16 * (of_char c div 16) + of_char c mod 16 :: nat) = c" by simp
  with True d show ?thesis by (simp add: esc_def del: mult_div_mod_eq)
qed (simp add: esc_def)

lemma unesc_concat: "unesc (concat (map esc s)) = Some s"
  by (induction s) (simp_all add: unesc_esc del: unesc.simps(2))

lemma split_parts:
  "CHR '','' \<notin> set p \<Longrightarrow> list_all (\<lambda>p. CHR '','' \<notin> set p) ps \<Longrightarrow>
   split_char CHR '','' (p @ concat (map (\<lambda>p. '','' @ p) ps)) = p # ps"
  by (induction ps arbitrary: p) (simp_all add: split_plain split_join)

definition unquote :: "string \<Rightarrow> string option" where
  "unquote t =
     (if 2 \<le> length t \<and> hd t = CHR 0x22 \<and> last t = CHR 0x22 then Some (butlast (tl t)) else None)"

lemma unquote_quoted [simp]: "unquote (quoted s) = Some s"
  by (simp add: unquote_def quoted_def)

definition sample_codec :: "filter_value msg_json" where
  "sample_codec =
     \<lparr>js_array = (\<lambda>t. if t \<noteq> [] \<and> hd t = CHR ''['' \<and> last t = CHR '']'' \<and> 2 \<le> length t
                    then Inr (if length t = 2 then [] else split_char CHR '','' (butlast (tl t)))
                    else Inl ''expected an array''),
      js_borrowed = (\<lambda>t. Option.bind (unquote t) (\<lambda>s. if CHR 0x5C \<in> set s then None else Some s)),
      js_str = (\<lambda>t. Option.bind (unquote t) unesc),
      js_bool = (\<lambda>t. if t = ''true'' then Some True else if t = ''false'' then Some False else None),
      js_object = (\<lambda>t. if t = ''{}'' then Some [] else if t = ''{kinds}'' then Some [(''kinds'', V_kinds [1])]
                       else None),
      js_filter_error = (\<lambda>t. ''bad filter''), js_event_error = (\<lambda>t. ''bad event''),
      js_string = (\<lambda>s. Some (quoted (concat (map esc s)))),
      js_filters = (\<lambda>fs. None)\<rparr>"

lemma hex_digit_not_comma: "n < 16 \<Longrightarrow> hex_digit n \<noteq> CHR '',''"
  using hex_digit_set [of n] by auto

lemma esc_no_comma: "CHR '','' \<notin> set (concat (map esc s))"
proof -
  have "CHR '','' \<notin> set (esc c)" for c
    using hex_digit_not_comma [OF char_nibbles(1) [of c]] hex_digit_not_comma [OF char_nibbles(2) [of c]]
    by (auto simp: esc_def)
  then show ?thesis by auto
qed

lemma sample_frame:
  assumes "list_all (\<lambda>p. CHR '','' \<notin> set p) ps" "CHR '','' \<notin> set ty"
  shows "js_array sample_codec (frame ty ps) = Inr (quoted ty # ps)"
proof -
  have "CHR '','' \<notin> set (quoted ty)" using assms(2) by (simp add: quoted_def)
  then have "split_char CHR '','' (quoted ty @ concat (map (\<lambda>p. '','' @ p) ps)) = quoted ty # ps"
    by (rule split_parts [OF _ assms(1)])
  moreover have "butlast (tl (frame ty ps)) = quoted ty @ concat (map (\<lambda>p. '','' @ p) ps)"
    by (simp add: frame_def butlast_append)
  ultimately show ?thesis by (simp add: sample_codec_def frame_def quoted_def)
qed

lemma sample_json_ok: "json_ok sample_codec"
proof -
  have atoms: "CHR '','' \<notin> set p" if "atom sample_codec p" for p
    using that esc_no_comma by (auto simp: atom_def sample_codec_def quoted_def)
  have "js_array sample_codec (frame ty ps) = Inr (quoted ty # ps)"
    if "ty \<in> {''CLOSE'', ''EOSE'', ''NOTICE'', ''OK'', ''CLOSED''}" "list_all (atom sample_codec) ps" for ty ps
    using that atoms by (intro sample_frame) (auto elim: list.pred_mono_strong)
  moreover have "js_str sample_codec (quoted (concat (map esc s))) = Some s" for s
    by (simp add: sample_codec_def unesc_concat)
  moreover have "js_borrowed sample_codec (quoted ty) = Some ty"
    if "ty \<in> {''CLOSE'', ''EOSE'', ''NOTICE'', ''OK'', ''CLOSED''}" for ty
    using that by (auto simp: sample_codec_def)
  ultimately show ?thesis unfolding json_ok_def by (simp add: sample_codec_def)
qed

section \<open>An environment\<close>

definition sample_env :: "(filter_value, string list) relay_env" where
  "sample_env =
     \<lparr>en_ext = sample_ext, en_serde = sample_serde, en_json = sample_codec,
      en_try_send = (\<lambda>ch m. Some (ch @ [m])),
      en_recv = (\<lambda>ch. case ch of m # r \<Rightarrow> Some (m, r) | [] \<Rightarrow> None),
      en_config = relay_config_default\<rparr>"

lemma sample_env_simps [simp]:
  "en_ext sample_env = sample_ext" "en_json sample_env = sample_codec" "en_serde sample_env = sample_serde"
  "en_try_send sample_env = (\<lambda>ch m. Some (ch @ [m]))" "en_config sample_env = relay_config_default"
  by (simp_all add: sample_env_def)

lemma raw_bytes: "string_bytes (raw_text e) = ev_raw e"
proof -
  have "of_char (char_of (unat b)) = b" for b :: byte
  proof -
    have "of_char (char_of (unat b)) = (word_of_nat (of_char (char_of (unat b) :: char)) :: byte)"
      by (simp add: of_char_def)
    also have "\<dots> = b" using unsigned_less [of b, where 'a = nat] by simp
    finally show ?thesis .
  qed
  then show ?thesis by (simp add: string_bytes_def raw_text_def map_idI)
qed

definition event_text :: "event \<Rightarrow> string" where
  "event_text e = frame ''EVENT'' [raw_text e]"

lemma sample_carries:
  assumes "e \<in> {sample_note, sample_deletion}"
  shows "carries sample_env (event_text e) e"
proof -
  have "CHR '','' \<notin> set (raw_text sample_note)" "CHR '','' \<notin> set (raw_text sample_deletion)"
    by code_simp+
  then have "CHR '','' \<notin> set (raw_text e)" using assms by blast
  then have "js_array sample_codec (event_text e) = Inr [quoted ''EVENT'', raw_text e]"
    unfolding event_text_def by (intro sample_frame) simp_all
  moreover have "js_borrowed sample_codec (quoted ''EVENT'') = Some ''EVENT''"
    by (simp add: sample_codec_def)
  ultimately show ?thesis
    using sample_verifies [OF assms] by (simp add: carries_def message_from_json_def raw_bytes)
qed

lemma note_store_facts:
  "by_id (st_index note_store) = [ev_id sample_note \<mapsto> sample_note]"
  "tombstones (st_index note_store) = tombs_new"
proof -
  have idx: "st_index note_store = snd (index_insert sample_ext sample_note index_new)"
    by (simp add: note_store_def insert_all_def)
  then show "by_id (st_index note_store) = [ev_id sample_note \<mapsto> sample_note]"
    by (simp add: insert_into_new)
  have "index_insert sample_ext sample_note index_new =
      (Inserted None, snd (index_insert sample_ext sample_note index_new))"
    by (simp add: insert_into_new(1) prod_eq_iff)
  from index_insert_stored(4) [OF sample_inj index_inv_new sample_member(1) this]
  show "tombstones (st_index note_store) = tombs_new" by (simp add: idx index_new_def)
qed

end
