(* ===== verification/Relay_Parallel.thy ===== *)
theory Relay_Parallel
  imports Relay_Invariant
begin

text \<open>
  The relay with its threads in parallel. The handler of a connection takes one branch at a time;
  between any two of them everything that other threads share with it may have changed: an EVENT
  job on a blocking thread, a background task or a query may be anywhere in its accesses to the
  store, a publication anywhere in its deliveries, a handler that comes or goes between its
  registration and the counter. So the store, the counter, the jobs and the replies change freely,
  and of a connection the queue, the counters of drops, the list of overflowed subscriptions and the
  flags. What only its handler writes does not: its subscriptions, its place in the kind index, and
  its tasks. Every step of \<open>relay_step\<close> is one of these or a sequence of two.
\<close>

inductive parallel_step :: "('j, 'ch) relay_env \<Rightarrow> 'ch relay \<Rightarrow> 'ch relay \<Rightarrow> bool" for V where
  connect: "fo_next_id (rl_fanout r) \<noteq> - 1 \<Longrightarrow> parallel_step V r (connect tx now r)"
| on_text: "rl_conns r i = Some t \<Longrightarrow> parallel_step V r (handle_text V i msg r)"
| on_binary: "rl_conns r i = Some t \<Longrightarrow> parallel_step V r (handle_binary V i r)"
| hangup: "rl_conns r i = Some t \<Longrightarrow> parallel_step V r (disconnect i r)"
| notified: "rl_conns r i = Some t \<Longrightarrow> fo_states (rl_fanout r) i = Some c \<Longrightarrow>
    parallel_step V r (handle_notified V i r)"
| close_one: "rl_conns r i = Some t \<Longrightarrow> parallel_step V r (close_overflowed V i s r)"
| idle: "rl_conns r i = Some t \<Longrightarrow> parallel_step V r (handle_idle V i r)"
| req_task: "rl_conns r i = Some t \<Longrightarrow> ct_tasks t s = Some q \<Longrightarrow>
    set (rq_filters q') \<subseteq> set (rq_filters q) \<Longrightarrow> parallel_step V r (put_req_task i s q' r)"
| queue: "(\<And>c. cs_id (g c) = cs_id c \<and> cs_key (g c) = cs_key c \<and> cs_subs (g c) = cs_subs c) \<Longrightarrow>
    parallel_step V r (r\<lparr>rl_fanout := update_conn i g (rl_fanout r)\<rparr>)"
| shared: "parallel_step V r (r\<lparr>rl_store := st, rl_count := n, rl_jobs := js, rl_replies := ms\<rparr>)"

inductive parallel_reach :: "('j, 'ch) relay_env \<Rightarrow> 'ch relay \<Rightarrow> bool" for V where
  start: "parallel_reach V (relay_new st)"
| step: "parallel_reach V r \<Longrightarrow> parallel_step V r r' \<Longrightarrow> parallel_reach V r'"

section \<open>The connections\<close>

lemma conn_inv_shared [simp]:
  "conn_inv V (r\<lparr>rl_store := st\<rparr>) = conn_inv V r" "conn_inv V (r\<lparr>rl_count := n\<rparr>) = conn_inv V r"
  by (simp_all add: conn_inv_def conns_ok_def)

lemma parallel_step_inv:
  assumes "parallel_step V r r'" "conn_inv V r"
  shows "conn_inv V r'"
  using assms(1)
proof cases
  case (req_task i t s q q')
  have "list_all (limited V) (rq_filters q')" if "list_all (limited V) (rq_filters q)"
    using that req_task(4) by (auto simp: list_all_iff)
  then show ?thesis using put_req_task_inv [OF assms(2) req_task(2,3)] req_task(1) by simp
next
  case (queue g i)
  then show ?thesis using conn_inv_update_conn [OF assms(2), of g i] by simp
qed (simp_all add: assms(2) connect_inv(1) handle_text_inv handle_binary_def send_notice_inv active_inv disconnect_inv
    handle_notified_inv close_overflowed_inv handle_idle_inv)

lemma parallel_reach_inv: "parallel_reach V r \<Longrightarrow> conn_inv V r"
  by (induction rule: parallel_reach.induct) (simp_all add: relay_new_conn_inv parallel_step_inv)

lemma connection_limits:
  assumes "conn_inv V r" "rl_conns r i = Some t"
  shows "\<exists>c. fo_states (rl_fanout r) i = Some c \<and>
    sub_count c \<le> unat (rc_max_subscriptions (en_config V)) \<and>
    (\<forall>sub \<in> set (cs_subs c). length (snd sub) \<le> 20 \<and>
       (\<forall>f \<in> set (snd sub). \<exists>l. f_limit f = Some l \<and> l \<le> rc_max_limit (en_config V))) \<and>
    dom (ct_tasks t) \<subseteq> fst ` set (cs_subs c)"
proof -
  have "conns_ok V r" using assms(1) by (simp add: conn_inv_def)
  from conns_okD [OF this assms(2)] obtain subs where "sub_map (rl_fanout r) i = Some subs"
    "subs_ok V subs" "tasks_ok V subs (ct_tasks t)" .
  then show ?thesis
    by (auto simp: sub_map_def subs_ok_def tasks_ok_def sub_count_def MAX_FILTERS_PER_REQ_def
        list_all_iff limited_def)
qed

section \<open>The single-step relay is one of these\<close>

lemma publish_parallel:
  assumes "parallel_reach V r"
  shows "parallel_reach V (r\<lparr>rl_fanout := publish ts clock ord ev (rl_fanout r)\<rparr>)"
proof -
  have "parallel_reach V r \<Longrightarrow>
      parallel_reach V (r\<lparr>rl_fanout := fold (\<lambda>i. update_conn i (deliver ts clock ev)) is (rl_fanout r)\<rparr>)" for "is" r
  proof (induction "is" arbitrary: r)
    case (Cons i "is")
    have "parallel_reach V (r\<lparr>rl_fanout := update_conn i (deliver ts clock ev) (rl_fanout r)\<rparr>)"
      by (rule parallel_reach.step [OF Cons.prems parallel_step.queue]) simp
    from Cons.IH [OF this] show ?case by simp
  qed simp
  from this [OF assms] show ?thesis by (simp add: publish_def)
qed

lemma shared_parallel:
  "parallel_reach V r \<Longrightarrow> parallel_reach V (r\<lparr>rl_store := st, rl_count := n, rl_jobs := js, rl_replies := ms\<rparr>)"
  by (rule parallel_reach.step [OF _ parallel_step.shared])

lemma put_queue_parallel: "parallel_reach V r \<Longrightarrow> parallel_reach V (put_queue i ch r)"
  unfolding put_queue_def by (rule parallel_reach.step [OF _ parallel_step.queue]) simp_all

lemma process_event_fanout:
  assumes "process_event_message V ord route text (st, fo) = (reply, st', fo')"
  shows "fo' = fo \<or> (\<exists>ev. fo' = route ev fo)"
  using assms
  by (auto simp: process_event_message_def apply_deletion_request_def Let_def
      split: sum.splits nostr_message.splits if_splits insert_result.splits prod.splits)

lemma req_step_filters: "req_step V st s q = Some (m, q') \<Longrightarrow> set (rq_filters q') \<subseteq> set (rq_filters q)"
  by (auto simp: req_step_def split: if_splits list.splits)

text \<open>The single-step relay is one of these: a job, for instance, is a publication and a change of the store.\<close>

lemma relay_step_parallel:
  assumes "relay_step V U r r'" "parallel_reach V r"
  shows "parallel_reach V r'"
  using assms(1)
proof cases
  case (job i msg ord cord clock reply st fo)
  have "parallel_reach V (r\<lparr>rl_fanout := fo\<rparr>)"
    using process_event_fanout [OF job(6)] publish_parallel [OF assms(2)] assms(2) by auto
  from shared_parallel [OF this, where st = st and n = "rl_count r" and js = "remove1 (i, msg) (rl_jobs r)"
      and ms = "rl_replies r @ (case reply of Some m \<Rightarrow> [(i, m)] | None \<Rightarrow> [])"]
  show ?thesis unfolding job(1) by (cases r) simp
next
  case (reply i m t c ch)
  have "parallel_reach V (r\<lparr>rl_replies := remove1 (i, m) (rl_replies r)\<rparr>)"
    using shared_parallel [OF assms(2), where st = "rl_store r" and n = "rl_count r" and js = "rl_jobs r"] by simp
  then show ?thesis using put_queue_parallel reply(1) by simp
next
  case (reply_lost i m)
  then show ?thesis using shared_parallel [OF assms(2), where st = "rl_store r" and n = "rl_count r" and js = "rl_jobs r"] by simp
next
  case (req_silent i t s q q')
  then show ?thesis
    using parallel_reach.step [OF assms(2) parallel_step.req_task [OF _ _ req_step_filters]] by blast
next
  case (req_send i t s q m q' c ch)
  from parallel_reach.step [OF assms(2) parallel_step.req_task [OF req_send(2,3) req_step_filters [OF req_send(4)]]]
  show ?thesis unfolding req_send(1) by (rule put_queue_parallel)
next
  case (background st)
  then show ?thesis using shared_parallel [OF assms(2), where st = st and n = "rl_count r" and js = "rl_jobs r" and ms = "rl_replies r"] by simp
qed (blast intro: put_queue_parallel [OF assms(2)] parallel_reach.step [OF assms(2)] parallel_step.intros)+

lemma relay_reach_parallel: "relay_reach V U st0 r \<Longrightarrow> parallel_reach V r"
  by (induction rule: relay_reach.induct) (simp_all add: parallel_reach.start relay_step_parallel)

end
