(* ===== verification/Message_Widths.thy ===== *)
theory Message_Widths
  imports Relay
begin

text \<open>
  The arrays and hash maps of the sources as predicates on the byte lists and entry lists that stand
  for them: what \<open>[u8; 32]\<close>, \<open>[u8; 64]\<close> and \<open>HashMap<char, Vec<String>>\<close> say of a value. Every value
  that the parsers return satisfies them.
\<close>

section \<open>Typed values\<close>

definition all32 :: "bytes list \<Rightarrow> bool" where
  "all32 bs \<longleftrightarrow> list_all (\<lambda>b. length b = 32) bs"

definition opt32 :: "bytes list option \<Rightarrow> bool" where
  "opt32 o32 = (case o32 of None \<Rightarrow> True | Some bs \<Rightarrow> all32 bs)"

definition event_typed :: "event \<Rightarrow> bool" where
  "event_typed e \<longleftrightarrow> length (ev_id e) = 32 \<and> length (ev_pubkey e) = 32 \<and> length (ev_sig e) = 64"

definition filter_typed :: "nostr_filter \<Rightarrow> bool" where
  "filter_typed f \<longleftrightarrow>
     opt32 (f_ids f) \<and> opt32 (f_authors f) \<and> opt32 (f_e_bytes f) \<and> opt32 (f_p_bytes f) \<and>
     distinct (map fst (f_tags f)) \<and> (\<forall>k \<in> fst ` set (f_tags f). single_char k = Some k)"

lemma opt32_simps [simp]: "opt32 None" "opt32 (Some bs) \<longleftrightarrow> all32 bs"
  by (simp_all add: opt32_def)

section \<open>Events\<close>

lemma from_json_typed:
  assumes "hex_ok X" "from_json X json = Inr e"
  shows "event_typed e" "ev_raw e = json"
  using assms(2) parse_hex_32_length [OF assms(1)] parse_hex_64_length [OF assms(1)]
  by (auto simp: from_json_def event_typed_def split: option.splits if_splits)

lemma deletion_request_typed:
  assumes "hex_ok X"
  shows "\<forall>i \<in> dr_ids (deletion_request X e). length i = 32"
    "\<forall>c \<in> set (dr_coordinates (deletion_request X e)). length (co_pubkey c) = 32"
  using e_tags_length [OF assms] parse_coordinate_pubkey [OF assms]
  by (auto simp: deletion_request_refs [OF assms] a_coordinates_def map_filter_set bind_eq_Some_conv
      split: if_splits)

section \<open>Filters\<close>

lemma map_opt_all: "map_opt g xs = Some ys \<Longrightarrow> (\<And>x y. g x = Some y \<Longrightarrow> P y) \<Longrightarrow> list_all P ys"
  by (induction xs arbitrary: ys) (auto split: option.splits)

lemma as_hex32s_typed: "as_hex32s X J v = Some bs \<Longrightarrow> all32 bs"
  unfolding all32_def as_hex32s_def
  by (auto simp: bind_eq_Some_conv hex32_visit_str_def split: option.splits if_splits elim!: map_opt_all)

lemma entry_insert_keys: "fst ` set (entry_insert k v kvs) = insert k (fst ` set kvs)"
  by (induction kvs) auto

lemma entry_insert_distinct: "distinct (map fst kvs) \<Longrightarrow> distinct (map fst (entry_insert k v kvs))"
proof (induction kvs)
  case (Cons kv kvs)
  then show ?case using entry_insert_keys [of k v kvs] by auto
qed simp

lemma tags_typed:
  assumes "filter_typed f" "chars (drop 1 key) = [c]"
  shows "filter_typed (f\<lparr>f_tags := entry_insert c x (f_tags f)\<rparr>)"
proof -
  have "single_char c = Some c" using assms(2) concat_chars [of "drop 1 key"] by (simp add: single_char_def)
  then show ?thesis
    using assms(1) by (auto simp: filter_typed_def entry_insert_keys entry_insert_distinct)
qed

lemma visit_entry_typed:
  assumes "visit_entry X J kv f = Some g" "filter_typed f"
  shows "filter_typed g"
proof -
  obtain key v where kv: "kv = (key, v)" by fastforce
  note known = visit_entry_def kv filter_typed_def
  consider "key \<in> {''ids'', ''authors''}" | "key \<in> {''kinds'', ''since'', ''until'', ''limit''}"
    | "key \<notin> {''ids'', ''authors''}" "key \<notin> {''kinds'', ''since'', ''until'', ''limit''}" by argo
  then show ?thesis
  proof cases
    case 1
    then show ?thesis using assms as_hex32s_typed by (elim insertE emptyE) (auto simp: known)
  next
    case 2
    then show ?thesis using assms by (elim insertE emptyE) (auto simp: known)
  next
    case 3
    then show ?thesis
      using assms tags_typed [OF assms(2), of key] by (auto simp: visit_entry_def kv split: list.splits if_splits)
  qed
qed

lemma visit_map_typed:
  assumes "visit_map X J kvs = Some g"
  shows "filter_typed g"
proof -
  have "fold_opt (visit_entry X J) kvs f = Some g \<Longrightarrow> filter_typed f \<Longrightarrow> filter_typed g" for f
    by (induction kvs arbitrary: f) (auto split: option.splits dest: visit_entry_typed)
  moreover have "filter_typed filter_default" by (simp add: filter_typed_def filter_default_def)
  ultimately show ?thesis using assms by (simp add: visit_map_def)
qed

lemma parse_filters_typed:
  assumes "parse_filters X J M ts = Inr fs"
  shows "list_all filter_typed fs \<and> length fs = length ts"
  using assms
proof (induction ts arbitrary: fs)
  case (Cons t ts)
  then obtain f gs where "parse_filter X J M t = Inr f" "parse_filters X J M ts = Inr gs" "fs = f # gs"
    by (auto split: sum.splits)
  then show ?case
    using Cons.IH visit_map_typed by (auto simp: parse_filter_def bind_eq_Some_conv split: option.splits)
qed simp

lemma hex_values_typed: "all32 (hex_values X vals)"
  by (auto simp: hex_values_def all32_def list_all_iff map_filter_set split: option.splits if_splits)

lemma prepare_filter_typed: "filter_typed f \<Longrightarrow> filter_typed (prepare_filter X n f)"
  by (auto simp: filter_typed_def prepare_filter_def parse_hex_values_def Let_def hex_values_typed
      split: option.splits)

section \<open>Messages\<close>

definition message_typed :: "'x ext_scheme \<Rightarrow> nostr_message \<Rightarrow> bool" where
  "message_typed X m =
     (case m of
        M_Event sub e \<Rightarrow>
          sub = None \<and> event_typed e \<and> (\<forall>i \<in> dr_ids (deletion_request X e). length i = 32) \<and>
          (\<forall>c \<in> set (dr_coordinates (deletion_request X e)). length (co_pubkey c) = 32)
      | M_Request i fs \<Rightarrow>
          fs \<noteq> [] \<and> list_all filter_typed fs \<and> (\<forall>n. list_all filter_typed (prepare_filters X n fs))
      | M_Closed i s \<Rightarrow> False
      | _ \<Rightarrow> True)"

lemma message_from_json_typed:
  assumes "hex_ok X" "message_from_json X J M text = Inr m"
  shows "message_typed X m"
proof (cases m)
  case (M_Event sub e)
  then show ?thesis
    using assms(2) from_json_typed [OF assms(1)] deletion_request_typed [OF assms(1)]
    by (auto simp: message_from_json_def message_typed_def str_at_def split: sum.splits option.splits if_splits)
next
  case (M_Request i fs)
  then obtain arr where "parse_filters X J M (drop 2 arr) = Inr fs" "3 \<le> length arr"
    using assms(2)
    by (auto simp: message_from_json_def str_at_def split: sum.splits option.splits if_splits)
  then have fs: "list_all filter_typed fs" "fs \<noteq> []" using parse_filters_typed by fastforce+
  then have "list_all filter_typed (prepare_filters X n fs)" for n
    by (simp add: prepare_filters_def list_all_iff prepare_filter_typed)
  with fs show ?thesis by (simp add: M_Request message_typed_def)
qed (use assms(2) in \<open>auto simp: message_from_json_def message_typed_def str_at_def
      split: sum.splits option.splits if_splits\<close>)

end
