(* ===== verification/Relay_Properties.thy ===== *)
theory Relay_Properties
  imports Sample_Relay Relay_Parallel Message_Widths Fanout_Properties
begin

text \<open>
  Properties of the relay as a whole: the limits that hold in every reachable state, what an EVENT
  message does on every branch, how a subscription is answered, and what survives a restart.
\<close>

section \<open>Reachable states\<close>

text \<open>
  C5. Whatever the clients send, and wherever the EVENT jobs, the publications, the queries and the
  background tasks of other threads are in their accesses between two branches of a connection's
  handler, the fanout is consistent, the open connections are exactly the registered ones, and every
  open connection is within the limits: no more subscriptions than configured, at most 20 filters in
  each, every filter with a limit no larger than the configured maximum, and a query task only for a
  subscription that is open. Of the store nothing is assumed.
\<close>

theorem relay_reachable_limits:
  assumes "parallel_reach V r"
  shows "fanout_inv (rl_fanout r) \<and> dom (rl_conns r) = fo_conns (rl_fanout r) \<and>
    (\<forall>i t. rl_conns r i = Some t \<longrightarrow>
      (\<exists>c. fo_states (rl_fanout r) i = Some c \<and>
        sub_count c \<le> unat (rc_max_subscriptions (en_config V)) \<and>
        (\<forall>sub \<in> set (cs_subs c). length (snd sub) \<le> 20 \<and>
           (\<forall>f \<in> set (snd sub). \<exists>l. f_limit f = Some l \<and> l \<le> rc_max_limit (en_config V))) \<and>
        dom (ct_tasks t) \<subseteq> fst ` set (cs_subs c)))"
  using parallel_reach_inv [OF assms] connection_limits [OF parallel_reach_inv [OF assms]] by (simp add: conn_inv_def)

text \<open>A relay with one open connection that asks for everything.\<close>

definition req_text :: string where
  "req_text = frame ''REQ'' [quoted ''s'', ''{}'']"

definition one_conn :: "string list relay" where
  "one_conn = connect [] 0 (relay_new note_store)"

lemma one_conn_reach: "relay_reach sample_env (set sample_events) note_store one_conn"
  unfolding one_conn_def
  by (rule relay_reach.step [OF relay_reach.start relay_step.connect])
    (simp add: relay_new_def fanout_new_def)

lemma one_conn_task: "\<exists>t. rl_conns one_conn 1 = Some t \<and> \<not> ct_closing t"
  by (simp add: one_conn_def connect_def relay_new_def register_def fanout_new_def Let_def)

lemma one_conn_req: "relay_reach sample_env (set sample_events) note_store (handle_text sample_env 1 req_text one_conn)"
proof -
  obtain t where "rl_conns one_conn 1 = Some t" "\<not> ct_closing t" using one_conn_task by blast
  from relay_reach.step [OF one_conn_reach relay_step.on_text [OF this]] show ?thesis .
qed

theorem relay_reachable_limits_witness:
  "\<exists>t c. rl_conns (handle_text sample_env 1 req_text one_conn) 1 = Some t \<and>
     fo_states (rl_fanout (handle_text sample_env 1 req_text one_conn)) 1 = Some c \<and>
     sub_count c \<le> unat (rc_max_subscriptions (en_config sample_env)) \<and> dom (ct_tasks t) \<subseteq> fst ` set (cs_subs c)"
proof -
  have "1 \<in> fo_conns (rl_fanout one_conn)"
    by (simp add: one_conn_def connect_def relay_new_def register_def fanout_new_def Let_def)
  then have "1 \<in> fo_conns (rl_fanout (handle_text sample_env 1 req_text one_conn))"
    using handle_text_frame [of one_conn sample_env 1 req_text] by (simp add: same_frame_def)
  then show ?thesis using relay_reachable_limits [OF relay_reach_parallel [OF one_conn_req]] by blast
qed

section \<open>EVENT messages\<close>

text \<open>
  C6. An EVENT message with any event that is not a deletion request, on every branch. An ephemeral
  event is published and not stored; an event whose id is tombstoned is refused; an event that is
  stored, or that loses to a stored event with its replacement key, is answered as a duplicate; in
  all three cases the store is as before, and in the last two nobody is told. An event of which
  another copy is stored, with the same id but another signature or JSON text, is answered as a
  duplicate too and nobody is told, but it takes the copy's place in the primary map. Any other event
  is accepted with an empty message, takes the place of the events it replaces, and is published.
\<close>

theorem event_message_outcome:
  assumes "inj_on ev_id U" "index_inv (en_ext V) U (st_index st)"
    and "carries V text e" "\<forall>d \<in> U. ev_id d = ev_id e \<longrightarrow> copy_of d e" "\<not> is_deletion_request e"
  shows "\<exists>st'. process_event_message V ord route text (st, fo) =
      (if is_ephemeral e then
         (Some (ok_reply V e True ''ephemeral: will not be stored''), st, route (broadcast_new e) fo)
       else if ev_id e \<in> ts_ids (tombstones (st_index st)) then
         (Some (ok_reply V e False ''deleted: this event was removed by a deletion request''), st, fo)
       else if superseded e (stored (st_index st)) then
         (Some (ok_reply V e True ''duplicate: already have this event''), st, fo)
       else if other_copy e (stored (st_index st)) then
         (Some (ok_reply V e True ''duplicate: already have this event''),
          st\<lparr>st_index := (st_index st)\<lparr>by_id := (by_id (st_index st))(ev_id e \<mapsto> e)\<rparr>\<rparr>, fo)
       else (Some (ok_reply V e True []), st', route (broadcast_new e) fo)) \<and>
    (\<not> is_ephemeral e \<and> ev_id e \<notin> ts_ids (tombstones (st_index st)) \<and> \<not> superseded e (stored (st_index st)) \<and>
     \<not> other_copy e (stored (st_index st)) \<longrightarrow>
       stored (st_index st') = insert e (stored (st_index st) - rivals e (stored (st_index st))) \<and>
       index_inv (en_ext V) (adopt e U) (st_index st'))"
proof (cases "is_ephemeral e")
  case True
  then show ?thesis using assms(5) by (simp add: process_carried [OF assms(3)] store_insert_def)
next
  case False
  from store_insert_any [OF assms(1,2,4) False]
  show ?thesis using False assms(5) by (auto simp: process_carried [OF assms(3)] split: if_splits)
qed

theorem event_message_outcome_witness:
  "fst (process_event_message sample_env sorted_list_of_set (\<lambda>_ fo. fo) (event_text sample_note) (note_store, fanout_new :: string list fanout)) =
     Some (ok_reply sample_env sample_note True ''duplicate: already have this event'')"
proof -
  have "\<not> is_deletion_request sample_note" "\<not> is_ephemeral sample_note" by code_simp+
  moreover have "superseded sample_note (stored (st_index note_store))"
    by (simp add: superseded_def note_store_stored)
  moreover have "ev_id sample_note \<notin> ts_ids (tombstones (st_index note_store))"
    using note_store_inv stored_iff [OF index_invD(1) [OF note_store_inv], of sample_note] note_store_stored
    by (auto simp: index_inv_def index_core_def)
  moreover have "\<forall>d \<in> set sample_events. ev_id d = ev_id sample_note \<longrightarrow> copy_of d sample_note"
    by (rule sample_copies [OF sample_member(1)])
  ultimately show ?thesis
    using event_message_outcome [of "set sample_events" sample_env note_store "event_text sample_note" sample_note
        sorted_list_of_set "\<lambda>_ fo. fo" fanout_new] sample_inj note_store_inv sample_carries [of sample_note]
    by auto
qed

text \<open>
  C8. A deletion request that is new removes exactly the stored events of its own author that it
  names, by id or (up to its own time) by coordinate, is stored itself, answers with their number
  and is published. One that the store holds already, or that was itself deleted, changes nothing.
\<close>

theorem deletion_message_outcome:
  assumes "inj_on ev_id U" "index_inv (en_ext V) U (st_index st)" "enumerates ord"
    and "carries V text e" "e \<in> U" "is_deletion_request e"
    and "D = deletion_targets (en_ext V) e (stored (st_index st))"
  shows "\<exists>st'. process_event_message V ord route text (st, fo) =
      (if store_contains st (ev_id e) then
         (Some (ok_reply V e True ''duplicate: already have this event''), st, fo)
       else if store_is_tombstoned st (ev_id e) then
         (Some (ok_reply V e False ''deleted: this event was removed by a deletion request''), st, fo)
       else
         (Some (ok_reply V e True (''deleted '' @ show_nat (card D) @ '' event(s)'')), st',
          route (broadcast_new e) fo)) \<and>
    (\<not> store_contains st (ev_id e) \<and> \<not> store_is_tombstoned st (ev_id e) \<longrightarrow>
       stored (st_index st') = insert e (stored (st_index st) - D) \<and> index_inv (en_ext V) U (st_index st'))"
proof (cases "store_contains st (ev_id e) \<or> store_is_tombstoned st (ev_id e)")
  case True
  then show ?thesis
    using assms(6) by (auto simp: process_carried [OF assms(4)] apply_deletion_request_old)
next
  case False
  then have new: "\<not> store_contains st (ev_id e)" "\<not> store_is_tombstoned st (ev_id e)" by auto
  obtain st' where st': "apply_deletion_request V ord route e (st, fo) =
      (ok_reply V e True (''deleted '' @ show_nat (card D) @ '' event(s)''), st', route (broadcast_new e) fo)"
    "stored (st_index st') = insert e (stored (st_index st) - D)" "index_inv (en_ext V) U (st_index st')"
    using apply_deletion_request_new [OF assms(1-3,5,6) new, of route fo] unfolding assms(7) by metis
  then show ?thesis
    using new assms(6) by (intro exI [of _ st']) (simp add: process_carried [OF assms(4)])
qed

lemma note_targets: "deletion_targets sample_ext sample_deletion {sample_note} = {sample_note}"
proof -
  have "parse_hex_32_pub sample_ext (sample_encode (replicate 32 1)) = Some (replicate 32 1)"
    using sample_parse_hex(1) [of "replicate 32 1"] parse_hex_32_pub_eq [OF sample_hex_ok] by simp
  then have "replicate 32 1 \<in> dr_ids (deletion_request sample_ext sample_deletion)"
    by (simp add: deletion_request_def deletion_request_step_def sample_deletion_def tag_value_def)
  then show ?thesis by (auto simp: deletion_targets_def Let_def sample_note_def sample_deletion_def)
qed

theorem deletion_message_outcome_witness:
  "\<exists>st'. snd (process_event_message sample_env sorted_list_of_set (\<lambda>_ fo. fo) (event_text sample_deletion)
       (note_store, fanout_new :: string list fanout)) = (st', fanout_new) \<and>
     stored (st_index st') = {sample_deletion}"
proof -
  have "is_deletion_request sample_deletion" by code_simp
  moreover have "index_get (st_index note_store) (ev_id sample_deletion) = None"
    "\<not> store_is_tombstoned note_store (ev_id sample_deletion)"
    by (simp_all add: index_get_def note_store_facts store_is_tombstoned_def is_tombstoned_def tombs_new_def
        tombs_contains_def sample_note_def sample_deletion_def)
  ultimately show ?thesis
    using deletion_message_outcome [OF sample_inj _ enumerates_sorted_list_of_set _ _ _ refl, of sample_env
        note_store "event_text sample_deletion" sample_deletion "\<lambda>_ fo. fo" fanout_new]
      note_store_inv sample_carries [of sample_deletion]
    by (auto simp: note_store_stored note_targets store_contains_def)
qed

text \<open>
  C10. The same EVENT message a second time: unless its event is ephemeral, the store and every
  queue stay as the first one left them, and the answer is that it is a duplicate or was deleted; in
  particular a deletion request that is replayed does not delete again. An ephemeral event is
  published again, with the same reply, and never stored. The event may be a second copy of a
  stored one, with another signature or JSON text.
\<close>

theorem event_message_idempotent:
  assumes "inj_on ev_id U" "index_inv (en_ext V) U (st_index st)" "enumerates ord"
    and "carries V text e" "\<forall>d \<in> U. ev_id d = ev_id e \<longrightarrow> copy_of d e"
    and "process_event_message V ord route text (st, fo) = (reply, st', fo')"
  shows "if is_ephemeral e
    then st' = st \<and> fo' = route (broadcast_new e) fo \<and>
      process_event_message V ord' route' text (st', fo') = (reply, st, route' (broadcast_new e) fo')
    else \<exists>reply' \<in> {ok_reply V e True ''duplicate: already have this event'',
                     ok_reply V e False ''deleted: this event was removed by a deletion request''}.
      process_event_message V ord' route' text (st', fo') = (Some reply', st', fo')"
proof (cases "is_deletion_request e")
  case False
  show ?thesis
  proof (cases "is_ephemeral e")
    case True
    then show ?thesis using False assms(6) by (auto simp: process_carried [OF assms(4)] store_insert_def)
  next
    case kept: False
    obtain r where "store_insert (en_ext V) e st = (r, st')"
      using assms(6) kept False
      by (auto simp: process_carried [OF assms(4)] Let_def split: prod.splits insert_result.splits)
    from store_insert_again_any [OF assms(1,2,5) kept this] show ?thesis
      using False kept by (auto simp: process_carried [OF assms(4)])
  qed
next
  case True
  have "store_contains st' (ev_id e) \<or> store_is_tombstoned st' (ev_id e)"
  proof (cases "store_contains st (ev_id e) \<or> store_is_tombstoned st (ev_id e)")
    case old: True
    then show ?thesis
      using assms(6) True by (auto simp: process_carried [OF assms(4)] apply_deletion_request_old)
  next
    case False
    then have new: "\<not> store_contains st (ev_id e)" "\<not> store_is_tombstoned st (ev_id e)" by auto
    then have "\<not> other_copy e (stored (st_index st))"
      using other_copy_facts(3) [OF assms(2,5)] by (auto simp: store_contains_def index_get_def)
    note a = adopt_alone [OF assms(2,5) this]
    obtain st2 m where "apply_deletion_request V ord route e (st, fo) = (m, st2, route (broadcast_new e) fo)"
      "by_id (st_index st2) (ev_id e) = Some e"
      using apply_deletion_request_new [OF adopt_inj [OF assms(1)] a(1) assms(3) a(2) True new, of route fo] by metis
    then have "by_id (st_index st') (ev_id e) = Some e"
      using assms(6) True by (simp add: process_carried [OF assms(4)])
    then show ?thesis by (simp add: store_contains_def index_get_def)
  qed
  then show ?thesis
    using True deletion_is_regular(1) [OF True] by (auto simp: process_carried [OF assms(4)] apply_deletion_request_old)
qed

theorem event_message_idempotent_witness:
  "\<exists>reply st' fo'. process_event_message sample_env sorted_list_of_set (\<lambda>_ fo. fo) (event_text sample_deletion)
       (note_store, fanout_new :: string list fanout) = (reply, st', fo') \<and>
     snd (process_event_message sample_env sorted_list_of_set (\<lambda>_ fo. fo) (event_text sample_deletion) (st', fo')) =
       (st', fo')"
proof -
  obtain reply st' fo' where p: "process_event_message sample_env sorted_list_of_set (\<lambda>_ fo. fo)
      (event_text sample_deletion) (note_store, fanout_new :: string list fanout) = (reply, st', fo')"
    using prod_cases3 by blast
  have e: "\<not> is_ephemeral sample_deletion" by code_simp
  have mem: "sample_deletion \<in> set sample_events" by simp
  have "\<forall>d \<in> set sample_events. ev_id d = ev_id sample_deletion \<longrightarrow> copy_of d sample_deletion"
    by (rule sample_copies [OF mem])
  from event_message_idempotent [OF sample_inj _ enumerates_sorted_list_of_set _ this, of sample_env
      note_store "event_text sample_deletion" "\<lambda>_ fo. fo" fanout_new reply st' fo' sorted_list_of_set "\<lambda>_ fo. fo"]
  show ?thesis using p e note_store_inv sample_carries [of sample_deletion] by auto
qed

text \<open>
  C11. An accepted event is seen by everyone who asks: right after its EVENT message a query for its
  id returns it, and the message is delivered to every open connection as if each were offered it
  in turn, so that exactly the subscriptions that match get it or are marked as overflowed.
\<close>

theorem accepted_event_is_seen:
  assumes "inj_on ev_id U" "index_inv (en_ext V) U (st_index st)" "fanout_inv fo" "enumerates cord"
    and "carries V text e" "e \<in> U" "\<not> is_deletion_request e" "\<not> is_ephemeral e"
    and "ev_id e \<notin> ts_ids (tombstones (st_index st))" "\<not> superseded e (stored (st_index st))"
    and "process_event_message V ord (publish (en_try_send V) clock cord) text (st, fo) = (reply, st', fo')"
  shows "query_filter (en_ext V) st' (filter_default\<lparr>f_ids := Some [ev_id e]\<rparr>) = Some [e] \<and>
    (\<forall>i. fo_states fo' i =
       (if i \<in> fo_conns fo then map_option (deliver (en_try_send V) clock (broadcast_new e)) (fo_states fo i)
        else fo_states fo i))"
proof -
  obtain r st1 where i: "store_insert (en_ext V) e st = (r, st1)" by fastforce
  with store_insert_by_rivals [OF assms(1,2,6,8)] assms(9,10)
  have s: "\<exists>ds. r = R_Stored e ds" "stored (st_index st1) = insert e (stored (st_index st) - rivals e (stored (st_index st)))"
    by auto
  have inv: "index_inv (en_ext V) U (st_index st1)"
    using store_insert_inv [OF assms(1,2,6)] i by simp
  have out: "st' = st1" "fo' = publish (en_try_send V) clock cord (broadcast_new e) fo"
    using assms(7,11) s(1) by (auto simp: process_carried [OF assms(5)] i)
  have "e \<in> stored (st_index st1)" using s(2) by simp
  from query_ids_ignores_tags [OF inv this, of "[]"]
  have "query_filter (en_ext V) st' (filter_default\<lparr>f_ids := Some [ev_id e]\<rparr>) = Some [e]"
    by (simp add: out filter_default_def)
  then show ?thesis using publish_reference [OF assms(3,4)] by (simp add: out)
qed

theorem accepted_event_is_seen_witness:
  "\<exists>reply st' fo'. process_event_message sample_env sorted_list_of_set
       (publish (en_try_send sample_env) (\<lambda>_ _. 0) sorted_list_of_set) (event_text sample_note)
       (store_new store_config_default True 0 empty_disk, sample_fanout) = (reply, st', fo') \<and>
     query_filter sample_ext st' (filter_default\<lparr>f_ids := Some [ev_id sample_note]\<rparr>) = Some [sample_note]"
proof -
  let ?st = "store_new store_config_default True 0 empty_disk"
  obtain reply st' fo' where p: "process_event_message sample_env sorted_list_of_set
      (publish (en_try_send sample_env) (\<lambda>_ _. 0) sorted_list_of_set) (event_text sample_note)
      (?st, sample_fanout) = (reply, st', fo')"
    using prod_cases3 by blast
  have idx: "st_index ?st = index_new" by (simp add: store_new_def)
  have "\<not> is_deletion_request sample_note" "\<not> is_ephemeral sample_note" by code_simp+
  moreover have "\<not> superseded sample_note (stored index_new)" "ev_id sample_note \<notin> ts_ids (tombstones index_new)"
    by (simp_all add: superseded_def rivals_def stored_def index_new_def tombs_new_def)
  ultimately show ?thesis
    using accepted_event_is_seen [OF sample_inj _ fanout_reach_inv [OF sample_fanout_reach]
        enumerates_sorted_list_of_set sample_carries _ _ _ _ _ p] index_inv_new [of sample_ext "set sample_events"] p
    by (simp add: idx)
qed

section \<open>Subscriptions\<close>

text \<open>
  C9. A REQ is answered: however the store changes while its task runs, the task finishes after as
  many steps as it has filters and results and one more; it has then sent the results of each
  filter, in the order of the filters and as the store stood when the filter was queried, and EOSE
  as the last message; there are at most \<open>max_limit\<close> results per filter, and each was stored at some
  step and satisfies the conditions its filter is checked for.
\<close>

theorem req_task_answers:
  assumes "\<And>k. index_inv (en_ext V) U (st_index (sts k))"
    and "fs = prepare_filters (en_ext V) (rc_max_limit (en_config V)) fs0"
  shows "\<exists>es. req_answers (en_ext V) sts 0 fs = Some es \<and>
    length es \<le> length fs * unat (rc_max_limit (en_config V)) \<and>
    (\<forall>e \<in> set es. \<exists>f \<in> set fs. \<exists>k. e \<in> stored (st_index (sts k)) \<and> candidate_matches f e) \<and>
    req_trace V s sts (length fs + length es + 1) \<lparr>rq_filters = fs, rq_pending = [], rq_done = False\<rparr> =
      Some (map (\<lambda>e. event_message s (raw_text e)) es @
            [message_to_json (en_ext V) (en_json V) (M_EndOfStoredEvents s)],
            \<lparr>rq_filters = [], rq_pending = [], rq_done = True\<rparr>)"
proof -
  have "list_all (limited V) fs"
    by (simp add: assms(2) prepare_filters_def list_all_iff prepare_limited)
  from req_task_ends [where sts = sts, OF assms(1) this] show ?thesis .
qed

theorem req_task_answers_witness:
  "\<exists>es. length es \<le> 5000 \<and> set es \<subseteq> {sample_note} \<and>
     req_trace sample_env ''s'' (\<lambda>_. note_store) (1 + length es + 1)
       \<lparr>rq_filters = prepare_filters sample_ext 5000 [filter_default], rq_pending = [], rq_done = False\<rparr> =
     Some (map (\<lambda>e. event_message ''s'' (raw_text e)) es @
            [message_to_json sample_ext sample_codec (M_EndOfStoredEvents ''s'')],
            \<lparr>rq_filters = [], rq_pending = [], rq_done = True\<rparr>)"
  using req_task_answers [of sample_env "set sample_events" "\<lambda>_. note_store", OF _ refl, of "[filter_default]" "''s''"]
    note_store_inv
  by (simp add: prepare_filters_def relay_config_default_def note_store_stored) blast

section \<open>Messages\<close>

text \<open>
  The messages that carry only strings and booleans (CLOSE, EOSE, NOTICE and OK) survive the
  wire whatever the strings hold, while a CLOSED message, which the relay sends to slow clients, is
  an unknown type to its own parser.
\<close>

theorem message_round_trip:
  assumes "json_ok M"
  shows "(plain_message m \<longrightarrow> message_from_json X J M (message_to_json X M m) = Inr m) \<and>
    message_from_json X J M (message_to_json X M (M_Closed i s)) = Inl ''Unknown message type: CLOSED''"
  using message_round [OF assms] closed_unknown [OF assms] by blast

theorem message_round_trip_witness:
  "message_from_json sample_ext sample_serde sample_codec
     (message_to_json sample_ext sample_codec (M_Ok ''a,b'' True [CHR 0x22])) = Inr (M_Ok ''a,b'' True [CHR 0x22])"
  using message_round_trip [OF sample_json_ok, of "M_Ok ''a,b'' True [CHR 0x22]" sample_ext sample_serde]
  by simp

text \<open>
  Every message that the parser returns is well typed in the sense of the sources: an event has
  a 32-byte id and key and a 64-byte signature, the ids and keys that a deletion request refers to
  are 32 bytes; a request has at least one filter, the ids and authors of its filters are 32 bytes
  and its tag filters have distinct keys of one character each, also after its filters have been
  prepared for the query, which adds 32-byte values only. No CLOSED message is ever returned.
\<close>

theorem parsed_message_typed:
  assumes "hex_ok X" "message_from_json X J M text = Inr m"
  shows "message_typed X m"
  by (rule message_from_json_typed [OF assms])

theorem parsed_message_typed_witness:
  "message_typed sample_ext (M_Event None sample_note)"
proof -
  obtain i where "message_from_json sample_ext sample_serde sample_codec (event_text sample_note) =
      Inr (M_Event i sample_note)"
    using sample_carries [of sample_note] by (auto simp: carries_def)
  from parsed_message_typed [OF sample_hex_ok this] show ?thesis by (simp add: message_typed_def)
qed

section \<open>Restarts\<close>

text \<open>
  C2. A relay with persistence and a log loses no stored event as long as it evicts none: from any state of
  its life between two steps, whatever clients have sent and after any number of earlier restarts, the next process
  starts, after a shutdown as well as after a crash of the process, holds exactly the same events,
  and has no open connection. A job and a turn of a background task are one step each (a checkpoint
  inside a deletion is the subject of \<^verbatim>\<open>deletion_lost_in_checkpoint\<close>); there is no memory limit, or all
  events ever offered fit 90 percent of it; no two of them have one id; and the JSON of each is one
  line that fits a record and parses again.
\<close>

theorem relay_survives_restart:
  assumes "inj_on ev_id U" "\<forall>e \<in> U. persistable (en_ext V) e" "enumerates ord" "roomy U scfg"
    and "relay_life V U ord scfg r"
    and "d \<in> {disk_of (rl_store r), disk_of (shutdown_store ord (en_config V) (rl_store r))}"
  shows "\<exists>r'. relay_start (en_ext V) ord scfg True rss d = Some r' \<and>
    by_id (st_index (rl_store r')) = by_id (st_index (rl_store r)) \<and> dom (rl_conns r') = {} \<and> relay_inv V U r'"
proof -
  have life: "persisted (en_ext V) U (rl_store r)" "st_config (rl_store r) = scfg"
    using relay_life_inv [OF assms(5,1-4)] by simp_all
  obtain st where st: "d = disk_of st" "persisted (en_ext V) U st" "st_config st = scfg"
      "by_id (st_index st) = by_id (st_index (rl_store r))"
    using assms(6) life shutdown_persisted [OF assms(1,3) life(1), of "en_config V"] by auto
  from relay_start_restores [OF assms(1-3) st(2), of rss]
  show ?thesis
    using st relay_new_inv persisted_inv [OF assms(1)]
    by (metis dom_empty relay.select_convs(3) relay_new_def)
qed

text \<open>A relay that has started on an empty directory and has one connection.\<close>

definition young_relay :: "string list relay" where
  "young_relay = connect [] 0 (relay_new (store_new sample_config True 0 empty_disk))"

lemma young_relay_life: "relay_life sample_env (set sample_events) sorted_list_of_set sample_config young_relay"
proof -
  let ?r = "relay_new (store_new sample_config True 0 empty_disk) :: string list relay"
  have "relay_life sample_env (set sample_events) sorted_list_of_set sample_config ?r"
    unfolding empty_disk_def by (rule relay_life.boot) (rule relay_start_fresh [OF sample_roomy])
  moreover have "relay_step sample_env (set sample_events) ?r young_relay"
    unfolding young_relay_def by (rule relay_step.connect) (simp add: relay_new_def fanout_new_def)
  moreover have "\<not> evicting (en_ext sample_env) ?r young_relay"
    by (simp add: evicting_def young_relay_def)
  ultimately show ?thesis by (rule relay_life.step)
qed

theorem relay_survives_restart_witness:
  "\<exists>r'. relay_start sample_ext sorted_list_of_set sample_config True 0 (disk_of (rl_store young_relay)) = Some r' \<and>
     dom (rl_conns r') = {} \<and> relay_inv sample_env (set sample_events) r'"
  using relay_survives_restart [OF sample_inj _ enumerates_sorted_list_of_set sample_roomy young_relay_life,
      of "disk_of (rl_store young_relay)" 0] sample_persistable
  by auto

end
