(* ===== verification/Ip_Address.thy ===== *)
theory Ip_Address
  imports Rust_Str
begin

text \<open>
  IP addresses of \<^verbatim>\<open>std::net\<close>: their text form and the parser behind \<open>IpAddr::from_str\<close>, which reads
  bytes and gives its input back untouched when a part does not match.
\<close>

section \<open>Addresses\<close>

text \<open>An IPv4 address has four octets, an IPv6 address eight 16-bit segments.\<close>

datatype ip_addr = V4 bytes | V6 "16 word list"

fun ip_ok :: "ip_addr \<Rightarrow> bool" where
  "ip_ok (V4 os) = (length os = 4)"
| "ip_ok (V6 gs) = (length gs = 8)"

record socket_addr =
  sa_ip :: ip_addr
  sa_port :: "16 word"

text \<open>\<open>Ipv6Addr::to_ipv4_mapped\<close>: the addresses \<open>::ffff:a.b.c.d\<close>.\<close>

definition to_ipv4_mapped :: "16 word list \<Rightarrow> bytes option" where
  "to_ipv4_mapped gs =
     (case gs of
        [a, b, c, d, e, f, x, y] \<Rightarrow>
          if a = 0 \<and> b = 0 \<and> c = 0 \<and> d = 0 \<and> e = 0 \<and> f = 0xFFFF
          then Some [ucast (drop_bit 8 x), ucast x, ucast (drop_bit 8 y), ucast y] else None
      | _ \<Rightarrow> None)"

definition show_ipv4 :: "bytes \<Rightarrow> string" where
  "show_ipv4 os = concat (map (\<lambda>(i, b). (if i = 0 then [] else ''.'') @ show_nat (unat b)) (enumerate 0 os))"

section \<open>Parsing\<close>

definition to_digit :: "nat \<Rightarrow> char \<Rightarrow> nat option" where
  "to_digit radix c =
     (let b = of_char c :: nat;
          v = (if 48 \<le> b \<and> b \<le> 57 then b - 48
               else if 97 \<le> b \<and> b \<le> 122 then b - 87
               else if 65 \<le> b \<and> b \<le> 90 then b - 55 else radix)
      in if v < radix then Some v else None)"

text \<open>Digits up to a character that is none; a value that overflows, or a digit too many, fails.\<close>

fun read_digits :: "nat \<Rightarrow> nat \<Rightarrow> nat \<Rightarrow> nat \<Rightarrow> nat \<Rightarrow> string \<Rightarrow> (nat \<times> nat \<times> string) option" where
  "read_digits radix bound max_digits v n [] = Some (v, n, [])"
| "read_digits radix bound max_digits v n (c # cs) =
     (case to_digit radix c of
        None \<Rightarrow> Some (v, n, c # cs)
      | Some d \<Rightarrow>
          if bound \<le> v * radix + d \<or> max_digits < n + 1 then None
          else read_digits radix bound max_digits (v * radix + d) (n + 1) cs)"

definition read_number :: "nat \<Rightarrow> nat \<Rightarrow> nat \<Rightarrow> bool \<Rightarrow> string \<Rightarrow> (nat \<times> string) option" where
  "read_number radix bound max_digits allow_zero_prefix s =
     (case read_digits radix bound max_digits 0 0 s of
        None \<Rightarrow> None
      | Some (v, n, r) \<Rightarrow>
          if n = 0 \<or> (\<not> allow_zero_prefix \<and> take 1 s = ''0'' \<and> 1 < n) then None else Some (v, r))"

definition read_separator :: "char \<Rightarrow> nat \<Rightarrow> (string \<Rightarrow> 'a option) \<Rightarrow> string \<Rightarrow> 'a option" where
  "read_separator sep i inner s =
     (if 0 < i then Option.bind (strip_prefix sep s) inner else inner s)"

definition read_octet :: "nat \<Rightarrow> string \<Rightarrow> (nat \<times> string) option" where
  "read_octet i = read_separator CHR ''.'' i (read_number 10 256 3 False)"

definition read_ipv4 :: "string \<Rightarrow> (bytes \<times> string) option" where
  "read_ipv4 s =
     Option.bind (read_octet 0 s) (\<lambda>(a, s1). Option.bind (read_octet 1 s1) (\<lambda>(b, s2).
     Option.bind (read_octet 2 s2) (\<lambda>(c, s3). map_option (\<lambda>(d, s4).
       (map of_nat [a, b, c, d], s4)) (read_octet 3 s3))))"

text \<open>
  Up to \<open>k\<close> groups from position \<open>i\<close> on, the last two of them possibly as an embedded IPv4 address:
  the groups, whether one was embedded, and the rest.
\<close>

fun read_groups :: "nat \<Rightarrow> nat \<Rightarrow> string \<Rightarrow> 16 word list \<times> bool \<times> string" where
  "read_groups i 0 s = ([], False, s)"
| "read_groups i (Suc k) s =
     (case (if 0 < k then read_separator CHR '':'' i read_ipv4 s else None) of
        Some (os, r) \<Rightarrow>
          ([push_bit 8 (ucast (os ! 0)) OR ucast (os ! 1), push_bit 8 (ucast (os ! 2)) OR ucast (os ! 3)], True, r)
      | None \<Rightarrow>
          (case read_separator CHR '':'' i (read_number 16 65536 4 True) s of
             Some (g, r) \<Rightarrow>
               (case read_groups (Suc i) k r of (gs, v4, r') \<Rightarrow> (of_nat g # gs, v4, r'))
           | None \<Rightarrow> ([], False, s)))"

definition read_ipv6 :: "string \<Rightarrow> (16 word list \<times> string) option" where
  "read_ipv6 s =
     (case read_groups 0 8 s of
        (head, head_ipv4, r) \<Rightarrow>
          if length head = 8 then Some (head, r)
          else if head_ipv4 then None
          else
            Option.bind (strip_prefix CHR '':'' r) (\<lambda>r1. Option.bind (strip_prefix CHR '':'' r1) (\<lambda>r2.
              case read_groups 0 (8 - (length head + 1)) r2 of
                (tail, _, r3) \<Rightarrow>
                  Some (head @ replicate (8 - length head - length tail) 0 @ tail, r3))))"

text \<open>\<open>IpAddr::from_str\<close>: the whole input, as IPv4 or else as IPv6.\<close>

definition parse_ip :: "string \<Rightarrow> ip_addr option" where
  "parse_ip s =
     (case read_ipv4 s of
        Some (os, r) \<Rightarrow> if r = [] then Some (V4 os) else None
      | None \<Rightarrow>
          (case read_ipv6 s of
             Some (gs, r) \<Rightarrow> if r = [] then Some (V6 gs) else None
           | None \<Rightarrow> None))"

section \<open>Parsed addresses have their width\<close>

lemma read_ipv4_length: "read_ipv4 s = Some (os, r) \<Longrightarrow> length os = 4"
  by (auto simp: read_ipv4_def bind_eq_Some_conv)

lemma read_groups_length: "length (fst (read_groups i k s)) \<le> k"
proof (induction i k s rule: read_groups.induct)
  case (2 i k s)
  then show ?case by (auto simp: case_prod_beta split: option.splits)
qed simp

lemma read_ipv6_length:
  assumes "read_ipv6 s = Some (gs, r)"
  shows "length gs = 8"
proof -
  let ?head = "fst (read_groups 0 8 s)"
  show ?thesis
  proof (cases "length ?head = 8")
    case True
    then show ?thesis using assms by (simp add: read_ipv6_def case_prod_beta)
  next
    case False
    then have lt: "length ?head < 8" using read_groups_length [of 0 8 s] by simp
    from assms False obtain r2 where
      "gs = ?head @ replicate (8 - length ?head - length (fst (read_groups 0 (8 - (length ?head + 1)) r2))) 0 @
         fst (read_groups 0 (8 - (length ?head + 1)) r2)"
      by (auto simp: read_ipv6_def bind_eq_Some_conv case_prod_beta split: if_splits)
    then show ?thesis using read_groups_length [of 0 "8 - (length ?head + 1)" r2] lt by simp
  qed
qed

lemma parse_ip_ok: "parse_ip s = Some ip \<Longrightarrow> ip_ok ip"
  using read_ipv4_length read_ipv6_length
  by (auto simp: parse_ip_def split: option.splits if_splits)

section \<open>Dotted decimals are read back\<close>

lemma to_digit_show: "d < 10 \<Longrightarrow> to_digit 10 (char_of (48 + d)) = Some d"
  using digit_char [of d] by (simp add: to_digit_def Let_def)

text \<open>The rest after the number must not look like one of its digits.\<close>

definition no_digit :: "string \<Rightarrow> bool" where
  "no_digit r = (case r of c # _ \<Rightarrow> to_digit 10 c = None | [] \<Rightarrow> True)"

lemma read_digits_show:
  assumes "\<forall>d \<in> set ds. d < 10" "dec_value v ds < bound" "n + length ds \<le> max_digits" "no_digit r"
  shows "read_digits 10 bound max_digits v n (map (\<lambda>d. char_of (48 + d)) ds @ r) =
    Some (dec_value v ds, n + length ds, r)"
  using assms
proof (induction ds arbitrary: v n)
  case Nil
  then show ?case by (cases r) (simp_all add: no_digit_def)
next
  case (Cons d ds)
  have "v * 10 + d < bound" using Cons.prems(2) dec_value_ge [of "v * 10 + d" ds] by simp
  then show ?case using Cons by (simp add: to_digit_show)
qed

lemma read_number_show:
  assumes "m < 256" "no_digit r"
  shows "read_number 10 256 3 False (show_nat m @ r) = Some (m, r)"
proof -
  let ?ds = "show_digits m"
  have "read_digits 10 256 3 0 0 (show_nat m @ r) = Some (m, length ?ds, r)"
    using read_digits_show [of ?ds 0 256 0 3 r] assms show_digits_less show_digits_length [of m]
    by (simp add: show_nat_def dec_value_show)
  moreover have "\<not> (take 1 (show_nat m @ r) = ''0'' \<and> 1 < length ?ds)"
  proof
    assume a: "take 1 (show_nat m @ r) = ''0'' \<and> 1 < length ?ds"
    obtain d ds where ds: "?ds = d # ds" using show_digits_nonempty by (cases ?ds) auto
    then have "d < 10" using show_digits_less [of d m] by simp
    moreover have "char_of (48 + d) = CHR ''0''" using a ds by (simp add: show_nat_def)
    ultimately have "48 + d = (of_char CHR ''0'' :: nat)" using digit_char [of d] by metis
    then have "d = 0" by simp
    then show False using a ds show_digits_lead [of m] by simp
  qed
  ultimately show ?thesis
    using show_digits_nonempty [of m] by (auto simp: read_number_def)
qed

lemma read_octet_show:
  assumes "no_digit r"
  shows "read_octet 0 (show_nat (unat b) @ r) = Some (unat (b :: byte), r)"
    "0 < i \<Longrightarrow> read_octet i (CHR ''.'' # show_nat (unat b) @ r) = Some (unat b, r)"
proof -
  have "unat b < 256" using unsigned_less [of b, where 'a = nat] by simp
  note num = read_number_show [OF this assms]
  show "read_octet 0 (show_nat (unat b) @ r) = Some (unat b, r)"
    "0 < i \<Longrightarrow> read_octet i (CHR ''.'' # show_nat (unat b) @ r) = Some (unat b, r)"
    using num by (simp_all add: read_octet_def read_separator_def strip_prefix_def)
qed

lemma parse_show_ipv4:
  assumes "length os = 4"
  shows "parse_ip (show_ipv4 os) = Some (V4 os)"
proof -
  obtain a b c d where os: "os = [a, b, c, d]"
    using assms by (auto simp: numeral_eq_Suc length_Suc_conv)
  have dot: "no_digit (CHR ''.'' # r)" "no_digit []" for r
    by (simp_all add: no_digit_def to_digit_def)
  have "show_ipv4 os = show_nat (unat a) @ CHR ''.'' # show_nat (unat b) @ CHR ''.'' # show_nat (unat c) @
      CHR ''.'' # show_nat (unat d) @ []"
    by (simp add: show_ipv4_def os)
  then have "read_ipv4 (show_ipv4 os) = Some (os, [])"
    by (simp add: read_ipv4_def os read_octet_show dot del: append_Nil2)
  then show ?thesis by (simp add: parse_ip_def)
qed

end
