(* ===== verification/Proxy.thy ===== *)
theory Proxy
  imports Ip_Address
begin

text \<open>
  Client addresses behind a reverse proxy (\<^verbatim>\<open>src/src/proxy.rs\<close>). Networks belong to the \<^verbatim>\<open>ipnet\<close>
  crate and headers to the \<^verbatim>\<open>http\<close> crate; both are parameters: \<open>proxy_env\<close> has the parser and the
  membership test of a network, and \<open>hdr name\<close> stands for
  \<open>headers.get(name).and_then(|v| v.to_str().ok())\<close>.
\<close>

section \<open>Trusted proxies\<close>

record 'n proxy_env =
  net_parse :: "string \<Rightarrow> 'n option"
  net_of_ip :: "ip_addr \<Rightarrow> 'n"
  net_contains :: "'n \<Rightarrow> ip_addr \<Rightarrow> bool"

record 'n trusted_proxies =
  tp_nets :: "'n list"

definition proxies_parse :: "'n proxy_env \<Rightarrow> string list \<Rightarrow> 'n trusted_proxies" where
  "proxies_parse E entries =
     \<lparr>tp_nets = List.map_filter
        (\<lambda>entry. case net_parse E entry of
                   Some net \<Rightarrow> Some net | None \<Rightarrow> map_option (net_of_ip E) (parse_ip entry)) entries\<rparr>"

definition proxies_is_empty :: "'n trusted_proxies \<Rightarrow> bool" where
  "proxies_is_empty T \<longleftrightarrow> tp_nets T = []"

definition unmap :: "ip_addr \<Rightarrow> ip_addr" where
  "unmap ip =
     (case ip of
        V6 gs \<Rightarrow> (case to_ipv4_mapped gs of Some os \<Rightarrow> V4 os | None \<Rightarrow> V6 gs)
      | V4 os \<Rightarrow> V4 os)"

definition trusts :: "'n proxy_env \<Rightarrow> 'n trusted_proxies \<Rightarrow> ip_addr \<Rightarrow> bool" where
  "trusts E T ip \<longleftrightarrow> list_ex (\<lambda>net. net_contains E net (unmap ip)) (tp_nets T)"

fun find_map :: "('a \<Rightarrow> 'b option) \<Rightarrow> 'a list \<Rightarrow> 'b option" where
  "find_map f [] = None"
| "find_map f (x # xs) = (case f x of Some y \<Rightarrow> Some y | None \<Rightarrow> find_map f xs)"

definition forwarded_ip :: "(string \<Rightarrow> string option) \<Rightarrow> ip_addr option" where
  "forwarded_ip hdr =
     (let real_ip = Option.bind (hdr ''x-real-ip'') (\<lambda>v. parse_ip (trim v)) in
      if real_ip \<noteq> None then real_ip
      else Option.bind (hdr ''x-forwarded-for'')
             (\<lambda>v. find_map (\<lambda>part. parse_ip (trim part)) (split_char CHR '','' v)))"

definition client_addr ::
    "'n proxy_env \<Rightarrow> 'n trusted_proxies \<Rightarrow> socket_addr \<Rightarrow> (string \<Rightarrow> string option) \<Rightarrow> socket_addr" where
  "client_addr E T peer hdr =
     (if tp_nets T = [] \<or> \<not> trusts E T (sa_ip peer) then peer
      else (case forwarded_ip hdr of
              Some ip \<Rightarrow> \<lparr>sa_ip = ip, sa_port = sa_port peer\<rparr> | None \<Rightarrow> peer))"

section \<open>Trimming addresses\<close>

lemma chars_ascii: "\<forall>c \<in> set s. of_char c < (128 :: nat) \<Longrightarrow> chars s = map (\<lambda>c. [c]) s"
  by (induction s) (simp_all add: utf8_len_def Let_def)

lemma whitespace_ascii:
  "is_whitespace [CHR '' '']" "48 \<le> (of_char c :: nat) \<Longrightarrow> of_char c < (128 :: nat) \<Longrightarrow> \<not> is_whitespace [c]"
  by (auto simp: is_whitespace_def)

lemma show_ipv4_chars:
  assumes "c \<in> set (show_ipv4 os)"
  shows "of_char c < (128 :: nat)" "c \<noteq> CHR ''.'' \<Longrightarrow> 48 \<le> (of_char c :: nat)"
proof -
  have d: "of_char x < (128 :: nat) \<and> 48 \<le> (of_char x :: nat)" if "x \<in> set (show_nat n)" for x n
    using that show_digits_less digit_char by (fastforce simp: show_nat_def)
  have "c = CHR ''.'' \<or> (\<exists>n. c \<in> set (show_nat n))"
    using assms by (auto simp: show_ipv4_def split: if_splits)
  then show "of_char c < (128 :: nat)" "c \<noteq> CHR ''.'' \<Longrightarrow> 48 \<le> (of_char c :: nat)"
    using d by auto
qed

lemma trim_ascii:
  assumes "\<forall>c \<in> set s. of_char c < (128 :: nat)"
  shows "trim s = rev (dropWhile (\<lambda>c. is_whitespace [c]) (rev (dropWhile (\<lambda>c. is_whitespace [c]) s)))"
proof -
  have st: "trim_start t = dropWhile (\<lambda>c. is_whitespace [c]) t" if "\<forall>c \<in> set t. of_char c < (128 :: nat)" for t
    by (simp add: trim_start_def chars_ascii [OF that] dropWhile_map comp_def)
  have en: "trim_end t = rev (dropWhile (\<lambda>c. is_whitespace [c]) (rev t))"
    if "\<forall>c \<in> set t. of_char c < (128 :: nat)" for t
    by (simp add: trim_end_def chars_ascii [OF that] dropWhile_map comp_def rev_map)
  have "\<forall>c \<in> set (dropWhile (\<lambda>c. is_whitespace [c]) s). of_char c < (128 :: nat)"
    using assms set_dropWhileD by fast
  then show ?thesis by (simp add: trim_def st [OF assms] en)
qed

lemma trim_spaces:
  assumes "s \<noteq> []" "\<forall>c \<in> set s. of_char c < (128 :: nat)"
    and "\<not> is_whitespace [hd s]" "\<not> is_whitespace [last s]"
  shows "trim (replicate m CHR '' '' @ s @ replicate n CHR '' '') = s"
proof -
  let ?w = "\<lambda>c. is_whitespace [c]"
  have "dropWhile ?w (replicate m CHR '' '' @ s @ replicate n CHR '' '') = s @ replicate n CHR '' ''"
    using assms(1,3) whitespace_ascii(1) by (subst dropWhile_append2) (auto simp: dropWhile_eq_self_iff)
  moreover have "dropWhile ?w (replicate n CHR '' '' @ rev s) = rev s"
    using assms(1,4) whitespace_ascii(1)
    by (subst dropWhile_append2) (auto simp: dropWhile_eq_self_iff hd_rev)
  ultimately show ?thesis using assms(2) by (subst trim_ascii) auto
qed

lemma show_nat_ends:
  "show_nat n \<noteq> []" "\<not> is_whitespace [hd (show_nat n)]" "\<not> is_whitespace [last (show_nat n)]"
proof -
  show ne: "show_nat n \<noteq> []" using show_digits_nonempty by (simp add: show_nat_def)
  have "\<not> is_whitespace [c]" if "c \<in> set (show_nat n)" for c
    using that show_digits_less digit_char whitespace_ascii(2) by (fastforce simp: show_nat_def)
  then show "\<not> is_whitespace [hd (show_nat n)]" "\<not> is_whitespace [last (show_nat n)]"
    using ne by simp_all
qed

lemma trim_ipv4:
  assumes "length os = 4"
  shows "parse_ip (trim (replicate m CHR '' '' @ show_ipv4 os @ replicate n CHR '' '')) = Some (V4 os)"
proof -
  obtain a b c d where os: "os = [a, b, c, d]"
    using assms by (auto simp: numeral_eq_Suc length_Suc_conv)
  have "show_ipv4 os = show_nat (unat a) @ CHR ''.'' # show_nat (unat b) @ CHR ''.'' # show_nat (unat c) @
      CHR ''.'' # show_nat (unat d)"
    by (simp add: show_ipv4_def os)
  then have "hd (show_ipv4 os) = hd (show_nat (unat a))" "last (show_ipv4 os) = last (show_nat (unat d))"
    "show_ipv4 os \<noteq> []"
    using show_nat_ends(1) by simp_all
  then have "trim (replicate m CHR '' '' @ show_ipv4 os @ replicate n CHR '' '') = show_ipv4 os"
    using show_nat_ends show_ipv4_chars(1) by (intro trim_spaces) auto
  then show ?thesis by (simp add: parse_show_ipv4 [OF assms])
qed

section \<open>Which headers are believed\<close>

text \<open>Bit \<open>i\<close> of an address, counted from its front, and addresses that agree in the first \<open>n\<close> bits.\<close>

fun ip_width :: "ip_addr \<Rightarrow> nat" where
  "ip_width (V4 os) = 32"
| "ip_width (V6 gs) = 128"

fun ip_bit :: "ip_addr \<Rightarrow> nat \<Rightarrow> bool" where
  "ip_bit (V4 os) i = bit (os ! (i div 8)) (7 - i mod 8)"
| "ip_bit (V6 gs) i = bit (gs ! (i div 16)) (15 - i mod 16)"

definition in_net :: "nat \<Rightarrow> ip_addr \<Rightarrow> ip_addr \<Rightarrow> bool" where
  "in_net n a b \<longleftrightarrow> ip_width a = ip_width b \<and> (\<forall>i < n. ip_bit a i = ip_bit b i)"

text \<open>The text of a network: an address, a slash and the length of the prefix.\<close>

definition cidr :: "string \<Rightarrow> ip_addr \<Rightarrow> nat \<Rightarrow> bool" where
  "cidr s a n \<longleftrightarrow>
     (\<exists>t. s = t @ ''/'' @ show_nat n \<and> CHR ''/'' \<notin> set t \<and> parse_ip t = Some a \<and> n \<le> ip_width a)"

text \<open>
  What \<^verbatim>\<open>ipnet\<close> documents: a network text has a prefix length, so that a plain address is not one, and
  contains the addresses of its family that agree in the prefix; the network of an address contains
  only it.
\<close>

definition ipnet_ok :: "'n proxy_env \<Rightarrow> bool" where
  "ipnet_ok E \<longleftrightarrow>
     (\<forall>s. CHR ''/'' \<notin> set s \<longrightarrow> net_parse E s = None) \<and>
     (\<forall>s a n. cidr s a n \<longrightarrow>
        (\<exists>net. net_parse E s = Some net \<and> (\<forall>b. ip_ok b \<longrightarrow> net_contains E net b = in_net n a b))) \<and>
     (\<forall>a b. ip_ok a \<longrightarrow> ip_ok b \<longrightarrow> net_contains E (net_of_ip E a) b = (b = a))"

text \<open>
  The entries of the configuration that are covered: any text without a slash, of which those that are
  no address admit nobody, and networks; and whom they admit.
\<close>

definition entry_form :: "string \<Rightarrow> bool" where
  "entry_form s \<longleftrightarrow> CHR ''/'' \<notin> set s \<or> (\<exists>a n. cidr s a n)"

definition entry_admits :: "string \<Rightarrow> ip_addr \<Rightarrow> bool" where
  "entry_admits s b \<longleftrightarrow>
     (if CHR ''/'' \<in> set s then \<exists>a n. cidr s a n \<and> in_net n a b else parse_ip s = Some b)"

lemma cidr_slash: "cidr s a n \<Longrightarrow> CHR ''/'' \<in> set s"
  by (auto simp: cidr_def)

lemma entry_trusts:
  assumes "ipnet_ok E" "entry_form s" "ip_ok b"
  shows "(\<exists>net. (case net_parse E s of Some net \<Rightarrow> Some net | None \<Rightarrow> map_option (net_of_ip E) (parse_ip s)) = Some net \<and>
      net_contains E net b) \<longleftrightarrow> entry_admits s b"
proof (cases "CHR ''/'' \<in> set s")
  case True
  then obtain a n where c: "cidr s a n" using assms(2) by (auto simp: entry_form_def)
  then obtain net where net: "net_parse E s = Some net" "net_contains E net b = in_net n a b"
    using assms(1,3) unfolding ipnet_ok_def by blast
  moreover have "net_contains E net b = in_net n' a' b" if "cidr s a' n'" for a' n'
  proof -
    obtain net' where "net_parse E s = Some net'" "net_contains E net' b = in_net n' a' b"
      using assms(1,3) \<open>cidr s a' n'\<close> unfolding ipnet_ok_def by blast
    then show ?thesis using net(1) by simp
  qed
  ultimately show ?thesis using True c by (auto simp: entry_admits_def)
next
  case False
  then have "net_parse E s = None" using assms(1) by (simp add: ipnet_ok_def)
  then show ?thesis
    using False assms(1,3) parse_ip_ok [of s] by (auto simp: entry_admits_def ipnet_ok_def)
qed

lemma unmap_ok: "ip_ok ip \<Longrightarrow> ip_ok (unmap ip)"
  by (auto simp: unmap_def to_ipv4_mapped_def split: ip_addr.splits option.splits list.splits if_splits)

lemma client_addr_trust:
  assumes "ipnet_ok E" "\<forall>s \<in> set entries. entry_form s" "ip_ok (sa_ip peer)"
  shows "client_addr E (proxies_parse E entries) peer hdr =
    (if \<exists>s \<in> set entries. entry_admits s (unmap (sa_ip peer)) then
       peer\<lparr>sa_ip := (case forwarded_ip hdr of Some ip \<Rightarrow> ip | None \<Rightarrow> sa_ip peer)\<rparr>
     else peer)"
proof -
  let ?f = "\<lambda>s. case net_parse E s of Some net \<Rightarrow> Some net | None \<Rightarrow> map_option (net_of_ip E) (parse_ip s)"
  have "trusts E (proxies_parse E entries) (sa_ip peer) \<longleftrightarrow>
      (\<exists>s \<in> set entries. \<exists>net. ?f s = Some net \<and> net_contains E net (unmap (sa_ip peer)))"
    by (auto simp: trusts_def proxies_parse_def list_ex_iff map_filter_set)
  also have "\<dots> \<longleftrightarrow> (\<exists>s \<in> set entries. entry_admits s (unmap (sa_ip peer)))"
    using entry_trusts [OF assms(1) _ unmap_ok [OF assms(3)]] assms(2) by blast
  finally have "trusts E (proxies_parse E entries) (sa_ip peer) \<longleftrightarrow> (\<exists>s \<in> set entries. entry_admits s (unmap (sa_ip peer)))" .
  moreover have "tp_nets T = [] \<Longrightarrow> \<not> trusts E T ip" for T :: "'a trusted_proxies" and ip by (simp add: trusts_def)
  ultimately show ?thesis by (auto simp: client_addr_def split: option.splits)
qed

end
