(* ===== verification/Proxy_Properties.thy ===== *)
theory Proxy_Properties
  imports Proxy
begin

text \<open>
  What the resolution of a client address promises: forwarding headers count only behind a trusted
  proxy, and which of the addresses they hold counts.
\<close>

section \<open>Header values\<close>

lemma split_parts_of:
  assumes "\<forall>p \<in> set ps. CHR '','' \<notin> set p"
  shows "split_char CHR '','' (concat (map (\<lambda>p. p @ '','') ps) @ r) = ps @ split_char CHR '','' r"
  using assms
proof (induction ps)
  case (Cons p ps)
  then show ?case using split_join [of "CHR '',''" p "concat (map (\<lambda>p. p @ '','') ps) @ r"] by simp
qed simp

lemma find_map_skip: "\<forall>p \<in> set ps. f p = None \<Longrightarrow> find_map f (ps @ qs) = find_map f qs"
  by (induction ps) simp_all

lemma forwarded_first_address:
  assumes "Option.bind (hdr ''x-real-ip'') (\<lambda>v. parse_ip (trim v)) = None"
    and "hdr ''x-forwarded-for'' = Some (concat (map (\<lambda>p. p @ '','') ps) @ q @ rest)"
    and "\<forall>p \<in> set ps. CHR '','' \<notin> set p \<and> parse_ip (trim p) = None"
    and "CHR '','' \<notin> set q" "parse_ip (trim q) = Some ip" "rest = [] \<or> hd rest = CHR '',''"
  shows "forwarded_ip hdr = Some ip"
proof -
  obtain qs where "split_char CHR '','' (q @ rest) = q # qs"
  proof (cases rest)
    case Nil
    then show ?thesis using that split_plain [OF assms(4)] by auto
  next
    case (Cons c r)
    then show ?thesis using that assms(6) split_join [OF assms(4), of r] by simp
  qed
  then have "split_char CHR '','' (concat (map (\<lambda>p. p @ '','') ps) @ q @ rest) = ps @ q # qs"
    using split_parts_of [of ps "q @ rest"] assms(3) by simp
  then show ?thesis
    using assms(1,2,5) find_map_skip [of ps "\<lambda>p. parse_ip (trim p)" "q # qs"] assms(3)
    by (simp add: forwarded_ip_def)
qed

section \<open>Trust\<close>

text \<open>
  C31. With addresses and networks of either family as the trusted proxies, the headers of a connection
  count if and only if its peer, unmapped when it shows up as an IPv4-mapped IPv6 address, is one of
  the addresses or agrees with one of the networks in its prefix; entries without a slash that are no
  address admit nobody; the port is always the peer's. Behind a trusted proxy an address in X-Real-IP wins; without one it is
  the first entry of X-Forwarded-For that is an address, which need not be the left-most entry: entries
  that are no address are passed over. Blanks around an address do not count.
\<close>

theorem proxy_headers_need_trust:
  assumes "ipnet_ok E" "\<forall>s \<in> set entries. entry_form s" "ip_ok (sa_ip peer)"
  shows "client_addr E (proxies_parse E entries) peer hdr =
      (if \<exists>s \<in> set entries. entry_admits s (unmap (sa_ip peer)) then
         peer\<lparr>sa_ip := (case forwarded_ip hdr of Some ip \<Rightarrow> ip | None \<Rightarrow> sa_ip peer)\<rparr>
       else peer) \<and>
    (\<forall>v ip. hdr ''x-real-ip'' = Some v \<and> parse_ip (trim v) = Some ip \<longrightarrow> forwarded_ip hdr = Some ip) \<and>
    (\<forall>ps q rest ip. Option.bind (hdr ''x-real-ip'') (\<lambda>v. parse_ip (trim v)) = None \<and>
       hdr ''x-forwarded-for'' = Some (concat (map (\<lambda>p. p @ '','') ps) @ q @ rest) \<and>
       (\<forall>p \<in> set ps. CHR '','' \<notin> set p \<and> parse_ip (trim p) = None) \<and>
       CHR '','' \<notin> set q \<and> parse_ip (trim q) = Some ip \<and> (rest = [] \<or> hd rest = CHR '','') \<longrightarrow>
       forwarded_ip hdr = Some ip) \<and>
    (\<forall>b m n. length b = 4 \<longrightarrow>
       parse_ip (trim (replicate m CHR '' '' @ show_ipv4 b @ replicate n CHR '' '')) = Some (V4 b))"
proof (intro conjI allI impI)
  show "forwarded_ip hdr = Some ip" if "hdr ''x-real-ip'' = Some v \<and> parse_ip (trim v) = Some ip" for v ip
    using that by (simp add: forwarded_ip_def)
qed (rule client_addr_trust [OF assms], blast intro: forwarded_first_address, rule trim_ipv4)

text \<open>An \<^verbatim>\<open>ipnet\<close> for the examples: a network is an address and the length of a prefix.\<close>

definition read_decimal :: "string \<Rightarrow> nat" where
  "read_decimal s = foldl (\<lambda>n c. 10 * n + (of_char c - 48)) 0 s"

definition sample_nets :: "(ip_addr \<times> nat) proxy_env" where
  "sample_nets =
     \<lparr>net_parse = (\<lambda>s. case split_char CHR ''/'' s of
                         [t, d] \<Rightarrow> map_option (\<lambda>a. (a, read_decimal d)) (parse_ip t) | _ \<Rightarrow> None),
      net_of_ip = (\<lambda>a. (a, ip_width a)), net_contains = (\<lambda>(a, n) b. in_net n a b)\<rparr>"

lemma read_decimal_show: "read_decimal (show_nat n) = n"
proof (induction n rule: show_digits.induct)
  case (1 n)
  show ?case
  proof (cases "n < 10")
    case True
    then show ?thesis by (simp add: read_decimal_def show_nat_def show_digits.simps [of n])
  next
    case False
    then have "read_decimal (show_nat n) = 10 * read_decimal (show_nat (n div 10)) + n mod 10"
      by (simp add: read_decimal_def show_nat_def show_digits.simps [of n])
    then show ?thesis using 1 [OF False] by simp
  qed
qed

lemma show_nat_slash: "CHR ''/'' \<notin> set (show_nat n)"
proof
  assume "CHR ''/'' \<in> set (show_nat n)"
  then obtain d :: nat where "d < 10" "CHR ''/'' = (char_of (48 + d) :: char)" using show_digits_less by (fastforce simp: show_nat_def)
  then have "of_char CHR ''/'' = (48 + d :: nat)" by simp
  then show False by simp
qed

lemma in_net_all:
  assumes "ip_ok a" "ip_ok b"
  shows "in_net (ip_width a) a b \<longleftrightarrow> b = a"
proof
  assume same: "in_net (ip_width a) a b"
  show "b = a"
  proof (cases a)
    case (V4 xs)
    then obtain ys where b: "b = V4 ys" using same by (cases b) (auto simp: in_net_def)
    have "xs ! k = ys ! k" if k: "k < 4" for k
    proof (rule bit_word_eqI)
      fix j assume "j < LENGTH(8)"
      then obtain m where m: "m < 8" "j = 7 - m" using that [of "7 - j"] by simp
      then have "8 * k + m < 32" using \<open>k < 4\<close> by simp
      then have "ip_bit a (8 * k + m) = ip_bit b (8 * k + m)"
        using same unfolding in_net_def V4 ip_width.simps by blast
      then show "bit (xs ! k) j = bit (ys ! k) j" using V4 b m by simp
    qed
    then have "xs = ys" using assms V4 b by (intro nth_equalityI) simp_all
    then show ?thesis using V4 b by simp
  next
    case (V6 xs)
    then obtain ys where b: "b = V6 ys" using same by (cases b) (auto simp: in_net_def)
    have "xs ! k = ys ! k" if k: "k < 8" for k
    proof (rule bit_word_eqI)
      fix j assume "j < LENGTH(16)"
      then obtain m where m: "m < 16" "j = 15 - m" using that [of "15 - j"] by simp
      then have "16 * k + m < 128" using \<open>k < 8\<close> by simp
      then have "ip_bit a (16 * k + m) = ip_bit b (16 * k + m)"
        using same unfolding in_net_def V6 ip_width.simps by blast
      then show "bit (xs ! k) j = bit (ys ! k) j" using V6 b m by simp
    qed
    then have "xs = ys" using assms V6 b by (intro nth_equalityI) simp_all
    then show ?thesis using V6 b by simp
  qed
qed (simp add: in_net_def)

lemma sample_nets_ok: "ipnet_ok sample_nets"
proof -
  have "net_parse sample_nets s = Some (a, n)" if "cidr s a n" for s a n
    using that split_join [of "CHR ''/''" _ "show_nat n"] split_plain [OF show_nat_slash, of n]
    by (auto simp: cidr_def sample_nets_def read_decimal_show)
  then show ?thesis
    using in_net_all split_plain [of "CHR ''/''"] by (auto simp: ipnet_ok_def sample_nets_def)
qed

text \<open>
  A network of proxies 10.244.0.0/16, one of which shows up as an IPv4-mapped address, and a client
  whose left-most entry is not an address.
\<close>

definition sample_entries :: "string list" where
  "sample_entries = [show_ipv4 [192, 168, 0, 1], show_ipv4 [10, 244, 0, 0] @ ''/'' @ show_nat 16]"

definition sample_headers :: "string \<Rightarrow> string option" where
  "sample_headers name =
     (if name = ''x-forwarded-for'' then Some (''unknown,'' @ show_ipv4 [1, 2, 3, 4] @ '', 10.244.0.93'') else None)"

lemma ipv4_free: "CHR '','' \<notin> set (show_ipv4 b)" "CHR ''/'' \<notin> set (show_ipv4 b)"
  using show_ipv4_chars(2) [of "CHR '',''" b] show_ipv4_chars(2) [of "CHR ''/''" b] by auto

lemma unknown_no_address: "parse_ip (trim ''unknown'') = None"
proof -
  have none: "read_octet 0 ''unknown'' = None" "read_number 16 65536 4 True ''unknown'' = None"
    by (simp_all add: read_octet_def read_separator_def read_number_def to_digit_def)
  have "trim ''unknown'' = ''unknown''"
    using trim_spaces [of "''unknown''" 0 0] by (simp add: is_whitespace_def)
  moreover have "read_groups 0 8 ''unknown'' = ([], False, ''unknown'')"
    using none read_groups.simps(2) [of 0 7] by (simp add: read_separator_def read_ipv4_def)
  ultimately show ?thesis
    using none by (simp add: parse_ip_def read_ipv4_def read_ipv6_def strip_prefix_def)
qed

lemma sample_network: "cidr (show_ipv4 [10, 244, 0, 0] @ ''/'' @ show_nat 16) (V4 [10, 244, 0, 0]) 16"
  using parse_show_ipv4 [of "[10, 244, 0, 0]"] ipv4_free(2) unfolding cidr_def by force

theorem proxy_headers_need_trust_witness:
  "client_addr sample_nets (proxies_parse sample_nets sample_entries)
      \<lparr>sa_ip = V6 [0, 0, 0, 0, 0, 0xFFFF, 0x0AF4, 0x005D], sa_port = 4444\<rparr> sample_headers =
      \<lparr>sa_ip = V4 [1, 2, 3, 4], sa_port = 4444\<rparr> \<and>
   client_addr sample_nets (proxies_parse sample_nets sample_entries)
      \<lparr>sa_ip = V4 [192, 168, 0, 1], sa_port = 4444\<rparr> sample_headers = \<lparr>sa_ip = V4 [1, 2, 3, 4], sa_port = 4444\<rparr>"
proof -
  have form: "\<forall>s \<in> set sample_entries. entry_form s"
    using sample_network ipv4_free(2) by (auto simp: sample_entries_def entry_form_def)
  note trust = proxy_headers_need_trust [where hdr = sample_headers, OF sample_nets_ok form]
  let ?p = "\<lparr>sa_ip = V6 [0, 0, 0, 0, 0, 0xFFFF, 0x0AF4, 0x005D], sa_port = 4444\<rparr>"
  let ?q = "\<lparr>sa_ip = V4 [192, 168, 0, 1], sa_port = 4444\<rparr>"
  have fwd: "forwarded_ip sample_headers = Some (V4 [1, 2, 3, 4])"
    by (rule trust [of ?q, THEN conjunct2, THEN conjunct2, THEN conjunct1, rule_format,
          of "[''unknown'']" "show_ipv4 [1, 2, 3, 4]" "'', 10.244.0.93''"])
      (use trim_ipv4 [of "[1, 2, 3, 4]" 0 0] in \<open>simp_all add: sample_headers_def unknown_no_address ipv4_free\<close>)
  have p: "unmap (sa_ip ?p) = V4 [10, 244, 0, 93]" by code_simp
  have q: "unmap (sa_ip ?q) = V4 [192, 168, 0, 1]" by (simp add: unmap_def)
  have "in_net 16 (V4 [10, 244, 0, 0]) (V4 [10, 244, 0, 93])" by code_simp
  then have "entry_admits (show_ipv4 [10, 244, 0, 0] @ ''/'' @ show_nat 16) (V4 [10, 244, 0, 93])"
    using sample_network by (auto simp: entry_admits_def)
  moreover have "entry_admits (show_ipv4 [192, 168, 0, 1]) (V4 [192, 168, 0, 1])"
    using parse_show_ipv4 [of "[192, 168, 0, 1]"] ipv4_free(2) by (simp add: entry_admits_def)
  ultimately show ?thesis
    using trust [of ?p, THEN conjunct1] trust [of ?q, THEN conjunct1] unfolding p q by (simp add: fwd sample_entries_def)
qed

end
