(* ===== verification/Http_Pages.thy ===== *)
theory Http_Pages
  imports Relay_Invariant Proxy
begin

text \<open>
  The HTTP side of the relay (\<^verbatim>\<open>src/src/relay.rs\<close>): the root path, which answers with the NIP-11
  document, the landing page or an upgrade to a WebSocket, and the pages for statistics and
  metrics. The version, the page template and the metrics text come from the build and from
  Prometheus and are arguments.
\<close>

section \<open>Texts\<close>

text \<open>\<open>str::contains\<close> and \<open>str::replace\<close> for a pattern that is not empty.\<close>

fun str_contains :: "string \<Rightarrow> string \<Rightarrow> bool" where
  "str_contains p [] = (p = [])"
| "str_contains p (c # cs) = (take (length p) (c # cs) = p \<or> str_contains p cs)"

fun str_replace :: "string \<Rightarrow> string \<Rightarrow> string \<Rightarrow> string" where
  "str_replace p t [] = []"
| "str_replace p t (c # cs) =
     (if p \<noteq> [] \<and> take (length p) (c # cs) = p then t @ str_replace p t (drop (length p - 1) cs)
      else c # str_replace p t cs)"

lemma str_contains_iff: "str_contains p s \<longleftrightarrow> (\<exists>a b. s = a @ p @ b)"
proof (induction s)
  case (Cons c cs)
  show ?case
  proof
    assume "str_contains p (c # cs)"
    then consider "take (length p) (c # cs) = p" | "str_contains p cs" by auto
    then show "\<exists>a b. c # cs = a @ p @ b"
    proof cases
      case 1
      then have "c # cs = [] @ p @ drop (length p) (c # cs)" by (metis append_Nil append_take_drop_id)
      then show ?thesis by blast
    next
      case 2
      then obtain a b where "cs = a @ p @ b" using Cons.IH by blast
      then have "c # cs = (c # a) @ p @ b" by simp
      then show ?thesis by blast
    qed
  next
    assume "\<exists>a b. c # cs = a @ p @ b"
    then obtain a b where ab: "c # cs = a @ p @ b" by blast
    show "str_contains p (c # cs)"
    proof (cases a)
      case Nil
      then have "take (length p) (c # cs) = p" by (simp add: ab)
      then show ?thesis by simp
    next
      case (Cons x a')
      then have "cs = a' @ p @ b" using ab by simp
      then show ?thesis using Cons.IH by auto
    qed
  qed
qed auto

section \<open>Responses\<close>

text \<open>
  Values of \<open>serde_json\<close>; \<open>J_Milli n\<close> is the double \<open>n as f64 / 1000.0\<close>. A page is its headers and
  its body; the root path may also start the handler of a connection for a client address.
\<close>

datatype json =
  J_String string | J_Number nat | J_Milli u64 | J_Array "json list" | J_Object "(string \<times> json) list"

datatype body = B_Json json | B_Text string

record page =
  pg_headers :: "(string \<times> string) list"
  pg_body :: body

datatype root_response = R_Page page | R_Upgrade socket_addr

record page_env =
  pe_version :: string
  pe_index_html :: string

definition json_at :: "json \<Rightarrow> string list \<Rightarrow> json option" where
  "json_at j keys =
     fold (\<lambda>k v. case v of Some (J_Object kvs) \<Rightarrow> map_of kvs k | _ \<Rightarrow> None) keys (Some j)"

section \<open>Handlers\<close>

definition SUPPORTED_NIPS :: "nat list" where
  "SUPPORTED_NIPS = [1, 9, 11]"

definition nip11_body :: "page_env \<Rightarrow> relay_config \<Rightarrow> json" where
  "nip11_body P cfg =
     J_Object
       [(''name'', J_String ''memlay''),
        (''description'', J_String ''High-performance in-memory Nostr relay''),
        (''software'', J_String ''https://github.com/v0l/memlay''),
        (''version'', J_String (pe_version P)),
        (''supported_nips'', J_Array (map J_Number SUPPORTED_NIPS)),
        (''limitation'', J_Object
          [(''max_subscriptions'', J_Number (unat (rc_max_subscriptions cfg))),
           (''max_limit'', J_Number (unat (rc_max_limit cfg))),
           (''max_message_length'', J_Number MAX_MESSAGE_BYTES),
           (''idle_timeout'', J_Number (unat (rc_idle_timeout cfg)))])]"

definition nip11_handler :: "page_env \<Rightarrow> relay_config \<Rightarrow> page" where
  "nip11_handler P cfg =
     \<lparr>pg_headers =
        [(''Content-Type'', ''application/nostr+json''), (''Access-Control-Allow-Origin'', ''*''),
         (''Access-Control-Allow-Headers'', ''*''), (''Access-Control-Allow-Methods'', ''GET'')],
      pg_body = B_Json (nip11_body P cfg)\<rparr>"

text \<open>\<open>{nip:02}\<close> pads to two digits.\<close>

definition pad2 :: "nat \<Rightarrow> string" where
  "pad2 n = (if n < 10 then ''0'' else []) @ show_nat n"

definition nip_pill :: "nat \<Rightarrow> string" where
  "nip_pill n = ''<span class='' @ quoted ''pill'' @ ''>NIP-'' @ pad2 n @ ''</span>''"

definition newline :: string where
  "newline = [char_of (10 :: nat)]"

definition metrics_section :: string where
  "metrics_section =
     ''<section>'' @ newline @ ''    <h2>Metrics</h2>'' @ newline @
     ''    <div class='' @ quoted ''row'' @ ''>'' @ newline @
     ''      <span>Graphs</span>'' @ newline @
     ''      <a href='' @ quoted ''/metrics'' @ '' target='' @ quoted ''_blank'' @
     ''>View Prometheus Metrics</a>'' @ newline @
     ''    </div>'' @ newline @ ''  </section>''"

definition landing_page :: "page_env \<Rightarrow> relay_config \<Rightarrow> page" where
  "landing_page P cfg =
     (let html0 = str_replace ''{{VERSION}}'' (pe_version P) (pe_index_html P);
          html1 = str_replace ''{{METRICS_SECTION}}'' metrics_section html0;
          nips = concat (map nip_pill SUPPORTED_NIPS);
          html2 = str_replace ''{{NIPS}}'' nips html1
      in \<lparr>pg_headers = [(''Content-Type'', ''text/html; charset=utf-8''),
            (''Cache-Control'', ''no-cache, no-store, must-revalidate'')],
          pg_body = B_Text html2\<rparr>)"

definition stats_body :: "event_store \<Rightarrow> json" where
  "stats_body st =
     (let store_memory = unat (memory_bytes (st_index st)); limit = unat (max_bytes (st_config st)) in
      J_Object
        [(''events'', J_Number (unat (store_len st))),
         (''tombstones'', J_Number (unat (tombstone_count (st_index st)))),
         (''store_bytes'', J_Number store_memory),
         (''max_bytes'', J_Number limit),
         (''payload_budget'', J_Number (unat (payload_budget st))),
         (''amplification'', J_Milli (amplification_milli st)),
         (''process_memory'', J_Number (unat (cached_rss_bytes st))),
         (''memory_limit'', J_Number limit),
         (''memory_used'', J_Number store_memory)])"

definition stats_handler :: "event_store \<Rightarrow> page" where
  "stats_handler st =
     \<lparr>pg_headers = [(''Access-Control-Allow-Origin'', ''*'')], pg_body = B_Json (stats_body st)\<rparr>"

definition metrics_handler :: "string \<Rightarrow> page" where
  "metrics_handler gathered =
     \<lparr>pg_headers = [(''Content-Type'', ''text/plain; version=0.0.4'')], pg_body = B_Text gathered\<rparr>"

text \<open>\<open>upgrade\<close>: whether the request was a valid WebSocket upgrade.\<close>

definition root_handler ::
    "page_env \<Rightarrow> relay_config \<Rightarrow> 'n proxy_env \<Rightarrow> 'n trusted_proxies \<Rightarrow> socket_addr \<Rightarrow>
     (string \<Rightarrow> string option) \<Rightarrow> bool \<Rightarrow> root_response" where
  "root_handler P cfg E T addr hdr upgrade =
     (let wants_info = (case hdr ''accept'' of
                          Some v \<Rightarrow> str_contains ''application/nostr+json'' v | None \<Rightarrow> False)
      in if wants_info then R_Page (nip11_handler P cfg)
         else
           let addr' = client_addr E T addr hdr in
           if upgrade then R_Upgrade addr' else R_Page (landing_page P cfg))"

text \<open>The routes of \<open>Relay::router\<close>; another path is not found.\<close>

definition relay_router ::
    "page_env \<Rightarrow> relay_config \<Rightarrow> 'n proxy_env \<Rightarrow> event_store \<Rightarrow> string \<Rightarrow> string \<Rightarrow> socket_addr \<Rightarrow>
     (string \<Rightarrow> string option) \<Rightarrow> bool \<Rightarrow> root_response option" where
  "relay_router P cfg E st gathered path addr hdr upgrade =
     (let T = proxies_parse E (rc_trusted_proxies cfg) in
      if path = ''/stats'' then Some (R_Page (stats_handler st))
      else if path = ''/'' then Some (root_handler P cfg E T addr hdr upgrade)
      else if path = ''/metrics'' then Some (R_Page (metrics_handler gathered))
      else None)"

section \<open>What the documents say\<close>

lemma nip11_limits:
  "json_at (nip11_body P cfg) [''limitation'', ''max_subscriptions''] = Some (J_Number (unat (rc_max_subscriptions cfg)))"
  "json_at (nip11_body P cfg) [''limitation'', ''max_limit''] = Some (J_Number (unat (rc_max_limit cfg)))"
  "json_at (nip11_body P cfg) [''limitation'', ''max_message_length''] = Some (J_Number MAX_MESSAGE_BYTES)"
  "json_at (nip11_body P cfg) [''limitation'', ''idle_timeout''] = Some (J_Number (unat (rc_idle_timeout cfg)))"
  by (simp_all add: json_at_def nip11_body_def)

lemma stats_values:
  "json_at (stats_body st) [''events''] = Some (J_Number (unat (store_len st)))"
  "json_at (stats_body st) [''tombstones''] = Some (J_Number (unat (tombstone_count (st_index st))))"
  "json_at (stats_body st) [''store_bytes''] = Some (J_Number (unat (memory_bytes (st_index st))))"
  "json_at (stats_body st) [''memory_used''] = Some (J_Number (unat (memory_bytes (st_index st))))"
  by (simp_all add: json_at_def stats_body_def Let_def)

end
