(* ===== verification/Http_Properties.thy ===== *)
theory Http_Properties
  imports Http_Pages Relay_Properties
begin

text \<open>
  What the documents that the relay serves say is so: the limits of the NIP-11 document are
  enforced, and the figures of the statistics page are those of the store.
\<close>

text \<open>
  C25. The relay keeps to the three limits on requests that its NIP-11 document advertises, whatever
  the other threads do: in every reachable state no connection has more subscriptions than
  \<open>max_subscriptions\<close> and no filter a larger limit than \<open>max_limit\<close>, and a message longer than
  \<open>max_message_length\<close> is answered with a notice and nothing else. The fourth advertised value,
  \<open>idle_timeout\<close>, is a time and not covered.
\<close>

theorem nip11_request_limits_hold:
  assumes "parallel_reach V r"
  shows "\<exists>subs limit len.
    json_at (nip11_body P (en_config V)) [''limitation'', ''max_subscriptions''] = Some (J_Number subs) \<and>
    json_at (nip11_body P (en_config V)) [''limitation'', ''max_limit''] = Some (J_Number limit) \<and>
    json_at (nip11_body P (en_config V)) [''limitation'', ''max_message_length''] = Some (J_Number len) \<and>
    (\<forall>i t. rl_conns r i = Some t \<longrightarrow>
       (\<exists>c. fo_states (rl_fanout r) i = Some c \<and> sub_count c \<le> subs \<and>
          (\<forall>sub \<in> set (cs_subs c). \<forall>f \<in> set (snd sub). \<exists>l. f_limit f = Some l \<and> unat l \<le> limit))) \<and>
    (\<forall>i text. len < length text \<longrightarrow>
       handle_text V i text r =
         send_notice V i ''message too large'' (update_task i (\<lambda>t. t\<lparr>ct_active := True\<rparr>) r))"
proof -
  have conn: "\<exists>c. fo_states (rl_fanout r) i = Some c \<and>
      sub_count c \<le> unat (rc_max_subscriptions (en_config V)) \<and>
      (\<forall>sub \<in> set (cs_subs c). \<forall>f \<in> set (snd sub). \<exists>l. f_limit f = Some l \<and> unat l \<le> unat (rc_max_limit (en_config V)))"
    if "rl_conns r i = Some t" for i t
    using connection_limits [OF parallel_reach_inv [OF assms] that] unfolding word_le_nat_alt by blast
  have "handle_text V i msg r = send_notice V i ''message too large'' (update_task i (\<lambda>t. t\<lparr>ct_active := True\<rparr>) r)"
    if "MAX_MESSAGE_BYTES < length msg" for i msg
    using that by (simp add: handle_text_def Let_def)
  with conn show ?thesis unfolding nip11_limits by blast
qed

definition sample_pages :: page_env where
  "sample_pages = \<lparr>pe_version = ''0.2.0'', pe_index_html = ''v{{VERSION}}''\<rparr>"

theorem nip11_request_limits_hold_witness:
  "\<exists>subs. json_at (nip11_body sample_pages (en_config sample_env)) [''limitation'', ''max_subscriptions''] = Some (J_Number subs) \<and>
     (\<exists>c. fo_states (rl_fanout one_conn) 1 = Some c \<and> sub_count c \<le> subs)"
proof -
  obtain t where "rl_conns one_conn 1 = Some t" using one_conn_task by blast
  then show ?thesis
    using nip11_request_limits_hold [OF relay_reach_parallel [OF one_conn_reach], of sample_pages] by force
qed

text \<open>
  The statistics page is exact: in every reachable state whose store fits the address space it
  reports the number of stored events, of refused ids and of bytes in the stored events' JSON.
\<close>

theorem stats_are_exact:
  assumes "relay_reach V U st0 r" "inj_on ev_id U" "index_inv (en_ext V) U (st_index st0)"
    and "card (stored (st_index (rl_store r))) < 2 ^ 64" "payload (stored (st_index (rl_store r))) < 2 ^ 64"
  shows "json_at (stats_body (rl_store r)) [''events''] = Some (J_Number (card (stored (st_index (rl_store r))))) \<and>
    json_at (stats_body (rl_store r)) [''tombstones''] =
      Some (J_Number (card (ts_ids (tombstones (st_index (rl_store r)))))) \<and>
    json_at (stats_body (rl_store r)) [''store_bytes''] = Some (J_Number (payload (stored (st_index (rl_store r))))) \<and>
    json_at (stats_body (rl_store r)) [''memory_used''] = json_at (stats_body (rl_store r)) [''store_bytes'']"
proof -
  have "index_inv (en_ext V) U (st_index (rl_store r))"
    using relay_reach_inv [OF assms(1-3)] by (simp add: relay_inv_def)
  then have core: "memory_bytes (st_index (rl_store r)) = of_nat (payload (stored (st_index (rl_store r))))"
    "event_count (st_index (rl_store r)) = of_nat (card (stored (st_index (rl_store r))))"
    "tombs_inv (tombstones (st_index (rl_store r)))"
    by (simp_all add: index_inv_def index_core_def)
  have "card (ts_ids (tombstones (st_index (rl_store r)))) \<le> MAX_TOMBSTONES"
    using core(3) distinct_card by (fastforce simp: tombs_inv_def)
  then show ?thesis
    using assms(4,5) core
    by (simp add: stats_values store_len_def tombstone_count_def tombs_len_def unat_of_nat MAX_TOMBSTONES_def)
qed

theorem stats_are_exact_witness:
  "json_at (stats_body (rl_store one_conn)) [''events''] = Some (J_Number 1)"
proof -
  have "rl_store one_conn = note_store" by (simp add: one_conn_def relay_new_def)
  moreover have "payload {sample_note} < 2 ^ 64" by (simp add: payload_def sample_note_def)
  ultimately show ?thesis
    using stats_are_exact [OF one_conn_reach sample_inj] note_store_inv by (simp add: note_store_stored)
qed

end
