(* ===== verification/Metrics.thy ===== *)
theory Metrics
  imports Memlay_Prelude
begin

text \<open>
  The exported metrics (\<^verbatim>\<open>src/src/metrics.rs\<close>). The registry belongs to the prometheus crate: its
  state has a type parameter and its operations are the record \<open>prometheus\<close>, of which \<open>prometheus_ok\<close>
  states what the documentation of the crate promises. A \<open>lazy_static\<close> metric registers itself at
  its first use and panics (\<open>None\<close>) when that fails. Counters and gauges are \<^verbatim>\<open>f64\<close> in the crate;
  they only move in steps of one, which is exact below \<open>2 ^ 53\<close>, and are integers here. A duration
  is compared with the bounds of a histogram exactly; the crate compares their roundings to \<^verbatim>\<open>f64\<close>.
\<close>

section \<open>The metrics\<close>

datatype counter =
  EVENTS_SAVED | EVENTS_OUTPUT | IDLE_DISCONNECTS | SUBS_OVERFLOWED | EVENTS_DROPPED
| EVENTS_DELETED | DELETION_REQUESTS

datatype histogram = WRITE_DELAY | TTEOSE | DISK_PERSISTENCE_TIME

datatype metric = ACTIVE_CONNECTIONS | Counter counter | Histogram histogram

record metric_opts =
  mo_name :: string
  mo_help :: string

text \<open>Bucket bounds in units of 0.1 ms.\<close>

datatype collector = Gauge_Of metric_opts | Counter_Of metric_opts | Histogram_Of metric_opts "nat list"

fun counter_opts :: "counter \<Rightarrow> metric_opts" where
  "counter_opts EVENTS_SAVED =
     \<lparr>mo_name = ''memlay_events_saved_total'', mo_help = ''Total number of events saved''\<rparr>"
| "counter_opts EVENTS_OUTPUT =
     \<lparr>mo_name = ''memlay_events_output_total'', mo_help = ''Total number of events output''\<rparr>"
| "counter_opts IDLE_DISCONNECTS =
     \<lparr>mo_name = ''memlay_idle_disconnects_total'',
      mo_help = ''Connections closed for sending no REQ or EVENT within the idle timeout''\<rparr>"
| "counter_opts SUBS_OVERFLOWED =
     \<lparr>mo_name = ''memlay_subscriptions_overflowed_total'',
      mo_help = ''Subscriptions closed because the client could not keep up with live delivery''\<rparr>"
| "counter_opts EVENTS_DROPPED =
     \<lparr>mo_name = ''memlay_events_dropped_total'',
      mo_help = ''Live events dropped because a connection's send queue was full''\<rparr>"
| "counter_opts EVENTS_DELETED =
     \<lparr>mo_name = ''memlay_events_deleted_total'',
      mo_help = ''Events removed by NIP-09 deletion requests''\<rparr>"
| "counter_opts DELETION_REQUESTS =
     \<lparr>mo_name = ''memlay_deletion_requests_total'',
      mo_help = ''NIP-09 kind-5 deletion requests accepted''\<rparr>"

fun histogram_opts :: "histogram \<Rightarrow> metric_opts \<times> nat list" where
  "histogram_opts WRITE_DELAY =
     (\<lparr>mo_name = ''memlay_write_delay_seconds'', mo_help = ''Histogram of write delay in seconds''\<rparr>,
      [1, 5, 10, 50, 100, 500, 1000, 5000, 10000])"
| "histogram_opts TTEOSE =
     (\<lparr>mo_name = ''memlay_tteose_seconds'',
       mo_help = ''Time To EOSE (End of Stored Events) in seconds''\<rparr>,
      [10, 50, 100, 500, 1000, 5000, 10000, 25000, 50000, 100000])"
| "histogram_opts DISK_PERSISTENCE_TIME =
     (\<lparr>mo_name = ''memlay_disk_persistence_seconds'',
       mo_help = ''Time to persist events to disk in seconds''\<rparr>,
      [100, 500, 1000, 5000, 10000, 25000, 50000, 100000, 300000])"

fun metric_collector :: "metric \<Rightarrow> collector" where
  "metric_collector ACTIVE_CONNECTIONS =
     Gauge_Of \<lparr>mo_name = ''memlay_active_connections'',
               mo_help = ''Number of active WebSocket connections''\<rparr>"
| "metric_collector (Counter c) = Counter_Of (counter_opts c)"
| "metric_collector (Histogram h) = Histogram_Of (fst (histogram_opts h)) (snd (histogram_opts h))"

fun collector_opts :: "collector \<Rightarrow> metric_opts" where
  "collector_opts (Gauge_Of opts) = opts"
| "collector_opts (Counter_Of opts) = opts"
| "collector_opts (Histogram_Of opts bs) = opts"

definition metric_name :: "metric \<Rightarrow> string" where
  "metric_name m = mo_name (collector_opts (metric_collector m))"

section \<open>The registry\<close>

text \<open>
  What \<open>gather\<close> shows of a metric: the value of a gauge or of a counter; for a histogram the number of
  observations at or below each bound and their total number.
\<close>

datatype sample = Gauge_Value int | Counter_Value nat | Histogram_Value "nat list" nat

record 'r prometheus =
  pr_register :: "collector \<Rightarrow> 'r \<Rightarrow> 'r option"
  pr_inc :: "string \<Rightarrow> 'r \<Rightarrow> 'r"
  pr_gauge_add :: "string \<Rightarrow> int \<Rightarrow> 'r \<Rightarrow> 'r"
  pr_gauge_set :: "string \<Rightarrow> int \<Rightarrow> 'r \<Rightarrow> 'r"
  pr_observe :: "string \<Rightarrow> nat \<Rightarrow> 'r \<Rightarrow> 'r"
  pr_gather :: "'r \<Rightarrow> (string \<times> sample) list"
  pr_encode :: "(string \<times> sample) list \<Rightarrow> bool \<times> bytes"

text \<open>The metrics that have been initialised, and the default registry.\<close>

record 'r metrics =
  mx_ready :: "metric set"
  mx_reg :: 'r

text \<open>The dereference of a \<open>lazy_static\<close>.\<close>

definition metric_ref :: "'r prometheus \<Rightarrow> metric \<Rightarrow> 'r metrics \<Rightarrow> 'r metrics option" where
  "metric_ref P m s =
     (if m \<in> mx_ready s then Some s
      else map_option (\<lambda>r. \<lparr>mx_ready = insert m (mx_ready s), mx_reg = r\<rparr>)
             (pr_register P (metric_collector m) (mx_reg s)))"

text \<open>The calls that the program makes; a duration in nanoseconds.\<close>

datatype metric_call =
  Inc counter | Observe histogram nat | Gauge_Inc | Gauge_Dec | Gauge_Set usize

fun call_metric :: "metric_call \<Rightarrow> metric" where
  "call_metric (Inc c) = Counter c"
| "call_metric (Observe h d) = Histogram h"
| "call_metric Gauge_Inc = ACTIVE_CONNECTIONS"
| "call_metric Gauge_Dec = ACTIVE_CONNECTIONS"
| "call_metric (Gauge_Set n) = ACTIVE_CONNECTIONS"

fun call_update :: "'r prometheus \<Rightarrow> metric_call \<Rightarrow> 'r \<Rightarrow> 'r" where
  "call_update P (Inc c) r = pr_inc P (metric_name (Counter c)) r"
| "call_update P (Observe h d) r = pr_observe P (metric_name (Histogram h)) d r"
| "call_update P Gauge_Inc r = pr_gauge_add P (metric_name ACTIVE_CONNECTIONS) 1 r"
| "call_update P Gauge_Dec r = pr_gauge_add P (metric_name ACTIVE_CONNECTIONS) (- 1) r"
| "call_update P (Gauge_Set n) r = pr_gauge_set P (metric_name ACTIVE_CONNECTIONS) (uint n) r"

definition make_call :: "'r prometheus \<Rightarrow> metric_call \<Rightarrow> 'r metrics \<Rightarrow> 'r metrics option" where
  "make_call P c s =
     map_option (\<lambda>s'. s'\<lparr>mx_reg := call_update P c (mx_reg s')\<rparr>) (metric_ref P (call_metric c) s)"

text \<open>\<open>init\<close> touches every metric, in the order of the source.\<close>

definition all_metrics :: "metric list" where
  "all_metrics =
     [ACTIVE_CONNECTIONS, Counter EVENTS_SAVED, Counter EVENTS_OUTPUT, Counter IDLE_DISCONNECTS,
      Counter SUBS_OVERFLOWED, Counter EVENTS_DROPPED, Counter EVENTS_DELETED,
      Counter DELETION_REQUESTS, Histogram WRITE_DELAY, Histogram TTEOSE,
      Histogram DISK_PERSISTENCE_TIME]"

definition metrics_init :: "'r prometheus \<Rightarrow> 'r metrics \<Rightarrow> 'r metrics option" where
  "metrics_init P s = fold_opt (metric_ref P) all_metrics s"

text \<open>
  The result of \<open>encode\<close> is dropped, what it has written is kept; bytes that are not UTF-8 give the
  empty string.
\<close>

definition gather_metrics :: "'r prometheus \<Rightarrow> 'r metrics \<Rightarrow> string" where
  "gather_metrics P s =
     (let (result, buffer) = pr_encode P (pr_gather P (mx_reg s))
      in if utf8_valid buffer then map (\<lambda>b. char_of (unat b)) buffer else [])"

section \<open>What the crate promises\<close>

definition name_start :: "char \<Rightarrow> bool" where
  "name_start c \<longleftrightarrow> c \<in> set ''abcdefghijklmnopqrstuvwxyzABCDEFGHIJKLMNOPQRSTUVWXYZ_:''"

text \<open>Names of metrics, help texts and bucket bounds that a registration accepts.\<close>

definition opts_valid :: "metric_opts \<Rightarrow> bool" where
  "opts_valid opts \<longleftrightarrow>
     mo_help opts \<noteq> [] \<and>
     (case mo_name opts of
        [] \<Rightarrow> False
      | c # cs \<Rightarrow> name_start c \<and> list_all (\<lambda>c. name_start c \<or> c \<in> set ''0123456789'') cs)"

fun collector_valid :: "collector \<Rightarrow> bool" where
  "collector_valid (Gauge_Of opts) = opts_valid opts"
| "collector_valid (Counter_Of opts) = opts_valid opts"
| "collector_valid (Histogram_Of opts bs) = (opts_valid opts \<and> bs \<noteq> [] \<and> sorted_wrt (<) bs)"

fun zero_sample :: "collector \<Rightarrow> sample" where
  "zero_sample (Gauge_Of opts) = Gauge_Value 0"
| "zero_sample (Counter_Of opts) = Counter_Value 0"
| "zero_sample (Histogram_Of opts bs) = Histogram_Value (replicate (length bs) 0) 0"

text \<open>An observation of \<open>d\<close> nanoseconds counts in every bucket whose bound it does not exceed.\<close>

fun bump :: "nat list \<Rightarrow> nat \<Rightarrow> nat list \<Rightarrow> nat list" where
  "bump (b # bs) d (k # ks) = (if d \<le> b * 100000 then k + 1 else k) # bump bs d ks"
| "bump bs d ks = []"

abbreviation exported :: "'r prometheus \<Rightarrow> 'r \<Rightarrow> string \<rightharpoonup> sample" where
  "exported P r \<equiv> map_of (pr_gather P r)"

definition prometheus_ok :: "'r prometheus \<Rightarrow> bool" where
  "prometheus_ok P \<longleftrightarrow>
     (\<forall>d r. exported P r (mo_name (collector_opts d)) = None \<longrightarrow> collector_valid d \<longrightarrow>
        (\<exists>r'. pr_register P d r = Some r' \<and>
           exported P r' = (exported P r)(mo_name (collector_opts d) \<mapsto> zero_sample d))) \<and>
     (\<forall>d r. exported P r (mo_name (collector_opts d)) \<noteq> None \<longrightarrow> pr_register P d r = None) \<and>
     (\<forall>n r k. exported P r n = Some (Counter_Value k) \<longrightarrow>
        exported P (pr_inc P n r) = (exported P r)(n \<mapsto> Counter_Value (k + 1))) \<and>
     (\<forall>n r v d. exported P r n = Some (Gauge_Value v) \<longrightarrow>
        exported P (pr_gauge_add P n d r) = (exported P r)(n \<mapsto> Gauge_Value (v + d)) \<and>
        exported P (pr_gauge_set P n d r) = (exported P r)(n \<mapsto> Gauge_Value d)) \<and>
     (\<forall>h r ks k d. exported P r (metric_name (Histogram h)) = Some (Histogram_Value ks k) \<longrightarrow>
        exported P (pr_observe P (metric_name (Histogram h)) d r) =
          (exported P r)(metric_name (Histogram h) \<mapsto>
             Histogram_Value (bump (snd (histogram_opts h)) d ks) (k + 1)))"

section \<open>Every call is exported\<close>

text \<open>The sample of a metric after a sequence of calls.\<close>

fun gauge_after :: "metric_call list \<Rightarrow> int \<Rightarrow> int" where
  "gauge_after [] v = v"
| "gauge_after (Gauge_Inc # cs) v = gauge_after cs (v + 1)"
| "gauge_after (Gauge_Dec # cs) v = gauge_after cs (v - 1)"
| "gauge_after (Gauge_Set n # cs) v = gauge_after cs (uint n)"
| "gauge_after (c # cs) v = gauge_after cs v"

definition observed :: "histogram \<Rightarrow> metric_call list \<Rightarrow> nat list" where
  "observed h cs = List.map_filter (\<lambda>c. case c of Observe h' d \<Rightarrow> if h' = h then Some d else None | _ \<Rightarrow> None) cs"

fun sample_after :: "metric \<Rightarrow> metric_call list \<Rightarrow> sample" where
  "sample_after ACTIVE_CONNECTIONS cs = Gauge_Value (gauge_after cs 0)"
| "sample_after (Counter c) cs = Counter_Value (count_list cs (Inc c))"
| "sample_after (Histogram h) cs =
     Histogram_Value
       (map (\<lambda>b. length (filter (\<lambda>d. d \<le> b * 100000) (observed h cs))) (snd (histogram_opts h)))
       (length (observed h cs))"

lemma names_distinct: "distinct (map metric_name all_metrics)"
  by (simp add: all_metrics_def metric_name_def)

lemma all_metrics_distinct: "distinct all_metrics"
  using names_distinct by (simp add: distinct_map)

lemma all_metrics_complete: "m \<in> set all_metrics"
proof (cases m)
  case (Counter c)
  then show ?thesis by (cases c) (simp_all add: all_metrics_def)
next
  case (Histogram h)
  then show ?thesis by (cases h) (simp_all add: all_metrics_def)
qed (simp add: all_metrics_def)

lemma metric_name_inj: "metric_name m = metric_name m' \<longleftrightarrow> m = m'"
  using names_distinct all_metrics_complete [of m] all_metrics_complete [of m']
  by (auto simp: distinct_map dest: inj_onD)

lemma metric_collectors_valid: "collector_valid (metric_collector m)"
proof (cases m)
  case (Counter c)
  then show ?thesis by (cases c) (simp_all add: opts_valid_def name_start_def)
next
  case (Histogram h)
  then show ?thesis by (cases h) (simp_all add: opts_valid_def name_start_def)
qed (simp add: opts_valid_def name_start_def)

lemma metric_ref_new:
  assumes "prometheus_ok P" "exported P (mx_reg s) (metric_name m) = None" "m \<notin> mx_ready s"
  obtains r where "metric_ref P m s = Some \<lparr>mx_ready = insert m (mx_ready s), mx_reg = r\<rparr>"
    and "exported P r = (exported P (mx_reg s))(metric_name m \<mapsto> zero_sample (metric_collector m))"
  using assms metric_collectors_valid [of m] that
  unfolding prometheus_ok_def metric_ref_def metric_name_def by (metis option.simps(9))

text \<open>
  The registry after \<open>init\<close> and the calls \<open>cs\<close>; what other code has registered under names of its
  own stays.
\<close>

definition registry_shows :: "'r prometheus \<Rightarrow> 'r \<Rightarrow> metric_call list \<Rightarrow> 'r metrics \<Rightarrow> bool" where
  "registry_shows P r0 cs s \<longleftrightarrow>
     mx_ready s = UNIV \<and> (\<forall>m. exported P (mx_reg s) (metric_name m) = Some (sample_after m cs)) \<and>
     (\<forall>n. n \<notin> range metric_name \<longrightarrow> exported P (mx_reg s) n = exported P r0 n)"

lemma sample_after_nil: "sample_after m [] = zero_sample (metric_collector m)"
  by (cases m) (simp_all add: observed_def map_filter_simps map_replicate_const)

lemma metrics_init_tracks:
  assumes ok: "prometheus_ok P" and fresh: "\<And>m. exported P r0 (metric_name m) = None"
  obtains s where "metrics_init P \<lparr>mx_ready = {}, mx_reg = r0\<rparr> = Some s" "registry_shows P r0 [] s"
proof -
  have "\<exists>s. fold_opt (metric_ref P) ms \<lparr>mx_ready = {}, mx_reg = r0\<rparr> = Some s \<and> mx_ready s = set ms \<and>
      (\<forall>m. exported P (mx_reg s) (metric_name m) =
         (if m \<in> set ms then Some (sample_after m []) else None)) \<and>
      (\<forall>n. n \<notin> range metric_name \<longrightarrow> exported P (mx_reg s) n = exported P r0 n)"
    if "distinct ms" for ms
    using that
  proof (induction ms rule: rev_induct)
    case (snoc m ms)
    then obtain s where s: "fold_opt (metric_ref P) ms \<lparr>mx_ready = {}, mx_reg = r0\<rparr> = Some s"
        "mx_ready s = set ms"
        "\<forall>m. exported P (mx_reg s) (metric_name m) =
           (if m \<in> set ms then Some (sample_after m []) else None)"
        "\<forall>n. n \<notin> range metric_name \<longrightarrow> exported P (mx_reg s) n = exported P r0 n"
      by auto
    have "exported P (mx_reg s) (metric_name m) = None" "m \<notin> mx_ready s"
      using snoc.prems s(2,3) by simp_all
    from metric_ref_new [OF ok this] obtain r where r:
        "metric_ref P m s = Some \<lparr>mx_ready = insert m (mx_ready s), mx_reg = r\<rparr>"
        "exported P r = (exported P (mx_reg s))(metric_name m \<mapsto> zero_sample (metric_collector m))" .
    then show ?case
      using s by (auto simp: fold_opt_append metric_name_inj sample_after_nil)
  qed (use fresh in simp)
  from this [OF all_metrics_distinct]
  obtain s where "metrics_init P \<lparr>mx_ready = {}, mx_reg = r0\<rparr> = Some s" "registry_shows P r0 [] s"
    using all_metrics_complete by (auto simp: metrics_init_def registry_shows_def)
  then show thesis by (rule that)
qed

lemma bump_counts:
  "bump bs d (map (\<lambda>b. length (filter (\<lambda>d. d \<le> b * 100000) ds)) bs) =
     map (\<lambda>b. length (filter (\<lambda>d. d \<le> b * 100000) (ds @ [d]))) bs"
  by (induction bs) auto

lemma observed_append: "observed h (cs @ cs') = observed h cs @ observed h cs'"
  by (simp add: observed_def map_filter_def)

lemma gauge_after_append: "gauge_after (cs @ cs') v = gauge_after cs' (gauge_after cs v)"
  by (induction cs v rule: gauge_after.induct) auto

lemma sample_after_other:
  assumes "m \<noteq> call_metric c"
  shows "sample_after m (cs @ [c]) = sample_after m cs"
proof (cases m)
  case ACTIVE_CONNECTIONS
  then show ?thesis using assms by (cases c) (auto simp: gauge_after_append)
next
  case (Counter k)
  then show ?thesis using assms by (cases c) auto
next
  case (Histogram h)
  then have "observed h [c] = []" using assms by (cases c) (auto simp: observed_def map_filter_simps)
  then show ?thesis using Histogram by (simp add: observed_append)
qed

lemma call_update_sample:
  assumes "prometheus_ok P" "exported P r (metric_name (call_metric c)) = Some (sample_after (call_metric c) cs)"
  shows "exported P (call_update P c r) =
    (exported P r)(metric_name (call_metric c) \<mapsto> sample_after (call_metric c) (cs @ [c]))"
proof (cases c)
  case (Inc k)
  then show ?thesis using assms unfolding prometheus_ok_def by simp
next
  case (Observe h d)
  then show ?thesis
    using assms bump_counts [of "snd (histogram_opts h)" d "observed h cs"]
    unfolding prometheus_ok_def by (simp add: observed_append) (simp add: observed_def map_filter_simps)
qed (use assms in \<open>simp_all add: prometheus_ok_def gauge_after_append\<close>)

lemma make_call_tracks:
  assumes ok: "prometheus_ok P" and s: "registry_shows P r0 cs s"
  obtains s' where "make_call P c s = Some s'" "registry_shows P r0 (cs @ [c]) s'"
proof -
  let ?s' = "s\<lparr>mx_reg := call_update P c (mx_reg s)\<rparr>"
  have e: "exported P (mx_reg ?s') =
      (exported P (mx_reg s))(metric_name (call_metric c) \<mapsto> sample_after (call_metric c) (cs @ [c]))"
    using call_update_sample [OF ok, of "mx_reg s" c cs] s by (simp add: registry_shows_def)
  have "exported P (mx_reg ?s') (metric_name m) = Some (sample_after m (cs @ [c]))" for m
    using s sample_after_other [of m c cs] unfolding e registry_shows_def
    by (cases "m = call_metric c") (auto simp: metric_name_inj)
  moreover have "exported P (mx_reg ?s') n = exported P r0 n" if "n \<notin> range metric_name" for n
    using s that unfolding e registry_shows_def by auto
  ultimately have "registry_shows P r0 (cs @ [c]) ?s'" using s by (simp add: registry_shows_def)
  moreover have "make_call P c s = Some ?s'" using s by (simp add: make_call_def metric_ref_def registry_shows_def)
  ultimately show thesis by (rule that [rotated])
qed

lemma metric_calls_track:
  assumes ok: "prometheus_ok P" and s: "registry_shows P r0 cs s"
  shows "\<exists>s'. fold_opt (make_call P) cs' s = Some s' \<and> registry_shows P r0 (cs @ cs') s'"
  using s
proof (induction cs' arbitrary: cs s)
  case (Cons c cs')
  from make_call_tracks [OF ok Cons.prems, of c] obtain s1
    where "make_call P c s = Some s1" "registry_shows P r0 (cs @ [c]) s1" .
  with Cons.IH [of "cs @ [c]" s1] show ?case by simp
qed simp

end
