(* ===== verification/Relay_Metrics.thy ===== *)
theory Relay_Metrics
  imports Metrics Relay_Pipeline
begin

text \<open>
  The calls to \<^verbatim>\<open>metrics.rs\<close> in the rest of the program: the operations that make some, each with the
  calls it makes, in order. Dropping the calls gives the operations of the other theories back.
  A measured duration is an argument.
\<close>

section \<open>The store\<close>

type_synonym 'a metered = "'a \<times> metric_call list"

definition store_insert_m ::
    "'x ext_scheme \<Rightarrow> nat \<Rightarrow> event \<Rightarrow> event_store \<Rightarrow> (insert_result \<times> event_store) metered" where
  "store_insert_m X elapsed e st =
     (let (r, st') = store_insert X e st
      in ((r, st'),
          case r of R_Stored _ _ \<Rightarrow> [Observe WRITE_DELAY elapsed, Inc EVENTS_SAVED] | _ \<Rightarrow> []))"

definition delete_by_id_m ::
    "'x ext_scheme \<Rightarrow> bytes \<Rightarrow> event_index \<Rightarrow> (event option \<times> event_index) metered" where
  "delete_by_id_m X i s =
     (let (removed, s') = delete_by_id X i s
      in ((removed, s'), if removed \<noteq> None then [Inc EVENTS_DELETED] else []))"

definition delete_logged_m ::
    "'x ext_scheme \<Rightarrow> bytes \<Rightarrow> (deletion_outcome \<times> event_store) metered \<Rightarrow>
     (deletion_outcome \<times> event_store) metered" where
  "delete_logged_m X i r =
     (let ((out, st), cs) = r;
          st1 = record_deletion i st;
          ((removed, s), cs') = delete_by_id_m X i (st_index st1);
          st2 = st1\<lparr>st_index := s\<rparr>
      in ((case removed of
             Some _ \<Rightarrow> out\<lparr>deleted_ids := deleted_ids out @ [i]\<rparr> | None \<Rightarrow> out, st2), cs @ cs'))"

definition delete_id_step_m ::
    "'x ext_scheme \<Rightarrow> bytes \<Rightarrow> bytes \<Rightarrow> (deletion_outcome \<times> event_store) metered \<Rightarrow>
     (deletion_outcome \<times> event_store) metered" where
  "delete_id_step_m X author i r =
     (let ((out, st), cs) = r in
      case index_get (st_index st) i of
        Some existing \<Rightarrow>
          if ev_pubkey existing = author then delete_logged_m X i r
          else ((out\<lparr>skipped_foreign := skipped_foreign out + 1\<rparr>, st), cs)
      | None \<Rightarrow> r)"

definition delete_coordinate_step_m ::
    "'x ext_scheme \<Rightarrow> bytes \<Rightarrow> u64 \<Rightarrow> coordinate \<Rightarrow> (deletion_outcome \<times> event_store) metered \<Rightarrow>
     (deletion_outcome \<times> event_store) metered" where
  "delete_coordinate_step_m X author until c r =
     (let ((out, st), cs) = r in
      if co_pubkey c \<noteq> author
      then ((out\<lparr>skipped_foreign := skipped_foreign out + 1\<rparr>, st), cs)
      else
        let targets = coordinate_targets (st_index st) c until in
        if targets = [] then ((out\<lparr>unknown_coordinates := unknown_coordinates out + 1\<rparr>, st), cs)
        else fold (delete_logged_m X) targets r)"

definition apply_deletion_m ::
    "'x ext_scheme \<Rightarrow> (bytes set \<Rightarrow> bytes list) \<Rightarrow> del_request \<Rightarrow> bytes \<Rightarrow> u64 \<Rightarrow>
     event_store \<Rightarrow> (deletion_outcome \<times> event_store) metered" where
  "apply_deletion_m X ord req author until st =
     fold (delete_coordinate_step_m X author until) (dr_coordinates req)
       (fold (delete_id_step_m X author) (ord (dr_ids req))
         ((\<lparr>deleted_ids = [], skipped_foreign = 0, unknown_coordinates = 0\<rparr>, st), []))"

section \<open>Live delivery\<close>

definition record_drop_m :: "nat \<Rightarrow> string \<Rightarrow> 'ch conn_state \<Rightarrow> 'ch conn_state metered" where
  "record_drop_m now sub_id c =
     (record_drop now sub_id c,
      Inc EVENTS_DROPPED # (if sub_id \<in> set (cs_overflow c) then [] else [Inc SUBS_OVERFLOWED]))"

definition deliver_sub_m ::
    "('ch \<Rightarrow> string \<Rightarrow> 'ch option) \<Rightarrow> (conn_id \<Rightarrow> string \<Rightarrow> nat) \<Rightarrow> broadcast_event \<Rightarrow> sub_entry \<Rightarrow>
     'ch conn_state metered \<Rightarrow> 'ch conn_state metered" where
  "deliver_sub_m try_send clock ev sub r =
     (let (c, cs) = r in
      if \<not> sub_matches (be_event ev) sub then r
      else
        (case try_send (cs_tx c) (event_message (fst sub) (be_json ev)) of
           Some ch \<Rightarrow> (c\<lparr>cs_tx := ch, cs_sent := cs_sent c + 1\<rparr>, cs @ [Inc EVENTS_OUTPUT])
         | None \<Rightarrow>
             let (c', cs') = record_drop_m (clock (cs_id c) (fst sub)) (fst sub) c in (c', cs @ cs')))"

definition deliver_m ::
    "('ch \<Rightarrow> string \<Rightarrow> 'ch option) \<Rightarrow> (conn_id \<Rightarrow> string \<Rightarrow> nat) \<Rightarrow> broadcast_event \<Rightarrow>
     'ch conn_state \<Rightarrow> 'ch conn_state metered" where
  "deliver_m try_send clock ev c = fold (deliver_sub_m try_send clock ev) (cs_subs c) (c, [])"

definition publish_step_m ::
    "('ch \<Rightarrow> string \<Rightarrow> 'ch option) \<Rightarrow> (conn_id \<Rightarrow> string \<Rightarrow> nat) \<Rightarrow> broadcast_event \<Rightarrow> conn_id \<Rightarrow>
     'ch fanout metered \<Rightarrow> 'ch fanout metered" where
  "publish_step_m try_send clock ev i r =
     (let (fo, cs) = r in
      case fo_states fo i of
        None \<Rightarrow> r
      | Some c \<Rightarrow>
          let (c', cs') = deliver_m try_send clock ev c
          in (fo\<lparr>fo_states := (fo_states fo)(i \<mapsto> c')\<rparr>, cs @ cs'))"

definition publish_m ::
    "('ch \<Rightarrow> string \<Rightarrow> 'ch option) \<Rightarrow> (conn_id \<Rightarrow> string \<Rightarrow> nat) \<Rightarrow> (conn_id set \<Rightarrow> conn_id list) \<Rightarrow>
     broadcast_event \<Rightarrow> 'ch fanout \<Rightarrow> 'ch fanout metered" where
  "publish_m try_send clock ord ev fo =
     fold (publish_step_m try_send clock ev) (publish_targets ord (be_event ev) fo) (fo, [])"

section \<open>The event pipeline\<close>

type_synonym 'ch router_m = "broadcast_event \<Rightarrow> 'ch fanout \<Rightarrow> 'ch fanout metered"

definition apply_deletion_request_m ::
    "('j, 'ch) relay_env \<Rightarrow> (bytes set \<Rightarrow> bytes list) \<Rightarrow> nat \<Rightarrow> 'ch router_m \<Rightarrow> event \<Rightarrow>
     event_store \<times> 'ch fanout \<Rightarrow> (string \<times> event_store \<times> 'ch fanout) metered" where
  "apply_deletion_request_m V ord elapsed route e sf =
     (let (st, fo) = sf in
      if store_contains st (ev_id e) then
        ((ok_reply V e True ''duplicate: already have this event'', st, fo), [])
      else if store_is_tombstoned st (ev_id e) then
        ((ok_reply V e False ''deleted: this event was removed by a deletion request'', st, fo), [])
      else
        let ((out, st1), cs1) =
              apply_deletion_m (en_ext V) ord (deletion_request (en_ext V) e) (ev_pubkey e)
                (ev_created_at e) st;
            cs2 = cs1 @ [Inc DELETION_REQUESTS];
            ((r, st2), cs3) = store_insert_m (en_ext V) elapsed e st1
        in (case r of
              R_Deleted \<Rightarrow>
                ((ok_reply V e False ''deleted: this event was removed by a deletion request'', st2, fo),
                 cs2 @ cs3)
            | R_Ephemeral \<Rightarrow>
                (let (fo', cs4) = route (broadcast_new e) fo
                 in ((ok_reply V e True [], st2, fo'), cs2 @ cs3 @ cs4))
            | R_Duplicate \<Rightarrow>
                (let (fo', cs4) = route (broadcast_new e) fo
                 in ((ok_reply V e True [], st2, fo'), cs2 @ cs3 @ cs4))
            | R_Stored e' _ \<Rightarrow>
                (let (fo', cs4) = route (broadcast_new e') fo
                 in ((ok_reply V e True
                        (''deleted '' @ show_nat (length (deleted_ids out)) @ '' event(s)''), st2, fo'),
                     cs2 @ cs3 @ cs4))))"

definition process_event_message_m ::
    "('j, 'ch) relay_env \<Rightarrow> (bytes set \<Rightarrow> bytes list) \<Rightarrow> nat \<Rightarrow> 'ch router_m \<Rightarrow> string \<Rightarrow>
     event_store \<times> 'ch fanout \<Rightarrow> (string option \<times> event_store \<times> 'ch fanout) metered" where
  "process_event_message_m V ord elapsed route text sf =
     (case message_from_json (en_ext V) (en_serde V) (en_json V) text of
        Inr (M_Event _ e) \<Rightarrow>
          if is_deletion_request e then
            (let ((reply, sf'), cs) = apply_deletion_request_m V ord elapsed route e sf
             in ((Some reply, sf'), cs))
          else
            let (st, fo) = sf;
                ((r, st1), cs) = store_insert_m (en_ext V) elapsed e st
            in (case r of
                  R_Ephemeral \<Rightarrow>
                    (let (fo', cs') = route (broadcast_new e) fo
                     in ((Some (ok_reply V e True ''ephemeral: will not be stored''), st1, fo'), cs @ cs'))
                | R_Duplicate \<Rightarrow>
                    ((Some (ok_reply V e True ''duplicate: already have this event''), st1, fo), cs)
                | R_Deleted \<Rightarrow>
                    ((Some (ok_reply V e False
                        ''deleted: this event was removed by a deletion request''), st1, fo), cs)
                | R_Stored e' _ \<Rightarrow>
                    (let (fo', cs') = route (broadcast_new e') fo
                     in ((Some (ok_reply V e True []), st1, fo'), cs @ cs')))
      | Inr _ \<Rightarrow> ((None, sf), [])
      | Inl err \<Rightarrow>
          ((Some (message_to_json (en_ext V) (en_json V) (M_Notification err)), sf), []))"

section \<open>Connections and background tasks\<close>

text \<open>
  The calls around a step of a REQ task: an event counts once its send has succeeded, the time to
  EOSE is observed before EOSE is sent.
\<close>

definition req_calls :: "nat \<Rightarrow> req_task \<Rightarrow> metric_call list" where
  "req_calls elapsed t =
     (case rq_pending t of
        e # es \<Rightarrow> [Inc EVENTS_OUTPUT]
      | [] \<Rightarrow> (case rq_filters t of f # fs \<Rightarrow> [] | [] \<Rightarrow> [Observe TTEOSE elapsed]))"

definition idle_calls :: "metric_call list" where
  "idle_calls = [Inc IDLE_DISCONNECTS]"

text \<open>\<open>save_to_disk\<close> and \<open>checkpoint\<close> when their file operations succeed.\<close>

definition save_calls :: "nat \<Rightarrow> event_store \<Rightarrow> metric_call list" where
  "save_calls elapsed st =
     (if persistence_path (st_config st) = None then [] else [Observe DISK_PERSISTENCE_TIME elapsed])"

definition checkpoint_calls :: "nat \<Rightarrow> event_store \<Rightarrow> metric_call list" where
  "checkpoint_calls elapsed st =
     (if persistence_path (st_config st) = None \<or> st_wal st = None then []
      else [Observe DISK_PERSISTENCE_TIME elapsed])"

definition maybe_checkpoint_calls :: "nat \<Rightarrow> event_store \<Rightarrow> metric_call list" where
  "maybe_checkpoint_calls elapsed st =
     (case st_wal st of
        None \<Rightarrow> save_calls elapsed st
      | Some w \<Rightarrow>
          let threshold = max MIN_CHECKPOINT_BYTES (saturating_mul (memory_bytes (st_index st)) 2)
          in if threshold \<le> pending_bytes w then checkpoint_calls elapsed st else [])"

text \<open>The loader ends with a checkpoint when it has applied some record.\<close>

definition load_calls :: "nat \<Rightarrow> nat \<Rightarrow> event_store \<Rightarrow> metric_call list" where
  "load_calls elapsed applied st = (if 0 < applied then checkpoint_calls elapsed st else [])"

section \<open>Metering changes nothing\<close>

definition del_metered :: "deletion_outcome \<times> event_store \<Rightarrow> (deletion_outcome \<times> event_store) metered" where
  "del_metered r = (r, replicate (length (deleted_ids (fst r))) (Inc EVENTS_DELETED))"

lemma delete_logged_metered: "delete_logged_m X i (del_metered r) = del_metered (delete_logged X i r)"
  by (simp add: delete_logged_m_def delete_logged_def del_metered_def delete_by_id_m_def Let_def
      case_prod_beta replicate_append_same split: option.splits)

lemma fold_metered:
  assumes "\<And>x r. fm x (del_metered r) = del_metered (f x r)"
  shows "fold fm xs (del_metered r) = del_metered (fold f xs r)"
  by (induction xs arbitrary: r) (simp_all add: assms)

lemma delete_id_metered: "delete_id_step_m X author i (del_metered r) = del_metered (delete_id_step X author i r)"
  using delete_logged_metered [of X i r]
  by (simp add: delete_id_step_m_def delete_id_step_def case_prod_beta Let_def split: option.splits)
    (simp add: del_metered_def)

lemma delete_coordinate_metered:
  "delete_coordinate_step_m X author until c (del_metered r) =
     del_metered (delete_coordinate_step X author until c r)"
  using fold_metered [of "delete_logged_m X" "delete_logged X", OF delete_logged_metered]
  by (simp add: delete_coordinate_step_m_def delete_coordinate_step_def case_prod_beta Let_def)
    (simp add: del_metered_def)

lemma apply_deletion_metered:
  "apply_deletion_m X ord req author until st = del_metered (apply_deletion X ord req author until st)"
proof -
  let ?o = "\<lparr>deleted_ids = [], skipped_foreign = 0, unknown_coordinates = 0\<rparr>"
  have "((?o, st), []) = del_metered (?o, st)" by (simp add: del_metered_def)
  then show ?thesis
    by (simp add: apply_deletion_m_def apply_deletion_def
        fold_metered [of "delete_id_step_m X author" "delete_id_step X author", OF delete_id_metered]
        fold_metered [of "delete_coordinate_step_m X author until" "delete_coordinate_step X author until",
          OF delete_coordinate_metered])
qed

text \<open>What the calls of a delivery say: they count the messages sent and dropped.\<close>

definition deliveries :: "metric_call list \<Rightarrow> bool" where
  "deliveries cs \<longleftrightarrow>
     set cs \<subseteq> {Inc EVENTS_OUTPUT, Inc EVENTS_DROPPED, Inc SUBS_OVERFLOWED} \<and>
     count_list cs (Inc SUBS_OVERFLOWED) \<le> count_list cs (Inc EVENTS_DROPPED)"

lemma deliveries_append: "deliveries cs \<Longrightarrow> deliveries cs' \<Longrightarrow> deliveries (cs @ cs')"
  by (auto simp: deliveries_def)

lemma deliveries_Nil [simp]: "deliveries []"
  by (simp add: deliveries_def)

definition accounts :: "'ch conn_state \<Rightarrow> 'ch conn_state \<Rightarrow> metric_call list \<Rightarrow> bool" where
  "accounts c c' cs \<longleftrightarrow>
     deliveries cs \<and> cs_sent c' = cs_sent c + of_nat (count_list cs (Inc EVENTS_OUTPUT)) \<and>
     cs_dropped c' = cs_dropped c + of_nat (count_list cs (Inc EVENTS_DROPPED))"

lemma accounts_trans: "accounts c c' cs \<Longrightarrow> accounts c' c'' cs' \<Longrightarrow> accounts c c'' (cs @ cs')"
  by (simp add: accounts_def deliveries_append add.assoc)

lemma deliver_sub_metered:
  "\<exists>cs'. deliver_sub_m ts clock ev sub (c, cs) = (deliver_sub ts clock ev sub c, cs @ cs') \<and>
     accounts c (deliver_sub ts clock ev sub c) cs'"
  by (auto simp: deliver_sub_m_def deliver_sub_def record_drop_m_def record_drop_def accounts_def
      deliveries_def Let_def case_prod_beta split: option.splits)

lemma deliver_subs_metered:
  "\<exists>cs'. fold (deliver_sub_m ts clock ev) subs (c, cs) = (fold (deliver_sub ts clock ev) subs c, cs @ cs') \<and>
     accounts c (fold (deliver_sub ts clock ev) subs c) cs'"
proof (induction subs arbitrary: c cs)
  case (Cons sub subs)
  from deliver_sub_metered [of ts clock ev sub c cs] obtain cs1 where
    1: "deliver_sub_m ts clock ev sub (c, cs) = (deliver_sub ts clock ev sub c, cs @ cs1)"
       "accounts c (deliver_sub ts clock ev sub c) cs1" by blast
  from Cons [of "deliver_sub ts clock ev sub c" "cs @ cs1"] obtain cs2 where
    2: "fold (deliver_sub_m ts clock ev) subs (deliver_sub ts clock ev sub c, cs @ cs1) =
         (fold (deliver_sub ts clock ev) subs (deliver_sub ts clock ev sub c), cs @ cs1 @ cs2)"
       "accounts (deliver_sub ts clock ev sub c) (fold (deliver_sub ts clock ev) subs (deliver_sub ts clock ev sub c)) cs2"
    by auto
  then show ?case using 1 accounts_trans [OF 1(2) 2(2)] by auto
qed (simp add: accounts_def)

lemma deliver_metered:
  obtains cs where "deliver_m ts clock ev c = (deliver ts clock ev c, cs)" "accounts c (deliver ts clock ev c) cs"
  using deliver_subs_metered [of ts clock ev "cs_subs c" c "[]"] that by (auto simp: deliver_m_def deliver_def)

text \<open>The drops of all connections, also of those that have gone.\<close>

definition drop_map :: "'ch fanout \<Rightarrow> conn_id \<rightharpoonup> usize" where
  "drop_map fo i = map_option cs_dropped (fo_states fo i)"

definition all_drops :: "'ch fanout \<Rightarrow> usize" where
  "all_drops fo = (\<Sum>i \<in> dom (drop_map fo). the (drop_map fo i))"

lemma publish_steps_metered:
  assumes "finite (dom (fo_states fo))"
  shows "\<exists>cs'. fold (publish_step_m ts clock ev) is (fo, cs) =
      (fold (\<lambda>i. update_conn i (deliver ts clock ev)) is fo, cs @ cs') \<and> deliveries cs' \<and>
     all_drops (fold (\<lambda>i. update_conn i (deliver ts clock ev)) is fo) =
       all_drops fo + of_nat (count_list cs' (Inc EVENTS_DROPPED))"
  using assms
proof (induction "is" arbitrary: fo cs)
  case (Cons i "is")
  show ?case
  proof (cases "fo_states fo i")
    case None
    then show ?thesis using Cons by (simp add: publish_step_m_def update_conn_def)
  next
    case (Some c)
    obtain cs1 where d: "deliver_m ts clock ev c = (deliver ts clock ev c, cs1)"
      and a: "accounts c (deliver ts clock ev c) cs1" by (rule deliver_metered)
    let ?fo = "fo\<lparr>fo_states := (fo_states fo)(i \<mapsto> deliver ts clock ev c)\<rparr>"
    have dom: "dom (fo_states ?fo) = dom (fo_states fo)" using Some by auto
    have "drop_map ?fo = (drop_map fo)(i \<mapsto> cs_dropped c + of_nat (count_list cs1 (Inc EVENTS_DROPPED)))"
      using a by (auto simp: drop_map_def accounts_def fun_eq_iff)
    moreover have "i \<in> dom (drop_map fo)" "finite (dom (drop_map fo))" "the (drop_map fo i) = cs_dropped c"
      using Some Cons.prems by (auto simp: drop_map_def dom_def)
    ultimately have "all_drops ?fo = all_drops fo + of_nat (count_list cs1 (Inc EVENTS_DROPPED))"
      by (simp add: all_drops_def insert_absorb sum.remove [of _ i] add_ac)
    moreover from Cons.IH [of ?fo "cs @ cs1"] Cons.prems dom obtain cs2 where
      "fold (publish_step_m ts clock ev) is (?fo, cs @ cs1) =
         (fold (\<lambda>i. update_conn i (deliver ts clock ev)) is ?fo, cs @ cs1 @ cs2)" "deliveries cs2"
      "all_drops (fold (\<lambda>i. update_conn i (deliver ts clock ev)) is ?fo) =
         all_drops ?fo + of_nat (count_list cs2 (Inc EVENTS_DROPPED))" by auto
    moreover have "publish_step_m ts clock ev i (fo, cs) = (?fo, cs @ cs1)"
      "update_conn i (deliver ts clock ev) fo = ?fo"
      using Some d by (simp_all add: publish_step_m_def update_conn_def)
    ultimately show ?thesis
      using a by (intro exI [of _ "cs1 @ cs2"]) (simp add: accounts_def deliveries_append)
  qed
qed simp

lemma publish_metered:
  assumes "finite (dom (fo_states fo))"
  obtains cs where "publish_m ts clock ord ev fo = (publish ts clock ord ev fo, cs)" "deliveries cs"
    "all_drops (publish ts clock ord ev fo) = all_drops fo + of_nat (count_list cs (Inc EVENTS_DROPPED))"
  using publish_steps_metered [OF assms, of ts clock ev "publish_targets ord (be_event ev) fo" "[]"] that
  by (auto simp: publish_m_def publish_def)

end
