(* ===== verification/Relay_Counters.thy ===== *)
theory Relay_Counters
  imports Relay_Metrics Relay_Lifecycle
begin

text \<open>
  Runs of the relay with the metric calls they make, and what the calls of a run say about its state.
\<close>

section \<open>Metered steps\<close>

text \<open>
  The rules of \<open>relay_step\<close> with their calls. The calls to the gauge of connections, which a handler
  makes apart from its registration and its count, and the task of \<open>Relay::new\<close> every second apart
  from both, may come at any time and with any value: \<^verbatim>\<open>Connection_Gauge\<close> has them access by access.
\<close>

inductive metered_step ::
    "('j, 'ch) relay_env \<Rightarrow> event set \<Rightarrow> 'ch relay \<Rightarrow> metric_call list \<Rightarrow> 'ch relay \<Rightarrow> bool" for V U where
  connect: "fo_next_id (rl_fanout r) \<noteq> - 1 \<Longrightarrow> metered_step V U r [] (connect tx now r)"
| on_text: "rl_conns r i = Some t \<Longrightarrow> \<not> ct_closing t \<Longrightarrow> metered_step V U r [] (handle_text V i msg r)"
| on_binary: "rl_conns r i = Some t \<Longrightarrow> \<not> ct_closing t \<Longrightarrow> metered_step V U r [] (handle_binary V i r)"
| hangup: "rl_conns r i = Some t \<Longrightarrow> metered_step V U r [] (disconnect i r)"
| notified: "rl_conns r i = Some t \<Longrightarrow> \<not> ct_closing t \<Longrightarrow> fo_states (rl_fanout r) i = Some c \<Longrightarrow> cs_notified c \<Longrightarrow>
    metered_step V U r [] (handle_notified V i r)"
| idle: "rl_conns r i = Some t \<Longrightarrow> 0 < rc_idle_timeout (en_config V) \<Longrightarrow> \<not> ct_active t \<Longrightarrow> \<not> ct_closing t \<Longrightarrow>
    metered_step V U r idle_calls (handle_idle V i r)"
| job: "(i, msg) \<in> set (rl_jobs r) \<Longrightarrow> enumerates ord \<Longrightarrow> enumerates cord \<Longrightarrow>
    (\<And>o' e. message_from_json (en_ext V) (en_serde V) (en_json V) msg = Inr (M_Event o' e) \<Longrightarrow> e \<in> U) \<Longrightarrow>
    process_event_message_m V ord elapsed (publish_m (en_try_send V) clock cord) msg (rl_store r, rl_fanout r) =
      ((reply, st, fo), cs) \<Longrightarrow>
    metered_step V U r cs
      (r\<lparr>rl_store := st, rl_fanout := fo, rl_jobs := remove1 (i, msg) (rl_jobs r),
         rl_replies := rl_replies r @ (case reply of Some m \<Rightarrow> [(i, m)] | None \<Rightarrow> [])\<rparr>)"
| reply: "(i, m) \<in> set (rl_replies r) \<Longrightarrow> rl_conns r i = Some t \<Longrightarrow> fo_states (rl_fanout r) i = Some c \<Longrightarrow>
    en_try_send V (cs_tx c) m = Some ch \<Longrightarrow>
    metered_step V U r [] (put_queue i ch (r\<lparr>rl_replies := remove1 (i, m) (rl_replies r)\<rparr>))"
| reply_lost: "(i, m) \<in> set (rl_replies r) \<Longrightarrow> rl_conns r i = None \<Longrightarrow>
    metered_step V U r [] (r\<lparr>rl_replies := remove1 (i, m) (rl_replies r)\<rparr>)"
| req_silent: "rl_conns r i = Some t \<Longrightarrow> ct_tasks t s = Some q \<Longrightarrow>
    req_step V (rl_store r) s q = Some (None, q') \<Longrightarrow>
    metered_step V U r (req_calls elapsed q) (put_req_task i s q' r)"
| req_send: "rl_conns r i = Some t \<Longrightarrow> ct_tasks t s = Some q \<Longrightarrow>
    req_step V (rl_store r) s q = Some (Some m, q') \<Longrightarrow> fo_states (rl_fanout r) i = Some c \<Longrightarrow>
    en_try_send V (cs_tx c) m = Some ch \<Longrightarrow>
    metered_step V U r (req_calls elapsed q) (put_queue i ch (put_req_task i s q' r))"
| drain: "rl_conns r i = Some t \<Longrightarrow> fo_states (rl_fanout r) i = Some c \<Longrightarrow>
    en_recv V (cs_tx c) = Some (m, ch) \<Longrightarrow> metered_step V U r [] (put_queue i ch r)"
| evict: "maybe_evict (en_ext V) (rl_store r) = Some st \<Longrightarrow> metered_step V U r [] (r\<lparr>rl_store := st\<rparr>)"
| sample_memory: "metered_step V U r [] (r\<lparr>rl_store := sample_rss rss (rl_store r)\<rparr>)"
| commit: "metered_step V U r []
    (r\<lparr>rl_store := (rl_store r)\<lparr>st_wal := map_option (\<lambda>w. snd (group_commit w)) (st_wal (rl_store r))\<rparr>\<rparr>)"
| persist: "enumerates ord \<Longrightarrow>
    metered_step V U r (maybe_checkpoint_calls elapsed (rl_store r))
      (r\<lparr>rl_store := maybe_checkpoint ord (rl_store r)\<rparr>)"
| gauge: "c \<in> {Gauge_Inc, Gauge_Dec} \<union> range Gauge_Set \<Longrightarrow> metered_step V U r [c] r"

inductive metered_run ::
    "('j, 'ch) relay_env \<Rightarrow> event set \<Rightarrow> event_store \<Rightarrow> metric_call list \<Rightarrow> 'ch relay \<Rightarrow> bool" for V U st0 where
  start: "metered_run V U st0 (load_calls elapsed applied st0) (relay_new st0)"
| step: "metered_run V U st0 cs r \<Longrightarrow> metered_step V U r cs' r' \<Longrightarrow> metered_run V U st0 (cs @ cs') r'"

section \<open>The pipeline\<close>

lemma deliveries_facts:
  assumes "deliveries cs"
  shows "count_list cs (Inc EVENTS_SAVED) = 0" "count_list cs (Inc EVENTS_DELETED) = 0"
    "count_list cs (Inc DELETION_REQUESTS) = 0" "count_list cs (Inc IDLE_DISCONNECTS) = 0"
  using assms by (auto simp: deliveries_def count_list_0_iff)

lemma count_replicate: "count_list (replicate n x) y = (if x = y then n else 0)"
  by (induction n) auto

text \<open>
  What the calls \<open>cs\<close> of a step from \<open>E\<close> to \<open>E'\<close> as the stored events say: the store gains at most the
  events counted as saved and loses at least those counted as deleted.
\<close>

definition counted :: "event set \<Rightarrow> event set \<Rightarrow> metric_call list \<Rightarrow> bool" where
  "counted E E' cs \<longleftrightarrow>
     card E' + count_list cs (Inc EVENTS_DELETED) \<le> card E + count_list cs (Inc EVENTS_SAVED)"

lemma counted_append: "counted E E' cs \<Longrightarrow> counted E' E'' cs' \<Longrightarrow> counted E E'' (cs @ cs')"
  by (simp add: counted_def)

lemma store_insert_metered:
  assumes "inj_on ev_id U" "index_inv X U (st_index st)" "e \<in> U"
  obtains cs where "store_insert_m X elapsed e st = (store_insert X e st, cs)"
    "counted (stored (st_index st)) (stored (st_index (snd (store_insert X e st)))) cs"
    "count_list cs (Inc EVENTS_DROPPED) = 0" "count_list cs (Inc SUBS_OVERFLOWED) = 0"
proof -
  obtain r st' where i: "store_insert X e st = (r, st')" by fastforce
  have fin: "finite (stored (st_index st))"
    using assms(2) index_core_facts(1) by (auto simp: index_inv_def)
  have "counted (stored (st_index st)) (stored (st_index st')) (snd (store_insert_m X elapsed e st))"
  proof (cases "is_ephemeral e")
    case True
    then show ?thesis using i by (auto simp: store_insert_def counted_def store_insert_m_def)
  next
    case False
    have "card (insert e (stored (st_index st) - R)) \<le> card (stored (st_index st)) + 1" for R
      using fin card_mono [of "stored (st_index st)" "stored (st_index st) - R"] by (simp add: card_insert_if)
    with store_insert_by_rivals [OF assms False] show ?thesis
      using i by (auto simp: store_insert_m_def counted_def split: if_splits)
  qed
  then show thesis
    using that [of "snd (store_insert_m X elapsed e st)"] i
    by (auto simp: store_insert_m_def split: insert_result.splits)
qed

lemma apply_deletion_counted:
  assumes "inj_on ev_id U" "index_inv X U (st_index st)" "enumerates ord"
    and "apply_deletion X ord (deletion_request X e) (ev_pubkey e) (ev_created_at e) st = (out, st1)"
  shows "counted (stored (st_index st)) (stored (st_index st1))
    (replicate (length (deleted_ids out)) (Inc EVENTS_DELETED))" "index_inv X U (st_index st1)"
proof -
  let ?D = "deletion_targets X e (stored (st_index st))"
  have w: "walked X U (st_index st) ?D (out, st1)"
    using deletion_request_walked [OF assms(1-3), of e] by (simp add: assms(4))
  have "finite (stored (st_index st))"
    using assms(2) index_core_facts(1) by (auto simp: index_inv_def)
  then have "card (stored (st_index st) - ?D) + card ?D = card (stored (st_index st))"
    using w card_Diff_subset [of ?D "stored (st_index st)"] card_mono [of "stored (st_index st)" ?D]
    by (auto simp: walked_def)
  then show "counted (stored (st_index st)) (stored (st_index st1))
    (replicate (length (deleted_ids out)) (Inc EVENTS_DELETED))"
    using w by (simp add: walked_def counted_def count_replicate)
  show "index_inv X U (st_index st1)" using w by (simp add: walked_def)
qed

definition pipeline_counts ::
    "event_store \<times> 'ch fanout \<Rightarrow> event_store \<times> 'ch fanout \<Rightarrow> metric_call list \<Rightarrow> bool" where
  "pipeline_counts sf sf' cs \<longleftrightarrow>
     counted (stored (st_index (fst sf))) (stored (st_index (fst sf'))) cs \<and>
     all_drops (snd sf') = all_drops (snd sf) + of_nat (count_list cs (Inc EVENTS_DROPPED)) \<and>
     count_list cs (Inc SUBS_OVERFLOWED) \<le> count_list cs (Inc EVENTS_DROPPED)"

lemma pipeline_counts_store:
  assumes "counted (stored (st_index st)) (stored (st_index st')) cs"
    "count_list cs (Inc EVENTS_DROPPED) = 0" "count_list cs (Inc SUBS_OVERFLOWED) = 0"
  shows "pipeline_counts (st, fo) (st', fo) cs"
  using assms by (simp add: pipeline_counts_def)

lemma pipeline_counts_publish:
  assumes "pipeline_counts (st, fo) (st', fo) cs" "deliveries cs'"
    "all_drops fo' = all_drops fo + of_nat (count_list cs' (Inc EVENTS_DROPPED))"
  shows "pipeline_counts (st, fo) (st', fo') (cs @ cs')"
  using assms deliveries_facts [OF assms(2)]
  by (auto simp: pipeline_counts_def counted_def deliveries_def)

lemma store_insert_results:
  assumes "store_insert X e st = (r, st')"
  obtains "r = R_Ephemeral" | "r = R_Duplicate" | "r = R_Deleted" | ds where "r = R_Stored e ds"
  using assms by (auto simp: store_insert_def Let_def split: if_splits prod.splits insert_outcome.splits)

text \<open>A message and its metered version agree, and the calls say what changed.\<close>

definition meters ::
    "(string option \<times> event_store \<times> 'ch fanout) metered \<Rightarrow> string option \<times> event_store \<times> 'ch fanout \<Rightarrow>
     event_store \<times> 'ch fanout \<Rightarrow> bool" where
  "meters rm r sf \<longleftrightarrow> fst rm = r \<and> pipeline_counts sf (snd r) (snd rm)"

lemma insert_message_metered:
  assumes inj: "inj_on ev_id U" and inv: "index_inv (en_ext V) U (st_index st)" and fin: "finite (dom (fo_states fo))"
    and m: "message_from_json (en_ext V) (en_serde V) (en_json V) text = Inr (M_Event s e)" "e \<in> U"
    and no: "\<not> is_deletion_request e"
  shows "meters (process_event_message_m V ord elapsed (publish_m ts clock cord) text (st, fo))
    (process_event_message V ord (publish ts clock cord) text (st, fo)) (st, fo)"
proof -
  obtain cp where p: "publish_m ts clock cord (broadcast_new e) fo = (publish ts clock cord (broadcast_new e) fo, cp)"
    "deliveries cp" "all_drops (publish ts clock cord (broadcast_new e) fo) =
        all_drops fo + of_nat (count_list cp (Inc EVENTS_DROPPED))"
    by (rule publish_metered [OF fin])
  obtain r st1 where i: "store_insert (en_ext V) e st = (r, st1)" by fastforce
  obtain cs where c: "store_insert_m (en_ext V) elapsed e st = (store_insert (en_ext V) e st, cs)"
    "counted (stored (st_index st)) (stored (st_index (snd (store_insert (en_ext V) e st)))) cs"
    "count_list cs (Inc EVENTS_DROPPED) = 0" "count_list cs (Inc SUBS_OVERFLOWED) = 0"
    by (rule store_insert_metered [OF inj inv m(2)])
  have q: "pipeline_counts (st, fo) (st1, fo) cs"
    using c i by (simp add: pipeline_counts_store)
  note q' = pipeline_counts_publish [OF q p(2,3)]
  from i show ?thesis
    by (cases rule: store_insert_results)
      (simp_all add: process_event_message_m_def process_event_message_def meters_def m(1) no i c(1) p(1) q q')
qed

lemma deletion_message_metered:
  assumes inj: "inj_on ev_id U" and inv: "index_inv (en_ext V) U (st_index st)" and ord: "enumerates ord"
    and fin: "finite (dom (fo_states fo))"
    and m: "message_from_json (en_ext V) (en_serde V) (en_json V) text = Inr (M_Event s e)" "e \<in> U"
    and del: "is_deletion_request e"
    and new: "\<not> store_contains st (ev_id e)" "\<not> store_is_tombstoned st (ev_id e)"
  shows "meters (process_event_message_m V ord elapsed (publish_m ts clock cord) text (st, fo))
    (process_event_message V ord (publish ts clock cord) text (st, fo)) (st, fo)"
proof -
  obtain cp where p: "publish_m ts clock cord (broadcast_new e) fo = (publish ts clock cord (broadcast_new e) fo, cp)"
    "deliveries cp" "all_drops (publish ts clock cord (broadcast_new e) fo) =
        all_drops fo + of_nat (count_list cp (Inc EVENTS_DROPPED))"
    by (rule publish_metered [OF fin])
  obtain out st1 where d: "apply_deletion (en_ext V) ord (deletion_request (en_ext V) e) (ev_pubkey e)
      (ev_created_at e) st = (out, st1)" by fastforce
  let ?c1 = "replicate (length (deleted_ids out)) (Inc EVENTS_DELETED)"
  note cnt = apply_deletion_counted [OF inj inv ord d]
  obtain r st2 where i: "store_insert (en_ext V) e st1 = (r, st2)" by fastforce
  obtain cs where c: "store_insert_m (en_ext V) elapsed e st1 = (store_insert (en_ext V) e st1, cs)"
    "counted (stored (st_index st1)) (stored (st_index (snd (store_insert (en_ext V) e st1)))) cs"
    "count_list cs (Inc EVENTS_DROPPED) = 0" "count_list cs (Inc SUBS_OVERFLOWED) = 0"
    by (rule store_insert_metered [OF inj cnt(2) m(2)])
  have "counted (stored (st_index st1)) (stored (st_index st2)) (Inc DELETION_REQUESTS # cs)"
    using c(2) i by (simp add: counted_def)
  from counted_append [OF cnt(1) this]
  have q: "pipeline_counts (st, fo) (st2, fo) (?c1 @ Inc DELETION_REQUESTS # cs)"
    using c(3,4) by (intro pipeline_counts_store) (auto simp: count_replicate)
  note q' = pipeline_counts_publish [OF q p(2,3)]
  have dm: "apply_deletion_m (en_ext V) ord (deletion_request (en_ext V) e) (ev_pubkey e)
      (ev_created_at e) st = ((out, st1), ?c1)" by (simp add: apply_deletion_metered d del_metered_def)
  from i show ?thesis
    by (cases rule: store_insert_results)
      (use q q' in \<open>simp_all add: process_event_message_m_def process_event_message_def meters_def
        apply_deletion_request_m_def apply_deletion_request_def m(1) del new i c(1) d dm p(1)\<close>)
qed

lemma process_metered:
  assumes "inj_on ev_id U" "index_inv (en_ext V) U (st_index st)" "enumerates ord" "finite (dom (fo_states fo))"
    and U: "\<And>s e. message_from_json (en_ext V) (en_serde V) (en_json V) text = Inr (M_Event s e) \<Longrightarrow> e \<in> U"
  shows "meters (process_event_message_m V ord elapsed (publish_m ts clock cord) text (st, fo))
    (process_event_message V ord (publish ts clock cord) text (st, fo)) (st, fo)"
proof (cases "\<exists>s e. message_from_json (en_ext V) (en_serde V) (en_json V) text = Inr (M_Event s e)")
  case False
  then show ?thesis
    by (auto simp: process_event_message_m_def process_event_message_def meters_def pipeline_counts_def
        counted_def split: sum.splits nostr_message.splits)
next
  case True
  then obtain s e where m: "message_from_json (en_ext V) (en_serde V) (en_json V) text = Inr (M_Event s e)"
    by blast
  consider "\<not> is_deletion_request e"
    | "is_deletion_request e" "store_contains st (ev_id e) \<or> store_is_tombstoned st (ev_id e)"
    | "is_deletion_request e" "\<not> store_contains st (ev_id e)" "\<not> store_is_tombstoned st (ev_id e)" by blast
  then show ?thesis
  proof cases
    case 1
    from insert_message_metered [OF assms(1,2,4) m U [OF m] this] show ?thesis .
  next
    case 2
    then show ?thesis
      using m by (auto simp: process_event_message_m_def process_event_message_def meters_def
          apply_deletion_request_m_def apply_deletion_request_def pipeline_counts_def counted_def)
  next
    case 3
    from deletion_message_metered [OF assms(1-4) m U [OF m] this] show ?thesis .
  qed
qed

section \<open>Drops of the connections\<close>

lemma drop_map_update: "(\<And>c. cs_dropped (g c) = cs_dropped c) \<Longrightarrow> drop_map (update_conn i g fo) = drop_map fo"
  by (rule ext) (simp add: drop_map_def update_conn_states option.map_comp comp_def)

lemma drop_map_states: "fo_states fo' = fo_states fo \<Longrightarrow> drop_map fo' = drop_map fo"
  by (rule ext) (simp add: drop_map_def)

lemma drop_map_reindex: "drop_map (reindex i fo) = drop_map fo"
proof (cases "fo_states fo i")
  case None
  then show ?thesis by (simp add: reindex_def)
next
  case (Some c)
  then show ?thesis by (rule_tac ext) (simp add: reindex_move drop_map_def move_key_states option.map_comp comp_def)
qed

lemma drop_map_subs [simp]:
  "drop_map (set_sub i s fs fo) = drop_map fo" "drop_map (snd (remove_sub i s fo)) = drop_map fo"
  by (simp_all add: set_sub_def remove_sub_def drop_map_reindex drop_map_update Let_def split: option.splits)

lemma drop_map_unregister [simp]: "drop_map (unregister i fo) = drop_map fo"
proof (cases "fo_states fo i")
  case None
  then show ?thesis by (simp add: unregister_def)
next
  case (Some c)
  have "drop_map (deindex_conn i (cs_key c) (fo\<lparr>fo_conns := fo_conns fo - {i}\<rparr>)) = drop_map fo"
    by (rule drop_map_states) simp
  then show ?thesis using Some by (simp add: unregister_def drop_map_update)
qed

lemma drop_map_send [simp]: "drop_map (conn_send V i m fo) = drop_map fo"
  unfolding conn_send_def by (rule drop_map_update) (simp split: option.splits)

lemma drop_map_handlers [simp]:
  "drop_map (rl_fanout (send_notice V i s r)) = drop_map (rl_fanout r)"
  "drop_map (rl_fanout (put_queue i ch r)) = drop_map (rl_fanout r)"
  "drop_map (rl_fanout (put_req_task i s q r)) = drop_map (rl_fanout r)"
  "drop_map (rl_fanout (disconnect i r)) = drop_map (rl_fanout r)"
  "drop_map (rl_fanout (drop_sub i s r)) = drop_map (rl_fanout r)"
  "drop_map (rl_fanout (close_overflowed V i s r)) = drop_map (rl_fanout r)"
  "drop_map (rl_fanout (handle_binary V i r)) = drop_map (rl_fanout r)"
  "drop_map (rl_fanout (handle_idle V i r)) = drop_map (rl_fanout r)"
  by (simp_all add: send_notice_def put_queue_def put_req_task_def disconnect_def drop_sub_def
      close_overflowed_def handle_binary_def handle_idle_def drop_map_update Let_def)

lemma drop_map_text [simp]: "drop_map (rl_fanout (handle_text V i msg r)) = drop_map (rl_fanout r)"
proof -
  have "drop_map (rl_fanout (handle_req V i msg r)) = drop_map (rl_fanout r)"
    "drop_map (rl_fanout (handle_close V i msg r)) = drop_map (rl_fanout r)" for r
    by (auto simp: handle_req_def handle_close_def Let_def split: sum.splits nostr_message.splits)
  then show ?thesis by (simp add: handle_text_def Let_def split: option.splits sum.splits)
qed

lemma drop_map_notified [simp]: "drop_map (rl_fanout (handle_notified V i r)) = drop_map (rl_fanout r)"
proof -
  have f: "drop_map (rl_fanout (fold (close_overflowed V i) ss r)) = drop_map (rl_fanout r)" for ss r
    by (induction ss arbitrary: r) simp_all
  have "drop_map (update_conn i (\<lambda>_. c\<lparr>cs_notified := False, cs_overflow := []\<rparr>) (rl_fanout r)) = drop_map (rl_fanout r)"
    if "fo_states (rl_fanout r) i = Some c" for c
    using that by (auto simp: drop_map_def update_conn_states fun_eq_iff)
  then show ?thesis
    by (simp add: handle_notified_def take_overflowed_def Let_def f split: option.splits)
qed

lemma all_drops_connect:
  assumes "fanout_inv (rl_fanout r)" "fo_next_id (rl_fanout r) \<noteq> - 1"
  shows "all_drops (rl_fanout (connect tx now r)) = all_drops (rl_fanout r)"
proof -
  let ?i = "fo_next_id (rl_fanout r) + 1"
  have m: "drop_map (rl_fanout (connect tx now r)) = (drop_map (rl_fanout r))(?i \<mapsto> 0)"
    by (auto simp: connect_def register_def Let_def drop_map_def fun_eq_iff)
  have "fo_states (rl_fanout r) ?i = None"
    using register_inv [OF assms, of tx now] by (simp add: register_def Let_def)
  then have "?i \<notin> dom (drop_map (rl_fanout r))" by (auto simp: drop_map_def)
  moreover have "finite (dom (drop_map (rl_fanout r)))"
    using assms(1) by (auto simp: fanout_inv_def drop_map_def dom_def)
  ultimately show ?thesis
    by (simp add: all_drops_def m cong: sum.cong)
      (rule sum.cong, auto)
qed

section \<open>The effect of a step\<close>

text \<open>
  What the calls of a step say about the relay before and after it: the drop counter follows the
  drops that the connections have counted, and the store the saved and the deleted events.
\<close>

definition step_counts :: "'ch relay \<Rightarrow> metric_call list \<Rightarrow> 'ch relay \<Rightarrow> bool" where
  "step_counts r cs r' \<longleftrightarrow>
     all_drops (rl_fanout r') = all_drops (rl_fanout r) + of_nat (count_list cs (Inc EVENTS_DROPPED)) \<and>
     count_list cs (Inc SUBS_OVERFLOWED) \<le> count_list cs (Inc EVENTS_DROPPED) \<and>
     counted (stored (st_index (rl_store r))) (stored (st_index (rl_store r'))) cs"

lemma step_counts_quiet:
  assumes "count_list cs (Inc EVENTS_DROPPED) = 0" "count_list cs (Inc SUBS_OVERFLOWED) = 0"
    "count_list cs (Inc EVENTS_DELETED) = 0" "drop_map (rl_fanout r') = drop_map (rl_fanout r)"
    "card (stored (st_index (rl_store r'))) \<le> card (stored (st_index (rl_store r)))"
  shows "step_counts r cs r'"
  using assms by (simp add: step_counts_def all_drops_def counted_def)

lemma evict_fewer:
  assumes "index_inv X U (st_index st)" "maybe_evict X st = Some st'"
  shows "card (stored (st_index st')) \<le> card (stored (st_index st))"
proof -
  from maybe_evict_spec [OF assms(1)] assms(2)
  have "stored (st_index st') \<subseteq> stored (st_index st)" by (auto simp: evicts_oldest_def)
  then show ?thesis
    using assms(1) index_core_facts(1) by (intro card_mono) (auto simp: index_inv_def)
qed

lemma connect_counts:
  assumes inv: "relay_inv V U r" and room: "fo_next_id (rl_fanout r) \<noteq> - 1"
  shows "step_counts r [] (connect tx now r)"
proof -
  have "fanout_inv (rl_fanout r)" using inv by (simp add: relay_inv_def conn_inv_def)
  from all_drops_connect [OF this room, of tx now] show ?thesis
    by (simp add: step_counts_def counted_def connect_store)
qed

lemma job_counts:
  assumes "relay_inv V U r" "inj_on ev_id U" "enumerates ord"
    and "\<And>o' e. message_from_json (en_ext V) (en_serde V) (en_json V) msg = Inr (M_Event o' e) \<Longrightarrow> e \<in> U"
    and run: "process_event_message_m V ord elapsed (publish_m (en_try_send V) clock cord) msg (rl_store r, rl_fanout r) =
      ((reply, st, fo), cs)"
  shows "process_event_message V ord (publish (en_try_send V) clock cord) msg (rl_store r, rl_fanout r) = (reply, st, fo)"
    and "step_counts r cs (r\<lparr>rl_store := st, rl_fanout := fo, rl_jobs := js, rl_replies := ms\<rparr>)"
proof -
  have idx: "index_inv (en_ext V) U (st_index (rl_store r))" and fin: "finite (dom (fo_states (rl_fanout r)))"
    using assms(1) by (simp_all add: relay_inv_def conn_inv_def fanout_inv_def)
  have m: "meters
      (process_event_message_m V ord elapsed (publish_m (en_try_send V) clock cord) msg (rl_store r, rl_fanout r))
      (process_event_message V ord (publish (en_try_send V) clock cord) msg (rl_store r, rl_fanout r))
      (rl_store r, rl_fanout r)"
    by (rule process_metered [OF assms(2) idx assms(3) fin]) (rule assms(4))
  from m run show p: "process_event_message V ord (publish (en_try_send V) clock cord) msg (rl_store r, rl_fanout r) =
      (reply, st, fo)" by (simp add: meters_def)
  from m run show "step_counts r cs (r\<lparr>rl_store := st, rl_fanout := fo, rl_jobs := js, rl_replies := ms\<rparr>)"
    by (simp add: meters_def p pipeline_counts_def step_counts_def)
qed

lemma req_calls_quiet:
  "count_list (req_calls elapsed q) (Inc EVENTS_DROPPED) = 0"
  "count_list (req_calls elapsed q) (Inc SUBS_OVERFLOWED) = 0" "count_list (req_calls elapsed q) (Inc EVENTS_DELETED) = 0"
  by (simp_all add: req_calls_def split: list.splits)

lemma maybe_checkpoint_quiet:
  "count_list (maybe_checkpoint_calls elapsed st) (Inc c) = 0"
  by (simp_all add: maybe_checkpoint_calls_def save_calls_def checkpoint_calls_def Let_def split: option.splits)

lemma load_quiet: "count_list (load_calls elapsed n st) (Inc c) = 0"
  by (simp_all add: load_calls_def checkpoint_calls_def)

lemma maybe_checkpoint_index: "st_index (maybe_checkpoint ord st) = st_index st"
  by (auto simp: maybe_checkpoint_def checkpoint_def save_to_disk_def write_snapshot_def checkpoint_rotate_def
      checkpoint_remove_def Let_def split: option.splits)

lemma metered_step_counts:
  assumes step: "metered_step V U r cs r'" and inj: "inj_on ev_id U" and inv: "relay_inv V U r"
  shows "step_counts r cs r'"
  using step
proof cases
  case (connect tx now)
  then show ?thesis using connect_counts [OF inv] by simp
next
  case (hangup i t)
  then show ?thesis by (intro step_counts_quiet) (simp_all add: disconnect_def)
next
  case (job i msg ord cord elapsed clock reply st fo)
  then show ?thesis using job_counts [OF inv inj job(3,5,6)] by simp
next
  case (evict st)
  then have "card (stored (st_index st)) \<le> card (stored (st_index (rl_store r)))"
    using inv evict_fewer [of "en_ext V" U "rl_store r" st] by (simp add: relay_inv_def)
  then show ?thesis using evict by (auto intro: step_counts_quiet)
next
  case (gauge c)
  then show ?thesis by (auto intro: step_counts_quiet)
qed (simp_all add: idle_calls_def req_calls_quiet maybe_checkpoint_quiet maybe_checkpoint_index frame_simps step_counts_quiet)

section \<open>Runs\<close>

text \<open>Metering does not change the steps: a metered step is a step, and every step can be metered.\<close>

lemma metered_step_is_step:
  assumes step: "metered_step V U r cs r'" and inj: "inj_on ev_id U" and inv: "relay_inv V U r"
  shows "relay_step V U r r' \<or> r' = r"
  using step
proof cases
  case (job i msg ord cord elapsed clock reply st fo)
  have j: "process_event_message V ord (publish (en_try_send V) clock cord) msg (rl_store r, rl_fanout r) =
      (reply, st, fo)"
    by (rule job_counts(1) [OF inv inj job(3) _ job(6)]) (rule job(5))
  show ?thesis unfolding job(1) by (rule disjI1, rule relay_step.job [OF job(2-4) _ j]) (rule job(5))
qed (simp_all add: relay_step.intros store_turn.intros)

lemma step_is_metered:
  assumes step: "relay_step V U r r'" and inj: "inj_on ev_id U" and inv: "relay_inv V U r"
  shows "\<exists>cs. metered_step V U r cs r'"
  using step
proof cases
  case (job i msg ord cord clock reply st fo)
  have idx: "index_inv (en_ext V) U (st_index (rl_store r))" and fin: "finite (dom (fo_states (rl_fanout r)))"
    using inv by (simp_all add: relay_inv_def conn_inv_def fanout_inv_def)
  have "meters
      (process_event_message_m V ord 0 (publish_m (en_try_send V) clock cord) msg (rl_store r, rl_fanout r))
      (process_event_message V ord (publish (en_try_send V) clock cord) msg (rl_store r, rl_fanout r))
      (rl_store r, rl_fanout r)"
    by (rule process_metered [OF inj idx job(3) fin]) (rule job(5))
  then obtain cs where m: "process_event_message_m V ord 0 (publish_m (en_try_send V) clock cord) msg
      (rl_store r, rl_fanout r) = ((reply, st, fo), cs)"
    using job(6) by (metis meters_def prod.collapse)
  show ?thesis unfolding job(1) by (rule exI [of _ cs], rule metered_step.job [OF job(2-4) _ m]) (rule job(5))
next
  case (background st)
  from background(2) show ?thesis
    by cases (use background(1) in \<open>auto intro: metered_step.intros\<close>)
qed (blast intro: metered_step.intros)+

lemma metered_run_counts:
  assumes run: "metered_run V U st0 cs r" and inj: "inj_on ev_id U" and inv: "index_inv (en_ext V) U (st_index st0)"
  shows "relay_inv V U r \<and> step_counts (relay_new st0) cs r"
  using run
proof induction
  case (start elapsed applied)
  have "step_counts (relay_new st0) (load_calls elapsed applied st0) (relay_new st0)"
    by (rule step_counts_quiet) (simp_all add: load_quiet)
  then show ?case using relay_new_inv [OF inv] by simp
next
  case (step cs r cs' r')
  then have "step_counts r cs' r'" and r: "step_counts (relay_new st0) cs r"
    using metered_step_counts [OF step.hyps(2) inj] by simp_all
  moreover have "relay_inv V U r'"
    using step metered_step_is_step [OF step.hyps(2) inj] relay_step_inv [OF _ inj] by blast
  ultimately show ?case
    by (auto simp: step_counts_def counted_def add.assoc)
qed

end
