(* ===== verification/Connection_Gauge.thy ===== *)
theory Connection_Gauge
  imports Metrics
begin

text \<open>
  The gauge of open connections, access by access (\<^verbatim>\<open>src/src/relay.rs\<close>): a connection task changes the
  atomic counter and the gauge by two separate accesses, at its start and at its end, and the task
  that \<open>Relay::new\<close> spawns reads the counter and overwrites the gauge by two more. The accesses of
  all tasks interleave freely.
\<close>

section \<open>Accesses\<close>

text \<open>Counted but not in the gauge yet; in both; out of the counter and still in the gauge.\<close>

datatype conn_pc = C_Counted | C_Open | C_Uncounted

record gauge_state =
  gs_conns :: "nat \<rightharpoonup> conn_pc"
  gs_count :: usize
  gs_gauge :: int
  gs_loaded :: "usize option"

definition gauge_new :: gauge_state where
  "gauge_new = \<lparr>gs_conns = Map.empty, gs_count = 0, gs_gauge = 0, gs_loaded = None\<rparr>"

inductive conn_access :: "gauge_state \<Rightarrow> gauge_state \<Rightarrow> bool" where
  count_up: "gs_conns g i = None \<Longrightarrow>
    conn_access g (g\<lparr>gs_conns := (gs_conns g)(i \<mapsto> C_Counted), gs_count := gs_count g + 1\<rparr>)"
| gauge_inc: "gs_conns g i = Some C_Counted \<Longrightarrow>
    conn_access g (g\<lparr>gs_conns := (gs_conns g)(i \<mapsto> C_Open), gs_gauge := gs_gauge g + 1\<rparr>)"
| count_down: "gs_conns g i = Some C_Open \<Longrightarrow>
    conn_access g (g\<lparr>gs_conns := (gs_conns g)(i \<mapsto> C_Uncounted), gs_count := gs_count g - 1\<rparr>)"
| gauge_dec: "gs_conns g i = Some C_Uncounted \<Longrightarrow>
    conn_access g (g\<lparr>gs_conns := (gs_conns g)(i := None), gs_gauge := gs_gauge g - 1\<rparr>)"

definition sampler_load :: "gauge_state \<Rightarrow> gauge_state" where
  "sampler_load g = g\<lparr>gs_loaded := Some (gs_count g)\<rparr>"

definition sampler_set :: "gauge_state \<Rightarrow> gauge_state" where
  "sampler_set g =
     (case gs_loaded g of Some n \<Rightarrow> g\<lparr>gs_gauge := uint n, gs_loaded := None\<rparr> | None \<Rightarrow> g)"

inductive gauge_reach :: "gauge_state \<Rightarrow> bool" where
  start: "gauge_reach gauge_new"
| conn: "gauge_reach g \<Longrightarrow> conn_access g g' \<Longrightarrow> gauge_reach g'"
| load: "gauge_reach g \<Longrightarrow> gauge_reach (sampler_load g)"
| set: "gauge_reach g \<Longrightarrow> gauge_reach (sampler_set g)"

section \<open>Counter and gauge\<close>

definition in_count :: "gauge_state \<Rightarrow> nat set" where
  "in_count g = {i. gs_conns g i = Some C_Counted \<or> gs_conns g i = Some C_Open}"

definition in_gauge :: "gauge_state \<Rightarrow> nat set" where
  "in_gauge g = {i. gs_conns g i = Some C_Open \<or> gs_conns g i = Some C_Uncounted}"

text \<open>How far the gauge is off.\<close>

definition drift :: "gauge_state \<Rightarrow> int" where
  "drift g = gs_gauge g - int (card (in_gauge g))"

definition at_rest :: "gauge_state \<Rightarrow> bool" where
  "at_rest g \<longleftrightarrow> ran (gs_conns g) \<subseteq> {C_Open}"

lemma at_rest_sets: "at_rest g \<Longrightarrow> in_count g = dom (gs_conns g) \<and> in_gauge g = dom (gs_conns g)"
  by (force simp: at_rest_def in_count_def in_gauge_def ran_def)

lemma in_sets_dom: "in_count g \<subseteq> dom (gs_conns g)" "in_gauge g \<subseteq> dom (gs_conns g)"
  by (auto simp: in_count_def in_gauge_def)

lemma conn_access_sets:
  assumes "conn_access g g'" "finite (dom (gs_conns g))"
  shows "finite (dom (gs_conns g'))"
    "gs_count g' - of_nat (card (in_count g')) = gs_count g - of_nat (card (in_count g))"
    "drift g' = drift g"
proof -
  have fin: "finite (in_count g)" "finite (in_gauge g)"
    using assms(2) finite_subset [OF in_sets_dom(1) [of g]] finite_subset [OF in_sets_dom(2) [of g]] by simp_all
  have "finite (dom (gs_conns g')) \<and>
      gs_count g' - of_nat (card (in_count g')) = gs_count g - of_nat (card (in_count g)) \<and> drift g' = drift g"
    using assms(1)
  proof cases
    case (count_up i)
    then have "in_count g' = insert i (in_count g)" "i \<notin> in_count g" "in_gauge g' = in_gauge g"
      by (auto simp: in_count_def in_gauge_def)
    then show ?thesis using assms(2) fin count_up by (simp add: drift_def)
  next
    case (gauge_inc i)
    then have "in_gauge g' = insert i (in_gauge g)" "i \<notin> in_gauge g" "in_count g' = in_count g"
      by (auto simp: in_count_def in_gauge_def)
    then show ?thesis using assms(2) fin gauge_inc by (simp add: drift_def)
  next
    case (count_down i)
    then have "in_count g = insert i (in_count g')" "i \<notin> in_count g'" "in_gauge g' = in_gauge g"
      by (auto simp: in_count_def in_gauge_def)
    then show ?thesis using assms(2) fin count_down by (simp add: drift_def)
  next
    case (gauge_dec i)
    then have "in_gauge g = insert i (in_gauge g')" "i \<notin> in_gauge g'" "in_count g' = in_count g"
      by (auto simp: in_count_def in_gauge_def)
    then show ?thesis using assms(2) fin gauge_dec by (simp add: drift_def)
  qed
  then show "finite (dom (gs_conns g'))"
    "gs_count g' - of_nat (card (in_count g')) = gs_count g - of_nat (card (in_count g))" "drift g' = drift g"
    by simp_all
qed

lemma sampler_frame [simp]:
  "gs_conns (sampler_load g) = gs_conns g" "gs_count (sampler_load g) = gs_count g"
  "gs_conns (sampler_set g) = gs_conns g" "gs_count (sampler_set g) = gs_count g"
  by (simp_all add: sampler_load_def sampler_set_def split: option.splits)

lemma sampler_sets [simp]:
  "in_count (sampler_load g) = in_count g" "in_count (sampler_set g) = in_count g"
  "in_gauge (sampler_load g) = in_gauge g" "in_gauge (sampler_set g) = in_gauge g"
  by (simp_all add: in_count_def in_gauge_def)

text \<open>The counter is exact whatever the interleaving.\<close>

lemma count_exact: "gauge_reach g \<Longrightarrow> finite (dom (gs_conns g)) \<and> gs_count g = of_nat (card (in_count g))"
proof (induction rule: gauge_reach.induct)
  case start
  then show ?case by (simp add: gauge_new_def in_count_def)
next
  case (conn g g')
  then show ?case using conn_access_sets(1,2) [OF conn.hyps(2)] by simp
qed simp_all

lemma conn_accesses_drift: "conn_access\<^sup>*\<^sup>* g g' \<Longrightarrow> finite (dom (gs_conns g)) \<Longrightarrow> drift g' = drift g"
  by (induction rule: converse_rtranclp_induct) (auto simp: conn_access_sets)

lemma quiet_sample:
  assumes "gauge_reach g" "at_rest g" "card (dom (gs_conns g)) < 2 ^ 64"
  shows "gs_gauge (sampler_set (sampler_load g)) = int (card (dom (gs_conns g)))"
    "drift (sampler_set (sampler_load g)) = 0"
proof -
  have "gs_count g = of_nat (card (dom (gs_conns g)))" using count_exact [OF assms(1)] at_rest_sets [OF assms(2)] by simp
  then have "uint (gs_count g) = int (card (dom (gs_conns g)))"
    using assms(3) by (simp add: uint_nat unat_of_nat take_bit_nat_eq_self)
  then show g: "gs_gauge (sampler_set (sampler_load g)) = int (card (dom (gs_conns g)))"
    by (simp add: sampler_set_def sampler_load_def)
  then show "drift (sampler_set (sampler_load g)) = 0" using at_rest_sets [OF assms(2)] by (simp add: drift_def)
qed

text \<open>
  A connection that leaves: it counts itself out, the sampler copies the zero, and the decrement
  comes after that. No connection is left and the gauge reads -1, until the next second.
\<close>

lemma gauge_below_zero: "\<exists>g. gauge_reach g \<and> gs_conns g = Map.empty \<and> gs_loaded g = None \<and> gs_gauge g = - 1"
proof -
  let ?open = "gauge_new\<lparr>gs_conns := [0 \<mapsto> C_Open], gs_count := 1, gs_gauge := 1\<rparr>"
  let ?left = "gauge_new\<lparr>gs_conns := [0 \<mapsto> C_Uncounted], gs_gauge := 1\<rparr>"
  let ?set = "gauge_new\<lparr>gs_conns := [0 \<mapsto> C_Uncounted], gs_gauge := 0\<rparr>"
  have "gauge_reach (gauge_new\<lparr>gs_conns := [0 \<mapsto> C_Counted], gs_count := 1\<rparr>)"
    using gauge_reach.conn [OF gauge_reach.start conn_access.count_up [of gauge_new 0]] by (simp add: gauge_new_def)
  from gauge_reach.conn [OF this conn_access.gauge_inc [of _ 0]] have "gauge_reach ?open" by (simp add: gauge_new_def)
  from gauge_reach.conn [OF this conn_access.count_down [of _ 0]] have "gauge_reach ?left" by (simp add: gauge_new_def)
  from gauge_reach.set [OF gauge_reach.load [OF this]] have "gauge_reach ?set"
    by (simp add: sampler_set_def sampler_load_def gauge_new_def)
  from gauge_reach.conn [OF this conn_access.gauge_dec [of _ 0]]
  have "gauge_reach (gauge_new\<lparr>gs_gauge := - 1\<rparr>)" by (simp add: gauge_new_def)
  then show ?thesis by (intro exI [of _ "gauge_new\<lparr>gs_gauge := - 1\<rparr>"]) (simp add: gauge_new_def)
qed

end
