(* ===== verification/Metrics_Properties.thy ===== *)
theory Metrics_Properties
  imports Relay_Counters Connection_Gauge Sample_Relay
begin

text \<open>The properties of the exported metrics.\<close>

section \<open>A registry\<close>

text \<open>A registry for the examples: the newest sample of each name comes first.\<close>

definition sample_buckets :: "string \<Rightarrow> nat list" where
  "sample_buckets n =
     (if n = metric_name (Histogram WRITE_DELAY) then snd (histogram_opts WRITE_DELAY)
      else if n = metric_name (Histogram TTEOSE) then snd (histogram_opts TTEOSE)
      else snd (histogram_opts DISK_PERSISTENCE_TIME))"

definition sample_prometheus :: "(string \<times> sample) list prometheus" where
  "sample_prometheus =
     \<lparr>pr_register = (\<lambda>d r. if map_of r (mo_name (collector_opts d)) \<noteq> None \<or> \<not> collector_valid d then None
                          else Some ((mo_name (collector_opts d), zero_sample d) # r)),
      pr_inc = (\<lambda>n r. case map_of r n of Some (Counter_Value k) \<Rightarrow> (n, Counter_Value (k + 1)) # r | _ \<Rightarrow> r),
      pr_gauge_add = (\<lambda>n d r. case map_of r n of Some (Gauge_Value v) \<Rightarrow> (n, Gauge_Value (v + d)) # r | _ \<Rightarrow> r),
      pr_gauge_set = (\<lambda>n d r. (n, Gauge_Value d) # r),
      pr_observe = (\<lambda>n d r. case map_of r n of
                              Some (Histogram_Value ks k) \<Rightarrow>
                                (n, Histogram_Value (bump (sample_buckets n) d ks) (k + 1)) # r
                            | _ \<Rightarrow> r),
      pr_gather = (\<lambda>r. r), pr_encode = (\<lambda>fs. (True, []))\<rparr>"

lemma sample_buckets_name: "sample_buckets (metric_name (Histogram h)) = snd (histogram_opts h)"
  by (cases h) (simp_all add: sample_buckets_def metric_name_inj)

lemma sample_prometheus_ok: "prometheus_ok sample_prometheus"
  by (simp add: prometheus_ok_def sample_prometheus_def sample_buckets_name)

section \<open>Properties\<close>

text \<open>
  C24. In any run of the relay from its start-up on, with its jobs and background turns as single
  steps and no second copies of events, no use of a metric panics and every metric is exported from the start: after
  the calls of the run each exported value is what its calls add up to. The number of dropped events is then, modulo
  \<open>2 ^ 64\<close>, the sum of the drops that all connections have counted, and no less than the number of
  overflowed subscriptions; and the stored events are at most those at the start and the saved ones,
  less the deleted ones. The calls to the gauge of connections come at any time and with any value,
  and nothing is said of it.
\<close>

theorem metrics_follow_run:
  assumes "prometheus_ok P" "\<forall>m. exported P r0 (metric_name m) = None"
    and "metered_run V U st0 cs r" "inj_on ev_id U" "index_inv (en_ext V) U (st_index st0)"
  shows "\<exists>s0 s dropped overflowed saved deleted.
    metrics_init P \<lparr>mx_ready = {}, mx_reg = r0\<rparr> = Some s0 \<and> fold_opt (make_call P) cs s0 = Some s \<and>
    (\<forall>m. exported P (mx_reg s) (metric_name m) = Some (sample_after m cs)) \<and>
    sample_after (Counter EVENTS_DROPPED) cs = Counter_Value dropped \<and>
    sample_after (Counter SUBS_OVERFLOWED) cs = Counter_Value overflowed \<and>
    sample_after (Counter EVENTS_SAVED) cs = Counter_Value saved \<and>
    sample_after (Counter EVENTS_DELETED) cs = Counter_Value deleted \<and>
    of_nat dropped = all_drops (rl_fanout r) \<and> overflowed \<le> dropped \<and>
    card (stored (st_index (rl_store r))) + deleted \<le> card (stored (st_index st0)) + saved"
proof -
  from metrics_init_tracks [OF assms(1)] assms(2) obtain s0 where
    s0: "metrics_init P \<lparr>mx_ready = {}, mx_reg = r0\<rparr> = Some s0" "registry_shows P r0 [] s0" by blast
  from metric_calls_track [OF assms(1) s0(2)] obtain s where
    s: "fold_opt (make_call P) cs s0 = Some s" "registry_shows P r0 cs s" by auto
  have "step_counts (relay_new st0) cs r" using metered_run_counts [OF assms(3-5)] by blast
  moreover have "all_drops (rl_fanout (relay_new st0) :: 'c fanout) = 0" "rl_store (relay_new st0 :: 'c relay) = st0"
    by (simp_all add: relay_new_def fanout_new_def all_drops_def drop_map_def dom_def)
  ultimately show ?thesis
    using s0(1) s by (auto simp: step_counts_def counted_def registry_shows_def)
qed

text \<open>A run in which a connection opens and says so to the gauge.\<close>

lemma one_conn_metered:
  "metered_run sample_env (set sample_events) note_store [Gauge_Inc] (connect [] 0 (relay_new note_store))"
proof -
  have "metered_run sample_env (set sample_events) note_store [] (connect [] 0 (relay_new note_store))"
    using metered_run.step [OF metered_run.start [of _ _ _ 0 0]
        metered_step.connect [of "relay_new note_store" sample_env "set sample_events" "[]" 0]]
    by (simp add: relay_new_def fanout_new_def load_calls_def)
  from metered_run.step [OF this metered_step.gauge [of Gauge_Inc]] show ?thesis by simp
qed

theorem metrics_follow_run_witness:
  "\<exists>dropped. sample_after (Counter EVENTS_DROPPED) [Gauge_Inc] = Counter_Value dropped \<and>
     of_nat dropped = all_drops (rl_fanout (connect [] 0 (relay_new note_store) :: string list relay))"
  using metrics_follow_run [OF sample_prometheus_ok _ one_conn_metered sample_inj, of "[]"] note_store_inv
  by (auto simp: sample_prometheus_def)

text \<open>
  The gauge corrects itself: when the sampler reads the counter and sets the gauge while every
  connection is at rest, the gauge is the number of open connections, and it is that number again
  whenever the connections come to rest before the sampler runs again, whatever the interleaving of
  their accesses.
\<close>

theorem gauge_corrected:
  assumes "gauge_reach g" "at_rest g" "card (dom (gs_conns g)) < 2 ^ 64"
    and "conn_access\<^sup>*\<^sup>* (sampler_set (sampler_load g)) g'" "at_rest g'"
  shows "gs_gauge (sampler_set (sampler_load g)) = int (card (dom (gs_conns g))) \<and>
    gs_gauge g' = int (card (dom (gs_conns g')))"
proof -
  have "drift g' = 0"
    using conn_accesses_drift [OF assms(4)] quiet_sample(2) [OF assms(1-3)] count_exact [OF assms(1)] by simp
  then show ?thesis
    using quiet_sample(1) [OF assms(1-3)] at_rest_sets [OF assms(5)] by (simp add: drift_def)
qed

definition one_open :: gauge_state where
  "one_open = gauge_new\<lparr>gs_conns := [0 \<mapsto> C_Open], gs_count := 1, gs_gauge := 1\<rparr>"

lemma one_open_reached: "conn_access\<^sup>*\<^sup>* (sampler_set (sampler_load gauge_new)) one_open"
proof -
  let ?c = "gauge_new\<lparr>gs_conns := [0 \<mapsto> C_Counted], gs_count := 1\<rparr>"
  have "sampler_set (sampler_load gauge_new) = gauge_new"
    by (simp add: gauge_new_def sampler_set_def sampler_load_def)
  moreover have "conn_access gauge_new ?c" "conn_access ?c one_open"
    using conn_access.count_up [of gauge_new 0] conn_access.gauge_inc [of ?c 0]
    by (simp_all add: gauge_new_def one_open_def)
  ultimately show ?thesis by simp
qed

theorem gauge_corrected_witness:
  "gs_gauge one_open = int (card (dom (gs_conns one_open)))"
  using gauge_corrected [OF gauge_reach.start _ _ one_open_reached]
  by (simp add: gauge_new_def at_rest_def one_open_def)

end
