(* ===== verification/Program_Entry.thy ===== *)
theory Program_Entry
  imports Relay_Lifecycle "HOL-Library.Monad_Syntax"
begin

text \<open>
  The program around the relay: loading the configuration (\<^verbatim>\<open>src/src/config.rs\<close>) and \<open>main\<close>
  (\<^verbatim>\<open>src/src/main.rs\<close>). The config crate merges the YAML file with the environment and decodes single
  values; its results are the record \<open>config_env\<close>. What the operating system does is the record
  \<open>os_env\<close> over a state of the system. Texts that are only logged are left out.
\<close>

section \<open>Loading the configuration\<close>

definition default_bind_addr :: string where
  "default_bind_addr = ''0.0.0.0:8080''"

definition default_target_ram_percent :: byte where
  "default_target_ram_percent = 80"

definition default_max_subscriptions :: usize where
  "default_max_subscriptions = 300"

definition default_max_limit :: usize where
  "default_max_limit = 5000"

definition default_idle_timeout :: u64 where
  "default_idle_timeout = 10"

definition default_persistence_interval :: u64 where
  "default_persistence_interval = 60"

record 'v config_env =
  cf_build :: "string \<Rightarrow> (string \<rightharpoonup> 'v) option"
  cf_string :: "'v \<Rightarrow> string option"
  cf_u8 :: "'v \<Rightarrow> byte option"
  cf_usize :: "'v \<Rightarrow> usize option"
  cf_u64 :: "'v \<Rightarrow> u64 option"
  cf_opt_string :: "'v \<Rightarrow> string option option"
  cf_strings :: "'v \<Rightarrow> string list option"

text \<open>A field with a serde default: the default when the key is missing, an error when its value does not decode.\<close>

definition config_field :: "('v \<Rightarrow> 'a option) \<Rightarrow> 'a \<Rightarrow> (string \<rightharpoonup> 'v) \<Rightarrow> string \<Rightarrow> 'a option" where
  "config_field decode dflt m key = (case m key of None \<Rightarrow> Some dflt | Some v \<Rightarrow> decode v)"

definition config_deserialize :: "'v config_env \<Rightarrow> (string \<rightharpoonup> 'v) \<Rightarrow> relay_config option" where
  "config_deserialize C m = do {
     bind_addr \<leftarrow> config_field (cf_string C) default_bind_addr m ''bind_addr'';
     target_ram_percent \<leftarrow> config_field (cf_u8 C) default_target_ram_percent m ''target_ram_percent'';
     max_bytes \<leftarrow> config_field (cf_usize C) 0 m ''max_bytes'';
     max_subscriptions \<leftarrow> config_field (cf_usize C) default_max_subscriptions m ''max_subscriptions'';
     max_limit \<leftarrow> config_field (cf_usize C) default_max_limit m ''max_limit'';
     idle_timeout \<leftarrow> config_field (cf_u64 C) default_idle_timeout m ''idle_timeout'';
     persistence_path \<leftarrow> config_field (cf_opt_string C) None m ''persistence_path'';
     persistence_interval \<leftarrow> config_field (cf_u64 C) default_persistence_interval m ''persistence_interval'';
     trusted_proxies \<leftarrow> config_field (cf_strings C) [] m ''trusted_proxies'';
     prometheus_url \<leftarrow> config_field (cf_opt_string C) None m ''prometheus_url'';
     log_dir \<leftarrow> config_field (cf_opt_string C) None m ''log_dir'';
     Some \<lparr>rc_bind_addr = bind_addr, rc_target_ram_percent = target_ram_percent,
           rc_max_bytes = max_bytes, rc_max_subscriptions = max_subscriptions,
           rc_max_limit = max_limit, rc_idle_timeout = idle_timeout,
           rc_persistence_path = persistence_path, rc_persistence_interval = persistence_interval,
           rc_trusted_proxies = trusted_proxies, rc_prometheus_url = prometheus_url,
           rc_log_dir = log_dir\<rparr>
   }"

definition config_load :: "'v config_env \<Rightarrow> string \<Rightarrow> relay_config option" where
  "config_load C path = Option.bind (cf_build C path) (config_deserialize C)"

section \<open>Main\<close>

record 'w os_env =
  os_create_dir_all :: "string \<Rightarrow> 'w \<Rightarrow> bool \<times> 'w"
  os_open_truncated :: "string \<Rightarrow> 'w \<Rightarrow> bool \<times> 'w"
  os_getrlimit :: "'w \<Rightarrow> (u64 \<times> u64) option"
  os_setrlimit :: "u64 \<Rightarrow> u64 \<Rightarrow> 'w \<Rightarrow> bool \<times> 'w"
  os_bind :: "string \<Rightarrow> 'w \<Rightarrow> bool"

text \<open>\<open>Path::join\<close> with a relative file name.\<close>

definition path_join :: "string \<Rightarrow> string \<Rightarrow> string" where
  "path_join dir file =
     (if dir = [] then file else if last dir = CHR ''/'' then dir @ file else dir @ CHR ''/'' # file)"

text \<open>Whether there is a layer that logs to a file: the directory is created, the file truncated.\<close>

definition init_logging :: "'w os_env \<Rightarrow> string option \<Rightarrow> 'w \<Rightarrow> bool \<times> 'w" where
  "init_logging S log_dir w =
     (case log_dir of
        None \<Rightarrow> (False, w)
      | Some dir \<Rightarrow>
          let (made, w1) = os_create_dir_all S dir w in
          if \<not> made then (False, w1) else os_open_truncated S (path_join dir ''memlay.log'') w1)"

definition set_fd_limits :: "'w os_env \<Rightarrow> 'w \<Rightarrow> 'w" where
  "set_fd_limits S w =
     (case os_getrlimit S w of
        Some (soft, hard) \<Rightarrow> if soft < 65536 then snd (os_setrlimit S 65536 hard w) else w
      | None \<Rightarrow> w)"

definition main_config :: "'v config_env \<Rightarrow> string \<Rightarrow> relay_config" where
  "main_config C path =
     (case config_load C path of Some cfg \<Rightarrow> cfg | None \<Rightarrow> relay_config_default)"

text \<open>
  The start of \<open>main\<close>, up to the point where it serves: \<open>Relay::new\<close> may panic or not return while it
  loads, and a failing \<open>bind\<close> panics after the relay has loaded its events.
\<close>

datatype 'ch start_outcome = Start_Panicked | Bind_Failed "'ch relay" | Serving "'ch relay"

definition main_start ::
    "'x ext_scheme \<Rightarrow> 'v config_env \<Rightarrow> (u64 \<Rightarrow> byte \<Rightarrow> usize) \<Rightarrow> u64 \<Rightarrow> 'w os_env \<Rightarrow>
     (bytes set \<Rightarrow> bytes list) \<Rightarrow> string \<Rightarrow> bool \<Rightarrow> u64 \<Rightarrow> disk \<Rightarrow> 'w \<Rightarrow> 'ch start_outcome" where
  "main_start X C target_bytes total_mem S ord path open_ok rss d w =
     (let cfg = main_config C path;
          w1 = snd (init_logging S (rc_log_dir cfg) w);
          w2 = set_fd_limits S w1
      in case relay_start X ord (store_config_of target_bytes total_mem cfg) open_ok rss d of
           None \<Rightarrow> Start_Panicked
         | Some r \<Rightarrow> if os_bind S (rc_bind_addr cfg) w2 then Serving r else Bind_Failed r)"

text \<open>
  What is left in the data directory when the process ends: after the shutdown code, or as it is
  when a panic ends it before. Without a persistence path the program has no data directory.
\<close>

definition main_end :: "(bytes set \<Rightarrow> bytes list) \<Rightarrow> relay_config \<Rightarrow> disk \<Rightarrow> 'ch start_outcome \<Rightarrow> disk" where
  "main_end ord cfg d m =
     (if rc_persistence_path cfg = None then d
      else (case m of
              Serving r \<Rightarrow> disk_of (shutdown_store ord cfg (rl_store r))
            | Bind_Failed r \<Rightarrow> disk_of (rl_store r)
            | Start_Panicked \<Rightarrow> d))"

section \<open>Loading\<close>

lemma config_field_missing [simp]: "m key = None \<Longrightarrow> config_field decode dflt m key = Some dflt"
  by (simp add: config_field_def)

lemmas config_defaults = default_bind_addr_def default_target_ram_percent_def default_max_subscriptions_def
  default_max_limit_def default_idle_timeout_def default_persistence_interval_def

lemma config_deserialize_empty: "config_deserialize C Map.empty = Some relay_config_default"
  by (simp add: config_deserialize_def relay_config_default_def config_defaults)

lemma main_config_unloadable: "config_load C path = None \<Longrightarrow> main_config C path = relay_config_default"
  by (simp add: main_config_def)

section \<open>File descriptors\<close>

text \<open>
  \<^verbatim>\<open>setrlimit(2)\<close> for a process without privileges: it fails when the soft limit exceeds the hard
  one or the hard one is raised, and changes nothing then; otherwise the new limits hold.
\<close>

definition rlimit_ok :: "'w os_env \<Rightarrow> bool" where
  "rlimit_ok S \<longleftrightarrow>
     (\<forall>w soft hard s h. os_getrlimit S w = Some (soft, hard) \<longrightarrow>
        (if s \<le> h \<and> h \<le> hard
         then \<exists>w'. os_setrlimit S s h w = (True, w') \<and> os_getrlimit S w' = Some (s, h)
         else \<exists>w'. os_setrlimit S s h w = (False, w') \<and> os_getrlimit S w' = Some (soft, hard)))"

lemma set_fd_limits_result:
  assumes "rlimit_ok S" "os_getrlimit S w = Some (soft, hard)"
  shows "os_getrlimit S (set_fd_limits S w) =
    Some (if soft < 65536 \<and> 65536 \<le> hard then 65536 else soft, hard)"
proof -
  have "if 65536 \<le> hard
      then \<exists>w'. os_setrlimit S 65536 hard w = (True, w') \<and> os_getrlimit S w' = Some (65536, hard)
      else \<exists>w'. os_setrlimit S 65536 hard w = (False, w') \<and> os_getrlimit S w' = Some (soft, hard)"
    using assms(1) [unfolded rlimit_ok_def, rule_format, OF assms(2), of 65536 hard] by simp
  then show ?thesis using assms(2) by (auto simp: set_fd_limits_def split: if_splits)
qed

section \<open>Starts\<close>

text \<open>Starts whose \<open>bind\<close> fails, one after the other, each on the directory that the one before left.\<close>

inductive failed_starts ::
    "'x ext_scheme \<Rightarrow> 'v config_env \<Rightarrow> (u64 \<Rightarrow> byte \<Rightarrow> usize) \<Rightarrow> u64 \<Rightarrow> 'w os_env \<Rightarrow>
     (bytes set \<Rightarrow> bytes list) \<Rightarrow> string \<Rightarrow> disk \<Rightarrow> disk \<Rightarrow> bool"
  for X C target_bytes total_mem S ord path d where
  none: "failed_starts X C target_bytes total_mem S ord path d d"
| again: "failed_starts X C target_bytes total_mem S ord path d d' \<Longrightarrow>
    main_start X C target_bytes total_mem S ord path True rss d' w = (Bind_Failed r :: unit start_outcome) \<Longrightarrow>
    failed_starts X C target_bytes total_mem S ord path d
      (main_end ord (main_config C path) d' (Bind_Failed r :: unit start_outcome))"

lemma main_start_restores:
  assumes "inj_on ev_id U" "\<forall>e \<in> U. persistable X e" "enumerates ord" "persisted X U st"
    and cfg: "st_config st = store_config_of T M (main_config C path)"
  shows "\<exists>r :: 'ch relay. main_start X C T M S ord path True rss (disk_of st) w \<in> {Serving r, Bind_Failed r} \<and>
    by_id (st_index (rl_store r)) = by_id (st_index st) \<and> persisted X U (rl_store r) \<and>
    st_config (rl_store r) = st_config st \<and> dom (rl_conns r) = {}"
proof -
  obtain r :: "'ch relay" where r: "relay_start X ord (st_config st) True rss (disk_of st) = Some r"
    "r = relay_new (rl_store r)" "by_id (st_index (rl_store r)) = by_id (st_index st)"
    "persisted X U (rl_store r)" "st_config (rl_store r) = st_config st"
    by (rule relay_start_restores [OF assms(1-4), of rss])
  have "dom (rl_conns r) = {}" by (subst r(2)) (simp add: relay_new_def)
  with r(1,3-5) show ?thesis
    by (intro exI [of _ r]) (simp add: main_start_def cfg [symmetric] Let_def)
qed

end
