(* ===== verification/Program_Properties.thy ===== *)
theory Program_Properties
  imports Program_Entry Relay_Properties
begin

text \<open>The properties of the start of the program.\<close>

section \<open>Configuration\<close>

text \<open>A field holds the value given for its key, or what \<open>Config::default\<close> has there.\<close>

definition given_or_default ::
    "(string \<rightharpoonup> 'v) \<Rightarrow> relay_config \<Rightarrow> string \<Rightarrow> ('v \<Rightarrow> 'a option) \<Rightarrow> (relay_config \<Rightarrow> 'a) \<Rightarrow> bool" where
  "given_or_default m cfg key decode field \<longleftrightarrow>
     (case m key of
        None \<Rightarrow> field cfg = field relay_config_default
      | Some v \<Rightarrow> decode v = Some (field cfg))"

lemma field_given_or_default:
  assumes "field relay_config_default = dflt"
  shows "config_field decode dflt m key = Some (field cfg) \<longleftrightarrow> given_or_default m cfg key decode field"
  using assms by (auto simp: config_field_def given_or_default_def split: option.splits)

lemma field_defaults:
  "config_field decode_bind_addr default_bind_addr m key = Some (rc_bind_addr cfg) \<longleftrightarrow> given_or_default m cfg key decode_bind_addr rc_bind_addr"
  "config_field decode_target_ram_percent default_target_ram_percent m key = Some (rc_target_ram_percent cfg) \<longleftrightarrow> given_or_default m cfg key decode_target_ram_percent rc_target_ram_percent"
  "config_field decode_max_bytes 0 m key = Some (rc_max_bytes cfg) \<longleftrightarrow> given_or_default m cfg key decode_max_bytes rc_max_bytes"
  "config_field decode_max_subscriptions default_max_subscriptions m key = Some (rc_max_subscriptions cfg) \<longleftrightarrow> given_or_default m cfg key decode_max_subscriptions rc_max_subscriptions"
  "config_field decode_max_limit default_max_limit m key = Some (rc_max_limit cfg) \<longleftrightarrow> given_or_default m cfg key decode_max_limit rc_max_limit"
  "config_field decode_idle_timeout default_idle_timeout m key = Some (rc_idle_timeout cfg) \<longleftrightarrow> given_or_default m cfg key decode_idle_timeout rc_idle_timeout"
  "config_field decode_persistence_path None m key = Some (rc_persistence_path cfg) \<longleftrightarrow> given_or_default m cfg key decode_persistence_path rc_persistence_path"
  "config_field decode_persistence_interval default_persistence_interval m key = Some (rc_persistence_interval cfg) \<longleftrightarrow> given_or_default m cfg key decode_persistence_interval rc_persistence_interval"
  "config_field decode_trusted_proxies [] m key = Some (rc_trusted_proxies cfg) \<longleftrightarrow> given_or_default m cfg key decode_trusted_proxies rc_trusted_proxies"
  "config_field decode_prometheus_url None m key = Some (rc_prometheus_url cfg) \<longleftrightarrow> given_or_default m cfg key decode_prometheus_url rc_prometheus_url"
  "config_field decode_log_dir None m key = Some (rc_log_dir cfg) \<longleftrightarrow> given_or_default m cfg key decode_log_dir rc_log_dir"
  by (rule field_given_or_default, simp add: relay_config_default_def config_defaults)+

lemma config_deserialize_fields:
  "config_deserialize C m = Some cfg \<longleftrightarrow>
     config_field (cf_string C) default_bind_addr m ''bind_addr'' = Some (rc_bind_addr cfg) \<and>
     config_field (cf_u8 C) default_target_ram_percent m ''target_ram_percent'' = Some (rc_target_ram_percent cfg) \<and>
     config_field (cf_usize C) 0 m ''max_bytes'' = Some (rc_max_bytes cfg) \<and>
     config_field (cf_usize C) default_max_subscriptions m ''max_subscriptions'' = Some (rc_max_subscriptions cfg) \<and>
     config_field (cf_usize C) default_max_limit m ''max_limit'' = Some (rc_max_limit cfg) \<and>
     config_field (cf_u64 C) default_idle_timeout m ''idle_timeout'' = Some (rc_idle_timeout cfg) \<and>
     config_field (cf_opt_string C) None m ''persistence_path'' = Some (rc_persistence_path cfg) \<and>
     config_field (cf_u64 C) default_persistence_interval m ''persistence_interval'' = Some (rc_persistence_interval cfg) \<and>
     config_field (cf_strings C) [] m ''trusted_proxies'' = Some (rc_trusted_proxies cfg) \<and>
     config_field (cf_opt_string C) None m ''prometheus_url'' = Some (rc_prometheus_url cfg) \<and>
     config_field (cf_opt_string C) None m ''log_dir'' = Some (rc_log_dir cfg)"
  by (cases cfg) (auto simp: config_deserialize_def bind_eq_Some_conv)

text \<open>What a file and the environment make of the configuration.\<close>

definition config_given :: "'v config_env \<Rightarrow> (string \<rightharpoonup> 'v) \<Rightarrow> relay_config \<Rightarrow> bool" where
  "config_given C m cfg \<longleftrightarrow>
     given_or_default m cfg ''bind_addr'' (cf_string C) rc_bind_addr \<and>
     given_or_default m cfg ''target_ram_percent'' (cf_u8 C) rc_target_ram_percent \<and>
     given_or_default m cfg ''max_bytes'' (cf_usize C) rc_max_bytes \<and>
     given_or_default m cfg ''max_subscriptions'' (cf_usize C) rc_max_subscriptions \<and>
     given_or_default m cfg ''max_limit'' (cf_usize C) rc_max_limit \<and>
     given_or_default m cfg ''idle_timeout'' (cf_u64 C) rc_idle_timeout \<and>
     given_or_default m cfg ''persistence_path'' (cf_opt_string C) rc_persistence_path \<and>
     given_or_default m cfg ''persistence_interval'' (cf_u64 C) rc_persistence_interval \<and>
     given_or_default m cfg ''trusted_proxies'' (cf_strings C) rc_trusted_proxies \<and>
     given_or_default m cfg ''prometheus_url'' (cf_opt_string C) rc_prometheus_url \<and>
     given_or_default m cfg ''log_dir'' (cf_opt_string C) rc_log_dir"

lemma config_deserialize_given: "config_deserialize C m = Some cfg \<longleftrightarrow> config_given C m cfg"
  unfolding config_given_def config_deserialize_fields field_defaults by (rule refl)

text \<open>
  The program starts with the one configuration that has in each field the value given for its key,
  or that of \<open>Config::default\<close> where none is given: the defaults of the single fields are those of the
  whole. Without a readable file, or when a given value does not decode, it starts with
  \<open>Config::default\<close>.
\<close>

theorem config_defaults_agree:
  "(cf_build C path = Some m \<and> config_given C m cfg \<longrightarrow> main_config C path = cfg) \<and>
   ((\<forall>m cfg. cf_build C path = Some m \<longrightarrow> \<not> config_given C m cfg) \<longrightarrow> main_config C path = relay_config_default)"
proof (intro conjI impI)
  assume "cf_build C path = Some m \<and> config_given C m cfg"
  then show "main_config C path = cfg"
    using config_deserialize_given [of C m cfg] by (simp add: main_config_def config_load_def)
next
  assume none: "\<forall>m cfg. cf_build C path = Some m \<longrightarrow> \<not> config_given C m cfg"
  have "config_load C path = None"
  proof (cases "cf_build C path")
    case (Some m)
    then have "config_deserialize C m \<noteq> Some cfg" for cfg using none config_deserialize_given [of C m cfg] by blast
    then have "config_deserialize C m = None" by (meson not_None_eq)
    then show ?thesis using Some by (simp add: config_load_def)
  qed (simp add: config_load_def)
  then show "main_config C path = relay_config_default" by (rule main_config_unloadable)
qed

text \<open>A file that sets one limit; values are numbers, and a path is none of them.\<close>

definition sample_config_env :: "nat config_env" where
  "sample_config_env =
     \<lparr>cf_build = (\<lambda>path. Some [''max_limit'' \<mapsto> 7]), cf_string = (\<lambda>v. None), cf_u8 = (\<lambda>v. Some (of_nat v)),
      cf_usize = (\<lambda>v. Some (of_nat v)), cf_u64 = (\<lambda>v. Some (of_nat v)), cf_opt_string = (\<lambda>v. None),
      cf_strings = (\<lambda>v. None)\<rparr>"

theorem config_defaults_agree_witness:
  "main_config sample_config_env [] = relay_config_default\<lparr>rc_max_limit := 7\<rparr> \<and>
   main_config (sample_config_env\<lparr>cf_build := (\<lambda>path. Some [''log_dir'' \<mapsto> 7])\<rparr>) [] = relay_config_default"
proof
  show "main_config sample_config_env [] = relay_config_default\<lparr>rc_max_limit := 7\<rparr>"
    using config_defaults_agree [of sample_config_env "[]" "[''max_limit'' \<mapsto> 7]" "relay_config_default\<lparr>rc_max_limit := 7\<rparr>"]
    by (simp add: config_given_def given_or_default_def sample_config_env_def)
  show "main_config (sample_config_env\<lparr>cf_build := (\<lambda>path. Some [''log_dir'' \<mapsto> 7])\<rparr>) [] = relay_config_default"
    using config_defaults_agree [of "sample_config_env\<lparr>cf_build := (\<lambda>path. Some [''log_dir'' \<mapsto> 7])\<rparr>" "[]"]
    by (simp add: config_given_def given_or_default_def sample_config_env_def)
qed

section \<open>Starts\<close>

lemma failed_starts_persisted:
  assumes "failed_starts X C T M S ord path (disk_of st) d"
    and "inj_on ev_id U" "\<forall>e \<in> U. persistable X e" "enumerates ord" "persisted X U st"
    and cfg: "st_config st = store_config_of T M (main_config C path)"
  shows "\<exists>st'. d = disk_of st' \<and> persisted X U st' \<and> st_config st' = st_config st \<and>
    by_id (st_index st') = by_id (st_index st)"
  using assms(1)
proof induction
  case none
  then show ?case using assms(5) by blast
next
  case (again d' rss w r)
  then obtain st' where st': "d' = disk_of st'" "persisted X U st'" "st_config st' = st_config st"
    "by_id (st_index st') = by_id (st_index st)" by blast
  have cfg': "st_config st' = store_config_of T M (main_config C path)" using st'(3) cfg by simp
  obtain r' :: "unit relay" where
    r': "main_start X C T M S ord path True rss (disk_of st') w \<in> {Serving r', Bind_Failed r'}"
    "by_id (st_index (rl_store r')) = by_id (st_index st')" "persisted X U (rl_store r')"
    "st_config (rl_store r') = st_config st'"
    using main_start_restores [OF assms(2-4) st'(2) cfg', where S = S and rss = rss and w = w] by blast
  moreover have "rc_persistence_path (main_config C path) \<noteq> None"
    using assms(5) cfg
    by (auto simp: persisted_def store_config_of_def roomy_def from_target_ram_percent_def
        split: option.splits if_splits)
  ultimately show ?case using again(2) st' by (auto simp: main_end_def)
qed

text \<open>
  C26. Starts that fail lose nothing: after any number of processes that load the events and then
  panic because the address cannot be bound, the next start of the program returns from loading and
  holds exactly the events that were stored, whether it can bind or not. The files are those of a
  store with persistence and a log that has evicted nothing; there is no memory limit, or all events
  ever offered fit 90 percent of it; no two of them have one id; and the JSON of each is one line
  that fits a record and parses again.
\<close>

theorem failed_starts_keep_events:
  assumes "inj_on ev_id U" "\<forall>e \<in> U. persistable X e" "enumerates ord" "persisted X U st"
    and "st_config st = store_config_of T M (main_config C path)"
    and "failed_starts X C T M S ord path (disk_of st) d"
  shows "\<exists>r. main_start X C T M S ord path True rss d w \<in> {Serving r, Bind_Failed r} \<and>
    by_id (st_index (rl_store r)) = by_id (st_index st) \<and> dom (rl_conns r) = {}"
proof -
  obtain st' where st': "d = disk_of st'" "persisted X U st'" "st_config st' = st_config st"
    "by_id (st_index st') = by_id (st_index st)"
    using failed_starts_persisted [OF assms(6,1-5)] by blast
  then have "st_config st' = store_config_of T M (main_config C path)" using assms(5) by simp
  from main_start_restores [OF assms(1-3) st'(2) this, where S = S and rss = rss and w = w]
  show ?thesis using st'(1,4) by metis
qed

text \<open>A file that names the data directory, and a system on which no address can be bound.\<close>

definition stored_config_env :: "nat config_env" where
  "stored_config_env = sample_config_env\<lparr>cf_build := (\<lambda>path. Some [''persistence_path'' \<mapsto> 0]),
     cf_opt_string := (\<lambda>v. Some (Some ''data''))\<rparr>"

definition busy_system :: "unit os_env" where
  "busy_system =
     \<lparr>os_create_dir_all = (\<lambda>d w. (True, w)), os_open_truncated = (\<lambda>f w. (True, w)), os_getrlimit = (\<lambda>w. None),
      os_setrlimit = (\<lambda>s h w. (False, w)), os_bind = (\<lambda>a w. False)\<rparr>"

lemma stored_config: "store_config_of (\<lambda>m p. 0) 0 (main_config stored_config_env path) = sample_config"
proof -
  have "main_config stored_config_env path = relay_config_default\<lparr>rc_persistence_path := Some ''data''\<rparr>"
    by (simp add: main_config_def config_load_def config_deserialize_def config_field_def stored_config_env_def
        sample_config_env_def relay_config_default_def config_defaults)
  then show ?thesis
    by (simp add: store_config_of_def with_persistence_def sample_config_def relay_config_default_def)
qed

lemma sample_persisted: "persisted sample_ext (set sample_events) sample_store" "st_config sample_store = sample_config"
  using store_run_persisted [OF sample_run sample_inj sample_persistable enumerates_sorted_list_of_set sample_roomy]
  by simp_all

lemma one_failed_start:
  obtains d where "failed_starts sample_ext stored_config_env (\<lambda>m p. 0) 0 busy_system sorted_list_of_set path
    (disk_of sample_store) d"
    and "d \<in> range (\<lambda>r :: unit relay. main_end sorted_list_of_set (main_config stored_config_env path)
      (disk_of sample_store) (Bind_Failed r))"
proof -
  have "st_config sample_store = store_config_of (\<lambda>m p. 0) 0 (main_config stored_config_env path)"
    by (simp add: sample_persisted(2) stored_config)
  from main_start_restores [OF sample_inj sample_persistable enumerates_sorted_list_of_set sample_persisted(1) this,
      where S = busy_system and rss = 0 and w = "()"]
  obtain r :: "unit relay" where "main_start sample_ext stored_config_env (\<lambda>m p. 0) 0 busy_system sorted_list_of_set path True 0
      (disk_of sample_store) () \<in> {Serving r, Bind_Failed r}" by blast
  then have "main_start sample_ext stored_config_env (\<lambda>m p. 0) 0 busy_system sorted_list_of_set path True 0
      (disk_of sample_store) () = Bind_Failed r"
    by (auto simp: main_start_def busy_system_def Let_def split: option.splits)
  from failed_starts.again [OF failed_starts.none this] show thesis by (rule that) simp
qed

theorem failed_starts_keep_events_witness:
  "\<exists>d. d \<in> range (\<lambda>r :: unit relay. main_end sorted_list_of_set (main_config stored_config_env [])
       (disk_of sample_store) (Bind_Failed r)) \<and>
     (\<exists>r :: unit relay. main_start sample_ext stored_config_env (\<lambda>m p. 0) 0 busy_system sorted_list_of_set [] True 0 d ()
       \<in> {Serving r, Bind_Failed r} \<and> by_id (st_index (rl_store r)) = by_id (st_index sample_store))"
proof -
  obtain d where d: "failed_starts sample_ext stored_config_env (\<lambda>m p. 0) 0 busy_system sorted_list_of_set []
      (disk_of sample_store) d"
    "d \<in> range (\<lambda>r :: unit relay. main_end sorted_list_of_set (main_config stored_config_env [])
      (disk_of sample_store) (Bind_Failed r))" by (rule one_failed_start)
  have "st_config sample_store = store_config_of (\<lambda>m p. 0) 0 (main_config stored_config_env [])"
    by (simp add: sample_persisted(2) stored_config)
  from failed_starts_keep_events [OF sample_inj sample_persistable enumerates_sorted_list_of_set
      sample_persisted(1) this d(1), where rss = 0 and w = "()"] d(2)
  show ?thesis by blast
qed

end
