(* ===== verification/Spec2Isabelle.thy ===== *)
theory Spec2Isabelle
  imports Event_Properties Index_Properties Concurrent_Properties Concurrent_Queries
    Wal_Properties Wal_File_Properties Store_Properties Durability_Properties Eviction_Properties
    Load_Returns Subscription_Properties Fanout_Properties Relay_Properties Proxy_Properties Http_Properties
    Metrics_Properties Program_Properties
begin

text \<open>
  Memlay is a Nostr relay that keeps its events in memory. Clients publish signed events and open
  subscriptions over WebSocket; the relay verifies, stores and indexes the events, answers
  subscriptions from the indexes, and pushes new events to the subscriptions they match. A
  write-ahead log and snapshots make the store survive a restart.

  \<^bold>\<open>Parts and theories.\<close>

  \<^item> \<^verbatim>\<open>Memlay_Prelude\<close>: machine types, Rust strings as UTF-8 bytes, iteration orders of hash
    containers, maps whose values name their key. \<^verbatim>\<open>Rust_Str\<close>: \<open>str\<close> operations and decimals.
  \<^item> \<^verbatim>\<open>Ordered_Set\<close>: \<^verbatim>\<open>BTreeSet\<close> and \<^verbatim>\<open>BinaryHeap\<close> as lists over an element order; the locale
    \<open>rust_ord\<close> has the laws of \<^verbatim>\<open>Ord\<close> and what the containers promise under them. It is
    interpreted on the order of event references and on its reverse.
  \<^item> \<^verbatim>\<open>Nostr_Event\<close> (\<^verbatim>\<open>src/src/event.rs\<close>): events, kind classes, tags, replacement keys, the two
    JSON constructors. \<^verbatim>\<open>Deletion\<close> (\<^verbatim>\<open>deletion.rs\<close>): the references of a NIP-09 deletion request.
  \<^item> \<^verbatim>\<open>Tombstone_Set\<close>, \<^verbatim>\<open>Event_Index\<close> (\<^verbatim>\<open>store/index.rs\<close>): the bounded set of deleted ids; the
    primary map, six secondary indexes, the replaceable index and the counters, and every operation
    on them. \<^verbatim>\<open>Secondary_Index\<close> states the contract that the six indexes share as the locale
    \<open>secondary_index\<close> and interprets it on each of them; \<^verbatim>\<open>Index_Invariant\<close>, \<^verbatim>\<open>Index_Queries\<close>
    and \<^verbatim>\<open>Index_Slots\<close> hold the representation invariant, the abstract store \<open>spec_insert\<close> that
    the index refines, what the reads return, and the view of the store as one event per slot.
    \<^verbatim>\<open>Index_Copies\<close>: an event that is published again with other JSON bytes or another signature
    under the same id. \<^verbatim>\<open>Newest_Scan\<close>: what \<open>get_newest\<close> returns.
  \<^item> \<^verbatim>\<open>Concurrent_Index\<close> (\<open>insert\<close> and \<open>internal_remove\<close> of the same file, access by access): every
    access to a shared map, set or counter is a step of a thread, and \<open>conc_step\<close> interleaves the
    threads. \<^verbatim>\<open>Index_Places\<close> sees the secondary indexes as one family of sets, \<^verbatim>\<open>Concurrent_Invariant\<close>
    says where an event is in each phase of its insert, \<^verbatim>\<open>Concurrent_Winners\<close> and
    \<^verbatim>\<open>Concurrent_Outcome\<close> follow the replaceable index and what is left when all threads are done.
    \<^verbatim>\<open>Concurrent_Deletion\<close> adds the accesses of \<open>delete_by_id\<close>; for all but the replaceable index and
    the tombstones a deletion is a removal like an eviction, which carries the invariant over.
    \<^verbatim>\<open>Concurrent_Queries\<close>: what a query, which reads one entry of a secondary index under its lock,
    sees in the middle of such a run.
  \<^item> \<^verbatim>\<open>Wal\<close> (\<^verbatim>\<open>store/wal.rs\<close>): record format, appending, commit, rotation, compaction, replay, over
    the bytes of the files. \<^verbatim>\<open>Buf_Writer\<close> is \<^verbatim>\<open>std::io::BufWriter\<close> over a file whose writes may
    fail, and \<^verbatim>\<open>Wal_File\<close> the operations of the log on it: each \<^verbatim>\<open>?\<close> of the source is a branch,
    and what the file system answers is an argument.
  \<^item> \<^verbatim>\<open>Event_Store\<close> (\<^verbatim>\<open>store/mod.rs\<close>): the store with its budget, eviction, deletion, insertion,
    snapshot, checkpoint and loader. \<^verbatim>\<open>Store_Invariant\<close>, \<^verbatim>\<open>Recovery\<close> and \<^verbatim>\<open>Store_Recovery\<close>:
    budget and eviction, the simulation of a run by the replay of its log, and the files after
    every operation. \<^verbatim>\<open>Store_Logging\<close> states what a log and the state it belongs to promise each
    other as the locale \<open>logged_state\<close>: a predicate that one insert and one deletion with their
    records keep is kept by every operation of the store. It is interpreted on the frame of the
    operations, on the invariant of the index, on the files (\<open>persisted\<close>), on the live segment
    (\<open>logs_from\<close>) and on the files of a run with evictions (\<open>lossy_files\<close>), whose replay
    \<^verbatim>\<open>Eviction_Recovery\<close> follows.
  \<^item> \<^verbatim>\<open>Store_Files\<close> (\<^verbatim>\<open>store/mod.rs\<close>, the end of \<^verbatim>\<open>main.rs\<close>): the operations of the store that touch
    files, the two background tasks of the log and the shutdown, over file operations that may fail.
    \<^verbatim>\<open>Store_Files_Refinement\<close>: with operations that succeed they are those of \<^verbatim>\<open>Event_Store\<close>.
    \<^verbatim>\<open>Store_Failures\<close>: what the snapshot, the rotated and the live segment hold together after any
    of them failed, as an invariant of the runs \<open>io_run\<close>. \<^verbatim>\<open>Load_Returns\<close>: the loader with a memory
    limit and with files that cannot be read.
  \<^item> \<^verbatim>\<open>Subscription\<close> (\<^verbatim>\<open>subscription.rs\<close>) and \<^verbatim>\<open>Subscription_Queries\<close>: filters, live matching, the
    query planner, the wire format. \<^verbatim>\<open>Filter_Queries\<close>: conditions on references, and limits.
  \<^item> \<^verbatim>\<open>Fanout\<close> (\<^verbatim>\<open>fanout.rs\<close>) and \<^verbatim>\<open>Fanout_Delivery\<close>: the registry of connections, the inverted
    index from kinds to connections, publication, drop accounting.
  \<^item> \<^verbatim>\<open>Message\<close> and \<^verbatim>\<open>Message_Widths\<close> (\<^verbatim>\<open>message.rs\<close>): the protocol messages, their parser and
    printer, and the Rust types of what is parsed as predicates.
  \<^item> \<^verbatim>\<open>Relay\<close> (\<^verbatim>\<open>relay.rs\<close>, \<^verbatim>\<open>config.rs\<close>): configuration, the event pipeline
    (\<open>process_event_message\<close>, \<open>apply_deletion_request\<close>) and the connection handler. Every branch of
    its \<open>select!\<close> loop, every task it spawns and every background task of the store is a rule of
    the inductive relation \<open>relay_step\<close>. \<^verbatim>\<open>Relay_Invariant\<close>: the invariant over store, fanout and
    connections. \<^verbatim>\<open>Relay_Parallel\<close>: the relation \<open>parallel_step\<close>, in which the other threads may
    change all they share with a handler between any two branches of its loop. \<^verbatim>\<open>Relay_Pipeline\<close>: what an EVENT message does. \<^verbatim>\<open>Relay_Request\<close>: the task of a REQ.
    \<^verbatim>\<open>Relay_Lifecycle\<close> (\<open>Relay::new\<close> and the end of \<^verbatim>\<open>main.rs\<close>): start, run, shutdown or crash,
    and start again. \<^verbatim>\<open>Program_Entry\<close> (\<open>Config::load\<close>, \<^verbatim>\<open>main.rs\<close>): the configuration from its
    file and the environment, log file, file limits, start, bind, end of the process.
  \<^item> \<^verbatim>\<open>Ip_Address\<close>, \<^verbatim>\<open>Proxy\<close> (\<^verbatim>\<open>proxy.rs\<close>): addresses, trusted networks, the client's address.
    \<^verbatim>\<open>Http_Pages\<close> (\<^verbatim>\<open>relay.rs\<close>): routes, NIP-11 document, landing, statistics and metrics pages.
  \<^item> \<^verbatim>\<open>Metrics\<close> (\<^verbatim>\<open>metrics.rs\<close>): the eleven metrics, their registration at first use, their updates and
    the exported text. \<^verbatim>\<open>Relay_Metrics\<close> has the operations of the other parts with the metric calls
    they make, and shows that dropping the calls gives those operations back; \<^verbatim>\<open>Relay_Counters\<close> adds
    the calls up along the runs of the relay, where the calls to the gauge may come at any moment. \<^verbatim>\<open>Connection_Gauge\<close> (\<^verbatim>\<open>relay.rs\<close>): the counter and the
    gauge of connections, access by access.
  \<^item> \<^verbatim>\<open>Sample_Inputs\<close>, \<^verbatim>\<open>Sample_Relay\<close>: the concrete events, codecs and environment at which the
    theorems are applied.
  \<^item> The theories named \<^verbatim>\<open>..._Properties\<close> state the properties of the parts.

  \<^bold>\<open>How the code is rendered.\<close> A struct is a record, an enum a datatype, a method a function from
  the state to its result and the new state, an early return or error a branch. \<^verbatim>\<open>u32\<close>, \<^verbatim>\<open>u64\<close>
  and \<^verbatim>\<open>usize\<close> are words with their wrap-around. A \<^verbatim>\<open>DashMap\<close> or \<^verbatim>\<open>HashMap\<close> is a map; where the
  code iterates over one, the order is an argument \<open>ord\<close> of which only \<open>enumerates\<close> is assumed.
  A panic is \<^term>\<open>None\<close>, and so is a loop that would not end (\<open>load_evict\<close>, for which on \<open>loadable\<close> files it is
  proved that it returns). Code outside the repository is an argument: \<open>ext\<close> (hex, JSON, SHA-256,
  Schnorr), \<open>serde\<close> (typed JSON values of a filter), \<open>msg_json\<close> (JSON values of a message),
  \<open>try_send\<close> (the tokio queue), \<open>proxy_env\<close> (the ipnet crate), \<open>config_env\<close> (the config crate), \<open>prometheus\<close> (the registry of the
  prometheus crate), \<open>os_env\<close> (directories, file limits and \<open>bind\<close>), the clock and the process memory.
  No fuel is used.

  \<^bold>\<open>Granularity.\<close> In \<open>relay_step\<close> an operation on the store, such as a whole
  \<open>process_event_message\<close> or a checkpoint, is one step, and aborting a task takes effect at once; the
  theorems on restarts, messages and metrics are about such runs. The limits are shown for
  \<open>parallel_step\<close>, which does not assume that, and a checkpoint between the two halves of a deletion
  is a theorem of its own. In \<open>conc_step\<close> a step is one access. Entries of \<open>by_replaceable\<close> are locked as in the code, one key at a time; the
  shards of a \<^verbatim>\<open>DashMap\<close> lock more keys at once, so the model has all the interleavings of the
  program and more. The scheduler itself has no source to be compared with: threads are what the
  tasks of the connections and of the evictor run.

  \<^bold>\<open>Hypotheses.\<close> \<open>inj_on ev_id U\<close>: no two events of the universe share an id, which is what a
  collision-free SHA-256 gives for events accepted by \<open>from_json\<close>, up to different JSON texts and
  signatures of the same event. Inserts and EVENT messages of such a second copy (\<open>copy_of\<close>) are covered
  by the theorems on them; the theorems on runs leave second copies out. \<open>persistable\<close>: an event's raw bytes parse to it, fit a log record and hold no
  line break. \<open>roomy\<close>: persistence with no memory limit, or with one that all events together stay
  below, so that the loader does not evict; the evictor, whose budget is smaller, may where a theorem
  says so. \<open>hex_ok\<close>,
  \<open>serde_ok\<close>, \<open>json_ok\<close>, \<open>ipnet_ok\<close> and \<open>prometheus_ok\<close> state what the documentation of the crates
  promises, for ipnet that a network admits the addresses of its family with its first bits;
  \<open>rlimit_ok\<close> that of \<^verbatim>\<open>setrlimit(2)\<close>. \<open>loadable\<close>: the events of the files have distinct ids
  and their bytes do not wrap the counter around. \<open>ref_condition\<close>: the ids in a condition on references
  and in the tags it is compared with are spelt in lower case and have different hashed keys.
  \<open>fresh_start\<close>: a concurrent run starts from a consistent index, each insert of
  a different event that is not stored yet. \<open>ample\<close>: the file takes the records of the log. In
  \<open>io_run\<close> everything but an append may fail, except that a checkpoint which replaces a rotated
  segment still waiting for its snapshot has to write one, and a start reads and writes all files;
  that these exceptions are needed is shown by theorems of their own.

  \<^bold>\<open>What is shown.\<close> The index refines an abstract store, keeps all its indexes exact and converges
  whatever the order of arrival; deletions remove exactly what they may and stay effective for a
  window; every read but \<open>get_newest\<close> returns what it says, and which events that one returns is
  characterised. A second copy of a stored event replaces it in the primary map and nowhere else. An insert that runs alone computes the
  atomic operation, and concurrent inserts of distinct new events and evictions settle, in every interleaving, in exact
  indexes with one winner per key; deletions among them keep the secondary indexes exact, and a query at any moment misses no event
  of these whose insert is done. The log replays what was appended and a committed record
  survives a power failure; a restart from any point of a run, and from the middle of a
  checkpoint, brings back the stored events, for the store alone and for the whole relay; after
  evictions it brings back each stored event or a newer version; and so it does after failing file
  operations of commits, checkpoints and shutdowns; appends that fail, whose records together stay below the buffer, are
  completed by the next one that succeeds. The loader returns within the memory limit on all files in
  which no two events share an id, and starts of the program that fail lose no event without a line
  break. The budget of event payloads stays between its bounds in all runs of the sampler. Eviction
  removes only the oldest events and ends. Queries agree with live matching outside the gaps that
  are stated as theorems of their own, and a filter with one key gets the newest matches up to its
  limit; publication through the kind index reaches exactly the
  connections a broadcast would. Every reachable state of the relay, with its threads in parallel, keeps the
  configured limits on requests, which are the three the NIP-11 document announces for them; an EVENT message has the
  stated effect on every branch, and sent again the stated effect of a repetition; a subscription is
  answered up to EOSE; parsed messages have the types of the code. Forwarding headers count only from
  trusted peers. The configuration is the given
  one with the defaults in the other fields. Every metric is exported from the start with what its
  calls add up to; those of drops and of stored events agree with the state of the relay.

  The defects found are stated as theorems about the code as it is: \<open>get_newest\<close>, the hashed tag
  keys, queries with ids, limits next to a second condition, coordinates with an empty d-tag, snapshots of multi-line events, the
  loader's order of steps; two races of concurrent versions of a replaceable event, one that keeps
  the older version and one that leaves the counters short; two races of a deletion, one that
  leaves the deleted event stored and one that frees the slot of a newer version; second copies, which
  overwrite the stored event and not its references; an event published again during its eviction,
  which is stored in no index; a checkpoint inside a deletion, which loses the deletion; a loader that does
  not return on files with a reused id; deletion requests for evicted events; repeated failing
  checkpoints, an unreadable snapshot, torn appends and failed commits; a connection gauge that can
  read -1, and file limits that are not raised to a hard limit below 65536.

  \<^bold>\<open>Not modelled.\<close> Appends that fail next to checkpoints in one run; failing file operations in
  \<open>truncate\<close>, \<open>compact\<close> and \<open>insert_batch\<close>, which the program does not call; when timers fire and when a
  signal arrives; the WebSocket and HTTP protocols below the handlers, which the axum crate has; the
  text of log lines (tracing crate); the hashers of the maps, which nothing observes; the test
  modules and benchmarks. In a run of \<open>relay_step\<close> the operations of the store are single
  steps: the interleaving of their accesses is modelled for the index and the gauge, and for the
  relay as arbitrary changes of what is shared. When the idle timer runs out is not modelled either. The bounds of a
  histogram are compared exactly, where the crate rounds to \<^verbatim>\<open>f64\<close>.
\<close>

end
